(* ===== verification/Prelude.thy ===== *)
theory Prelude
  imports Complex_Main "HOL-Library.AList" "HOL-Library.List_Lexorder" "HOL-Library.Product_Lexorder"
begin

section \<open>Shared vocabulary of the development\<close>

text \<open>
  What the components share: the collections their proofs use, Python dictionaries as
  association lists in insertion order, runs of a component over a list of operations, and
  the interface of a component whose operations all keep an invariant.
\<close>

named_theorems component_defs \<open>definitions of the operations of the component at hand\<close>
named_theorems inv_defs \<open>definitions of the invariants of the component at hand\<close>


subsection \<open>Python dictionaries\<close>

text \<open>
  A Python \<^verbatim>\<open>dict\<close> (and an \<^verbatim>\<open>OrderedDict\<close>) iterates in
  insertion order: assigning to a present key keeps its place, a new key goes to the end.
  That is \<open>AList.update\<close> on an association list with distinct keys; \<open>del d[k]\<close> is
  \<open>AList.delete\<close>, \<open>d.get(k)\<close> is \<open>map_of\<close>.
\<close>

type_synonym ('k, 'v) dict = "('k \<times> 'v) list"

abbreviation keys_distinct :: "('k, 'v) dict \<Rightarrow> bool" where
  "keys_distinct d \<equiv> distinct (map fst d)"

text \<open>\<open>OrderedDict.move_to_end(k)\<close>: the entry of \<open>k\<close> goes to the end.\<close>

definition move_to_end :: "'k \<Rightarrow> ('k, 'v) dict \<Rightarrow> ('k, 'v) dict" where
  "move_to_end k d = (case map_of d k of None \<Rightarrow> d | Some v \<Rightarrow> AList.delete k d @ [(k, v)])"

lemma dict_lookup_update [simp]:
  "map_of (AList.update k v d) k' = (if k' = k then Some v else map_of d k')"
  by (simp add: AList.update_conv')

lemma dict_lookup_delete:
  "map_of (AList.delete k d) k' = (if k' = k then None else map_of d k')"
  by (simp add: AList.delete_conv')

lemma dict_lookup_delete_same [simp]: "map_of (AList.delete k d) k = None"
  by (simp add: AList.delete_conv')

lemma set_dict_delete: "set (AList.delete k d) = {p \<in> set d. fst p \<noteq> k}"
  by (induction d) auto

lemma set_dict_update_subset: "set (AList.update k v d) \<subseteq> insert (k, v) (set d)"
  by (induction d) auto

lemma set_dict_update:
  "keys_distinct d \<Longrightarrow> set (AList.update k v d) = insert (k, v) {p \<in> set d. fst p \<noteq> k}"
  by (induction d) force+

lemma keys_distinct_update [simp]:
  "keys_distinct d \<Longrightarrow> keys_distinct (AList.update k v d)"
  using AList.distinct_update[of d k v] by (simp add: distinct_map)

lemma keys_distinct_delete [simp]:
  "keys_distinct d \<Longrightarrow> keys_distinct (AList.delete k d)"
  using AList.distinct_delete[of d k] by simp

lemma length_dict_update:
  "length (AList.update k v d) = (if map_of d k = None then Suc (length d) else length d)"
  by (induction d) auto

lemma length_dict_delete:
  "keys_distinct d \<Longrightarrow> map_of d k \<noteq> None \<Longrightarrow> length (AList.delete k d) = length d - 1"
proof (induction d)
  case Nil
  then show ?case by simp
next
  case (Cons p d)
  show ?case
  proof (cases "fst p = k")
    case True
    with Cons.prems have "k \<notin> fst ` set d" by auto
    with True show ?thesis by (cases p) simp
  next
    case False
    with Cons.prems have "map_of d k \<noteq> None" by (cases p) auto
    then have "d \<noteq> []" by auto
    with Cons False \<open>map_of d k \<noteq> None\<close> show ?thesis by (cases p) auto
  qed
qed

lemma length_dict_delete_less:
  "map_of d k \<noteq> None \<Longrightarrow> length (AList.delete k d) < length d"
proof (induction d)
  case Nil
  then show ?case by simp
next
  case (Cons p d)
  then show ?case
    using AList.length_delete_le[of k d] by (cases p) (auto simp: le_imp_less_Suc)
qed

lemma map_of_in_set: "map_of d k = Some v \<Longrightarrow> (k, v) \<in> set d"
  by (rule map_of_SomeD)

lemma map_of_iff_in_set: "keys_distinct d \<Longrightarrow> map_of d k = Some v \<longleftrightarrow> (k, v) \<in> set d"
  by simp

lemma set_move_to_end [simp]: "keys_distinct d \<Longrightarrow> set (move_to_end k d) = set d"
  by (auto simp: move_to_end_def set_dict_delete dest: map_of_SomeD eq_key_imp_eq_value
      split: option.splits)

lemma map_of_move_to_end [simp]:
  "map_of (move_to_end k d) = map_of d"
  by (rule ext) (auto simp: move_to_end_def map_add_def dict_lookup_delete split: option.splits)

lemma keys_distinct_move_to_end [simp]:
  "keys_distinct d \<Longrightarrow> keys_distinct (move_to_end k d)"
  by (auto simp: move_to_end_def set_dict_delete split: option.splits)

lemma length_move_to_end:
  "keys_distinct d \<Longrightarrow> length (move_to_end k d) = length d"
proof (cases "map_of d k")
  case None
  then show ?thesis by (simp add: move_to_end_def)
next
  case (Some v)
  moreover assume "keys_distinct d"
  moreover from Some have "d \<noteq> []" by auto
  ultimately show ?thesis by (simp add: move_to_end_def length_dict_delete)
qed


lemma sum_dict_update_key:
  "sum_list (map (\<lambda>(k, _). f k) (AList.update k v d)) =
     sum_list (map (\<lambda>(k, _). f k) d) + (if map_of d k = None then f k else (0 :: int))"
  by (induction d) auto

lemma sum_dict_update_value:
  "map_of d k = Some b \<Longrightarrow>
     sum_list (map (\<lambda>(_, b). g b) (AList.update k b' d)) =
       sum_list (map (\<lambda>(_, b). g b) d) - g b + (g b' :: int)"
  by (induction d) (auto split: if_splits)

lemma map_fst_dict_update:
  "map fst (AList.update k v d) = (if map_of d k = None then map fst d @ [k] else map fst d)"
  by (induction d) (auto simp: map_of_eq_None_iff)


subsection \<open>Python slices\<close>

text \<open>\<open>xs[:m]\<close>, where a negative bound counts from the end.\<close>

definition py_prefix :: "int \<Rightarrow> 'a list \<Rightarrow> 'a list" where
  "py_prefix m xs = (if m < 0 then take (length xs - nat (- m)) xs else take (nat m) xs)"

lemma py_prefix_nonneg [simp]: "0 \<le> m \<Longrightarrow> py_prefix m xs = take (nat m) xs"
  by (simp add: py_prefix_def)


subsection \<open>Tables that only go forward\<close>

text \<open>
  A table whose rows go up in an order and which only grows at its end: its rows so far are
  those of before, each gone up.
\<close>

definition grows :: "('a \<Rightarrow> 'a \<Rightarrow> bool) \<Rightarrow> 'a list \<Rightarrow> 'a list \<Rightarrow> bool" where
  "grows le xs ys \<longleftrightarrow> (\<exists>us vs. ys = us @ vs \<and> list_all2 le xs us)"

lemma grows_refl: "(\<And>x. le x x) \<Longrightarrow> grows le xs xs"
  unfolding grows_def by (intro exI[of _ xs] exI[of _ "[]"]) (simp add: list_all2_refl)

lemma grows_append: "(\<And>x. le x x) \<Longrightarrow> grows le xs (xs @ ys)"
  unfolding grows_def by (intro exI[of _ xs] exI[of _ ys]) (simp add: list_all2_refl)

lemma grows_map: "(\<And>x. le x (f x)) \<Longrightarrow> grows le xs (map f xs)"
  unfolding grows_def
  by (intro exI[of _ "map f xs"] exI[of _ "[]"]) (simp add: list_all2_conv_all_nth)

lemma grows_map_mem: "(\<And>x. x \<in> set xs \<Longrightarrow> le x (f x)) \<Longrightarrow> grows le xs (map f xs)"
  unfolding grows_def
  by (intro exI[of _ "map f xs"] exI[of _ "[]"]) (simp add: list_all2_conv_all_nth)

lemma grows_member: "grows le xs ys \<Longrightarrow> x \<in> set xs \<Longrightarrow> \<exists>y \<in> set ys. le x y"
  by (fastforce simp: grows_def list_all2_conv_all_nth in_set_conv_nth nth_append)

lemma grows_trans:
  assumes tr: "\<And>x y z. le x y \<Longrightarrow> le y z \<Longrightarrow> le x z" and "grows le xs ys" and "grows le ys zs"
  shows "grows le xs zs"
proof -
  obtain us vs where 1: "ys = us @ vs" "list_all2 le xs us" using assms(2) by (auto simp: grows_def)
  obtain ps qs where 2: "zs = ps @ qs" "list_all2 le ys ps" using assms(3) by (auto simp: grows_def)
  from 2(2) obtain as bs where 3: "ps = as @ bs" "list_all2 le us as"
    unfolding 1(1) list_all2_append1 by blast
  have "list_all2 le xs as" by (rule list_all2_trans[where ?P1.0 = le and ?P2.0 = le, OF _ 1(2) 3(2)]) (rule tr)
  then show ?thesis unfolding grows_def 2(1) 3(1) by (intro exI[of _ as] exI[of _ "bs @ qs"]) simp
qed


subsection \<open>Running a component over a list of operations\<close>

primrec run :: "('s \<Rightarrow> 'e \<Rightarrow> 's) \<Rightarrow> 's \<Rightarrow> 'e list \<Rightarrow> 's" where
  "run step s [] = s"
| "run step s (e # es) = run step (step s e) es"

lemma run_append [simp]: "run step s (es @ fs) = run step (run step s es) fs"
  by (induction es arbitrary: s) auto

text \<open>
  The interface of a component with an invariant: every operation keeps it. A client that
  issues any sequence of operations may rely on it ever after.
\<close>

locale guarded_component =
  fixes step :: "'s \<Rightarrow> 'e \<Rightarrow> 's"
    and inv :: "'s \<Rightarrow> bool"
  assumes step_inv: "inv s \<Longrightarrow> inv (step s e)"
begin

lemma run_inv: "inv s \<Longrightarrow> inv (run step s es)"
  by (induction es arbitrary: s) (auto intro: step_inv)

end

text \<open>
  The interface of a component with an order that its operations only go up (a version, a
  generation, an epoch, a set of tombstones), given the invariant.
\<close>

locale monotone_component = guarded_component +
  fixes le :: "'a \<Rightarrow> 'a \<Rightarrow> bool"
  assumes le_refl: "le s s"
    and le_trans: "le s t \<Longrightarrow> le t u \<Longrightarrow> le s u"
    and step_le: "inv s \<Longrightarrow> le s (step s e)"
begin

lemma run_le: "inv s \<Longrightarrow> le s (run step s es)"
proof (induction es arbitrary: s)
  case Nil
  show ?case by (simp add: le_refl)
next
  case (Cons e es)
  from Cons.prems have "le (step s e) (run step (step s e) es)"
    by (intro Cons.IH step_inv)
  with step_le[OF Cons.prems, of e] show ?case
    by (auto intro: le_trans)
qed

end

end
