(* ===== verification/PyText.thy ===== *)
theory PyText
  imports Prelude
begin

section \<open>Python text\<close>

text \<open>
  A Python \<^verbatim>\<open>str\<close> is a sequence of code points, so text is a list of
  naturals. This theory holds the operations of the standard library the components use:
  UTF-8 encoding with \<^verbatim>\<open>errors="replace"\<close> (a lone surrogate becomes a
  question mark), decoding with \<^verbatim>\<open>errors="ignore"\<close>, and the clipping of a
  text to a number of bytes that the bounded stores build on them.
\<close>

type_synonym pystr = "nat list"

definition lit :: "string \<Rightarrow> pystr" where
  "lit s = map of_char s"

text \<open>\<open>str.isspace\<close> of one code point, and \<open>not s.strip()\<close> of a text.\<close>

definition py_space :: "nat \<Rightarrow> bool" where
  "py_space c \<longleftrightarrow> 9 \<le> c \<and> c \<le> 13 \<or> 28 \<le> c \<and> c \<le> 32 \<or> c = 0x85 \<or> c = 0xA0 \<or> c = 0x1680 \<or>
     0x2000 \<le> c \<and> c \<le> 0x200A \<or> c = 0x2028 \<or> c = 0x2029 \<or> c = 0x202F \<or> c = 0x205F \<or> c = 0x3000"

definition blank :: "pystr \<Rightarrow> bool" where
  "blank s \<longleftrightarrow> list_all py_space s"

definition surrogate :: "nat \<Rightarrow> bool" where
  "surrogate c \<longleftrightarrow> 0xD800 \<le> c \<and> c \<le> 0xDFFF"

definition code_point :: "nat \<Rightarrow> bool" where
  "code_point c \<longleftrightarrow> c \<le> 0x10FFFF"


subsection \<open>UTF-8\<close>

definition enc_cp :: "nat \<Rightarrow> nat list" where
  "enc_cp c =
     (if c < 0x80 then [c]
      else if c < 0x800 then [0xC0 + c div 64, 0x80 + c mod 64]
      else if surrogate c then [63]
      else if c < 0x10000 then [0xE0 + c div 4096, 0x80 + c div 64 mod 64, 0x80 + c mod 64]
      else [0xF0 + c div 262144, 0x80 + c div 4096 mod 64, 0x80 + c div 64 mod 64, 0x80 + c mod 64])"

definition utf8 :: "pystr \<Rightarrow> nat list" where
  "utf8 s = concat (map enc_cp s)"

definition cont :: "nat \<Rightarrow> bool" where
  "cont b \<longleftrightarrow> 0x80 \<le> b \<and> b \<le> 0xBF"

text \<open>
  One step of the decoder: the code point at the head of the bytes and the number of bytes
  it takes, or \<open>None\<close> where they are no well-formed sequence (an overlong form, a
  surrogate, a value past the last plane, a sequence cut short).
\<close>

definition dec_head :: "nat list \<Rightarrow> (nat \<times> nat) option" where
  "dec_head bs = (case bs of
     [] \<Rightarrow> None
   | b # r \<Rightarrow>
       if b < 0x80 then Some (b, 1)
       else if 0xC2 \<le> b \<and> b \<le> 0xDF then
         (case r of
            c1 # _ \<Rightarrow> if cont c1 then Some ((b - 0xC0) * 64 + (c1 - 0x80), 2) else None
          | _ \<Rightarrow> None)
       else if 0xE0 \<le> b \<and> b \<le> 0xEF then
         (case r of
            c1 # c2 # _ \<Rightarrow>
              (let v = (b - 0xE0) * 4096 + (c1 - 0x80) * 64 + (c2 - 0x80)
               in if cont c1 \<and> cont c2 \<and> 0x800 \<le> v \<and> \<not> surrogate v then Some (v, 3) else None)
          | _ \<Rightarrow> None)
       else if 0xF0 \<le> b \<and> b \<le> 0xF4 then
         (case r of
            c1 # c2 # c3 # _ \<Rightarrow>
              (let v = (b - 0xF0) * 262144 + (c1 - 0x80) * 4096 + (c2 - 0x80) * 64 + (c3 - 0x80)
               in if cont c1 \<and> cont c2 \<and> cont c3 \<and> 0x10000 \<le> v \<and> code_point v
                  then Some (v, 4) else None)
          | _ \<Rightarrow> None)
       else None)"

text \<open>
  With \<^verbatim>\<open>errors="ignore"\<close> the bytes that start no sequence are dropped. Dropping
  them one at a time gives CPython's result: what follows a lead byte inside a broken
  sequence are continuation bytes, which start nothing themselves.
\<close>

function utf8_decode_ignore :: "nat list \<Rightarrow> pystr" where
  "utf8_decode_ignore bs =
     (if bs = [] then []
      else case dec_head bs of
             Some (c, n) \<Rightarrow> c # utf8_decode_ignore (drop (max 1 n) bs)
           | None \<Rightarrow> utf8_decode_ignore (tl bs))"
  by pat_completeness auto
termination
  by (relation "measure length") (auto simp: max_def)

declare utf8_decode_ignore.simps [simp del]

text \<open>The text a round trip gives back: a lone surrogate has become a question mark.\<close>

definition norm_cp :: "nat \<Rightarrow> nat" where
  "norm_cp c = (if surrogate c then 63 else c)"

lemma enc_cp_nonempty [simp]: "enc_cp c \<noteq> []"
  by (simp add: enc_cp_def)

lemma length_enc_cp_norm: "length (enc_cp (norm_cp c)) = length (enc_cp c)"
  by (auto simp: enc_cp_def norm_cp_def surrogate_def)

lemma utf8_Nil [simp]: "utf8 [] = []"
  and utf8_Cons: "utf8 (c # s) = enc_cp c @ utf8 s"
  and utf8_append [simp]: "utf8 (s @ t) = utf8 s @ utf8 t"
  by (simp_all add: utf8_def)

lemma mod_64_le [simp]: "x mod 64 \<le> (63::nat)"
  using mod_less_divisor[of 64 x] by linarith

lemma base64_digits3: "c div 4096 * 4096 + c div 64 mod 64 * 64 + c mod 64 = (c::nat)"
proof -
  have "c div 4096 = c div 64 div 64" by (simp add: div_mult2_eq[symmetric])
  moreover have "c div 64 div 64 * 64 + c div 64 mod 64 = c div 64" by simp
  moreover have "c div 64 * 64 + c mod 64 = c" by simp
  ultimately show ?thesis by linarith
qed

lemma base64_digits4:
  "c div 262144 * 262144 + c div 4096 mod 64 * 4096 + c div 64 mod 64 * 64 + c mod 64 = (c::nat)"
proof -
  have "c div 262144 = c div 4096 div 64" by (simp add: div_mult2_eq[symmetric])
  moreover have "c div 4096 div 64 * 64 + c div 4096 mod 64 = c div 4096" by simp
  moreover note base64_digits3[of c]
  ultimately show ?thesis by linarith
qed

lemma dec_head_enc_cp:
  assumes "code_point c"
  shows "dec_head (enc_cp c @ bs) = Some (norm_cp c, length (enc_cp c))"
proof -
  consider "c < 0x80" | "0x80 \<le> c" "c < 0x800" | "surrogate c"
    | "0x800 \<le> c" "c < 0x10000" "\<not> surrogate c" | "0x10000 \<le> c" "\<not> surrogate c"
    using not_le by blast
  then show ?thesis
  proof cases
    case 1
    then show ?thesis by (auto simp: enc_cp_def dec_head_def norm_cp_def surrogate_def)
  next
    case 2
    then have "2 \<le> c div 64" "c div 64 < 32" by (simp_all add: div_le_mono[of 128 c 64, simplified] less_mult_imp_div_less)
    moreover have "c div 64 * 64 + c mod 64 = c" by simp
    ultimately show ?thesis using 2
      by (auto simp: enc_cp_def dec_head_def norm_cp_def surrogate_def cont_def Let_def)
  next
    case 3
    then show ?thesis by (auto simp: enc_cp_def dec_head_def norm_cp_def surrogate_def)
  next
    case 4
    then have d: "c div 4096 < 16" by (simp add: less_mult_imp_div_less)
    note e = base64_digits3[of c]
    from 4 d show ?thesis
      by (simp add: enc_cp_def dec_head_def norm_cp_def cont_def Let_def e)
  next
    case 5
    with assms have d: "c div 262144 < 5" by (simp add: code_point_def less_mult_imp_div_less)
    note e = base64_digits4[of c]
    from 5 d assms show ?thesis
      by (simp add: enc_cp_def dec_head_def norm_cp_def cont_def Let_def e)
  qed
qed


lemma dec_head_bounds: "dec_head bs = Some (c, n) \<Longrightarrow> 0 < n \<and> n \<le> length bs"
  by (auto simp: dec_head_def Let_def split: list.splits if_splits)

lemma dec_head_enc_length: "dec_head bs = Some (c, n) \<Longrightarrow> length (enc_cp c) \<le> n"
  by (auto simp: dec_head_def Let_def enc_cp_def cont_def split: list.splits if_splits)

text \<open>
  Decoding what a clipped buffer holds: a complete sequence comes back, an incomplete one at
  the end gives nothing.
\<close>

lemma decode_Nil [simp]: "utf8_decode_ignore [] = []"
  by (subst utf8_decode_ignore.simps) simp

lemma decode_Some: "dec_head bs = Some (c, n) \<Longrightarrow> utf8_decode_ignore bs = c # utf8_decode_ignore (drop n bs)"
  using dec_head_bounds[of bs c n] by (subst utf8_decode_ignore.simps) (auto simp: max_def Suc_le_eq)

lemma decode_None: "dec_head (b # bs) = None \<Longrightarrow> utf8_decode_ignore (b # bs) = utf8_decode_ignore bs"
  by (subst utf8_decode_ignore.simps) simp

lemma decode_enc_cp:
  "code_point c \<Longrightarrow> utf8_decode_ignore (enc_cp c @ bs) = norm_cp c # utf8_decode_ignore bs"
  by (drule dec_head_enc_cp[of c bs], drule decode_Some) simp

lemma decode_utf8_append:
  "list_all code_point s \<Longrightarrow> utf8_decode_ignore (utf8 s @ bs) = map norm_cp s @ utf8_decode_ignore bs"
  by (induction s) (auto simp: utf8_Cons decode_enc_cp)

lemma decode_conts: "list_all cont bs \<Longrightarrow> utf8_decode_ignore bs = []"
proof (induction bs)
  case Nil
  show ?case by simp
next
  case (Cons b bs)
  then have "dec_head (b # bs) = None"
    by (auto simp: dec_head_def cont_def)
  with Cons show ?case by (simp add: decode_None)
qed

lemma dec_head_cut:
  assumes "n < length (enc_cp c)"
  shows "dec_head (take n (enc_cp c)) = None"
proof -
  have "n \<in> {0, 1, 2, 3}"
    using assms by (auto simp: enc_cp_def split: if_splits)
  with assms show ?thesis
    by (auto simp: enc_cp_def dec_head_def numeral_2_eq_2 numeral_3_eq_3 Let_def cont_def)
qed

lemma enc_cp_tail_cont: "list_all cont (tl (enc_cp c))"
  by (auto simp: enc_cp_def cont_def)

lemma decode_cut_sequence:
  assumes "n < length (enc_cp c)"
  shows "utf8_decode_ignore (take n (enc_cp c)) = []"
proof (cases "take n (enc_cp c)")
  case Nil
  then show ?thesis by simp
next
  case (Cons b bs)
  then have "bs = take (n - 1) (tl (enc_cp c))"
    by (metis list.sel(3) tl_take)
  then have "list_all cont bs"
    using enc_cp_tail_cont[of c] by (auto simp: list_all_iff dest: in_set_takeD)
  with Cons dec_head_cut[OF assms] show ?thesis
    by (simp add: decode_None decode_conts)
qed

lemma length_utf8_decode: "length (utf8 (utf8_decode_ignore bs)) \<le> length bs"
proof (induction bs rule: length_induct)
  case (1 bs)
  show ?case
  proof (cases bs)
    case Nil
    then show ?thesis by simp
  next
    case (Cons b r)
    show ?thesis
    proof (cases "dec_head bs")
      case None
      with 1[rule_format, of r] Cons show ?thesis by (simp add: decode_None)
    next
      case (Some p)
      obtain c n where h: "dec_head bs = Some (c, n)" using Some by (cases p) auto
      with dec_head_bounds[OF h] 1[rule_format, of "drop n bs"]
      have "length (utf8 (utf8_decode_ignore (drop n bs))) \<le> length bs - n" "n \<le> length bs" by auto
      with dec_head_enc_length[OF h] show ?thesis by (simp add: decode_Some[OF h] utf8_Cons)
    qed
  qed
qed

text \<open>
  The clipping lemma: decoding the first \<open>n\<close> bytes of a text gives the longest run of whole
  characters that fits in them.
\<close>

fun chars_within :: "nat \<Rightarrow> pystr \<Rightarrow> pystr" where
  "chars_within n [] = []"
| "chars_within n (c # s) =
     (if length (enc_cp c) \<le> n then c # chars_within (n - length (enc_cp c)) s else [])"

lemma decode_take_utf8:
  "list_all code_point s \<Longrightarrow> utf8_decode_ignore (take n (utf8 s)) = map norm_cp (chars_within n s)"
proof (induction s arbitrary: n)
  case Nil
  show ?case by simp
next
  case (Cons c s)
  then show ?case
    by (cases "length (enc_cp c) \<le> n") (auto simp: utf8_Cons decode_enc_cp decode_cut_sequence)
qed

lemma chars_within_prefix: "\<exists>k. chars_within n s = take k s"
proof (induction s arbitrary: n)
  case Nil
  show ?case by simp
next
  case (Cons c s)
  show ?case
  proof (cases "length (enc_cp c) \<le> n")
    case True
    from Cons[of "n - length (enc_cp c)"] obtain k
      where "chars_within (n - length (enc_cp c)) s = take k s" by blast
    with True have "chars_within n (c # s) = take (Suc k) (c # s)" by simp
    then show ?thesis by blast
  next
    case False
    then have "chars_within n (c # s) = take 0 (c # s)" by simp
    then show ?thesis by blast
  qed
qed

lemma chars_within_longest:
  "n < length (utf8 s) \<Longrightarrow>
     \<exists>k < length s. chars_within n s = take k s \<and> n < length (utf8 (take (Suc k) s))"
proof (induction s arbitrary: n)
  case Nil
  then show ?case by simp
next
  case (Cons c s)
  show ?case
  proof (cases "length (enc_cp c) \<le> n")
    case True
    with Cons.prems have "n - length (enc_cp c) < length (utf8 s)" by (simp add: utf8_Cons)
    from Cons.IH[OF this] obtain k where "k < length s"
      "chars_within (n - length (enc_cp c)) s = take k s"
      "n - length (enc_cp c) < length (utf8 (take (Suc k) s))" by blast
    with True show ?thesis by (intro exI[of _ "Suc k"]) (auto simp: utf8_Cons)
  next
    case False
    then show ?thesis by (intro exI[of _ 0]) (simp add: utf8_Cons)
  qed
qed

lemma norm_cp_code_point: "code_point c \<Longrightarrow> code_point (norm_cp c)"
  by (auto simp: norm_cp_def code_point_def)

lemma norm_cp_idem [simp]: "norm_cp (norm_cp c) = norm_cp c"
  by (auto simp: norm_cp_def surrogate_def)

end
