(* ===== verification/PyStrings.thy ===== *)
theory PyStrings
  imports PyText
begin

section \<open>Python string methods\<close>

text \<open>
  The methods of \<^verbatim>\<open>str\<close> the text components call: slices, \<open>strip\<close>, \<open>find\<close>,
  \<open>split\<close> with a separator, \<open>join\<close>, with the laws that relate them.
\<close>

definition slice :: "nat \<Rightarrow> nat \<Rightarrow> 'a list \<Rightarrow> 'a list" where
  "slice a b xs = take (b - a) (drop a xs)"

definition lstrip :: "pystr \<Rightarrow> pystr" where
  "lstrip s = dropWhile py_space s"

definition rstrip :: "pystr \<Rightarrow> pystr" where
  "rstrip s = rev (dropWhile py_space (rev s))"

definition strip :: "pystr \<Rightarrow> pystr" where
  "strip s = rstrip (lstrip s)"

text \<open>\<open>s.find(sub, lo, hi)\<close>: the least offset in range, or \<open>None\<close> for \<open>-1\<close>.\<close>

definition py_find :: "'a list \<Rightarrow> 'a list \<Rightarrow> nat \<Rightarrow> nat \<Rightarrow> nat option" where
  "py_find s sub lo hi = find (\<lambda>i. i + length sub \<le> min hi (length s) \<and> slice i (i + length sub) s = sub) [lo..<Suc hi]"

definition starts_with :: "'a list \<Rightarrow> 'a list \<Rightarrow> bool" where
  "starts_with p s \<longleftrightarrow> take (length p) s = p"

text \<open>\<open>s.split(sep)\<close> for a non-empty separator.\<close>

function split_acc :: "'a list \<Rightarrow> 'a list \<Rightarrow> 'a list \<Rightarrow> 'a list list" where
  "split_acc sep acc [] = [acc]"
| "split_acc sep acc (c # s) =
     (if sep \<noteq> [] \<and> starts_with sep (c # s) then acc # split_acc sep [] (drop (length sep) (c # s))
      else split_acc sep (acc @ [c]) s)"
  by pat_completeness auto
termination by (relation "measure (\<lambda>(_, _, s). length s)") (auto simp: neq_Nil_conv)

definition py_split :: "'a list \<Rightarrow> 'a list \<Rightarrow> 'a list list" where
  "py_split sep s = split_acc sep [] s"

fun py_join :: "'a list \<Rightarrow> 'a list list \<Rightarrow> 'a list" where
  "py_join sep [] = []"
| "py_join sep [x] = x"
| "py_join sep (x # y # xs) = x @ sep @ py_join sep (y # xs)"

text \<open>Does the text contain the separator?\<close>

fun contains :: "'a list \<Rightarrow> 'a list \<Rightarrow> bool" where
  "contains sep [] = (sep = [])"
| "contains sep (c # s) = (starts_with sep (c # s) \<or> contains sep s)"


subsection \<open>Laws\<close>

lemma starts_withD: "starts_with p s \<Longrightarrow> p @ drop (length p) s = s"
  unfolding starts_with_def by (metis append_take_drop_id)

lemma starts_with_append [simp]: "starts_with p (p @ s)"
  by (simp add: starts_with_def)

lemma starts_with_append_long: "length p \<le> length s \<Longrightarrow> starts_with p (s @ t) = starts_with p s"
  by (simp add: starts_with_def)

lemma split_acc_nonempty [simp]: "split_acc sep acc s \<noteq> []"
  by (induction sep acc s rule: split_acc.induct) auto

lemma py_join_Cons: "xs \<noteq> [] \<Longrightarrow> py_join sep (x # xs) = x @ sep @ py_join sep xs"
  by (cases xs) auto

text \<open>Joining the pieces gives the text back.\<close>

lemma join_split_acc: "py_join sep (split_acc sep acc s) = acc @ s"
proof (induction sep acc s rule: split_acc.induct)
  case (1 sep acc)
  then show ?case by simp
next
  case (2 sep acc c s)
  show ?case
  proof (cases "sep \<noteq> [] \<and> starts_with sep (c # s)")
    case True
    then have "split_acc sep acc (c # s) = acc # split_acc sep [] (drop (length sep) (c # s))"
      by (subst split_acc.simps(2)) (rule if_P)
    then have "py_join sep (split_acc sep acc (c # s)) =
        acc @ sep @ py_join sep (split_acc sep [] (drop (length sep) (c # s)))"
      by (simp only: py_join_Cons[OF split_acc_nonempty])
    also have "\<dots> = acc @ sep @ drop (length sep) (c # s)" using 2(1) True by simp
    also have "\<dots> = acc @ c # s" using True starts_withD[of sep "c # s"] by simp
    finally show ?thesis .
  next
    case False
    then have "split_acc sep acc (c # s) = split_acc sep (acc @ [c]) s"
      by (simp only: split_acc.simps(2) if_False)
    with 2(2)[OF False] show ?thesis by simp
  qed
qed

lemma join_split: "py_join sep (py_split sep s) = s"
  by (simp add: py_split_def join_split_acc)

text \<open>A text without the separator is one piece.\<close>

lemma split_acc_single: "\<not> contains sep s \<Longrightarrow> split_acc sep acc s = [acc @ s]"
  by (induction s arbitrary: acc) auto

text \<open>
  A separator has no border when no proper prefix of it is a suffix: then an occurrence cannot
  straddle the place where it was put.
\<close>

definition borderless :: "'a list \<Rightarrow> bool" where
  "borderless sep \<longleftrightarrow> (\<forall>k \<in> {1..<length sep}. take k sep \<noteq> drop (length sep - k) sep)"

lemma straddle:
  assumes "borderless sep" and "starts_with sep (u @ sep @ t)" and "u \<noteq> []"
  shows "starts_with sep u"
proof (rule ccontr)
  assume no: "\<not> starts_with sep u"
  have "length u < length sep"
  proof (rule ccontr)
    assume "\<not> length u < length sep"
    then have "starts_with sep (u @ sep @ t) = starts_with sep u" by (intro starts_with_append_long) simp
    with assms(2) no show False by simp
  qed
  define k where "k = length sep - length u"
  have "0 < length u" using assms(3) by simp
  with \<open>length u < length sep\<close> have k: "k \<in> {1..<length sep}" "length sep - k = length u"
    unfolding k_def by (simp_all del: length_greater_0_conv)
  have "sep = take (length sep) (u @ sep @ t)" using assms(2) by (simp add: starts_with_def)
  also have "\<dots> = u @ take k sep" using \<open>length u < length sep\<close> by (simp add: k_def)
  finally have "drop (length u) sep = drop (length u) (u @ take k sep)" by simp
  then have "drop (length sep - k) sep = take k sep" using k(2) by simp
  then show False using assms(1) k(1) unfolding borderless_def by metis
qed

lemma split_acc_at:
  assumes "borderless sep" and "sep \<noteq> []" and "\<not> contains sep u"
  shows "split_acc sep acc (u @ sep @ t) = (acc @ u) # split_acc sep [] t"
  using assms(3)
proof (induction u arbitrary: acc)
  case Nil
  obtain c s where cs: "sep @ t = c # s" using assms(2) by (cases sep) auto
  have "starts_with sep (c # s)" unfolding cs[symmetric] by simp
  moreover have "drop (length sep) (c # s) = t" unfolding cs[symmetric] by simp
  ultimately show ?case unfolding append_Nil cs using assms(2) by simp
next
  case (Cons c u)
  have "\<not> starts_with sep ((c # u) @ sep @ t)" using straddle[OF assms(1), of "c # u" t] Cons.prems by auto
  with Cons show ?case by simp
qed

lemma split_join2:
  assumes "borderless sep" and "sep \<noteq> []" and "\<not> contains sep a" and "\<not> contains sep b"
  shows "py_split sep (a @ sep @ b) = [a, b]"
  using split_acc_at[OF assms(1-3), of "[]" b] split_acc_single[OF assms(4), of "[]"]
  by (simp add: py_split_def)

text \<open>No piece contains the separator.\<close>

lemma contains_iff: "sep \<noteq> [] \<Longrightarrow> contains sep s \<longleftrightarrow> (\<exists>a b. s = a @ sep @ b)"
proof (induction s)
  case Nil
  then show ?case by simp
next
  case (Cons c s)
  show ?case
  proof
    assume "contains sep (c # s)"
    then consider "starts_with sep (c # s)" | "contains sep s" by auto
    then show "\<exists>a b. c # s = a @ sep @ b"
    proof cases
      case 1
      then show ?thesis using starts_withD by (metis append_Nil)
    next
      case 2
      with Cons show ?thesis by (metis append_Cons)
    qed
  next
    assume "\<exists>a b. c # s = a @ sep @ b"
    then obtain a b where ab: "c # s = a @ sep @ b" by blast
    show "contains sep (c # s)"
    proof (cases a)
      case Nil
      then have "starts_with sep (c # s)" unfolding ab by simp
      then show ?thesis by simp
    next
      case (Cons x xs)
      with ab have "s = xs @ sep @ b" by simp
      then have "contains sep s" using Cons.IH Cons.prems by blast
      then show ?thesis by simp
    qed
  qed
qed


subsection \<open>Stripping and slices\<close>

lemma strip_idem_space: "strip s = [] \<longleftrightarrow> blank s"
proof -
  have "strip s = [] \<longleftrightarrow> (\<forall>c \<in> set (lstrip s). py_space c)" by (simp add: strip_def rstrip_def)
  also have "\<dots> \<longleftrightarrow> blank s"
  proof
    assume h: "\<forall>c \<in> set (lstrip s). py_space c"
    have "lstrip s = []"
    proof (rule ccontr)
      assume "lstrip s \<noteq> []"
      then have "\<not> py_space (hd (lstrip s))" by (simp add: lstrip_def hd_dropWhile)
      with h \<open>lstrip s \<noteq> []\<close> show False by auto
    qed
    then show "blank s" by (simp add: lstrip_def blank_def list_all_iff)
  qed (auto simp: lstrip_def blank_def list_all_iff dest: set_dropWhileD)
  finally show ?thesis .
qed

lemma slice_Nil [simp]: "b \<le> a \<Longrightarrow> slice a b xs = []"
  by (simp add: slice_def)

lemma slice_whole: "length xs \<le> b \<Longrightarrow> slice 0 b xs = xs"
  by (simp add: slice_def)

lemma length_slice: "length (slice a b xs) = min b (length xs) - a"
  by (auto simp: slice_def min_def)

lemma slice_slice: "c + b \<le> d \<Longrightarrow> slice a b (slice c d xs) = slice (c + a) (c + b) xs"
  by (simp add: slice_def drop_take min_def add.commute diff_diff_eq)

lemma find_Some_holds: "find P xs = Some i \<Longrightarrow> P i"
  by (induction xs) (auto split: if_splits)

lemma find_Some_mem: "find P xs = Some i \<Longrightarrow> i \<in> set xs"
  by (induction xs) (auto split: if_splits)

lemma py_find_Some: "py_find s sub lo hi = Some i \<Longrightarrow> slice i (i + length sub) s = sub \<and> i + length sub \<le> length s \<and> lo \<le> i"
proof -
  assume a: "py_find s sub lo hi = Some i"
  then have h: "find (\<lambda>i. i + length sub \<le> min hi (length s) \<and> slice i (i + length sub) s = sub) [lo..<Suc hi] = Some i"
    by (simp only: py_find_def)
  have "i + length sub \<le> min hi (length s) \<and> slice i (i + length sub) s = sub" using find_Some_holds[OF h] .
  moreover have "i \<in> set [lo..<Suc hi]" using find_Some_mem[OF h] .
  ultimately show ?thesis by (auto simp del: upt_Suc)
qed


lemma slice_Cons: "a < b \<Longrightarrow> b \<le> length xs \<Longrightarrow> slice a b xs = xs ! a # slice (Suc a) b xs"
  by (simp add: slice_def Cons_nth_drop_Suc[symmetric] Suc_diff_Suc[symmetric])

lemma slice_snoc: "a \<le> b \<Longrightarrow> b < length xs \<Longrightarrow> slice a (Suc b) xs = slice a b xs @ [xs ! b]"
  by (simp add: slice_def Suc_diff_le take_Suc_conv_app_nth)

lemma slice_append: "a \<le> b \<Longrightarrow> b \<le> c \<Longrightarrow> slice a b xs @ slice b c xs = slice a c xs"
  using take_add[of "b - a" "c - b" "drop a xs"] by (simp add: slice_def add.commute)

lemma slice_middle: "slice (length u) (length u + length v) (u @ v @ w) = v"
  by (simp add: slice_def)

lemma slice_min: "slice a (min b (length xs)) xs = slice a b xs"
  by (auto simp: slice_def min_def)


subsection \<open>Stripping twice, pieces without the separator\<close>

lemma rstrip_prefix: "\<exists>w. s = rstrip s @ w"
proof -
  have "rev s = takeWhile py_space (rev s) @ dropWhile py_space (rev s)" by simp
  then have "rev (rev s) = rev (dropWhile py_space (rev s)) @ rev (takeWhile py_space (rev s))"
    by (metis rev_append)
  then show ?thesis by (auto simp: rstrip_def)
qed

lemma lstrip_suffix: "\<exists>w. s = w @ lstrip s"
  unfolding lstrip_def by (metis takeWhile_dropWhile_id)

lemma strip_infix: "\<exists>u w. s = u @ strip s @ w"
  unfolding strip_def using lstrip_suffix[of s] rstrip_prefix[of "lstrip s"] by metis

lemma lstrip_id: "s = [] \<or> \<not> py_space (hd s) \<Longrightarrow> lstrip s = s"
  unfolding lstrip_def by (cases s) auto

lemma strip_strip [simp]: "strip (strip s) = strip s"
proof -
  let ?t = "lstrip s"
  obtain w where w: "?t = rstrip ?t @ w" using rstrip_prefix by blast
  have "rstrip ?t = [] \<or> \<not> py_space (hd (rstrip ?t))"
  proof (cases "rstrip ?t = []")
    case False
    then have "hd (rstrip ?t) = hd ?t" using w by (metis hd_append2)
    moreover have "?t \<noteq> []" using False by (auto simp: rstrip_def)
    ultimately show ?thesis by (simp add: lstrip_def hd_dropWhile)
  qed simp
  then have "lstrip (rstrip ?t) = rstrip ?t" by (rule lstrip_id)
  moreover have "rstrip (rstrip ?t) = rstrip ?t" by (simp add: rstrip_def)
  ultimately show ?thesis by (simp add: strip_def)
qed

lemma contains_infix: "sep \<noteq> [] \<Longrightarrow> contains sep v \<Longrightarrow> contains sep (u @ v @ w)"
  unfolding contains_iff by (metis append.assoc)

lemma contains_strip: "sep \<noteq> [] \<Longrightarrow> contains sep (strip s) \<Longrightarrow> contains sep s"
  using strip_infix[of s] contains_infix by metis

text \<open>No position of the piece being collected starts an occurrence, so no piece holds one.\<close>

lemma split_acc_free:
  assumes "sep \<noteq> []"
  shows "(\<And>u v. acc @ s = u @ v \<Longrightarrow> length u < length acc \<Longrightarrow> \<not> starts_with sep v) \<Longrightarrow>
    p \<in> set (split_acc sep acc s) \<Longrightarrow> \<not> contains sep p"
  using assms
proof (induction sep acc s rule: split_acc.induct)
  case (1 sep acc)
  show ?case
  proof
    assume "contains sep p"
    then obtain a b where ab: "acc = a @ sep @ b" using "1.prems" by (auto simp: contains_iff)
    have "length a < length acc" using "1.prems"(3) by (simp add: ab)
    with "1.prems"(1)[of a "sep @ b"] show False by (simp add: ab)
  qed
next
  case (2 sep acc c s)
  show ?case
  proof (cases "sep \<noteq> [] \<and> starts_with sep (c # s)")
    case True
    then have e: "split_acc sep acc (c # s) = acc # split_acc sep [] (drop (length sep) (c # s))"
      by (subst split_acc.simps(2)) (rule if_P)
    have acc: "\<not> contains sep acc"
    proof
      assume "contains sep acc"
      then obtain a b where ab: "acc = a @ sep @ b" using "2.prems" by (auto simp: contains_iff)
      have "length a < length acc" using "2.prems"(3) by (simp add: ab)
      with "2.prems"(1)[of a "sep @ b @ c # s"] show False by (simp add: ab)
    qed
    from "2.prems"(2) e consider "p = acc" | "p \<in> set (split_acc sep [] (drop (length sep) (c # s)))" by auto
    then show ?thesis
    proof cases
      case 1
      then show ?thesis using acc by simp
    next
      case 2
      then show ?thesis using "2.IH"(1)[OF True] "2.prems"(3) by auto
    qed
  next
    case False
    have e: "split_acc sep acc (c # s) = split_acc sep (acc @ [c]) s"
      by (subst split_acc.simps(2)) (rule if_not_P[OF False])
    have no: "\<not> starts_with sep (c # s)" using False "2.prems"(3) by simp
    have "\<not> starts_with sep v" if "(acc @ [c]) @ s = u @ v" "length u < length (acc @ [c])" for u v
    proof (cases "length u < length acc")
      case True
      then show ?thesis using "2.prems"(1)[of u v] that(1) by simp
    next
      case False
      with that have "length u = length acc" by simp
      with that(1) have "v = c # s" by simp
      then show ?thesis using no by simp
    qed
    then show ?thesis using "2.IH"(2)[OF False] "2.prems"(2,3) e by metis
  qed
qed

lemma py_split_free: "sep \<noteq> [] \<Longrightarrow> p \<in> set (py_split sep s) \<Longrightarrow> \<not> contains sep p"
  unfolding py_split_def by (rule split_acc_free) auto

end
