(* ===== verification/Namespaces.thy ===== *)
theory Namespaces
  imports PyText
begin

section \<open>One server-side object per namespace\<close>

text \<open>
  The two Manager-registered hubs of \<^verbatim>\<open>lightrag/kg\<close> (scan jobs, pipeline
  ingress) have the same shape: a dictionary from the namespace of a workspace to its object,
  which is created on first use under the hub lock, and one method per operation, each a single
  dispatch on the object of its namespace.
\<close>

type_synonym 's hub = "(pystr, 's) dict"

definition hub_get_or_create :: "(pystr \<Rightarrow> 's) \<Rightarrow> 's hub \<Rightarrow> pystr \<Rightarrow> 's hub \<times> 's" where
  "hub_get_or_create fresh h ns = (case map_of h ns of
       Some obj \<Rightarrow> (h, obj)
     | None \<Rightarrow> (let obj = fresh ns in (AList.update ns obj h, obj)))"

definition hub_call :: "(pystr \<Rightarrow> 's) \<Rightarrow> ('s \<Rightarrow> 's \<times> 'r) \<Rightarrow> 's hub \<Rightarrow> pystr \<Rightarrow> 's hub \<times> 'r" where
  "hub_call fresh f h ns =
     (let (h1, obj) = hub_get_or_create fresh h ns; (obj', res) = f obj
      in (AList.update ns obj' h1, res))"

text \<open>The object of a namespace, created or not.\<close>

definition hub_view :: "(pystr \<Rightarrow> 's) \<Rightarrow> 's hub \<Rightarrow> pystr \<Rightarrow> 's" where
  "hub_view fresh h ns = (case map_of h ns of Some obj \<Rightarrow> obj | None \<Rightarrow> fresh ns)"

lemma hub_view_empty [simp]: "hub_view fresh [] ns = fresh ns"
  by (simp add: hub_view_def)

lemma hub_view_update [simp]:
  "hub_view fresh (AList.update ns obj h) ns' = (if ns' = ns then obj else hub_view fresh h ns')"
  by (simp add: hub_view_def)

lemma hub_call_view [simp]:
  "hub_view fresh (fst (hub_call fresh f h ns)) ns' =
     (if ns' = ns then fst (f (hub_view fresh h ns)) else hub_view fresh h ns')"
  "snd (hub_call fresh f h ns) = snd (f (hub_view fresh h ns))"
  by (auto simp: hub_call_def hub_get_or_create_def hub_view_def Let_def split: option.splits prod.splits)

text \<open>
  A hub of guarded components: what a call does in its own namespace is a step of that
  component, other namespaces are untouched, and so every namespace keeps the invariant.
\<close>

locale namespaced_component =
  fixes step :: "pystr \<Rightarrow> 's \<Rightarrow> 'e \<Rightarrow> 's"
    and inv :: "'s \<Rightarrow> bool"
    and fresh :: "pystr \<Rightarrow> 's"
    and hub_step :: "'s hub \<Rightarrow> pystr \<times> 'e \<Rightarrow> 's hub"
  assumes step_inv: "inv s \<Longrightarrow> inv (step ns s e)"
    and fresh_inv: "inv (fresh ns)"
    and hub_step_view: "hub_view fresh (hub_step h (ns, e)) ns' =
          (if ns' = ns then step ns (hub_view fresh h ns) e else hub_view fresh h ns')"
begin

sublocale member: guarded_component "step ns" inv for ns
  by unfold_locales (rule step_inv)

text \<open>The calls of a trace that went to one namespace.\<close>

primrec calls_to :: "pystr \<Rightarrow> (pystr \<times> 'e) list \<Rightarrow> 'e list" where
  "calls_to ns [] = []"
| "calls_to ns (c # cs) = (if fst c = ns then snd c # calls_to ns cs else calls_to ns cs)"

lemma hub_run_view:
  "hub_view fresh (run hub_step h cs) ns = run (step ns) (hub_view fresh h ns) (calls_to ns cs)"
proof (induction cs arbitrary: h)
  case Nil
  show ?case by simp
next
  case (Cons c cs)
  then show ?case by (cases c) (simp add: hub_step_view)
qed

lemma hub_run_inv: "inv (hub_view fresh (run hub_step [] cs) ns)"
  by (simp add: hub_run_view member.run_inv fresh_inv)

lemma hub_run_isolated:
  assumes "list_all (\<lambda>c. fst c \<noteq> ns) cs"
  shows "hub_view fresh (run hub_step h cs) ns = hub_view fresh h ns"
proof -
  have "calls_to ns cs = []" using assms by (induction cs) auto
  then show ?thesis by (simp add: hub_run_view)
qed

end

end
