(* ===== verification/ScanJobStore.thy ===== *)
theory ScanJobStore
  imports Namespaces
begin

section \<open>The bounded scan job store\<close>

text \<open>
  \<^verbatim>\<open>lightrag/kg/scan_job_store.py\<close>: the records of the asynchronous scans of one
  workspace, bounded by construction. A record holds an owner token, a version for
  compare-and-set updates, a lease, aggregate counters and three sample buckets; the store
  clamps its bounds when it is built and checks them again on every mutation. The clock is
  the argument \<open>now\<close> of each operation (one reading per call, as in the code), with time as
  a real number. The Manager hub and its client view are at the end.
\<close>

datatype scan_status = RUNNING | COMPLETED | FAILED | CANCELLED | ABANDONED

primrec status_value :: "scan_status \<Rightarrow> pystr" where
  "status_value RUNNING = lit ''running''"
| "status_value COMPLETED = lit ''completed''"
| "status_value FAILED = lit ''failed''"
| "status_value CANCELLED = lit ''cancelled''"
| "status_value ABANDONED = lit ''abandoned''"

definition all_statuses :: "scan_status list" where
  "all_statuses = [RUNNING, COMPLETED, FAILED, CANCELLED, ABANDONED]"

definition status_max_bytes :: int where
  "status_max_bytes = fold max (map (\<lambda>st. int (length (utf8 (status_value st)))) all_statuses) 0"

definition terminal_statuses :: "scan_status list" where
  "terminal_statuses = [COMPLETED, FAILED, CANCELLED, ABANDONED]"

definition sample_buckets :: "pystr list" where
  "sample_buckets = [lit ''processed'', lit ''warning'', lit ''error'']"

datatype create_outcome = ACCEPTED | ALREADY_EXISTS | CAPACITY_EXCEEDED | INVALID_IDENTIFIER

datatype update_conflict = NOT_FOUND | OWNER | VERSION | TERMINAL | INVALID_STATUS

record sample_bucket =
  sb_items :: "pystr list"
  sb_truncated :: bool
  sb_dropped :: int

record scan_rec =
  job_track_id :: pystr
  job_workspace :: pystr
  job_owner_token :: pystr
  job_status :: scan_status
  job_counts :: "(pystr, int) dict"
  job_samples :: "(pystr, sample_bucket) dict"
  job_created_at :: real
  job_updated_at :: real
  job_lease_expires_at :: real
  job_version :: int
  job_message :: pystr
  job_counters_dropped :: int

text \<open>The snapshot a status query sees: everything but the owner token, workspace and lease.\<close>

record public_rec =
  pub_track_id :: pystr
  pub_status :: pystr
  pub_counts :: "(pystr, int) dict"
  pub_counters_dropped :: int
  pub_samples :: "(pystr, sample_bucket) dict"
  pub_created_at :: real
  pub_updated_at :: real
  pub_version :: int
  pub_message :: pystr

record create_result =
  cr_outcome :: create_outcome
  cr_record :: "public_rec option"

record update_result =
  ur_ok :: bool
  ur_conflict :: "update_conflict option"
  ur_record :: "public_rec option"

record scan_store =
  st_workspace :: pystr
  st_capacity :: int
  st_sample_limit :: int
  st_sample_max_bytes :: int
  st_record_max_bytes :: int
  st_max_counter_keys :: int
  st_counter_key_max_bytes :: int
  st_counter_value_max :: int
  st_identifier_max_bytes :: int
  st_lease_seconds :: real
  st_ttl_seconds :: real
  st_jobs :: "(pystr, scan_rec) dict"


subsection \<open>Sizes and clipping\<close>

definition key_bytes :: "pystr \<Rightarrow> int" where
  "key_bytes k = int (length (utf8 k))"

definition cap_sample :: "pystr \<Rightarrow> int \<Rightarrow> pystr \<times> bool" where
  "cap_sample text max_bytes =
     (let raw = utf8 text
      in if int (length raw) \<le> max_bytes then (text, False)
         else (utf8_decode_ignore (py_prefix max_bytes raw), True))"

definition bucket_bytes :: "sample_bucket \<Rightarrow> int" where
  "bucket_bytes b = sum_list (map key_bytes (sb_items b))"

definition approx_bytes :: "scan_rec \<Rightarrow> int" where
  "approx_bytes r =
     (let counts_bytes = sum_list (map (\<lambda>(k, _). key_bytes k + 8) (job_counts r));
          sample_bytes = sum_list (map (\<lambda>(_, b). bucket_bytes b) (job_samples r));
          scalar_bytes = status_max_bytes + sum_list (map key_bytes
            [job_track_id r, job_workspace r, job_owner_token r, job_message r])
      in counts_bytes + sample_bytes + scalar_bytes + 128)"

definition to_public :: "scan_rec \<Rightarrow> public_rec" where
  "to_public r = \<lparr>pub_track_id = job_track_id r, pub_status = status_value (job_status r),
     pub_counts = job_counts r, pub_counters_dropped = job_counters_dropped r,
     pub_samples = job_samples r, pub_created_at = job_created_at r,
     pub_updated_at = job_updated_at r, pub_version = job_version r, pub_message = job_message r\<rparr>"

definition new_samples :: "(pystr, sample_bucket) dict" where
  "new_samples = map (\<lambda>b. (b, \<lparr>sb_items = [], sb_truncated = False, sb_dropped = 0\<rparr>)) sample_buckets"

text \<open>The constructor clamps every bound to at least one (the sample limit to zero).\<close>

definition new_scan_store :: "pystr \<Rightarrow> int \<Rightarrow> int \<Rightarrow> int \<Rightarrow> int \<Rightarrow> int \<Rightarrow> int \<Rightarrow> int \<Rightarrow> int \<Rightarrow> real \<Rightarrow> real \<Rightarrow> scan_store" where
  "new_scan_store workspace capacity sample_limit sample_max_bytes record_max_bytes max_counter_keys
     counter_key_max_bytes counter_value_max identifier_max_bytes lease_seconds ttl_seconds =
   \<lparr>st_workspace = workspace, st_capacity = max 1 capacity, st_sample_limit = max 0 sample_limit,
    st_sample_max_bytes = max 1 sample_max_bytes, st_record_max_bytes = max 1 record_max_bytes,
    st_max_counter_keys = max 1 max_counter_keys,
    st_counter_key_max_bytes = max 1 counter_key_max_bytes,
    st_counter_value_max = max 1 counter_value_max,
    st_identifier_max_bytes = max 1 identifier_max_bytes,
    st_lease_seconds = lease_seconds, st_ttl_seconds = ttl_seconds, st_jobs = []\<rparr>"

text \<open>The defaults of the constructor, which the hub uses for every namespace.\<close>

definition default_scan_store :: "pystr \<Rightarrow> scan_store" where
  "default_scan_store workspace =
     new_scan_store workspace 128 20 512 65536 32 64 (2 ^ 53) 128 60 3600"


subsection \<open>Internal steps\<close>

definition fit_message :: "scan_store \<Rightarrow> scan_rec \<Rightarrow> pystr \<Rightarrow> pystr" where
  "fit_message s r message =
     (let remaining = st_record_max_bytes s - (approx_bytes r - key_bytes (job_message r));
          budget = min (st_sample_max_bytes s) remaining
      in if budget \<le> 0 then [] else fst (cap_sample message budget))"

definition lease_expired_message :: pystr where
  "lease_expired_message = lit ''Lease expired: owner presumed dead; job abandoned.''"

definition maybe_abandon :: "scan_store \<Rightarrow> real \<Rightarrow> scan_rec \<Rightarrow> scan_rec" where
  "maybe_abandon s now r =
     (if job_status r = RUNNING \<and> job_lease_expires_at r \<le> now
      then let r1 = r\<lparr>job_status := ABANDONED, job_updated_at := now, job_version := job_version r + 1\<rparr>
           in r1\<lparr>job_message := fit_message s r1 lease_expired_message\<rparr>
      else r)"

definition is_terminal :: "scan_rec \<Rightarrow> bool" where
  "is_terminal r \<longleftrightarrow> job_status r \<in> set terminal_statuses"

definition reap :: "real \<Rightarrow> scan_store \<Rightarrow> scan_store" where
  "reap now s =
     (let jobs = map (\<lambda>(t, r). (t, maybe_abandon s now r)) (st_jobs s);
          expired = [t. (t, r) \<leftarrow> jobs, is_terminal r \<and> now - job_updated_at r \<ge> st_ttl_seconds s]
      in s\<lparr>st_jobs := filter (\<lambda>(t, _). t \<notin> set expired) jobs\<rparr>)"

text \<open>The oldest terminal record by \<open>updated_at\<close>, the track id breaking ties, goes.\<close>

definition evict_one_terminal :: "scan_store \<Rightarrow> bool \<times> scan_store" where
  "evict_one_terminal s =
     (let terminal = [(job_updated_at r, t). (t, r) \<leftarrow> st_jobs s, is_terminal r]
      in case sort terminal of
           [] \<Rightarrow> (False, s)
         | (_, t) # _ \<Rightarrow> (True, s\<lparr>st_jobs := AList.delete t (st_jobs s)\<rparr>))"


subsection \<open>Operations\<close>

definition new_job :: "scan_store \<Rightarrow> real \<Rightarrow> pystr \<Rightarrow> pystr \<Rightarrow> scan_rec" where
  "new_job s now track_id owner_token =
     \<lparr>job_track_id = track_id, job_workspace = st_workspace s, job_owner_token = owner_token,
      job_status = RUNNING, job_counts = [], job_samples = new_samples, job_created_at = now,
      job_updated_at = now, job_lease_expires_at = now + st_lease_seconds s, job_version = 1,
      job_message = [], job_counters_dropped = 0\<rparr>"

definition scan_create :: "scan_store \<Rightarrow> real \<Rightarrow> pystr \<Rightarrow> pystr \<Rightarrow> scan_store \<times> create_result" where
  "scan_create s0 now track_id owner_token =
     (if key_bytes track_id > st_identifier_max_bytes s0 \<or> key_bytes owner_token > st_identifier_max_bytes s0
      then (s0, \<lparr>cr_outcome = INVALID_IDENTIFIER, cr_record = None\<rparr>)
      else
       let s = reap now s0
       in case map_of (st_jobs s) track_id of
            Some existing \<Rightarrow> (s, \<lparr>cr_outcome = ALREADY_EXISTS, cr_record = Some (to_public existing)\<rparr>)
          | None \<Rightarrow>
             let r = new_job s now track_id owner_token
             in if approx_bytes r > st_record_max_bytes s
                then (s, \<lparr>cr_outcome = INVALID_IDENTIFIER, cr_record = None\<rparr>)
                else
                 let (room, s1) = (if int (length (st_jobs s)) \<ge> st_capacity s
                                   then evict_one_terminal s else (True, s))
                 in if \<not> room then (s1, \<lparr>cr_outcome = CAPACITY_EXCEEDED, cr_record = None\<rparr>)
                    else (s1\<lparr>st_jobs := AList.update track_id r (st_jobs s1)\<rparr>,
                          \<lparr>cr_outcome = ACCEPTED, cr_record = Some (to_public r)\<rparr>))"

text \<open>A delta as the client sent it: a Python \<^verbatim>\<open>bool\<close> or a non-integer is skipped.\<close>

datatype delta = DInt int | DBool bool | DOther

definition apply_delta :: "scan_store \<Rightarrow> pystr \<times> delta \<Rightarrow> scan_rec \<Rightarrow> scan_rec" where
  "apply_delta s kd r =
     (case kd of (key, DInt delta) \<Rightarrow>
        if \<bar>delta\<bar> > st_counter_value_max s
        then r\<lparr>job_counters_dropped := job_counters_dropped r + 1\<rparr>
        else (case map_of (job_counts r) key of
            Some v \<Rightarrow>
              if \<bar>v + delta\<bar> > st_counter_value_max s
              then r\<lparr>job_counters_dropped := job_counters_dropped r + 1\<rparr>
              else r\<lparr>job_counts := AList.update key (v + delta) (job_counts r)\<rparr>
          | None \<Rightarrow>
              if key_bytes key > st_counter_key_max_bytes s
                 \<or> int (length (job_counts r)) \<ge> st_max_counter_keys s
                 \<or> approx_bytes r + key_bytes key + 8 > st_record_max_bytes s
              then r\<lparr>job_counters_dropped := job_counters_dropped r + 1\<rparr>
              else r\<lparr>job_counts := AList.update key delta (job_counts r)\<rparr>)
      | _ \<Rightarrow> r)"

definition apply_sample :: "scan_store \<Rightarrow> (pystr \<times> pystr) option \<Rightarrow> scan_rec \<Rightarrow> scan_rec" where
  "apply_sample s sample r =
     (case sample of None \<Rightarrow> r
      | Some (bucket_name, text) \<Rightarrow>
         (case map_of (job_samples r) bucket_name of None \<Rightarrow> r
          | Some bucket \<Rightarrow>
             let (capped, was_cut) = cap_sample text (st_sample_max_bytes s);
                 would_add = key_bytes capped;
                 bucket' =
                   (if int (length (sb_items bucket)) \<ge> st_sample_limit s
                    then bucket\<lparr>sb_dropped := sb_dropped bucket + 1\<rparr>
                    else if approx_bytes r + would_add > st_record_max_bytes s
                    then bucket\<lparr>sb_dropped := sb_dropped bucket + 1\<rparr>
                    else bucket\<lparr>sb_items := sb_items bucket @ [capped],
                                sb_truncated := sb_truncated bucket \<or> was_cut\<rparr>)
             in r\<lparr>job_samples := AList.update bucket_name bucket' (job_samples r)\<rparr>))"

definition refuse :: "update_conflict \<Rightarrow> public_rec option \<Rightarrow> update_result" where
  "refuse c p = \<lparr>ur_ok = False, ur_conflict = Some c, ur_record = p\<rparr>"

definition put_job :: "pystr \<Rightarrow> scan_rec \<Rightarrow> scan_store \<Rightarrow> scan_store" where
  "put_job t r s = s\<lparr>st_jobs := AList.update t r (st_jobs s)\<rparr>"

text \<open>
  The guards shared by \<^verbatim>\<open>update\<close> and \<^verbatim>\<open>set_status\<close>, in the code's
  order: the conflict, if any. They look at the record after a lease expiry was applied.
\<close>

definition cas_conflict :: "scan_rec \<Rightarrow> pystr \<Rightarrow> int \<Rightarrow> update_result option" where
  "cas_conflict r owner_token expected_version =
     (if job_owner_token r \<noteq> owner_token then Some (refuse OWNER None)
      else if job_status r \<noteq> RUNNING then Some (refuse TERMINAL (Some (to_public r)))
      else if job_version r \<noteq> expected_version then Some (refuse VERSION (Some (to_public r)))
      else None)"

definition scan_update :: "scan_store \<Rightarrow> real \<Rightarrow> pystr \<Rightarrow> pystr \<Rightarrow> (pystr, delta) dict \<Rightarrow>
    (pystr \<times> pystr) option \<Rightarrow> int \<Rightarrow> scan_store \<times> update_result" where
  "scan_update s now track_id owner_token count_deltas sample expected_version =
     (case map_of (st_jobs s) track_id of None \<Rightarrow> (s, refuse NOT_FOUND None)
      | Some r0 \<Rightarrow>
         let r = maybe_abandon s now r0
         in case cas_conflict r owner_token expected_version of
              Some refusal \<Rightarrow> (put_job track_id r s, refusal)
            | None \<Rightarrow>
               let r1 = apply_sample s sample (fold (apply_delta s) count_deltas r);
                   r2 = r1\<lparr>job_version := job_version r1 + 1, job_updated_at := now,
                           job_lease_expires_at := now + st_lease_seconds s\<rparr>
               in (put_job track_id r2 s,
                   \<lparr>ur_ok = True, ur_conflict = None, ur_record = Some (to_public r2)\<rparr>))"

text \<open>The transition to a terminal status that \<^verbatim>\<open>set_status\<close> and \<^verbatim>\<open>cancel\<close> share.\<close>

definition finish_job :: "scan_store \<Rightarrow> real \<Rightarrow> scan_status \<Rightarrow> pystr \<Rightarrow> scan_rec \<Rightarrow> scan_rec" where
  "finish_job s now st message r =
     (let r1 = r\<lparr>job_status := st, job_updated_at := now, job_version := job_version r + 1\<rparr>
      in if message \<noteq> [] then r1\<lparr>job_message := fit_message s r1 message\<rparr> else r1)"

definition scan_set_status :: "scan_store \<Rightarrow> real \<Rightarrow> pystr \<Rightarrow> pystr \<Rightarrow> scan_status \<Rightarrow> int \<Rightarrow> pystr \<Rightarrow>
    scan_store \<times> update_result" where
  "scan_set_status s now track_id owner_token st expected_version message =
     (if st \<notin> set terminal_statuses then (s, refuse INVALID_STATUS None)
      else case map_of (st_jobs s) track_id of None \<Rightarrow> (s, refuse NOT_FOUND None)
      | Some r0 \<Rightarrow>
         let r = maybe_abandon s now r0
         in case cas_conflict r owner_token expected_version of
              Some refusal \<Rightarrow> (put_job track_id r s, refusal)
            | None \<Rightarrow>
               let r2 = finish_job s now st message r
               in (put_job track_id r2 s,
                   \<lparr>ur_ok = True, ur_conflict = None, ur_record = Some (to_public r2)\<rparr>))"

definition scan_get :: "scan_store \<Rightarrow> real \<Rightarrow> pystr \<Rightarrow> scan_store \<times> public_rec option" where
  "scan_get s now track_id =
     (case map_of (st_jobs s) track_id of None \<Rightarrow> (s, None)
      | Some r0 \<Rightarrow> let r = maybe_abandon s now r0 in (put_job track_id r s, Some (to_public r)))"

definition scan_cancel :: "scan_store \<Rightarrow> real \<Rightarrow> pystr \<Rightarrow> pystr \<Rightarrow> pystr \<Rightarrow> scan_store \<times> update_result" where
  "scan_cancel s now track_id owner_token message =
     (case map_of (st_jobs s) track_id of None \<Rightarrow> (s, refuse NOT_FOUND None)
      | Some r \<Rightarrow>
         if job_owner_token r \<noteq> owner_token then (s, refuse OWNER None)
         else if job_status r \<noteq> RUNNING
         then (s, \<lparr>ur_ok = True, ur_conflict = Some TERMINAL, ur_record = Some (to_public r)\<rparr>)
         else let r2 = finish_job s now CANCELLED message r
              in (put_job track_id r2 s,
                  \<lparr>ur_ok = True, ur_conflict = None, ur_record = Some (to_public r2)\<rparr>))"

definition scan_remove_terminal :: "scan_store \<Rightarrow> pystr \<Rightarrow> scan_store \<times> bool" where
  "scan_remove_terminal s track_id =
     (case map_of (st_jobs s) track_id of None \<Rightarrow> (s, False)
      | Some r \<Rightarrow> if \<not> is_terminal r then (s, False)
                 else (s\<lparr>st_jobs := AList.delete track_id (st_jobs s)\<rparr>, True))"

definition scan_snapshot :: "scan_store \<Rightarrow> real \<Rightarrow> scan_store \<times> public_rec list" where
  "scan_snapshot s now = (let s1 = reap now s in (s1, map (\<lambda>(_, r). to_public r) (st_jobs s1)))"


subsection \<open>The bounds a record keeps\<close>

definition counts_ok :: "scan_store \<Rightarrow> scan_rec \<Rightarrow> bool" where
  "counts_ok s r \<longleftrightarrow>
     keys_distinct (job_counts r) \<and> int (length (job_counts r)) \<le> st_max_counter_keys s \<and>
     (\<forall>(k, v) \<in> set (job_counts r). key_bytes k \<le> st_counter_key_max_bytes s \<and> \<bar>v\<bar> \<le> st_counter_value_max s)"

definition bucket_ok :: "scan_store \<Rightarrow> sample_bucket \<Rightarrow> bool" where
  "bucket_ok s b \<longleftrightarrow> int (length (sb_items b)) \<le> st_sample_limit s \<and>
     (\<forall>t \<in> set (sb_items b). key_bytes t \<le> st_sample_max_bytes s)"

definition samples_ok :: "scan_store \<Rightarrow> scan_rec \<Rightarrow> bool" where
  "samples_ok s r \<longleftrightarrow> map fst (job_samples r) = sample_buckets \<and>
     (\<forall>(_, b) \<in> set (job_samples r). bucket_ok s b)"

definition scalars_ok :: "scan_store \<Rightarrow> scan_rec \<Rightarrow> bool" where
  "scalars_ok s r \<longleftrightarrow> key_bytes (job_message r) \<le> st_sample_max_bytes s \<and>
     key_bytes (job_track_id r) \<le> st_identifier_max_bytes s \<and>
     key_bytes (job_owner_token r) \<le> st_identifier_max_bytes s \<and> 1 \<le> job_version r"

definition rec_ok :: "scan_store \<Rightarrow> scan_rec \<Rightarrow> bool" where
  "rec_ok s r \<longleftrightarrow> approx_bytes r \<le> st_record_max_bytes s \<and> counts_ok s r \<and> samples_ok s r \<and> scalars_ok s r"

definition limits_ok :: "scan_store \<Rightarrow> bool" where
  "limits_ok s \<longleftrightarrow> 1 \<le> st_capacity s \<and> 0 \<le> st_sample_limit s \<and> 1 \<le> st_sample_max_bytes s \<and>
     1 \<le> st_max_counter_keys s"

definition store_ok :: "scan_store \<Rightarrow> bool" where
  "store_ok s \<longleftrightarrow> limits_ok s \<and> keys_distinct (st_jobs s) \<and> int (length (st_jobs s)) \<le> st_capacity s \<and>
     (\<forall>(t, r) \<in> set (st_jobs s). job_track_id r = t \<and> rec_ok s r)"

lemmas rec_parts = counts_ok_def samples_ok_def scalars_ok_def

lemma key_bytes_nonneg [simp]: "0 \<le> key_bytes k"
  by (simp add: key_bytes_def)

lemma key_bytes_Nil [simp]: "key_bytes [] = 0"
  by (simp add: key_bytes_def)

lemma status_max_bytes_eq: "status_max_bytes = 9"
  by (simp add: status_max_bytes_def all_statuses_def lit_def utf8_def enc_cp_def)

lemma status_fits: "int (length (utf8 (status_value st))) \<le> status_max_bytes"
  by (cases st) (simp_all add: status_max_bytes_eq lit_def utf8_def enc_cp_def)

lemma cap_sample_bytes: "0 \<le> m \<Longrightarrow> key_bytes (fst (cap_sample t m)) \<le> m"
  using length_utf8_decode[of "take (nat m) (utf8 t)"]
  by (auto simp: cap_sample_def key_bytes_def Let_def)

text \<open>The size of a record is a function of what is written to it.\<close>

lemma approx_bytes_frame [simp]:
  "approx_bytes (r\<lparr>job_status := x\<rparr>) = approx_bytes r"
  "approx_bytes (r\<lparr>job_updated_at := t\<rparr>) = approx_bytes r"
  "approx_bytes (r\<lparr>job_version := n\<rparr>) = approx_bytes r"
  "approx_bytes (r\<lparr>job_lease_expires_at := t\<rparr>) = approx_bytes r"
  "approx_bytes (r\<lparr>job_counters_dropped := n\<rparr>) = approx_bytes r"
  by (simp_all add: approx_bytes_def)

lemma approx_bytes_message:
  "approx_bytes (r\<lparr>job_message := m\<rparr>) = approx_bytes r - key_bytes (job_message r) + key_bytes m"
  by (simp add: approx_bytes_def)

lemma approx_bytes_counts:
  "approx_bytes (r\<lparr>job_counts := AList.update k v (job_counts r)\<rparr>) =
     approx_bytes r + (if map_of (job_counts r) k = None then key_bytes k + 8 else 0)"
  by (simp add: approx_bytes_def sum_dict_update_key[where f = "\<lambda>k. key_bytes k + 8"])

lemma approx_bytes_samples:
  "map_of (job_samples r) k = Some b \<Longrightarrow>
   approx_bytes (r\<lparr>job_samples := AList.update k b' (job_samples r)\<rparr>) =
     approx_bytes r - bucket_bytes b + bucket_bytes b'"
  by (simp add: approx_bytes_def sum_dict_update_value)

text \<open>Every write to a record keeps its bounds.\<close>

lemma rec_ok_frame [simp]:
  "rec_ok s (r\<lparr>job_status := x\<rparr>) = rec_ok s r"
  "rec_ok s (r\<lparr>job_updated_at := t\<rparr>) = rec_ok s r"
  "rec_ok s (r\<lparr>job_lease_expires_at := t\<rparr>) = rec_ok s r"
  "rec_ok s (r\<lparr>job_counters_dropped := n\<rparr>) = rec_ok s r"
  by (simp_all add: rec_ok_def rec_parts)

lemma rec_ok_version: "rec_ok s r \<Longrightarrow> 1 \<le> n \<Longrightarrow> rec_ok s (r\<lparr>job_version := n\<rparr>)"
  by (simp add: rec_ok_def rec_parts)

lemma rec_ok_next_version: "rec_ok s r \<Longrightarrow> 1 \<le> job_version r + 1"
  by (simp add: rec_ok_def rec_parts)

lemma fit_message_bytes:
  assumes "limits_ok s" and "rec_ok s r"
  shows "key_bytes (fit_message s r m) \<le> st_sample_max_bytes s"
    and "approx_bytes r - key_bytes (job_message r) + key_bytes (fit_message s r m) \<le> st_record_max_bytes s"
proof -
  define remaining where "remaining = st_record_max_bytes s - (approx_bytes r - key_bytes (job_message r))"
  define budget where "budget = min (st_sample_max_bytes s) remaining"
  have "fit_message s r m = (if budget \<le> 0 then [] else fst (cap_sample m budget))"
    by (simp add: fit_message_def budget_def remaining_def Let_def)
  then have "key_bytes (fit_message s r m) \<le> max 0 budget"
    by (cases "budget \<le> 0") (simp_all add: cap_sample_bytes le_max_iff_disj)
  moreover have "0 \<le> remaining"
    using assms(2) key_bytes_nonneg[of "job_message r"] unfolding rec_ok_def remaining_def by linarith
  moreover have "0 \<le> st_sample_max_bytes s" using assms(1) by (simp add: limits_ok_def)
  ultimately show "key_bytes (fit_message s r m) \<le> st_sample_max_bytes s"
    and "approx_bytes r - key_bytes (job_message r) + key_bytes (fit_message s r m) \<le> st_record_max_bytes s"
    by (simp_all add: budget_def remaining_def)
qed

lemma rec_ok_fit_message:
  "limits_ok s \<Longrightarrow> rec_ok s r \<Longrightarrow> rec_ok s (r\<lparr>job_message := fit_message s r m\<rparr>)"
  using fit_message_bytes[of s r m] by (simp add: rec_ok_def approx_bytes_message) (simp add: rec_parts)

lemma rec_ok_maybe_abandon: "limits_ok s \<Longrightarrow> rec_ok s r \<Longrightarrow> rec_ok s (maybe_abandon s now r)"
  using rec_ok_next_version[of s r]
  by (simp add: maybe_abandon_def Let_def rec_ok_fit_message rec_ok_version)

lemma rec_ok_finish_job: "limits_ok s \<Longrightarrow> rec_ok s r \<Longrightarrow> rec_ok s (finish_job s now st m r)"
  using rec_ok_next_version[of s r]
  by (simp add: finish_job_def Let_def rec_ok_fit_message rec_ok_version)

lemma rec_ok_apply_delta:
  assumes "rec_ok s r"
  shows "rec_ok s (apply_delta s kd r)"
proof (cases "snd kd")
  case (DInt delta)
  obtain key where kd: "kd = (key, DInt delta)" using DInt by (cases kd) auto
  from assms have
    counts: "keys_distinct (job_counts r)" "int (length (job_counts r)) \<le> st_max_counter_keys s"
      "\<forall>(k, v) \<in> set (job_counts r). key_bytes k \<le> st_counter_key_max_bytes s \<and> \<bar>v\<bar> \<le> st_counter_value_max s"
    by (auto simp: rec_ok_def counts_ok_def)
  show ?thesis
  proof (cases "map_of (job_counts r) key")
    case None
    with assms counts show ?thesis
      unfolding kd by (auto simp: apply_delta_def rec_ok_def approx_bytes_counts rec_parts
          set_dict_update length_dict_update)
  next
    case (Some v)
    with counts have "key_bytes key \<le> st_counter_key_max_bytes s"
      by (auto dest!: map_of_SomeD)
    with Some assms counts show ?thesis
      unfolding kd by (auto simp: apply_delta_def rec_ok_def approx_bytes_counts rec_parts
          set_dict_update length_dict_update)
  qed
qed (use assms in \<open>auto simp: apply_delta_def split: prod.splits delta.splits\<close>)

lemma rec_ok_apply_deltas: "rec_ok s r \<Longrightarrow> rec_ok s (fold (apply_delta s) ds r)"
  by (induction ds arbitrary: r) (auto simp: rec_ok_apply_delta)

lemma rec_ok_put_bucket:
  assumes "rec_ok s r" and "map_of (job_samples r) k = Some b" and "bucket_ok s b'"
    and "approx_bytes r - bucket_bytes b + bucket_bytes b' \<le> st_record_max_bytes s"
  shows "rec_ok s (r\<lparr>job_samples := AList.update k b' (job_samples r)\<rparr>)"
proof -
  have "\<forall>(_, b) \<in> set (AList.update k b' (job_samples r)). bucket_ok s b"
    using assms(1,3) set_dict_update_subset[of k b' "job_samples r"]
    by (fastforce simp: rec_ok_def samples_ok_def)
  with assms show ?thesis
    by (simp add: rec_ok_def approx_bytes_samples) (simp add: rec_parts map_fst_dict_update)
qed

lemma rec_ok_apply_sample:
  assumes "limits_ok s" and "rec_ok s r"
  shows "rec_ok s (apply_sample s sample r)"
proof (cases "\<exists>k text b. sample = Some (k, text) \<and> map_of (job_samples r) k = Some b")
  case False
  with assms show ?thesis by (auto simp: apply_sample_def split: option.splits)
next
  case True
  then obtain k body b where smp: "sample = Some (k, body)" and b: "map_of (job_samples r) k = Some b"
    by blast
  obtain capped was_cut where cap: "cap_sample body (st_sample_max_bytes s) = (capped, was_cut)"
    by fastforce
  have fits: "key_bytes capped \<le> st_sample_max_bytes s"
    using cap_sample_bytes[of "st_sample_max_bytes s" body] assms(1) cap by (simp add: limits_ok_def)
  let ?b' = "if int (length (sb_items b)) \<ge> st_sample_limit s
       then b\<lparr>sb_dropped := sb_dropped b + 1\<rparr>
       else if approx_bytes r + key_bytes capped > st_record_max_bytes s
       then b\<lparr>sb_dropped := sb_dropped b + 1\<rparr>
       else b\<lparr>sb_items := sb_items b @ [capped], sb_truncated := sb_truncated b \<or> was_cut\<rparr>"
  have eq: "apply_sample s sample r = r\<lparr>job_samples := AList.update k ?b' (job_samples r)\<rparr>"
    using smp b cap by (simp add: apply_sample_def Let_def)
  have bytes: "approx_bytes r - bucket_bytes b + bucket_bytes ?b' \<le> st_record_max_bytes s"
    using assms(2) by (auto simp: bucket_bytes_def rec_ok_def)
  from b assms(2) have "bucket_ok s b"
    by (auto simp: rec_ok_def samples_ok_def dest!: map_of_SomeD)
  with fits have "bucket_ok s ?b'"
    by (auto simp: bucket_ok_def)
  with bytes assms(2) b show ?thesis
    unfolding eq by (intro rec_ok_put_bucket)
qed


subsection \<open>The bounds the store keeps\<close>

lemma jobs_frame [simp]:
  "rec_ok (s\<lparr>st_jobs := j\<rparr>) r = rec_ok s r"
  "limits_ok (s\<lparr>st_jobs := j\<rparr>) = limits_ok s"
  "maybe_abandon (s\<lparr>st_jobs := j\<rparr>) now r = maybe_abandon s now r"
  by (simp_all add: rec_ok_def rec_parts bucket_ok_def limits_ok_def maybe_abandon_def fit_message_def Let_def)

lemma maybe_abandon_identity [simp]:
  "job_track_id (maybe_abandon s now r) = job_track_id r"
  "job_owner_token (maybe_abandon s now r) = job_owner_token r"
  by (simp_all add: maybe_abandon_def Let_def)

lemma apply_delta_identity [simp]:
  "job_track_id (apply_delta s kd r) = job_track_id r"
  "job_owner_token (apply_delta s kd r) = job_owner_token r"
  "job_status (apply_delta s kd r) = job_status r"
  "job_version (apply_delta s kd r) = job_version r"
  by (simp_all add: apply_delta_def split: prod.splits delta.splits option.splits)

lemma apply_deltas_identity [simp]:
  "job_track_id (fold (apply_delta s) ds r) = job_track_id r"
  "job_owner_token (fold (apply_delta s) ds r) = job_owner_token r"
  "job_status (fold (apply_delta s) ds r) = job_status r"
  "job_version (fold (apply_delta s) ds r) = job_version r"
  by (induction ds arbitrary: r) simp_all

lemma apply_sample_identity [simp]:
  "job_track_id (apply_sample s smp r) = job_track_id r"
  "job_owner_token (apply_sample s smp r) = job_owner_token r"
  "job_status (apply_sample s smp r) = job_status r"
  "job_version (apply_sample s smp r) = job_version r"
  by (simp_all add: apply_sample_def Let_def split: prod.splits option.splits)

lemma finish_job_identity [simp]:
  "job_track_id (finish_job s now st m r) = job_track_id r"
  "job_owner_token (finish_job s now st m r) = job_owner_token r"
  "job_status (finish_job s now st m r) = st"
  "job_version (finish_job s now st m r) = job_version r + 1"
  by (simp_all add: finish_job_def Let_def)

lemma put_job_lookup [simp]:
  "map_of (st_jobs (put_job t r s)) u = (if u = t then Some r else map_of (st_jobs s) u)"
  by (simp add: put_job_def)

lemma store_ok_lookup:
  "store_ok s \<Longrightarrow> map_of (st_jobs s) t = Some r \<Longrightarrow> rec_ok s r \<and> job_track_id r = t \<and> limits_ok s"
  by (auto simp: store_ok_def dest!: map_of_SomeD)

lemma store_ok_put_job:
  assumes "store_ok s" and "map_of (st_jobs s) t = Some r0" and "rec_ok s r" and "job_track_id r = t"
  shows "store_ok (put_job t r s)"
  using assms set_dict_update_subset[of t r "st_jobs s"]
  by (fastforce simp: store_ok_def put_job_def length_dict_update)

lemma store_ok_filter: "store_ok s \<Longrightarrow> store_ok (s\<lparr>st_jobs := filter P (st_jobs s)\<rparr>)"
  by (auto simp: store_ok_def distinct_map_filter intro: order_trans[OF of_nat_mono[OF length_filter_le]])

lemma store_ok_delete: "store_ok s \<Longrightarrow> store_ok (s\<lparr>st_jobs := AList.delete t (st_jobs s)\<rparr>)"
  unfolding AList.delete_eq by (rule store_ok_filter)

lemma map_of_map_dict: "map_of (map (\<lambda>(k, v). (k, f v)) d) k = map_option f (map_of d k)"
  by (induction d) auto

lemma store_ok_map_abandon:
  "store_ok s \<Longrightarrow> store_ok (s\<lparr>st_jobs := map (\<lambda>(t, r). (t, maybe_abandon s now r)) (st_jobs s)\<rparr>)"
  by (fastforce simp: store_ok_def rec_ok_maybe_abandon case_prod_beta comp_def)

lemma store_ok_reap: "store_ok s \<Longrightarrow> store_ok (reap now s)"
  using store_ok_filter[OF store_ok_map_abandon] by (simp add: reap_def Let_def)

lemma reap_limits [simp]:
  "st_capacity (reap now s) = st_capacity s" "limits_ok (reap now s) = limits_ok s"
  "st_identifier_max_bytes (reap now s) = st_identifier_max_bytes s"
  "st_record_max_bytes (reap now s) = st_record_max_bytes s"
  "rec_ok (reap now s) r = rec_ok s r"
  by (simp_all add: reap_def Let_def)

lemma evict_one_terminal_cases:
  assumes "evict_one_terminal s = (ok, s1)"
  obtains "\<not> ok" "s1 = s" "\<forall>(t, r) \<in> set (st_jobs s). \<not> is_terminal r"
  | t r where "ok" "(t, r) \<in> set (st_jobs s)" "is_terminal r"
      "s1 = s\<lparr>st_jobs := AList.delete t (st_jobs s)\<rparr>"
      "\<forall>(t', r') \<in> set (st_jobs s). is_terminal r' \<longrightarrow> (job_updated_at r, t) \<le> (job_updated_at r', t')"
proof -
  let ?terminal = "[(job_updated_at r, t). (t, r) \<leftarrow> st_jobs s, is_terminal r]"
  have set: "set ?terminal = {(job_updated_at r, t) | t r. (t, r) \<in> set (st_jobs s) \<and> is_terminal r}"
    by (auto split: if_splits)
  show ?thesis
  proof (cases "sort ?terminal")
    case Nil
    then have "set (sort ?terminal) = {}" by (simp only: list.set)
    then have "set ?terminal = {}" by (simp only: set_sort)
    then have "\<forall>(t, r) \<in> set (st_jobs s). \<not> is_terminal r" unfolding set by blast
    with Nil assms that(1) show ?thesis by (simp add: evict_one_terminal_def)
  next
    case (Cons p ps)
    then obtain u t where p: "p = (u, t)" by (cases p)
    have least: "\<forall>q \<in> set ?terminal. p \<le> q"
    proof -
      from sorted_sort[of ?terminal] have "\<forall>q \<in> set (sort ?terminal). p \<le> q"
        unfolding Cons by simp
      then show ?thesis by (simp only: set_sort)
    qed
    have "p \<in> set (sort ?terminal)" unfolding Cons by simp
    then have "(u, t) \<in> set ?terminal" by (simp only: set_sort p)
    then obtain r where r: "(t, r) \<in> set (st_jobs s)" "is_terminal r" "u = job_updated_at r"
      unfolding set by blast
    have "\<forall>(t', r') \<in> set (st_jobs s). is_terminal r' \<longrightarrow> (job_updated_at r, t) \<le> (job_updated_at r', t')"
      using least p r(3) unfolding set by blast
    with Cons p r assms that(2)[of t r] show ?thesis by (simp add: evict_one_terminal_def)
  qed
qed

lemma store_ok_evict: "store_ok s \<Longrightarrow> evict_one_terminal s = (ok, s1) \<Longrightarrow> store_ok s1"
  by (erule evict_one_terminal_cases) (auto simp: store_ok_delete)

lemma evict_makes_room:
  assumes "store_ok s" and "evict_one_terminal s = (True, s1)"
  shows "int (length (st_jobs s1)) < st_capacity s"
  using assms(2)
proof (cases rule: evict_one_terminal_cases)
  case (2 t r)
  then have "t \<in> fst ` set (st_jobs s)" by (auto intro: rev_image_eqI)
  then have "map_of (st_jobs s) t \<noteq> None" by (simp add: map_of_eq_None_iff)
  then show ?thesis
    using length_dict_delete_less[of "st_jobs s" t] 2(4) assms(1) by (simp add: store_ok_def)
qed simp


subsection \<open>Every operation keeps the bounds\<close>

datatype scan_op =
    OpCreate pystr pystr
  | OpUpdate pystr pystr "(pystr, delta) dict" "(pystr \<times> pystr) option" int
  | OpSetStatus pystr pystr scan_status int pystr
  | OpGet pystr
  | OpCancel pystr pystr pystr
  | OpRemoveTerminal pystr
  | OpSnapshot

fun scan_step :: "scan_store \<Rightarrow> real \<times> scan_op \<Rightarrow> scan_store" where
  "scan_step s (now, OpCreate t ow) = fst (scan_create s now t ow)"
| "scan_step s (now, OpUpdate t ow ds smp v) = fst (scan_update s now t ow ds smp v)"
| "scan_step s (now, OpSetStatus t ow st v m) = fst (scan_set_status s now t ow st v m)"
| "scan_step s (now, OpGet t) = fst (scan_get s now t)"
| "scan_step s (now, OpCancel t ow m) = fst (scan_cancel s now t ow m)"
| "scan_step s (now, OpRemoveTerminal t) = fst (scan_remove_terminal s t)"
| "scan_step s (now, OpSnapshot) = fst (scan_snapshot s now)"

lemma new_job_ok:
  assumes "limits_ok s" and "key_bytes t \<le> st_identifier_max_bytes s"
    and "key_bytes ow \<le> st_identifier_max_bytes s" and "approx_bytes (new_job s now t ow) \<le> st_record_max_bytes s"
  shows "rec_ok s (new_job s now t ow)"
  using assms by (simp add: rec_ok_def rec_parts new_job_def new_samples_def limits_ok_def bucket_ok_def comp_def)

lemma store_ok_insert:
  assumes "store_ok s" and "map_of (st_jobs s) t = None" and "int (length (st_jobs s)) < st_capacity s"
    and "rec_ok s r" and "job_track_id r = t"
  shows "store_ok (s\<lparr>st_jobs := AList.update t r (st_jobs s)\<rparr>)"
  using assms set_dict_update_subset[of t r "st_jobs s"]
  by (fastforce simp: store_ok_def length_dict_update)

lemma evict_frame:
  assumes "evict_one_terminal s = (ok, s1)"
  shows "map_of (st_jobs s) t = None \<Longrightarrow> map_of (st_jobs s1) t = None"
    and "rec_ok s1 r = rec_ok s r" and "st_capacity s1 = st_capacity s"
  using assms by (auto elim!: evict_one_terminal_cases simp: dict_lookup_delete)

text \<open>What a create can end as, one case per return of the code.\<close>

lemma scan_create_cases:
  assumes "scan_create s0 now t ow = (s', res)"
  obtains
    (invalid) "st_identifier_max_bytes s0 < key_bytes t \<or> st_identifier_max_bytes s0 < key_bytes ow"
      "s' = s0" "cr_outcome res = INVALID_IDENTIFIER"
  | (exists) r where "map_of (st_jobs (reap now s0)) t = Some r" "s' = reap now s0"
      "cr_outcome res = ALREADY_EXISTS" "cr_record res = Some (to_public r)"
  | (oversize) "map_of (st_jobs (reap now s0)) t = None" "s' = reap now s0" "cr_outcome res = INVALID_IDENTIFIER"
  | (full) "map_of (st_jobs (reap now s0)) t = None" "cr_outcome res = CAPACITY_EXCEEDED"
      "st_capacity s0 \<le> int (length (st_jobs (reap now s0)))"
      "evict_one_terminal (reap now s0) = (False, s')"
  | (added) s1 where "map_of (st_jobs (reap now s0)) t = None" "cr_outcome res = ACCEPTED"
      "(if st_capacity s0 \<le> int (length (st_jobs (reap now s0)))
        then evict_one_terminal (reap now s0) else (True, reap now s0)) = (True, s1)"
      "s' = s1\<lparr>st_jobs := AList.update t (new_job (reap now s0) now t ow) (st_jobs s1)\<rparr>"
      "approx_bytes (new_job (reap now s0) now t ow) \<le> st_record_max_bytes s0"
      "key_bytes t \<le> st_identifier_max_bytes s0" "key_bytes ow \<le> st_identifier_max_bytes s0"
proof -
  let ?s = "reap now s0"
  let ?r = "new_job ?s now t ow"
  note eq = assms[unfolded scan_create_def Let_def, symmetric]
  show ?thesis
  proof (cases "st_identifier_max_bytes s0 < key_bytes t \<or> st_identifier_max_bytes s0 < key_bytes ow")
    case True
    with eq invalid show ?thesis by simp
  next
    case ids: False
    show ?thesis
    proof (cases "map_of (st_jobs ?s) t")
      case (Some r)
      with ids eq exists show ?thesis by simp
    next
      case None
      show ?thesis
      proof (cases "st_record_max_bytes s0 < approx_bytes ?r")
        case True
        with ids None eq oversize show ?thesis by simp
      next
        case False
        obtain room s1 where rm: "(if st_capacity s0 \<le> int (length (st_jobs ?s))
            then evict_one_terminal ?s else (True, ?s)) = (room, s1)" by fastforce
        from eq ids None False rm have "(s', res) =
          (if \<not> room then (s1, \<lparr>cr_outcome = CAPACITY_EXCEEDED, cr_record = None\<rparr>)
           else (s1\<lparr>st_jobs := AList.update t ?r (st_jobs s1)\<rparr>,
                 \<lparr>cr_outcome = ACCEPTED, cr_record = Some (to_public ?r)\<rparr>))" by simp
        with ids None False rm full added show ?thesis by (cases room) (auto split: if_splits)
      qed
    qed
  qed
qed

lemma store_ok_create:
  assumes "store_ok s0"
  shows "store_ok (fst (scan_create s0 now t ow))"
proof -
  obtain s' res where eq: "scan_create s0 now t ow = (s', res)" by fastforce
  let ?s = "reap now s0"
  let ?r = "new_job ?s now t ow"
  have s: "store_ok ?s" using assms by (rule store_ok_reap)
  from eq have "store_ok s'"
  proof (cases rule: scan_create_cases)
    case full
    with s show ?thesis by (auto intro: store_ok_evict)
  next
    case (added s1)
    have r: "rec_ok ?s ?r" "job_track_id ?r = t"
      using s added(5-7) new_job_ok[of ?s t ow now] by (simp_all add: store_ok_def new_job_def)
    show ?thesis
    proof (cases "st_capacity s0 \<le> int (length (st_jobs ?s))")
      case True
      with added have ev: "evict_one_terminal ?s = (True, s1)" by simp
      from store_ok_insert[OF store_ok_evict[OF s ev]] evict_frame[OF ev] evict_makes_room[OF s ev] added r
      show ?thesis by simp
    next
      case False
      then have "int (length (st_jobs ?s)) < st_capacity ?s" by simp
      from store_ok_insert[OF s added(1) this r] added(3,4) False show ?thesis by simp
    qed
  qed (use s assms in simp_all)
  with eq show ?thesis by simp
qed

lemma cas_conflict_None:
  "cas_conflict r ow v = None \<longleftrightarrow> job_owner_token r = ow \<and> job_status r = RUNNING \<and> job_version r = v"
  by (simp add: cas_conflict_def)

lemma store_ok_update: 
  assumes "store_ok s"
  shows "store_ok (fst (scan_update s now t ow ds smp v))"
proof (cases "map_of (st_jobs s) t")
  case None
  with assms show ?thesis by (simp add: scan_update_def)
next
  case (Some r0)
  have r0: "rec_ok s r0" "job_track_id r0 = t" and lim: "limits_ok s"
    using store_ok_lookup[OF assms Some] by auto
  have ab: "rec_ok s (maybe_abandon s now r0)" using rec_ok_maybe_abandon[OF lim r0(1)] .
  have up: "rec_ok s (apply_sample s smp (fold (apply_delta s) ds (maybe_abandon s now r0)))"
    using rec_ok_apply_sample[OF lim rec_ok_apply_deltas[OF ab]] .
  from Some assms r0 ab up rec_ok_next_version[OF ab] show ?thesis
    by (auto simp: scan_update_def Let_def rec_ok_version intro!: store_ok_put_job split: option.splits)
qed

lemma store_ok_set_status: 
  assumes "store_ok s"
  shows "store_ok (fst (scan_set_status s now t ow st v m))"
proof (cases "map_of (st_jobs s) t")
  case None
  with assms show ?thesis by (simp add: scan_set_status_def)
next
  case (Some r0)
  have r0: "rec_ok s r0" "job_track_id r0 = t" and lim: "limits_ok s"
    using store_ok_lookup[OF assms Some] by auto
  with Some assms rec_ok_maybe_abandon[OF lim r0(1), of now] show ?thesis
    by (auto simp: scan_set_status_def Let_def rec_ok_finish_job intro!: store_ok_put_job split: option.splits)
qed

lemma store_ok_get: "store_ok s \<Longrightarrow> store_ok (fst (scan_get s now t))"
  by (auto simp: scan_get_def Let_def rec_ok_maybe_abandon dest: store_ok_lookup
      intro!: store_ok_put_job split: option.splits)

lemma store_ok_cancel: "store_ok s \<Longrightarrow> store_ok (fst (scan_cancel s now t ow m))"
  by (auto simp: scan_cancel_def Let_def rec_ok_finish_job dest: store_ok_lookup
      intro!: store_ok_put_job split: option.splits)

lemma store_ok_remove: "store_ok s \<Longrightarrow> store_ok (fst (scan_remove_terminal s t))"
  by (auto simp: scan_remove_terminal_def store_ok_delete split: option.splits)

lemma store_ok_snapshot: "store_ok s \<Longrightarrow> store_ok (fst (scan_snapshot s now))"
  by (simp add: scan_snapshot_def Let_def store_ok_reap)

interpretation scan: guarded_component scan_step store_ok
proof unfold_locales
  fix s e
  assume "store_ok s"
  then show "store_ok (scan_step s e)"
    by (cases "(s, e)" rule: scan_step.cases)
      (simp_all add: store_ok_create store_ok_update store_ok_set_status store_ok_get
        store_ok_cancel store_ok_remove store_ok_snapshot)
qed

lemma store_ok_new: "store_ok (new_scan_store ws c sl sb rb mk kb vm ib ls ttl)"
  by (simp add: store_ok_def limits_ok_def new_scan_store_def)


subsection \<open>The Manager hub\<close>

text \<open>
  \<^verbatim>\<open>ScanJobStoreHub\<close>: one store per namespace, created with the defaults on
  first use. Every method is one call on the store of its namespace; a destructive clear puts
  a fresh store in its place.
\<close>

type_synonym scan_hub = "scan_store hub"

definition hub_store :: "scan_hub \<Rightarrow> pystr \<Rightarrow> scan_hub \<times> scan_store" where
  "hub_store h ns = hub_get_or_create default_scan_store h ns"

abbreviation on_store :: "(scan_store \<Rightarrow> scan_store \<times> 'r) \<Rightarrow> scan_hub \<Rightarrow> pystr \<Rightarrow> scan_hub \<times> 'r" where
  "on_store \<equiv> hub_call default_scan_store"

definition hub_create :: "scan_hub \<Rightarrow> real \<Rightarrow> pystr \<Rightarrow> pystr \<Rightarrow> pystr \<Rightarrow> scan_hub \<times> create_result" where
  "hub_create h now ns t ow = on_store (\<lambda>st. scan_create st now t ow) h ns"

definition hub_update :: "scan_hub \<Rightarrow> real \<Rightarrow> pystr \<Rightarrow> pystr \<Rightarrow> pystr \<Rightarrow> (pystr, delta) dict \<Rightarrow>
    (pystr \<times> pystr) option \<Rightarrow> int \<Rightarrow> scan_hub \<times> update_result" where
  "hub_update h now ns t ow ds smp v = on_store (\<lambda>st. scan_update st now t ow ds smp v) h ns"

definition hub_set_status :: "scan_hub \<Rightarrow> real \<Rightarrow> pystr \<Rightarrow> pystr \<Rightarrow> pystr \<Rightarrow> scan_status \<Rightarrow> int \<Rightarrow> pystr \<Rightarrow>
    scan_hub \<times> update_result" where
  "hub_set_status h now ns t ow st v m = on_store (\<lambda>s. scan_set_status s now t ow st v m) h ns"

definition hub_get :: "scan_hub \<Rightarrow> real \<Rightarrow> pystr \<Rightarrow> pystr \<Rightarrow> scan_hub \<times> public_rec option" where
  "hub_get h now ns t = on_store (\<lambda>st. scan_get st now t) h ns"

definition hub_cancel :: "scan_hub \<Rightarrow> real \<Rightarrow> pystr \<Rightarrow> pystr \<Rightarrow> pystr \<Rightarrow> pystr \<Rightarrow> scan_hub \<times> update_result" where
  "hub_cancel h now ns t ow m = on_store (\<lambda>st. scan_cancel st now t ow m) h ns"

definition hub_remove_terminal :: "scan_hub \<Rightarrow> pystr \<Rightarrow> pystr \<Rightarrow> scan_hub \<times> bool" where
  "hub_remove_terminal h ns t = on_store (\<lambda>st. scan_remove_terminal st t) h ns"

definition hub_snapshot :: "scan_hub \<Rightarrow> real \<Rightarrow> pystr \<Rightarrow> scan_hub \<times> public_rec list" where
  "hub_snapshot h now ns = on_store (\<lambda>st. scan_snapshot st now) h ns"

definition hub_clear :: "scan_hub \<Rightarrow> pystr \<Rightarrow> scan_hub" where
  "hub_clear h ns = AList.update ns (default_scan_store ns) h"

text \<open>One hub call: an operation at a clock reading, or \<open>None\<close> for a clear.\<close>

fun hub_step :: "scan_hub \<Rightarrow> pystr \<times> (real \<times> scan_op) option \<Rightarrow> scan_hub" where
  "hub_step h (ns, None) = hub_clear h ns"
| "hub_step h (ns, Some (now, OpCreate t ow)) = fst (hub_create h now ns t ow)"
| "hub_step h (ns, Some (now, OpUpdate t ow ds smp v)) = fst (hub_update h now ns t ow ds smp v)"
| "hub_step h (ns, Some (now, OpSetStatus t ow st v m)) = fst (hub_set_status h now ns t ow st v m)"
| "hub_step h (ns, Some (now, OpGet t)) = fst (hub_get h now ns t)"
| "hub_step h (ns, Some (now, OpCancel t ow m)) = fst (hub_cancel h now ns t ow m)"
| "hub_step h (ns, Some (now, OpRemoveTerminal t)) = fst (hub_remove_terminal h ns t)"
| "hub_step h (ns, Some (now, OpSnapshot)) = fst (hub_snapshot h now ns)"

text \<open>What a call does to the store of its namespace.\<close>

definition clear_or_step :: "pystr \<Rightarrow> scan_store \<Rightarrow> (real \<times> scan_op) option \<Rightarrow> scan_store" where
  "clear_or_step ns s call = (case call of None \<Rightarrow> default_scan_store ns | Some e \<Rightarrow> scan_step s e)"

lemmas hub_op_defs = hub_create_def hub_update_def hub_set_status_def hub_get_def hub_cancel_def
  hub_remove_terminal_def hub_snapshot_def hub_clear_def

lemma store_ok_default: "store_ok (default_scan_store ns)"
  by (simp add: default_scan_store_def store_ok_new)

interpretation scan_hub: namespaced_component clear_or_step store_ok default_scan_store hub_step
proof unfold_locales
  fix ns s e
  assume "store_ok s"
  then show "store_ok (clear_or_step ns s e)"
    by (simp add: clear_or_step_def store_ok_default scan.step_inv split: option.splits)
next
  fix h :: scan_hub and ns ns' and e :: "(real \<times> scan_op) option"
  show "hub_view default_scan_store (hub_step h (ns, e)) ns' =
      (if ns' = ns then clear_or_step ns (hub_view default_scan_store h ns) e
       else hub_view default_scan_store h ns')"
    by (cases "(h, ns, e)" rule: hub_step.cases) (simp_all add: hub_op_defs clear_or_step_def)
qed (rule store_ok_default)


subsection \<open>What an operation does to one record\<close>

text \<open>A terminal record, and a running one whose lease is live, are not touched by a reap, but for the TTL.\<close>

lemma maybe_abandon_stable:
  "is_terminal r \<Longrightarrow> maybe_abandon s now r = r"
  "now < job_lease_expires_at r \<Longrightarrow> maybe_abandon s now r = r"
  by (auto simp: maybe_abandon_def is_terminal_def terminal_statuses_def)

lemma running_not_terminal [simp]: "job_status r = RUNNING \<Longrightarrow> \<not> is_terminal r"
  by (simp add: is_terminal_def terminal_statuses_def)

lemma terminal_iff: "is_terminal r \<longleftrightarrow> job_status r \<noteq> RUNNING"
  by (cases "job_status r") (simp_all add: is_terminal_def terminal_statuses_def)

lemma map_of_filter_keys: "map_of (filter (\<lambda>(k, _). P k) d) k = (if P k then map_of d k else None)"
  by (induction d) auto

lemma reap_lookup:
  assumes "keys_distinct (st_jobs s)"
  shows "map_of (st_jobs (reap now s)) t =
    (case map_of (st_jobs s) t of None \<Rightarrow> None
     | Some r \<Rightarrow> (let r' = maybe_abandon s now r
                 in if is_terminal r' \<and> st_ttl_seconds s \<le> now - job_updated_at r' then None else Some r'))"
proof -
  let ?jobs = "map (\<lambda>(t, r). (t, maybe_abandon s now r)) (st_jobs s)"
  let ?old = "\<lambda>r. is_terminal r \<and> st_ttl_seconds s \<le> now - job_updated_at r"
  have "keys_distinct ?jobs" using assms by (simp add: comp_def case_prod_beta)
  then have "(\<exists>r. (t, r) \<in> set ?jobs \<and> ?old r) \<longleftrightarrow> (\<exists>r. map_of ?jobs t = Some r \<and> ?old r)"
    by (simp only: map_of_iff_in_set)
  moreover have "map_of (st_jobs (reap now s)) t =
     (if \<exists>r. (t, r) \<in> set ?jobs \<and> ?old r then None else map_of ?jobs t)"
    by (force simp: reap_def Let_def map_of_filter_keys case_prod_beta)
  ultimately show ?thesis
    by (auto simp: map_of_map_dict Let_def split: option.splits)
qed

lemma evict_keeps_running:
  assumes "evict_one_terminal s = (ok, s1)" and "keys_distinct (st_jobs s)"
    and "map_of (st_jobs s) t = Some r" and "\<not> is_terminal r"
  shows "map_of (st_jobs s1) t = Some r"
  using assms(1)
proof (cases rule: evict_one_terminal_cases)
  case (2 t' r')
  then have "map_of (st_jobs s) t' = Some r'" using assms(2) by simp
  with 2 assms(3,4) have "t \<noteq> t'" by auto
  with 2 assms show ?thesis by simp
qed (use assms in simp)

lemma evict_lookup:
  assumes "evict_one_terminal s = (ok, s1)"
  shows "map_of (st_jobs s1) t = None \<or> map_of (st_jobs s1) t = map_of (st_jobs s) t"
  using assms by (cases rule: evict_one_terminal_cases) (simp_all add: dict_lookup_delete)

lemma new_job_reap [simp]: "new_job (reap now s) = new_job s"
  by (intro ext) (simp add: new_job_def reap_def Let_def)

lemma create_lookup:
  assumes "map_of (st_jobs (fst (scan_create s now t' ow))) t = Some r1"
  shows "map_of (st_jobs s) t = Some r1 \<or> map_of (st_jobs (reap now s)) t = Some r1 \<or>
    t' = t \<and> r1 = new_job s now t ow"
proof -
  obtain s' res where eq: "scan_create s now t' ow = (s', res)" by fastforce
  with assms have r1: "map_of (st_jobs s') t = Some r1" by simp
  from eq show ?thesis
  proof (cases rule: scan_create_cases)
    case (added s1)
    then show ?thesis using r1 evict_lookup[of "reap now s" True s1 t]
      by (auto split: if_splits)
  next
    case full
    then show ?thesis using r1 evict_lookup[of "reap now s" False s' t] by auto
  qed (use r1 in auto)
qed

lemma create_keeps_running:
  assumes "store_ok s" and "map_of (st_jobs s) t = Some r" and "job_status r = RUNNING"
    and "now < job_lease_expires_at r"
  shows "map_of (st_jobs (fst (scan_create s now t' ow))) t = Some r"
proof -
  obtain s' res where eq: "scan_create s now t' ow = (s', res)" by fastforce
  have ok: "store_ok (reap now s)" using assms(1) by (rule store_ok_reap)
  have kept: "map_of (st_jobs (reap now s)) t = Some r"
    using assms by (subst reap_lookup) (auto simp: store_ok_def maybe_abandon_stable Let_def)
  have evicted: "map_of (st_jobs s1) t = Some r" if "evict_one_terminal (reap now s) = (b, s1)" for b s1
    using evict_keeps_running[OF that _ kept] ok assms(3) by (simp add: store_ok_def)
  from eq have "map_of (st_jobs s') t = Some r"
  proof (cases rule: scan_create_cases)
    case full
    then show ?thesis by (auto intro: evicted)
  next
    case (added s1)
    then have "t' \<noteq> t" using kept by auto
    with added show ?thesis using kept evicted[of True s1] by (auto split: if_splits)
  qed (use assms(2) kept in auto)
  with eq show ?thesis by simp
qed

text \<open>The owner token an operation presents; the others act for nobody.\<close>

fun presented_token :: "scan_op \<Rightarrow> pystr option" where
  "presented_token (OpUpdate t ow ds smp v) = Some ow"
| "presented_token (OpSetStatus t ow st v m) = Some ow"
| "presented_token (OpCancel t ow m) = Some ow"
| "presented_token e = None"

lemma cas_conflict_refuses:
  "job_owner_token r \<noteq> ow \<or> job_status r \<noteq> RUNNING \<or> job_version r \<noteq> v \<Longrightarrow>
     \<exists>res. cas_conflict r ow v = Some res \<and> \<not> ur_ok res"
  by (simp add: cas_conflict_def refuse_def)

subsection \<open>Properties\<close>

text \<open>
  C3: whatever sequence of operations clients issue, at whatever clock readings, every record
  of the store stays inside its byte ceiling, its counter and sample bounds and its identifier
  caps, the store never holds more records than its capacity, and each is filed under its own
  track id. No bound of the constructor's arguments is assumed.
\<close>

theorem scan_store_bounded:
  "store_ok (run scan_step (new_scan_store ws capacity sample_limit sample_max record_max counter_keys
     counter_key_max counter_value_max identifier_max lease ttl) ops)"
  by (rule scan.run_inv) (rule store_ok_new)

text \<open>
  the same through the Manager hub: in every namespace, after any sequence of hub calls to
  any namespaces (destructive clears included), the store is within the default bounds.
\<close>

theorem scan_hub_bounded: "store_ok (hub_view default_scan_store (run hub_step [] calls) ns)"
  by (rule scan_hub.hub_run_inv)

text \<open>A one-record store, running and then cancelled, on which the witnesses evaluate.\<close>

definition scan_ex :: scan_store where
  "scan_ex = run scan_step (new_scan_store (lit ''w'') 1 2 4 300 2 4 10 8 60 100)
     [(0, OpCreate (lit ''a'') (lit ''k''))]"

definition scan_ex_done :: scan_store where
  "scan_ex_done = run scan_step scan_ex [(1, OpCancel (lit ''a'') (lit ''k'') (lit ''stop''))]"

definition scan_ex_job :: scan_rec where
  "scan_ex_job = \<lparr>job_track_id = lit ''a'', job_workspace = lit ''w'', job_owner_token = lit ''k'',
     job_status = RUNNING, job_counts = [], job_samples = new_samples, job_created_at = 0,
     job_updated_at = 0, job_lease_expires_at = 60, job_version = 1, job_message = [],
     job_counters_dropped = 0\<rparr>"

definition scan_ex_done_job :: scan_rec where
  "scan_ex_done_job = scan_ex_job\<lparr>job_status := CANCELLED, job_updated_at := 1, job_version := 2,
     job_message := lit ''stop''\<rparr>"

lemma scan_ex_facts:
  "store_ok scan_ex" "store_ok scan_ex_done"
  "map_of (st_jobs scan_ex) (lit ''a'') = Some scan_ex_job"
  "map_of (st_jobs scan_ex_done) (lit ''a'') = Some scan_ex_done_job"
proof -
  show ok: "store_ok scan_ex"
    unfolding scan_ex_def by (rule scan.run_inv) (rule store_ok_new)
  show "store_ok scan_ex_done"
    unfolding scan_ex_done_def by (rule scan.run_inv) (rule ok)
  show "map_of (st_jobs scan_ex) (lit ''a'') = Some scan_ex_job"
    and "map_of (st_jobs scan_ex_done) (lit ''a'') = Some scan_ex_done_job"
    by code_simp+
qed

text \<open>
  a terminal status is final. Whatever operation follows, a job that has completed, failed,
  been cancelled or been abandoned is still the same record if it is still there, unless its
  track id was evicted and created anew by that very operation.
\<close>

theorem scan_terminal_final:
  assumes "store_ok s" and "map_of (st_jobs s) t = Some r" and "is_terminal r"
    and "map_of (st_jobs (scan_step s (now, e))) t = Some r1"
  shows "r1 = r \<or> (\<exists>ow. e = OpCreate t ow \<and> r1 = new_job s now t ow)"
proof -
  have distinct: "keys_distinct (st_jobs s)" using assms(1) by (simp add: store_ok_def)
  have stable: "maybe_abandon s now r = r" using assms(3) by (rule maybe_abandon_stable)
  have stopped: "job_status r \<noteq> RUNNING" using assms(3) by (simp add: terminal_iff)
  have reaped: "map_of (st_jobs (reap now s)) t = Some r1 \<Longrightarrow> r1 = r"
    using assms(2) stable by (simp add: reap_lookup[OF distinct] Let_def split: if_splits)
  show ?thesis
  proof (cases e)
    case (OpCreate t' ow)
    with assms(4) create_lookup[of s now t' ow t r1] reaped assms(2) show ?thesis by auto
  next
    case (OpUpdate t' ow ds smp v)
    with assms(2,4) stable cas_conflict_refuses[of r ow v] stopped show ?thesis
      by (auto simp: scan_update_def Let_def split: option.splits if_splits)
  next
    case (OpSetStatus t' ow st v m)
    with assms(2,4) stable cas_conflict_refuses[of r ow v] stopped show ?thesis
      by (auto simp: scan_set_status_def Let_def split: option.splits if_splits)
  next
    case (OpGet t')
    with assms(2,4) stable show ?thesis
      by (auto simp: scan_get_def Let_def split: option.splits if_splits)
  next
    case (OpCancel t' ow m)
    with assms(2,4) stopped show ?thesis
      by (auto simp: scan_cancel_def Let_def split: option.splits if_splits)
  next
    case (OpRemoveTerminal t')
    with assms(2,4) show ?thesis
      by (auto simp: scan_remove_terminal_def dict_lookup_delete split: option.splits if_splits)
  next
    case OpSnapshot
    with assms(4) reaped show ?thesis by (auto simp: scan_snapshot_def Let_def)
  qed
qed

theorem scan_terminal_final_witness:
  "map_of (st_jobs (scan_step scan_ex_done (2, OpUpdate (lit ''a'') (lit ''k'') [] None 2))) (lit ''a'') =
     Some scan_ex_done_job"
proof -
  let ?e = "OpUpdate (lit ''a'') (lit ''k'') [] None 2"
  have "is_terminal scan_ex_done_job" by code_simp
  moreover have "map_of (st_jobs (scan_step scan_ex_done (2, ?e))) (lit ''a'') \<noteq> None"
    by code_simp
  then obtain r1 where r1: "map_of (st_jobs (scan_step scan_ex_done (2, ?e))) (lit ''a'') = Some r1" by blast
  ultimately have "r1 = scan_ex_done_job \<or> (\<exists>ow. ?e = OpCreate (lit ''a'') ow \<and> r1 = new_job scan_ex_done 2 (lit ''a'') ow)"
    by (intro scan_terminal_final[OF scan_ex_facts(2,4)])
  with r1 show ?thesis by simp
qed

text \<open>
  C17: a running job whose lease is live belongs to its owner. No operation that does not
  present its token changes or removes it: not another client's create at full capacity, not a
  status query, a snapshot, a removal or a clean-up.
\<close>

theorem scan_running_protected:
  assumes "store_ok s" and "map_of (st_jobs s) t = Some r" and "job_status r = RUNNING"
    and "now < job_lease_expires_at r" and "presented_token e \<noteq> Some (job_owner_token r)"
  shows "map_of (st_jobs (scan_step s (now, e))) t = Some r"
proof -
  have distinct: "keys_distinct (st_jobs s)" using assms(1) by (simp add: store_ok_def)
  have stable: "maybe_abandon s now r = r" using assms(4) by (rule maybe_abandon_stable)
  show ?thesis
  proof (cases e)
    case (OpCreate t' ow)
    with create_keeps_running[OF assms(1-4)] show ?thesis by simp
  next
    case (OpUpdate t' ow ds smp v)
    with assms(2,5) stable cas_conflict_refuses[of r ow v] show ?thesis
      by (auto simp: scan_update_def Let_def split: option.splits)
  next
    case (OpSetStatus t' ow st v m)
    with assms(2,5) stable cas_conflict_refuses[of r ow v] show ?thesis
      by (auto simp: scan_set_status_def Let_def split: option.splits)
  next
    case (OpGet t')
    with assms(2) stable show ?thesis by (auto simp: scan_get_def Let_def split: option.splits)
  next
    case (OpCancel t' ow m)
    with assms(2,5) show ?thesis by (auto simp: scan_cancel_def Let_def split: option.splits)
  next
    case (OpRemoveTerminal t')
    with assms(2,3) show ?thesis
      by (auto simp: scan_remove_terminal_def dict_lookup_delete split: option.splits)
  next
    case OpSnapshot
    with assms(2,3) stable show ?thesis
      by (auto simp: scan_snapshot_def Let_def reap_lookup[OF distinct])
  qed
qed

theorem scan_running_protected_witness:
  "map_of (st_jobs (scan_step scan_ex (5, OpCreate (lit ''b'') (lit ''z'')))) (lit ''a'') = Some scan_ex_job"
proof -
  have "job_status scan_ex_job = RUNNING" "5 < job_lease_expires_at scan_ex_job"
    "presented_token (OpCreate (lit ''b'') (lit ''z'')) \<noteq> Some (job_owner_token scan_ex_job)"
    by (simp_all add: scan_ex_job_def)
  then show ?thesis by (rule scan_running_protected[OF scan_ex_facts(1,3)])
qed

text \<open>
  an update is a compare-and-set. It succeeds exactly when the record exists, is running
  with a live lease, and the caller presents its token and its current version; it then leaves
  the version one higher and the lease renewed from the clock. If it fails, the record is as a
  mere status query would have left it.
\<close>

theorem scan_update_cas:
  "(ur_ok (snd (scan_update s now t ow ds smp v)) \<longleftrightarrow>
     (\<exists>r. map_of (st_jobs s) t = Some r \<and> job_owner_token r = ow \<and> job_status r = RUNNING \<and>
          now < job_lease_expires_at r \<and> job_version r = v)) \<and>
   (if ur_ok (snd (scan_update s now t ow ds smp v))
    then \<exists>r. map_of (st_jobs (fst (scan_update s now t ow ds smp v))) t = Some r \<and>
          job_version r = v + 1 \<and> job_status r = RUNNING \<and> job_owner_token r = ow \<and>
          job_lease_expires_at r = now + st_lease_seconds s
    else fst (scan_update s now t ow ds smp v) = fst (scan_get s now t))"
proof (cases "map_of (st_jobs s) t")
  case None
  then show ?thesis by (simp add: scan_update_def scan_get_def refuse_def)
next
  case (Some r0)
  let ?r = "maybe_abandon s now r0"
  have run: "job_status ?r = RUNNING \<longleftrightarrow> job_status r0 = RUNNING \<and> now < job_lease_expires_at r0"
    by (auto simp: maybe_abandon_def Let_def)
  show ?thesis
  proof (cases "cas_conflict ?r ow v")
    case None
    with run have "?r = r0" "job_owner_token r0 = ow" "job_status r0 = RUNNING"
      "now < job_lease_expires_at r0" "job_version r0 = v"
      by (auto simp: cas_conflict_None maybe_abandon_stable)
    with Some None show ?thesis by (simp add: scan_update_def Let_def)
  next
    case (Some res)
    then have "\<not> ur_ok res" by (auto simp: cas_conflict_def refuse_def split: if_splits)
    moreover have "\<not> (job_owner_token r0 = ow \<and> job_status r0 = RUNNING \<and>
        now < job_lease_expires_at r0 \<and> job_version r0 = v)"
      using Some maybe_abandon_stable(2)[of now r0 s] by (auto simp: cas_conflict_def)
    ultimately show ?thesis
      using \<open>map_of (st_jobs s) t = Some r0\<close> Some by (simp add: scan_update_def scan_get_def Let_def)
  qed
qed

text \<open>
  a completion that comes after the lease has run out loses. The job is found abandoned,
  one version on, and the owner is told it is terminal; the status it asked for is not written.
\<close>

theorem scan_late_completion_refused:
  assumes "map_of (st_jobs s) t = Some r" and "job_status r = RUNNING" and "job_lease_expires_at r \<le> now"
    and "st \<in> set terminal_statuses"
  shows "\<not> ur_ok (snd (scan_set_status s now t (job_owner_token r) st v m)) \<and>
    ur_conflict (snd (scan_set_status s now t (job_owner_token r) st v m)) = Some TERMINAL \<and>
    map_option (\<lambda>r. (job_status r, job_version r))
      (map_of (st_jobs (fst (scan_set_status s now t (job_owner_token r) st v m))) t) =
      Some (ABANDONED, job_version r + 1)"
  using assms by (simp add: scan_set_status_def Let_def cas_conflict_def refuse_def maybe_abandon_def)

theorem scan_late_completion_refused_witness:
  "ur_conflict (snd (scan_set_status scan_ex 61 (lit ''a'') (job_owner_token scan_ex_job) COMPLETED 1 [])) = Some TERMINAL"
proof -
  have "job_status scan_ex_job = RUNNING" "job_lease_expires_at scan_ex_job \<le> 61"
    "COMPLETED \<in> set terminal_statuses"
    by (simp_all add: scan_ex_job_def terminal_statuses_def)
  from scan_late_completion_refused[OF scan_ex_facts(3) this] show ?thesis by blast
qed

text \<open>
  clipping a text to a byte budget never splits a character and never exceeds the budget: the
  result is the text itself when it fits, and otherwise the longest run of its leading
  characters (lone surrogates replaced) whose encoding does.
\<close>

theorem cap_sample_clips:
  assumes "list_all code_point t" and "0 \<le> m"
  shows "key_bytes (fst (cap_sample t m)) \<le> m \<and>
    (if key_bytes t \<le> m then cap_sample t m = (t, False)
     else cap_sample t m = (map norm_cp (chars_within (nat m) t), True) \<and>
          (\<exists>k < length t. chars_within (nat m) t = take k t \<and> m < key_bytes (take (Suc k) t)))"
proof (cases "key_bytes t \<le> m")
  case True
  with cap_sample_bytes[OF assms(2), of t] show ?thesis
    by (simp add: cap_sample_def key_bytes_def)
next
  case False
  with assms(2) have "nat m < length (utf8 t)" by (simp add: key_bytes_def)
  from chars_within_longest[OF this] obtain k where "k < length t"
    "chars_within (nat m) t = take k t" "nat m < length (utf8 (take (Suc k) t))" by blast
  moreover from this(3) have "m < key_bytes (take (Suc k) t)"
    unfolding key_bytes_def by linarith
  moreover have "cap_sample t m = (map norm_cp (chars_within (nat m) t), True)"
    using False assms by (simp add: cap_sample_def key_bytes_def Let_def decode_take_utf8)
  ultimately show ?thesis using False cap_sample_bytes[OF assms(2), of t] by auto
qed

theorem cap_sample_clips_witness:
  "cap_sample [97, 0x20AC, 98] 3 = ([97], True)"
proof -
  have "list_all code_point [97, 0x20AC, 98]" "(0::int) \<le> 3"
    by (simp_all add: code_point_def)
  note clips = cap_sample_clips[OF this]
  have "\<not> key_bytes [97, 0x20AC, 98] \<le> 3"
    by (simp add: key_bytes_def utf8_def enc_cp_def surrogate_def)
  from clips[unfolded if_not_P[OF this]]
  have "cap_sample [97, 0x20AC, 98] 3 = (map norm_cp (chars_within (nat 3) [97, 0x20AC, 98]), True)"
    by blast
  also have "map norm_cp (chars_within (nat 3) [97, 0x20AC, 98]) = [97]"
    by (simp add: enc_cp_def surrogate_def norm_cp_def)
  finally show ?thesis .
qed

end
