(* ===== verification/PipelineIngress.thy ===== *)
theory PipelineIngress
  imports Namespaces
begin

section \<open>The pipeline ingress mailbox\<close>

text \<open>
  \<^verbatim>\<open>lightrag/kg/pipeline_ingress.py\<close>: the wake-up channel of one workspace, in
  its two implementations: the condition-variable mailbox behind the Manager hub and the
  single-process asyncio ingress. Each carries three channels: lossy document notifications, an
  auto-rescan dirty flag and sticky manual-retry requests, and remembers retired request ids in
  a bounded FIFO set. The last part shows that the two are the same machine.
\<close>

datatype terminal_state = ACKED | CANCELLED_BY_CLEAR

datatype message_kind = KDocument | KRescan

record ingress_message =
  im_kind :: message_kind
  im_doc_id :: "pystr option"
  im_retry_failed :: bool
  im_request_id :: "pystr option"

datatype publish_result = PUBLISH_ACCEPTED | ALREADY_TERMINAL | PUBLISH_CAPACITY_EXCEEDED

datatype ingress_error = ValueError

definition document_channel_capacity :: int where "document_channel_capacity = 4096"

definition terminal_ids_capacity :: int where "terminal_ids_capacity = 4096"

definition max_mailbox_wait_seconds :: real where "max_mailbox_wait_seconds = 30"


subsection \<open>The bounded set of terminal ids\<close>

record terminal_ids =
  ti_capacity :: int
  ti_ids :: "(pystr, terminal_state) dict"

definition new_terminal_ids :: "int \<Rightarrow> terminal_ids" where
  "new_terminal_ids capacity = \<lparr>ti_capacity = max 1 capacity, ti_ids = []\<rparr>"

fun pop_oldest_over :: "int \<Rightarrow> 'a list \<Rightarrow> 'a list" where
  "pop_oldest_over capacity [] = []"
| "pop_oldest_over capacity (x # xs) =
     (if int (length (x # xs)) > capacity then pop_oldest_over capacity xs else x # xs)"

definition terminal_get :: "terminal_ids \<Rightarrow> pystr \<Rightarrow> terminal_state option" where
  "terminal_get ts rid = map_of (ti_ids ts) rid"

definition terminal_add :: "pystr \<Rightarrow> terminal_state \<Rightarrow> terminal_ids \<Rightarrow> terminal_ids" where
  "terminal_add rid st ts =
     (if terminal_get ts rid \<noteq> None then ts
      else ts\<lparr>ti_ids := pop_oldest_over (ti_capacity ts) (ti_ids ts @ [(rid, st)])\<rparr>)"


subsection \<open>Validation at the publisher\<close>

definition nonempty_text :: "pystr option \<Rightarrow> bool" where
  "nonempty_text t = (case t of None \<Rightarrow> False | Some s \<Rightarrow> s \<noteq> [])"

definition validate_document_message :: "ingress_message \<Rightarrow> ingress_error option" where
  "validate_document_message msg =
     (if im_kind msg \<noteq> KDocument \<or> \<not> nonempty_text (im_doc_id msg) then Some ValueError
      else if im_retry_failed msg \<or> im_request_id msg \<noteq> None then Some ValueError
      else None)"

definition validate_manual_request :: "pystr \<Rightarrow> ingress_message \<Rightarrow> ingress_error option" where
  "validate_manual_request rid msg =
     (if rid = [] then Some ValueError
      else if im_kind msg \<noteq> KRescan \<or> \<not> im_retry_failed msg \<or> im_request_id msg \<noteq> Some rid
      then Some ValueError
      else None)"

fun validate_documents :: "ingress_message list \<Rightarrow> ingress_error option" where
  "validate_documents [] = None"
| "validate_documents (m # ms) =
     (case validate_document_message m of Some e \<Rightarrow> Some e | None \<Rightarrow> validate_documents ms)"


subsection \<open>The mailbox\<close>

record mailbox =
  mb_document_capacity :: int
  mb_manual_capacity :: int
  mb_documents :: "ingress_message list"
  mb_document_overflows :: int
  mb_auto_rescan_pending :: bool
  mb_manual_retries :: "(pystr, ingress_message) dict"
  mb_terminal :: terminal_ids

definition new_mailbox :: "int \<Rightarrow> int \<Rightarrow> mailbox" where
  "new_mailbox document_capacity manual_capacity =
     \<lparr>mb_document_capacity = max 1 document_capacity, mb_manual_capacity = max 1 manual_capacity,
      mb_documents = [], mb_document_overflows = 0, mb_auto_rescan_pending = False,
      mb_manual_retries = [], mb_terminal = new_terminal_ids terminal_ids_capacity\<rparr>"

definition mb_put_locked :: "ingress_message \<Rightarrow> mailbox \<Rightarrow> mailbox" where
  "mb_put_locked msg m =
     (if int (length (mb_documents m)) \<ge> mb_document_capacity m
      then m\<lparr>mb_document_overflows := mb_document_overflows m + 1, mb_auto_rescan_pending := True\<rparr>
      else m\<lparr>mb_documents := mb_documents m @ [msg]\<rparr>)"

definition mb_put_document :: "ingress_message \<Rightarrow> mailbox \<Rightarrow> ingress_error + mailbox" where
  "mb_put_document msg m =
     (case validate_document_message msg of Some e \<Rightarrow> Inl e | None \<Rightarrow> Inr (mb_put_locked msg m))"

definition mb_put_documents :: "ingress_message list \<Rightarrow> mailbox \<Rightarrow> ingress_error + mailbox" where
  "mb_put_documents msgs m =
     (case validate_documents msgs of Some e \<Rightarrow> Inl e | None \<Rightarrow> Inr (fold mb_put_locked msgs m))"

definition mb_request_auto_rescan :: "mailbox \<Rightarrow> mailbox" where
  "mb_request_auto_rescan m = m\<lparr>mb_auto_rescan_pending := True\<rparr>"

definition mb_request_manual_retry ::
    "pystr \<Rightarrow> ingress_message \<Rightarrow> mailbox \<Rightarrow> ingress_error + (mailbox \<times> publish_result)" where
  "mb_request_manual_retry rid msg m =
     (case validate_manual_request rid msg of Some e \<Rightarrow> Inl e
      | None \<Rightarrow>
        if terminal_get (mb_terminal m) rid \<noteq> None then Inr (m, ALREADY_TERMINAL)
        else if map_of (mb_manual_retries m) rid = None then
          (if int (length (mb_manual_retries m)) \<ge> mb_manual_capacity m
           then Inr (m, PUBLISH_CAPACITY_EXCEEDED)
           else Inr (m\<lparr>mb_manual_retries := AList.update rid msg (mb_manual_retries m)\<rparr>, PUBLISH_ACCEPTED))
        else Inr (m, PUBLISH_ACCEPTED))"

definition mb_consume_auto_rescan :: "mailbox \<Rightarrow> mailbox \<times> bool" where
  "mb_consume_auto_rescan m = (m\<lparr>mb_auto_rescan_pending := False\<rparr>, mb_auto_rescan_pending m)"

definition mb_drain_documents :: "int option \<Rightarrow> mailbox \<Rightarrow> mailbox \<times> ingress_message list" where
  "mb_drain_documents limit m =
     (case limit of
        None \<Rightarrow> (m\<lparr>mb_documents := []\<rparr>, mb_documents m)
      | Some n \<Rightarrow>
         if n \<ge> int (length (mb_documents m)) then (m\<lparr>mb_documents := []\<rparr>, mb_documents m)
         else (m\<lparr>mb_documents := drop (nat (max 0 n)) (mb_documents m)\<rparr>,
               take (nat (max 0 n)) (mb_documents m)))"

definition mb_peek_next_manual_retry :: "mailbox \<Rightarrow> ingress_message option" where
  "mb_peek_next_manual_retry m = (case mb_manual_retries m of [] \<Rightarrow> None | (_, msg) # _ \<Rightarrow> Some msg)"

definition mb_snapshot_manual_retries :: "mailbox \<Rightarrow> ingress_message list" where
  "mb_snapshot_manual_retries m = map snd (mb_manual_retries m)"

definition mb_ack_manual_retry :: "pystr \<Rightarrow> mailbox \<Rightarrow> mailbox \<times> bool" where
  "mb_ack_manual_retry rid m =
     (m\<lparr>mb_manual_retries := AList.delete rid (mb_manual_retries m),
        mb_terminal := terminal_add rid ACKED (mb_terminal m)\<rparr>, True)"

definition retire_all :: "(pystr, ingress_message) dict \<Rightarrow> terminal_ids \<Rightarrow> terminal_ids" where
  "retire_all pending ts = fold (\<lambda>rid. terminal_add rid CANCELLED_BY_CLEAR) (map fst pending) ts"

definition mb_cancel_manual_retries :: "mailbox \<Rightarrow> mailbox \<times> int" where
  "mb_cancel_manual_retries m =
     (m\<lparr>mb_manual_retries := [], mb_terminal := retire_all (mb_manual_retries m) (mb_terminal m)\<rparr>,
      int (length (mb_manual_retries m)))"

definition mb_clear :: "mailbox \<Rightarrow> mailbox" where
  "mb_clear m =
     m\<lparr>mb_manual_retries := [], mb_terminal := retire_all (mb_manual_retries m) (mb_terminal m),
       mb_documents := [], mb_auto_rescan_pending := False\<rparr>"

definition mb_has_work :: "mailbox \<Rightarrow> bool" where
  "mb_has_work m \<longleftrightarrow> mb_documents m \<noteq> [] \<or> mb_auto_rescan_pending m \<or> mb_manual_retries m \<noteq> []"

record ingress_counts =
  ic_documents :: int
  ic_document_overflows :: int
  ic_auto_rescan_pending :: bool
  ic_manual_retries :: int
  ic_manual_retries_capacity :: int
  ic_terminal_manual_request_ids :: int

definition mb_counts :: "mailbox \<Rightarrow> ingress_counts" where
  "mb_counts m =
     \<lparr>ic_documents = int (length (mb_documents m)), ic_document_overflows = mb_document_overflows m,
      ic_auto_rescan_pending = mb_auto_rescan_pending m,
      ic_manual_retries = int (length (mb_manual_retries m)),
      ic_manual_retries_capacity = mb_manual_capacity m,
      ic_terminal_manual_request_ids = int (length (ti_ids (mb_terminal m)))\<rparr>"

definition bounded_wait :: "real \<Rightarrow> real" where
  "bounded_wait timeout = min (max 0 timeout) max_mailbox_wait_seconds"

text \<open>
  A wait returns the value of its predicate when it ends, on a notification or at the clamped
  timeout, and changes nothing: the predicate of a feeder and that of a supervisor.
\<close>

definition mb_documents_ready :: "mailbox \<Rightarrow> bool" where
  "mb_documents_ready m \<longleftrightarrow> mb_documents m \<noteq> []"

definition mb_items_ready :: "mailbox \<Rightarrow> bool" where
  "mb_items_ready m \<longleftrightarrow> mb_has_work m"


subsection \<open>The asyncio ingress\<close>

text \<open>
  The document channel is an \<^verbatim>\<open>asyncio.Queue\<close>, a FIFO list here; the event a
  waiter parks on is the flag \<open>aq_work_event\<close>.
\<close>

record asyncio_ingress =
  aq_document_capacity :: int
  aq_manual_capacity :: int
  aq_document_messages :: "ingress_message list"
  aq_document_overflows :: int
  aq_auto_rescan_pending :: bool
  aq_manual_retries :: "(pystr, ingress_message) dict"
  aq_terminal :: terminal_ids
  aq_work_event :: bool

definition new_asyncio_ingress :: "int \<Rightarrow> int \<Rightarrow> asyncio_ingress" where
  "new_asyncio_ingress document_capacity manual_capacity =
     \<lparr>aq_document_capacity = max 1 document_capacity, aq_manual_capacity = max 1 manual_capacity,
      aq_document_messages = [], aq_document_overflows = 0, aq_auto_rescan_pending = False,
      aq_manual_retries = [], aq_terminal = new_terminal_ids terminal_ids_capacity,
      aq_work_event = False\<rparr>"

definition aq_has_work :: "asyncio_ingress \<Rightarrow> bool" where
  "aq_has_work a \<longleftrightarrow>
     aq_document_messages a \<noteq> [] \<or> aq_auto_rescan_pending a \<or> aq_manual_retries a \<noteq> []"

definition maybe_clear_event :: "asyncio_ingress \<Rightarrow> asyncio_ingress" where
  "maybe_clear_event a = (if \<not> aq_has_work a then a\<lparr>aq_work_event := False\<rparr> else a)"

text \<open>The queue is moved over message by message; the new event is set if there is work.\<close>

fun move_queue :: "'a list \<Rightarrow> 'a list \<Rightarrow> 'a list" where
  "move_queue [] new = new"
| "move_queue (x # old) new = move_queue old (new @ [x])"

definition aq_rebind_to_current_loop :: "asyncio_ingress \<Rightarrow> asyncio_ingress" where
  "aq_rebind_to_current_loop a =
     (let a1 = a\<lparr>aq_document_messages := move_queue (aq_document_messages a) [], aq_work_event := False\<rparr>
      in if aq_has_work a1 then a1\<lparr>aq_work_event := True\<rparr> else a1)"

definition aq_put_document :: "ingress_message \<Rightarrow> asyncio_ingress \<Rightarrow> ingress_error + asyncio_ingress" where
  "aq_put_document msg a =
     (case validate_document_message msg of Some e \<Rightarrow> Inl e
      | None \<Rightarrow>
        let a1 = (if int (length (aq_document_messages a)) \<ge> aq_document_capacity a
                  then a\<lparr>aq_document_overflows := aq_document_overflows a + 1, aq_auto_rescan_pending := True\<rparr>
                  else a\<lparr>aq_document_messages := aq_document_messages a @ [msg]\<rparr>)
        in Inr (a1\<lparr>aq_work_event := True\<rparr>))"

fun aq_put_each :: "ingress_message list \<Rightarrow> asyncio_ingress \<Rightarrow> ingress_error + asyncio_ingress" where
  "aq_put_each [] a = Inr a"
| "aq_put_each (m # ms) a = (case aq_put_document m a of Inl e \<Rightarrow> Inl e | Inr a1 \<Rightarrow> aq_put_each ms a1)"

definition aq_put_documents :: "ingress_message list \<Rightarrow> asyncio_ingress \<Rightarrow> ingress_error + asyncio_ingress" where
  "aq_put_documents msgs a =
     (case validate_documents msgs of Some e \<Rightarrow> Inl e | None \<Rightarrow> aq_put_each msgs a)"

definition aq_request_auto_rescan :: "asyncio_ingress \<Rightarrow> asyncio_ingress" where
  "aq_request_auto_rescan a = a\<lparr>aq_auto_rescan_pending := True, aq_work_event := True\<rparr>"

definition aq_request_manual_retry ::
    "pystr \<Rightarrow> ingress_message \<Rightarrow> asyncio_ingress \<Rightarrow> ingress_error + (asyncio_ingress \<times> publish_result)" where
  "aq_request_manual_retry rid msg a =
     (case validate_manual_request rid msg of Some e \<Rightarrow> Inl e
      | None \<Rightarrow>
        if terminal_get (aq_terminal a) rid \<noteq> None then Inr (a, ALREADY_TERMINAL)
        else if map_of (aq_manual_retries a) rid = None then
          (if int (length (aq_manual_retries a)) \<ge> aq_manual_capacity a
           then Inr (a, PUBLISH_CAPACITY_EXCEEDED)
           else Inr (a\<lparr>aq_manual_retries := AList.update rid msg (aq_manual_retries a),
                      aq_work_event := True\<rparr>, PUBLISH_ACCEPTED))
        else Inr (a, PUBLISH_ACCEPTED))"

definition aq_consume_auto_rescan :: "asyncio_ingress \<Rightarrow> asyncio_ingress \<times> bool" where
  "aq_consume_auto_rescan a =
     (maybe_clear_event (a\<lparr>aq_auto_rescan_pending := False\<rparr>), aq_auto_rescan_pending a)"

text \<open>Awaiting a document: \<open>None\<close> is a waiter that stays parked on an empty queue.\<close>

definition aq_get_document :: "asyncio_ingress \<Rightarrow> (asyncio_ingress \<times> ingress_message) option" where
  "aq_get_document a =
     (case aq_document_messages a of [] \<Rightarrow> None
      | msg # rest \<Rightarrow> Some (maybe_clear_event (a\<lparr>aq_document_messages := rest\<rparr>), msg))"

text \<open>The drain loop: one \<^verbatim>\<open>get_nowait\<close> per round until the limit or an empty queue.\<close>

fun drain_loop :: "int option \<Rightarrow> 'a list \<Rightarrow> 'a list \<Rightarrow> 'a list \<times> 'a list" where
  "drain_loop limit drained [] = (drained, [])"
| "drain_loop limit drained (x # q) =
     (if limit = None \<or> int (length drained) < the limit
      then drain_loop limit (drained @ [x]) q else (drained, x # q))"

definition aq_drain_documents :: "int option \<Rightarrow> asyncio_ingress \<Rightarrow> asyncio_ingress \<times> ingress_message list" where
  "aq_drain_documents limit a =
     (let (drained, rest) = drain_loop limit [] (aq_document_messages a)
      in (maybe_clear_event (a\<lparr>aq_document_messages := rest\<rparr>), drained))"

definition aq_peek_next_manual_retry :: "asyncio_ingress \<Rightarrow> ingress_message option" where
  "aq_peek_next_manual_retry a = (case aq_manual_retries a of [] \<Rightarrow> None | (_, msg) # _ \<Rightarrow> Some msg)"

definition aq_snapshot_manual_retries :: "asyncio_ingress \<Rightarrow> ingress_message list" where
  "aq_snapshot_manual_retries a = map snd (aq_manual_retries a)"

definition aq_ack_manual_retry :: "pystr \<Rightarrow> asyncio_ingress \<Rightarrow> asyncio_ingress \<times> bool" where
  "aq_ack_manual_retry rid a =
     (maybe_clear_event (a\<lparr>aq_manual_retries := AList.delete rid (aq_manual_retries a),
        aq_terminal := terminal_add rid ACKED (aq_terminal a)\<rparr>), True)"

definition aq_cancel_manual_retries :: "asyncio_ingress \<Rightarrow> asyncio_ingress \<times> int" where
  "aq_cancel_manual_retries a =
     (maybe_clear_event (a\<lparr>aq_manual_retries := [],
        aq_terminal := retire_all (aq_manual_retries a) (aq_terminal a)\<rparr>),
      int (length (aq_manual_retries a)))"

definition aq_clear :: "asyncio_ingress \<Rightarrow> asyncio_ingress" where
  "aq_clear a =
     (let a1 = a\<lparr>aq_manual_retries := [], aq_terminal := retire_all (aq_manual_retries a) (aq_terminal a)\<rparr>;
          a2 = fst (aq_drain_documents None a1)
      in maybe_clear_event (a2\<lparr>aq_auto_rescan_pending := False\<rparr>))"

definition aq_counts :: "asyncio_ingress \<Rightarrow> ingress_counts" where
  "aq_counts a =
     \<lparr>ic_documents = int (length (aq_document_messages a)), ic_document_overflows = aq_document_overflows a,
      ic_auto_rescan_pending = aq_auto_rescan_pending a,
      ic_manual_retries = int (length (aq_manual_retries a)),
      ic_manual_retries_capacity = aq_manual_capacity a,
      ic_terminal_manual_request_ids = int (length (ti_ids (aq_terminal a)))\<rparr>"

text \<open>
  One turn of the supervisor's wait: \<open>True\<close> is a return, \<open>False\<close> a waiter parked on the
  event (which the check has cleared).
\<close>

definition aq_wait_turn :: "asyncio_ingress \<Rightarrow> asyncio_ingress \<times> bool" where
  "aq_wait_turn a =
     (if aq_has_work a then (a, True)
      else let a1 = a\<lparr>aq_work_event := False\<rparr> in (a1, aq_has_work a1 \<or> aq_work_event a1))"


subsection \<open>Operations as steps\<close>

datatype ingress_op =
    PutDocument ingress_message
  | PutDocuments "ingress_message list"
  | RequestAutoRescan
  | RequestManualRetry pystr ingress_message
  | ConsumeAutoRescan
  | DrainDocuments "int option"
  | PeekManual
  | SnapshotManual
  | AckManual pystr
  | CancelManual
  | ClearAll
  | HasWork
  | Counts

datatype ingress_reply =
    ReplyError ingress_error
  | ReplyNone
  | ReplyBool bool
  | ReplyPublish publish_result
  | ReplyMessages "ingress_message list"
  | ReplyMessage "ingress_message option"
  | ReplyCount int
  | ReplyCounts ingress_counts

definition or_error :: "'s \<Rightarrow> ingress_error + 's \<Rightarrow> 's \<times> ingress_reply" where
  "or_error s r = (case r of Inl e \<Rightarrow> (s, ReplyError e) | Inr s' \<Rightarrow> (s', ReplyNone))"

definition or_error_publish :: "'s \<Rightarrow> ingress_error + ('s \<times> publish_result) \<Rightarrow> 's \<times> ingress_reply" where
  "or_error_publish s r = (case r of Inl e \<Rightarrow> (s, ReplyError e) | Inr (s', p) \<Rightarrow> (s', ReplyPublish p))"

fun mb_exec :: "mailbox \<Rightarrow> ingress_op \<Rightarrow> mailbox \<times> ingress_reply" where
  "mb_exec m (PutDocument msg) = or_error m (mb_put_document msg m)"
| "mb_exec m (PutDocuments msgs) = or_error m (mb_put_documents msgs m)"
| "mb_exec m RequestAutoRescan = (mb_request_auto_rescan m, ReplyNone)"
| "mb_exec m (RequestManualRetry rid msg) = or_error_publish m (mb_request_manual_retry rid msg m)"
| "mb_exec m ConsumeAutoRescan = map_prod id ReplyBool (mb_consume_auto_rescan m)"
| "mb_exec m (DrainDocuments limit) = map_prod id ReplyMessages (mb_drain_documents limit m)"
| "mb_exec m PeekManual = (m, ReplyMessage (mb_peek_next_manual_retry m))"
| "mb_exec m SnapshotManual = (m, ReplyMessages (mb_snapshot_manual_retries m))"
| "mb_exec m (AckManual rid) = map_prod id ReplyBool (mb_ack_manual_retry rid m)"
| "mb_exec m CancelManual = map_prod id ReplyCount (mb_cancel_manual_retries m)"
| "mb_exec m ClearAll = (mb_clear m, ReplyNone)"
| "mb_exec m HasWork = (m, ReplyBool (mb_has_work m))"
| "mb_exec m Counts = (m, ReplyCounts (mb_counts m))"

fun aq_exec :: "asyncio_ingress \<Rightarrow> ingress_op \<Rightarrow> asyncio_ingress \<times> ingress_reply" where
  "aq_exec a (PutDocument msg) = or_error a (aq_put_document msg a)"
| "aq_exec a (PutDocuments msgs) = or_error a (aq_put_documents msgs a)"
| "aq_exec a RequestAutoRescan = (aq_request_auto_rescan a, ReplyNone)"
| "aq_exec a (RequestManualRetry rid msg) = or_error_publish a (aq_request_manual_retry rid msg a)"
| "aq_exec a ConsumeAutoRescan = map_prod id ReplyBool (aq_consume_auto_rescan a)"
| "aq_exec a (DrainDocuments limit) = map_prod id ReplyMessages (aq_drain_documents limit a)"
| "aq_exec a PeekManual = (a, ReplyMessage (aq_peek_next_manual_retry a))"
| "aq_exec a SnapshotManual = (a, ReplyMessages (aq_snapshot_manual_retries a))"
| "aq_exec a (AckManual rid) = map_prod id ReplyBool (aq_ack_manual_retry rid a)"
| "aq_exec a CancelManual = map_prod id ReplyCount (aq_cancel_manual_retries a)"
| "aq_exec a ClearAll = (aq_clear a, ReplyNone)"
| "aq_exec a HasWork = (a, ReplyBool (aq_has_work a))"
| "aq_exec a Counts = (a, ReplyCounts (aq_counts a))"

definition mb_step :: "mailbox \<Rightarrow> ingress_op \<Rightarrow> mailbox" where
  "mb_step m e = fst (mb_exec m e)"

definition aq_step :: "asyncio_ingress \<Rightarrow> ingress_op \<Rightarrow> asyncio_ingress" where
  "aq_step a e = fst (aq_exec a e)"

text \<open>The mailbox an asyncio ingress stands for: everything but the event.\<close>

definition aq_view :: "asyncio_ingress \<Rightarrow> mailbox" where
  "aq_view a = \<lparr>mb_document_capacity = aq_document_capacity a, mb_manual_capacity = aq_manual_capacity a,
     mb_documents = aq_document_messages a, mb_document_overflows = aq_document_overflows a,
     mb_auto_rescan_pending = aq_auto_rescan_pending a, mb_manual_retries = aq_manual_retries a,
     mb_terminal = aq_terminal a\<rparr>"


subsection \<open>The terminal ids\<close>

definition terminal_ok :: "terminal_ids \<Rightarrow> bool" where
  "terminal_ok ts \<longleftrightarrow> 1 \<le> ti_capacity ts \<and> keys_distinct (ti_ids ts) \<and>
     int (length (ti_ids ts)) \<le> ti_capacity ts"

lemma pop_oldest_over_drop: "0 \<le> c \<Longrightarrow> pop_oldest_over c xs = drop (length xs - nat c) xs"
  by (induction xs) (auto simp: Suc_diff_le not_le nat_le_iff)

lemma terminal_add_new:
  assumes "terminal_ok ts" and "terminal_get ts rid = None"
  shows "ti_ids (terminal_add rid st ts) =
    drop (if int (length (ti_ids ts)) < ti_capacity ts then 0 else 1) (ti_ids ts @ [(rid, st)])"
proof -
  have "int (length (ti_ids ts)) \<le> ti_capacity ts" using assms(1) by (simp add: terminal_ok_def)
  moreover have "Suc (length (ti_ids ts)) - nat (ti_capacity ts) =
      (if int (length (ti_ids ts)) < ti_capacity ts then 0 else 1)"
    using calculation by auto
  ultimately show ?thesis
    using assms by (simp add: terminal_add_def pop_oldest_over_drop terminal_ok_def)
qed

lemma terminal_add_known: "terminal_get ts rid \<noteq> None \<Longrightarrow> terminal_add rid st ts = ts"
  by (simp add: terminal_add_def)

lemma terminal_add_capacity [simp]: "ti_capacity (terminal_add rid st ts) = ti_capacity ts"
  by (simp add: terminal_add_def)

lemma terminal_ok_add: "terminal_ok ts \<Longrightarrow> terminal_ok (terminal_add rid st ts)"
proof (cases "terminal_get ts rid")
  case None
  assume ok: "terminal_ok ts"
  then have "keys_distinct (ti_ids ts @ [(rid, st)])"
    using None by (simp add: terminal_ok_def terminal_get_def map_of_eq_None_iff)
  then have "keys_distinct (ti_ids (terminal_add rid st ts))"
    unfolding terminal_add_new[OF ok None] by (metis distinct_drop drop_map)
  with ok terminal_add_new[OF ok None, of st] show ?thesis
    by (auto simp: terminal_ok_def split: if_splits)
qed (simp add: terminal_add_known)

lemma terminal_get_add_self:
  assumes "terminal_ok ts"
  shows "terminal_get (terminal_add rid st ts) rid =
    Some (case terminal_get ts rid of Some old \<Rightarrow> old | None \<Rightarrow> st)"
proof (cases "terminal_get ts rid")
  case None
  have "(rid, st) \<in> set (ti_ids (terminal_add rid st ts))"
    unfolding terminal_add_new[OF assms None] using assms by (cases "ti_ids ts") (auto simp: terminal_ok_def)
  with terminal_ok_add[OF assms, of rid st] None show ?thesis
    by (simp add: terminal_get_def terminal_ok_def)
qed (simp add: terminal_add_known)

lemma terminal_get_add_other:
  assumes "terminal_ok ts" and "rid' \<noteq> rid"
  shows "terminal_get (terminal_add rid st ts) rid' = terminal_get ts rid' \<or>
    terminal_get (terminal_add rid st ts) rid' = None"
proof (cases "terminal_get ts rid")
  case None
  let ?ids = "ti_ids (terminal_add rid st ts)"
  have sub: "set ?ids \<subseteq> set (ti_ids ts @ [(rid, st)])"
    unfolding terminal_add_new[OF assms(1) None] by (rule set_drop_subset)
  show ?thesis
  proof (cases "map_of ?ids rid'")
    case (Some v)
    then have "(rid', v) \<in> set (ti_ids ts)" using sub assms(2) by (auto dest!: map_of_SomeD)
    then have "map_of (ti_ids ts) rid' = Some v" using assms(1) by (simp add: terminal_ok_def)
    with Some show ?thesis by (simp add: terminal_get_def)
  qed (simp add: terminal_get_def)
qed (simp add: terminal_add_known)

text \<open>How many ids were retired after a given one: it is forgotten only when that reaches the capacity.\<close>

fun newer :: "'k \<Rightarrow> ('k, 'v) dict \<Rightarrow> nat" where
  "newer k [] = 0"
| "newer k (p # ps) = (if fst p = k then length ps else newer k ps)"

lemma newer_append: "k \<in> fst ` set xs \<Longrightarrow> newer k (xs @ ys) = newer k xs + length ys"
  by (induction xs) auto

lemma newer_tl: "xs \<noteq> [] \<Longrightarrow> fst (hd xs) \<noteq> k \<Longrightarrow> newer k (tl xs) = newer k xs"
  by (cases xs) auto

lemma newer_hd: "xs \<noteq> [] \<Longrightarrow> fst (hd xs) = k \<Longrightarrow> newer k xs = length xs - 1"
  by (cases xs) auto

lemma terminal_add_window:
  assumes "terminal_ok ts" and "terminal_get ts rid = Some st" and "int (newer rid (ti_ids ts)) + 1 < ti_capacity ts"
  shows "terminal_get (terminal_add rid' st' ts) rid = Some st \<and>
    newer rid (ti_ids (terminal_add rid' st' ts)) \<le> newer rid (ti_ids ts) + 1"
proof (cases "terminal_get ts rid'")
  case None
  let ?xs = "ti_ids ts @ [(rid', st')]"
  have in_ids: "rid \<in> fst ` set (ti_ids ts)"
    using assms(2) by (auto simp: terminal_get_def dest!: map_of_SomeD intro: rev_image_eqI)
  then have ne: "ti_ids ts \<noteq> []" by auto
  have xs: "newer rid ?xs = newer rid (ti_ids ts) + 1" "map_of ?xs rid = Some st"
    using in_ids assms(2) by (simp_all add: newer_append terminal_get_def map_add_def)
  show ?thesis
  proof (cases "int (length (ti_ids ts)) < ti_capacity ts")
    case True
    with xs terminal_add_new[OF assms(1) None, of st'] show ?thesis
      by (simp add: terminal_get_def)
  next
    case False
    then have full: "ti_ids (terminal_add rid' st' ts) = tl ?xs"
      unfolding terminal_add_new[OF assms(1) None, of st'] using False
      by (simp only: if_False drop_Suc drop_0 One_nat_def)
    have len: "int (length ?xs) = ti_capacity ts + 1"
      using False assms(1) by (simp add: terminal_ok_def)
    have hd: "fst (hd ?xs) \<noteq> rid"
    proof
      assume "fst (hd ?xs) = rid"
      then have "newer rid ?xs = length ?xs - 1" by (intro newer_hd) simp_all
      with xs(1) len assms(3) show False by linarith
    qed
    have "newer rid (tl ?xs) = newer rid ?xs" using hd by (intro newer_tl) simp_all
    moreover have "map_of (tl ?xs) rid = map_of ?xs rid" using hd by (cases ?xs) auto
    ultimately show ?thesis using full xs by (simp add: terminal_get_def)
  qed
qed (use assms terminal_add_known in auto)

lemma retire_window:
  assumes "terminal_ok ts" and "terminal_get ts rid = Some st"
    and "int (newer rid (ti_ids ts)) + int (length rids) < ti_capacity ts"
  shows "terminal_ok (fold (\<lambda>r. terminal_add r st') rids ts) \<and>
    terminal_get (fold (\<lambda>r. terminal_add r st') rids ts) rid = Some st \<and>
    newer rid (ti_ids (fold (\<lambda>r. terminal_add r st') rids ts)) \<le> newer rid (ti_ids ts) + length rids \<and>
    ti_capacity (fold (\<lambda>r. terminal_add r st') rids ts) = ti_capacity ts"
  using assms
proof (induction rids arbitrary: ts)
  case Nil
  then show ?case by simp
next
  case (Cons r rids)
  have w: "terminal_get (terminal_add r st' ts) rid = Some st"
    "newer rid (ti_ids (terminal_add r st' ts)) \<le> newer rid (ti_ids ts) + 1"
    using terminal_add_window[OF Cons.prems(1,2), of r st'] Cons.prems(3) by auto
  with Cons.IH[OF terminal_ok_add[OF Cons.prems(1)] w(1)] Cons.prems(3) show ?case by force
qed

lemma retire_all_ok [simp]:
  "terminal_ok ts \<Longrightarrow> terminal_ok (retire_all pending ts)"
  "ti_capacity (retire_all pending ts) = ti_capacity ts"
proof -
  have "terminal_ok ts \<longrightarrow> terminal_ok (fold (\<lambda>r. terminal_add r CANCELLED_BY_CLEAR) rids ts)" for rids
    by (induction rids arbitrary: ts) (auto intro: terminal_ok_add)
  then show "terminal_ok ts \<Longrightarrow> terminal_ok (retire_all pending ts)" by (simp add: retire_all_def)
  have "ti_capacity (fold (\<lambda>r. terminal_add r CANCELLED_BY_CLEAR) rids ts) = ti_capacity ts" for rids
    by (induction rids arbitrary: ts) auto
  then show "ti_capacity (retire_all pending ts) = ti_capacity ts" by (simp add: retire_all_def)
qed


subsection \<open>The invariant of the mailbox\<close>

definition manual_ok :: "mailbox \<Rightarrow> bool" where
  "manual_ok m \<longleftrightarrow> keys_distinct (mb_manual_retries m) \<and>
     int (length (mb_manual_retries m)) \<le> mb_manual_capacity m \<and>
     (\<forall>(rid, msg) \<in> set (mb_manual_retries m).
        validate_manual_request rid msg = None \<and> terminal_get (mb_terminal m) rid = None)"

definition mailbox_ok :: "mailbox \<Rightarrow> bool" where
  "mailbox_ok m \<longleftrightarrow> 1 \<le> mb_document_capacity m \<and> 1 \<le> mb_manual_capacity m \<and>
     int (length (mb_documents m)) \<le> mb_document_capacity m \<and>
     (\<forall>msg \<in> set (mb_documents m). validate_document_message msg = None) \<and>
     manual_ok m \<and> terminal_ok (mb_terminal m)"

lemma validate_documents_None:
  "validate_documents ms = None \<longleftrightarrow> (\<forall>m \<in> set ms. validate_document_message m = None)"
  by (induction ms) (auto split: option.splits)

text \<open>
  A batch keeps what fits and coalesces the rest into the auto-rescan flag. Only the three
  fields of the document channel change.
\<close>

lemma fold_put_locked:
  assumes "int (length (mb_documents m)) \<le> mb_document_capacity m"
  shows "fold mb_put_locked ms m =
    (let room = nat (mb_document_capacity m) - length (mb_documents m)
     in m\<lparr>mb_documents := mb_documents m @ take room ms,
          mb_document_overflows := mb_document_overflows m + int (length ms - room),
          mb_auto_rescan_pending := (mb_auto_rescan_pending m \<or> room < length ms)\<rparr>)"
  using assms
proof (induction ms arbitrary: m)
  case Nil
  then show ?case by simp
next
  case (Cons msg ms)
  show ?case
  proof (cases "int (length (mb_documents m)) < mb_document_capacity m")
    case True
    then obtain k where k: "nat (mb_document_capacity m) - length (mb_documents m) = Suc k"
      by (metis Suc_pred nat_eq_iff zero_less_diff zless_nat_eq_int_zless)
    then have "nat (mb_document_capacity m) - Suc (length (mb_documents m)) = k" by simp
    with Cons True k show ?thesis by (simp add: mb_put_locked_def Let_def)
  next
    case False
    with Cons.prems have "nat (mb_document_capacity m) - length (mb_documents m) = 0" by simp
    with Cons False show ?thesis by (simp add: mb_put_locked_def Let_def)
  qed
qed

lemma mailbox_ok_put_locked:
  "mailbox_ok m \<Longrightarrow> validate_document_message msg = None \<Longrightarrow> mailbox_ok (mb_put_locked msg m)"
  by (auto simp: mailbox_ok_def manual_ok_def mb_put_locked_def)

lemma mailbox_ok_fold_put:
  "mailbox_ok m \<Longrightarrow> \<forall>msg \<in> set ms. validate_document_message msg = None \<Longrightarrow>
     mailbox_ok (fold mb_put_locked ms m)"
  by (induction ms arbitrary: m) (auto simp: mailbox_ok_put_locked)

lemma mailbox_ok_manual:
  assumes "mailbox_ok m" and "validate_manual_request rid msg = None"
    and "terminal_get (mb_terminal m) rid = None" and "map_of (mb_manual_retries m) rid = None"
    and "int (length (mb_manual_retries m)) < mb_manual_capacity m"
  shows "mailbox_ok (m\<lparr>mb_manual_retries := AList.update rid msg (mb_manual_retries m)\<rparr>)"
  using assms set_dict_update_subset[of rid msg "mb_manual_retries m"]
  by (fastforce simp: mailbox_ok_def manual_ok_def length_dict_update)

lemma mailbox_ok_ack: "mailbox_ok m \<Longrightarrow> mailbox_ok (fst (mb_ack_manual_retry rid m))"
proof -
  assume ok: "mailbox_ok m"
  then have t: "terminal_ok (mb_terminal m)" by (simp add: mailbox_ok_def)
  have "\<forall>(r, msg) \<in> set (AList.delete rid (mb_manual_retries m)).
      validate_manual_request r msg = None \<and> terminal_get (terminal_add rid ACKED (mb_terminal m)) r = None"
    using ok terminal_get_add_other[OF t, of _ rid ACKED]
    by (fastforce simp: mailbox_ok_def manual_ok_def set_dict_delete)
  moreover have "length (AList.delete rid (mb_manual_retries m)) \<le> length (mb_manual_retries m)"
    by (rule AList.length_delete_le)
  ultimately show ?thesis
    using ok terminal_ok_add[OF t, of rid ACKED] by (simp add: mailbox_ok_def manual_ok_def mb_ack_manual_retry_def)
qed

lemma mailbox_ok_step: "mailbox_ok m \<Longrightarrow> mailbox_ok (mb_step m e)"
proof (cases e)
  case (PutDocument msg)
  assume "mailbox_ok m"
  with PutDocument show ?thesis
    by (auto simp: mb_step_def or_error_def mb_put_document_def mailbox_ok_put_locked split: option.splits)
next
  case (PutDocuments msgs)
  assume "mailbox_ok m"
  with PutDocuments show ?thesis
    by (auto simp: mb_step_def or_error_def mb_put_documents_def validate_documents_None
        intro!: mailbox_ok_fold_put split: option.splits)
next
  case (RequestManualRetry rid msg)
  assume "mailbox_ok m"
  with RequestManualRetry show ?thesis
    by (auto simp: mb_step_def or_error_publish_def mb_request_manual_retry_def
        intro!: mailbox_ok_manual split: option.splits)
next
  case (DrainDocuments limit)
  assume "mailbox_ok m"
  with DrainDocuments show ?thesis
    by (auto simp: mb_step_def mb_drain_documents_def mailbox_ok_def manual_ok_def
        dest: in_set_dropD split: option.splits)
next
  case (AckManual rid)
  assume "mailbox_ok m"
  with AckManual mailbox_ok_ack[of m rid] show ?thesis by (simp add: mb_step_def)
qed (auto simp: mb_step_def mb_request_auto_rescan_def mb_consume_auto_rescan_def
    mb_cancel_manual_retries_def mb_clear_def mailbox_ok_def manual_ok_def)

lemma mailbox_ok_new: "mailbox_ok (new_mailbox d c)"
  by (simp add: mailbox_ok_def manual_ok_def new_mailbox_def terminal_ok_def new_terminal_ids_def
      terminal_ids_capacity_def le_max_iff_disj)


subsection \<open>The contract of a backend\<close>

text \<open>
  What a client of the ingress relies on, whichever backend it has: the backend stands for a
  mailbox in good order (\<open>view\<close>), and every operation does to that mailbox what the mailbox
  operation does, with the same reply.
\<close>

locale ingress_backend =
  fixes exec :: "'s \<Rightarrow> ingress_op \<Rightarrow> 's \<times> ingress_reply"
    and view :: "'s \<Rightarrow> mailbox"
    and good :: "'s \<Rightarrow> bool"
  assumes good_view: "good s \<Longrightarrow> mailbox_ok (view s)"
    and good_exec: "good s \<Longrightarrow> good (fst (exec s e))"
    and exec_view: "good s \<Longrightarrow> view (fst (exec s e)) = fst (mb_exec (view s) e)"
    and exec_reply: "good s \<Longrightarrow> snd (exec s e) = snd (mb_exec (view s) e)"
begin

sublocale guarded_component "\<lambda>s e. fst (exec s e)" good
  by unfold_locales (rule good_exec)

lemma run_view: "good s \<Longrightarrow> view (run (\<lambda>s e. fst (exec s e)) s es) = run mb_step (view s) es"
  by (induction es arbitrary: s) (auto simp: exec_view good_exec mb_step_def)

lemma run_ok: "good s \<Longrightarrow> mailbox_ok (view (run (\<lambda>s e. fst (exec s e)) s es))"
  by (intro good_view run_inv)

lemma replies_agree:
  "good s \<Longrightarrow> snd (exec (run (\<lambda>s e. fst (exec s e)) s es) e) = snd (mb_exec (run mb_step (view s) es) e)"
  using exec_reply[OF run_inv] by (simp add: run_view)

end

interpretation mailbox: ingress_backend mb_exec id mailbox_ok
  using mailbox_ok_step by unfold_locales (auto simp: mb_step_def)


subsection \<open>The asyncio ingress is a backend\<close>

text \<open>It also keeps its event set exactly while there is work, which is what wakes a waiter.\<close>

definition aq_good :: "asyncio_ingress \<Rightarrow> bool" where
  "aq_good a \<longleftrightarrow> mailbox_ok (aq_view a) \<and> aq_work_event a = aq_has_work a"

lemma aq_view_maybe_clear [simp]: "aq_view (maybe_clear_event a) = aq_view a"
  by (simp add: aq_view_def maybe_clear_event_def)

lemma aq_view_event [simp]: "aq_view (a\<lparr>aq_work_event := b\<rparr>) = aq_view a"
  by (simp add: aq_view_def)

lemma aq_has_work_event [simp]: "aq_has_work (a\<lparr>aq_work_event := b\<rparr>) = aq_has_work a"
  by (simp add: aq_has_work_def)

lemma aq_has_work_maybe_clear [simp]: "aq_has_work (maybe_clear_event a) = aq_has_work a"
  by (simp add: aq_has_work_def maybe_clear_event_def)

lemma event_maybe_clear: "aq_work_event (maybe_clear_event a) \<longleftrightarrow> aq_has_work a \<and> aq_work_event a"
  by (simp add: maybe_clear_event_def)

lemma drain_loop_eq:
  "drain_loop limit acc q =
     (let k = (case limit of None \<Rightarrow> length q | Some n \<Rightarrow> min (length q) (nat (n - int (length acc))))
      in (acc @ take k q, drop k q))"
proof (induction limit acc q rule: drain_loop.induct)
  case (1 limit drained)
  then show ?case by (cases limit) simp_all
next
  case (2 limit drained x q)
  show ?case
  proof (cases limit)
    case None
    with 2 show ?thesis by simp
  next
    case (Some n)
    show ?thesis
    proof (cases "int (length drained) < n")
      case True
      then have "nat (n - int (length drained)) = Suc (nat (n - int (Suc (length drained))))" by simp
      with 2 Some True show ?thesis by (simp add: Let_def)
    next
      case False
      with Some show ?thesis by simp
    qed
  qed
qed

lemma aq_drain_view:
  "aq_view (fst (aq_drain_documents limit a)) = fst (mb_drain_documents limit (aq_view a))"
  "snd (aq_drain_documents limit a) = snd (mb_drain_documents limit (aq_view a))"
proof -
  have loop: "drain_loop limit [] (aq_document_messages a) =
      (snd (mb_drain_documents limit (aq_view a)), mb_documents (fst (mb_drain_documents limit (aq_view a))))"
  proof (cases limit)
    case (Some n)
    show ?thesis
    proof (cases "int (length (aq_document_messages a)) \<le> n")
      case True
      then have "min (length (aq_document_messages a)) (nat n) = length (aq_document_messages a)" by simp
      with Some True show ?thesis by (simp add: drain_loop_eq mb_drain_documents_def aq_view_def)
    next
      case False
      then have "min (length (aq_document_messages a)) (nat n) = nat (max 0 n)" by simp
      with Some False show ?thesis by (simp add: drain_loop_eq mb_drain_documents_def aq_view_def Let_def)
    qed
  qed (simp add: drain_loop_eq mb_drain_documents_def aq_view_def)
  define d where "d = mb_documents (fst (mb_drain_documents limit (aq_view a)))"
  have rest: "fst (mb_drain_documents limit (aq_view a)) = (aq_view a)\<lparr>mb_documents := d\<rparr>"
    by (simp add: d_def mb_drain_documents_def split: option.splits)
  show "aq_view (fst (aq_drain_documents limit a)) = fst (mb_drain_documents limit (aq_view a))"
    unfolding rest using loop by (simp add: aq_drain_documents_def d_def[symmetric])
      (simp add: aq_view_def maybe_clear_event_def)
  show "snd (aq_drain_documents limit a) = snd (mb_drain_documents limit (aq_view a))"
    by (simp add: aq_drain_documents_def loop)
qed

lemma aq_put_document_view:
  "aq_put_document msg a = (case validate_document_message msg of Some e \<Rightarrow> Inl e
     | None \<Rightarrow> Inr (a\<lparr>
         aq_document_messages := mb_documents (mb_put_locked msg (aq_view a)),
         aq_document_overflows := mb_document_overflows (mb_put_locked msg (aq_view a)),
         aq_auto_rescan_pending := mb_auto_rescan_pending (mb_put_locked msg (aq_view a)),
         aq_work_event := True\<rparr>))"
  by (auto simp: aq_put_document_def mb_put_locked_def aq_view_def split: option.splits)

lemma aq_put_each_view:
  assumes "validate_documents ms = None"
  shows "\<exists>a'. aq_put_each ms a = Inr a' \<and> aq_view a' = fold mb_put_locked ms (aq_view a) \<and>
    (aq_work_event a = aq_has_work a \<longrightarrow> aq_work_event a' = aq_has_work a')"
  using assms
proof (induction ms arbitrary: a)
  case Nil
  then show ?case by simp
next
  case (Cons msg ms)
  then have v: "validate_document_message msg = None" "validate_documents ms = None"
    by (auto split: option.splits)
  then obtain a1 where a1: "aq_put_document msg a = Inr a1" "aq_view a1 = mb_put_locked msg (aq_view a)"
    "aq_work_event a1" "aq_has_work a1"
    by (simp add: aq_put_document_view) (auto simp: mb_put_locked_def aq_view_def aq_has_work_def not_le)
  with Cons.IH[OF v(2), of a1] show ?case by auto
qed

lemma aq_view_sel [simp]:
  "mb_documents (aq_view a) = aq_document_messages a"
  "mb_auto_rescan_pending (aq_view a) = aq_auto_rescan_pending a"
  "mb_manual_retries (aq_view a) = aq_manual_retries a"
  "mb_terminal (aq_view a) = aq_terminal a"
  "mb_manual_capacity (aq_view a) = aq_manual_capacity a"
  "mb_document_capacity (aq_view a) = aq_document_capacity a"
  "mb_document_overflows (aq_view a) = aq_document_overflows a"
  by (simp_all add: aq_view_def)

lemma aq_has_work_view: "aq_has_work a \<longleftrightarrow> mb_has_work (aq_view a)"
  by (simp add: aq_has_work_def mb_has_work_def)

lemma aq_exec_view:
  "aq_view (fst (aq_exec a e)) = fst (mb_exec (aq_view a) e) \<and>
   snd (aq_exec a e) = snd (mb_exec (aq_view a) e)"
proof (cases e)
  case (PutDocument msg)
  then show ?thesis
    by (cases "validate_document_message msg")
      (simp_all add: or_error_def aq_put_document_def mb_put_document_def mb_put_locked_def aq_view_def)
next
  case (PutDocuments msgs)
  show ?thesis
  proof (cases "validate_documents msgs")
    case None
    from aq_put_each_view[OF None, of a] None PutDocuments show ?thesis
      by (auto simp: or_error_def aq_put_documents_def mb_put_documents_def)
  qed (simp add: PutDocuments or_error_def aq_put_documents_def mb_put_documents_def)
next
  case (RequestManualRetry rid msg)
  then show ?thesis
    by (auto simp: or_error_publish_def aq_request_manual_retry_def mb_request_manual_retry_def aq_view_def
        split: option.splits)
next
  case (DrainDocuments limit)
  then show ?thesis by (simp add: aq_drain_view)
next
  case ClearAll
  then show ?thesis
    by (simp add: aq_clear_def mb_clear_def Let_def aq_drain_documents_def drain_loop_eq)
      (simp add: aq_view_def maybe_clear_event_def)
qed (simp_all add: aq_request_auto_rescan_def mb_request_auto_rescan_def aq_consume_auto_rescan_def
    mb_consume_auto_rescan_def aq_peek_next_manual_retry_def mb_peek_next_manual_retry_def
    aq_snapshot_manual_retries_def mb_snapshot_manual_retries_def aq_ack_manual_retry_def
    mb_ack_manual_retry_def aq_cancel_manual_retries_def mb_cancel_manual_retries_def
    aq_has_work_def mb_has_work_def aq_counts_def mb_counts_def aq_view_def maybe_clear_event_def)

lemma aq_event_exec:
  assumes "mailbox_ok (aq_view a)" and "aq_work_event a = aq_has_work a"
  shows "aq_work_event (fst (aq_exec a e)) = aq_has_work (fst (aq_exec a e))"
proof (cases e)
  case (PutDocument msg)
  with assms show ?thesis
    by (auto simp: or_error_def aq_put_document_def aq_has_work_def Let_def split: option.splits)
next
  case (PutDocuments msgs)
  show ?thesis
  proof (cases "validate_documents msgs")
    case None
    from aq_put_each_view[OF None, of a] None PutDocuments assms show ?thesis
      by (auto simp: or_error_def aq_put_documents_def)
  qed (use assms PutDocuments in \<open>simp add: or_error_def aq_put_documents_def\<close>)
next
  case (RequestManualRetry rid msg)
  have "AList.update rid msg ps \<noteq> []" for ps :: "(pystr, ingress_message) dict"
    by (cases ps) (auto split: prod.splits)
  with RequestManualRetry assms show ?thesis
    by (auto simp: or_error_publish_def aq_request_manual_retry_def aq_has_work_def split: option.splits)
qed (use assms in \<open>auto simp: aq_request_auto_rescan_def aq_consume_auto_rescan_def aq_ack_manual_retry_def
    aq_cancel_manual_retries_def aq_clear_def aq_drain_documents_def drain_loop_eq Let_def
    aq_has_work_def maybe_clear_event_def\<close>)

interpretation asyncio: ingress_backend aq_exec aq_view aq_good
proof unfold_locales
  fix a e
  assume good: "aq_good a"
  then show "mailbox_ok (aq_view a)" by (simp add: aq_good_def)
  with mailbox_ok_step[of "aq_view a" e] aq_exec_view[of a e] good aq_event_exec[of a e]
  show "aq_good (fst (aq_exec a e))" by (simp add: aq_good_def mb_step_def)
  show "aq_view (fst (aq_exec a e)) = fst (mb_exec (aq_view a) e)"
    and "snd (aq_exec a e) = snd (mb_exec (aq_view a) e)"
    using aq_exec_view[of a e] by simp_all
qed

lemma aq_view_new: "aq_view (new_asyncio_ingress d c) = new_mailbox d c"
  by (simp add: aq_view_def new_asyncio_ingress_def new_mailbox_def)

lemma aq_good_new: "aq_good (new_asyncio_ingress d c)"
  using mailbox_ok_new[of d c] by (simp add: aq_good_def aq_view_new)
    (simp add: aq_has_work_def new_asyncio_ingress_def)


subsection \<open>Everything that happens to the asyncio ingress\<close>

text \<open>
  Besides the shared operations the event loop sees a feeder taking a document, a supervisor
  taking a turn of its wait, and a move to a new event loop after the old one closed.
\<close>

datatype loop_event = LoopOp ingress_op | GetDocument | WaitTurn | Rebind

fun loop_step :: "asyncio_ingress \<Rightarrow> loop_event \<Rightarrow> asyncio_ingress" where
  "loop_step a (LoopOp e) = aq_step a e"
| "loop_step a GetDocument = (case aq_get_document a of None \<Rightarrow> a | Some (a', _) \<Rightarrow> a')"
| "loop_step a WaitTurn = fst (aq_wait_turn a)"
| "loop_step a Rebind = aq_rebind_to_current_loop a"

lemma move_queue_eq: "move_queue old new = new @ old"
  by (induction old new rule: move_queue.induct) auto

lemma rebind_view [simp]: "aq_view (aq_rebind_to_current_loop a) = aq_view a"
  by (simp add: aq_rebind_to_current_loop_def aq_view_def move_queue_eq Let_def)

lemma aq_good_loop_step: "aq_good a \<Longrightarrow> aq_good (loop_step a e)"
proof (cases e)
  case (LoopOp e)
  assume "aq_good a"
  with LoopOp asyncio.good_exec show ?thesis by (simp add: aq_step_def)
next
  case GetDocument
  assume good: "aq_good a"
  show ?thesis
  proof (cases "aq_document_messages a")
    case Nil
    with GetDocument good show ?thesis by (simp add: aq_get_document_def)
  next
    case (Cons msg rest)
    have "aq_view (aq_document_messages_update (\<lambda>_. rest) a) = (aq_view a)\<lparr>mb_documents := rest\<rparr>"
      by (simp add: aq_view_def)
    with GetDocument good Cons show ?thesis
      by (simp add: aq_get_document_def aq_good_def mailbox_ok_def manual_ok_def)
        (simp add: maybe_clear_event_def aq_has_work_def)
  qed
next
  case WaitTurn
  assume "aq_good a"
  with WaitTurn show ?thesis
    by (simp add: aq_wait_turn_def aq_good_def Let_def)
next
  case Rebind
  assume "aq_good a"
  with Rebind show ?thesis
    by (simp add: aq_good_def) (simp add: aq_rebind_to_current_loop_def aq_has_work_def move_queue_eq Let_def)
qed

interpretation loop: guarded_component loop_step aq_good
  by unfold_locales (rule aq_good_loop_step)


subsection \<open>The hub\<close>

text \<open>
  The capacity of the manual channel is read from the environment when a mailbox is built; it is
  the parameter \<open>cap\<close>.
\<close>

type_synonym ingress_hub = "mailbox hub"

definition default_mailbox :: "int \<Rightarrow> pystr \<Rightarrow> mailbox" where
  "default_mailbox cap ns = new_mailbox document_channel_capacity cap"

definition ingress_hub_call :: "int \<Rightarrow> ingress_hub \<Rightarrow> pystr \<Rightarrow> ingress_op \<Rightarrow> ingress_hub \<times> ingress_reply" where
  "ingress_hub_call cap h ns e = hub_call (default_mailbox cap) (\<lambda>m. mb_exec m e) h ns"

definition ingress_hub_step :: "int \<Rightarrow> ingress_hub \<Rightarrow> pystr \<times> ingress_op \<Rightarrow> ingress_hub" where
  "ingress_hub_step cap h c = fst (ingress_hub_call cap h (fst c) (snd c))"

text \<open>The client adapter validates before the call crosses to the hub.\<close>

definition manager_put_documents :: "int \<Rightarrow> ingress_message list \<Rightarrow> ingress_hub \<Rightarrow> pystr \<Rightarrow> ingress_hub \<times> ingress_reply" where
  "manager_put_documents cap msgs h ns =
     (case validate_documents msgs of Some e \<Rightarrow> (h, ReplyError e)
      | None \<Rightarrow> ingress_hub_call cap h ns (PutDocuments msgs))"

interpretation ingress_hub: namespaced_component "\<lambda>ns. mb_step" mailbox_ok "default_mailbox cap" "ingress_hub_step cap"
  for cap
  by unfold_locales
    (auto simp: mailbox_ok_step default_mailbox_def mailbox_ok_new ingress_hub_step_def ingress_hub_call_def
      mb_step_def[symmetric])


subsection \<open>Retirements along a trace\<close>

definition retirements :: "mailbox \<Rightarrow> ingress_op \<Rightarrow> nat" where
  "retirements m e = (case e of AckManual _ \<Rightarrow> 1 | CancelManual \<Rightarrow> length (mb_manual_retries m)
     | ClearAll \<Rightarrow> length (mb_manual_retries m) | _ \<Rightarrow> 0)"

primrec retired_by :: "mailbox \<Rightarrow> ingress_op list \<Rightarrow> nat" where
  "retired_by m [] = 0"
| "retired_by m (e # es) = retirements m e + retired_by (mb_step m e) es"

definition retired_within :: "nat \<Rightarrow> pystr \<Rightarrow> terminal_state \<Rightarrow> mailbox \<Rightarrow> bool" where
  "retired_within k rid st m \<longleftrightarrow> terminal_ok (mb_terminal m) \<and> ti_capacity (mb_terminal m) = terminal_ids_capacity \<and>
     terminal_get (mb_terminal m) rid = Some st \<and> newer rid (ti_ids (mb_terminal m)) \<le> k"

lemma fold_put_locked_control [simp]:
  "mb_terminal (fold mb_put_locked ms m) = mb_terminal m"
  "mb_manual_retries (fold mb_put_locked ms m) = mb_manual_retries m"
  by (induction ms arbitrary: m) (simp_all add: mb_put_locked_def)

lemma terminal_step_other:
  assumes "retirements m e = 0" and "e \<notin> {CancelManual, ClearAll}"
  shows "mb_terminal (mb_step m e) = mb_terminal m"
  using assms
  by (cases e) (auto simp: mb_step_def retirements_def or_error_def or_error_publish_def mb_put_document_def
      mb_put_documents_def mb_put_locked_def mb_request_auto_rescan_def mb_request_manual_retry_def
      mb_consume_auto_rescan_def mb_drain_documents_def split: option.splits)

lemma terminal_step:
  "\<exists>rids st. mb_terminal (mb_step m e) = fold (\<lambda>r. terminal_add r st) rids (mb_terminal m) \<and>
     length rids = retirements m e"
proof (cases e)
  case (AckManual rid)
  then show ?thesis
    by (intro exI[of _ "[rid]"] exI[of _ ACKED]) (simp add: mb_step_def mb_ack_manual_retry_def retirements_def)
next
  case CancelManual
  then show ?thesis
    by (intro exI[of _ "map fst (mb_manual_retries m)"] exI[of _ CANCELLED_BY_CLEAR])
      (simp add: mb_step_def mb_cancel_manual_retries_def retirements_def retire_all_def)
next
  case ClearAll
  then show ?thesis
    by (intro exI[of _ "map fst (mb_manual_retries m)"] exI[of _ CANCELLED_BY_CLEAR])
      (simp add: mb_step_def mb_clear_def retirements_def retire_all_def)
qed (rule exI[of _ "[]"], simp add: terminal_step_other retirements_def)+

lemma retired_within_step:
  assumes "retired_within k rid st m" and "int (k + retirements m e) < terminal_ids_capacity"
  shows "retired_within (k + retirements m e) rid st (mb_step m e)"
proof -
  obtain rids st' where t: "mb_terminal (mb_step m e) = fold (\<lambda>r. terminal_add r st') rids (mb_terminal m)"
    and n: "length rids = retirements m e" using terminal_step by blast
  from assms n retire_window[of "mb_terminal m" rid st rids st']
  show ?thesis unfolding retired_within_def t by auto
qed

lemma retired_within_run:
  assumes "retired_within k rid st m" and "int (k + retired_by m es) < terminal_ids_capacity"
  shows "retired_within (k + retired_by m es) rid st (run mb_step m es)"
  using assms
proof (induction es arbitrary: m k)
  case Nil
  then show ?case by simp
next
  case (Cons e es)
  have "retired_within (k + retirements m e) rid st (mb_step m e)"
    using Cons.prems by (intro retired_within_step) simp_all
  from Cons.IH[OF this] Cons.prems(2) show ?case by (simp add: add.assoc)
qed

lemma newer_last: "keys_distinct (xs @ [(k, v)]) \<Longrightarrow> newer k (xs @ [(k, v)]) = 0"
  by (induction xs) auto


subsection \<open>Pending requests along a trace\<close>

definition ahead :: "pystr \<Rightarrow> mailbox \<Rightarrow> (pystr \<times> ingress_message) list" where
  "ahead rid m = takeWhile (\<lambda>p. fst p \<noteq> rid) (mb_manual_retries m)"

fun leaves_pending :: "pystr \<Rightarrow> ingress_op \<Rightarrow> bool" where
  "leaves_pending rid (AckManual r) = (r \<noteq> rid)"
| "leaves_pending rid CancelManual = False"
| "leaves_pending rid ClearAll = False"
| "leaves_pending rid _ = True"

lemma ahead_ack: "set (takeWhile (\<lambda>p. fst p \<noteq> rid) (AList.delete r ps)) \<subseteq> set (takeWhile (\<lambda>p. fst p \<noteq> rid) ps)"
  if "r \<noteq> rid"
  using that by (induction ps) auto

lemma ahead_update:
  "map_of ps rid \<noteq> None \<Longrightarrow> map_of ps r = None \<Longrightarrow>
     takeWhile (\<lambda>p. fst p \<noteq> rid) (AList.update r msg ps) = takeWhile (\<lambda>p. fst p \<noteq> rid) ps"
  by (induction ps) (auto split: if_splits)

lemma pending_step:
  assumes "map_of (mb_manual_retries m) rid = Some msg" and "leaves_pending rid e"
  shows "map_of (mb_manual_retries (mb_step m e)) rid = Some msg \<and> set (ahead rid (mb_step m e)) \<subseteq> set (ahead rid m)"
proof (cases e)
  case (RequestManualRetry r msg')
  with assms ahead_update[of "mb_manual_retries m" rid r msg'] show ?thesis
    by (auto simp: mb_step_def or_error_publish_def mb_request_manual_retry_def ahead_def
        simp del: takeWhile.simps split: option.splits)
next
  case (AckManual r)
  with assms ahead_ack[of r rid "mb_manual_retries m"] show ?thesis
    by (auto simp: mb_step_def mb_ack_manual_retry_def ahead_def delete_conv)
qed (use assms in \<open>auto simp: mb_step_def ahead_def or_error_def mb_put_document_def mb_put_documents_def
    mb_put_locked_def mb_request_auto_rescan_def mb_consume_auto_rescan_def mb_drain_documents_def
    split: option.splits\<close>)

lemma pending_run:
  assumes "map_of (mb_manual_retries m) rid = Some msg" and "list_all (leaves_pending rid) es"
  shows "map_of (mb_manual_retries (run mb_step m es)) rid = Some msg \<and>
    set (ahead rid (run mb_step m es)) \<subseteq> set (ahead rid m)"
  using assms
proof (induction es arbitrary: m)
  case Nil
  then show ?case by simp
next
  case (Cons e es)
  with pending_step[of m rid msg e] Cons.IH[of "mb_step m e"] show ?case by auto
qed

lemma cleared_terminal:
  assumes "terminal_ok ts" and "rid \<in> fst ` set ps" and "keys_distinct ps"
    and "terminal_get ts rid = None" and "int (length ps) \<le> ti_capacity ts"
  shows "terminal_get (retire_all ps ts) rid = Some CANCELLED_BY_CLEAR"
proof -
  from assms(2) obtain xs msg ys where ps: "ps = xs @ (rid, msg) # ys"
    by (metis imageE prod.collapse split_list)
  define ts1 where "ts1 = fold (\<lambda>r. terminal_add r CANCELLED_BY_CLEAR) (map fst xs) ts"
  have ok1: "terminal_ok ts1" "ti_capacity ts1 = ti_capacity ts"
    using retire_all_ok[where ts = ts and pending = xs] assms(1) by (simp_all add: ts1_def retire_all_def)
  have none: "terminal_get ts1 rid = None"
  proof -
    have "terminal_get (fold (\<lambda>r. terminal_add r CANCELLED_BY_CLEAR) rs t) rid = None"
      if "rid \<notin> set rs" "terminal_get t rid = None" "terminal_ok t" for rs t
      using that
    proof (induction rs arbitrary: t)
      case (Cons r rs)
      then show ?case using terminal_get_add_other[of t rid r CANCELLED_BY_CLEAR]
        by (auto intro!: Cons.IH terminal_ok_add)
    qed simp
    then show ?thesis using assms ps by (simp add: ts1_def)
  qed
  define ts2 where "ts2 = terminal_add rid CANCELLED_BY_CLEAR ts1"
  have get2: "terminal_get ts2 rid = Some CANCELLED_BY_CLEAR" and ok2: "terminal_ok ts2"
    using terminal_get_add_self[OF ok1(1), of rid CANCELLED_BY_CLEAR] none terminal_ok_add[OF ok1(1)]
    by (simp_all add: ts2_def)
  have "newer rid (ti_ids ts2) = 0"
  proof -
    have "ti_ids ts1 @ [(rid, CANCELLED_BY_CLEAR)] \<noteq> []" by simp
    have d: "keys_distinct (ti_ids ts1 @ [(rid, CANCELLED_BY_CLEAR)])"
      using ok1 none by (simp add: terminal_ok_def terminal_get_def map_of_eq_None_iff)
    have "ti_ids ts1 \<noteq> [] \<or> int (length (ti_ids ts1)) < ti_capacity ts1"
      using ok1 by (auto simp: terminal_ok_def)
    with d show ?thesis
      unfolding ts2_def terminal_add_new[OF ok1(1) none]
      by (cases "ti_ids ts1") (auto simp: newer_last)
  qed
  moreover have "int (length ys) < ti_capacity ts2"
    using assms(5) ps ok1(2) by (simp add: ts2_def)
  ultimately have "terminal_get (fold (\<lambda>r. terminal_add r CANCELLED_BY_CLEAR) (map fst ys) ts2) rid = Some CANCELLED_BY_CLEAR"
    using retire_window[OF ok2 get2, of "map fst ys"] by simp
  then show ?thesis by (simp add: retire_all_def ps ts1_def ts2_def)
qed


section \<open>Properties\<close>

text \<open>
  in every namespace of the Manager hub, after any sequence of calls, the mailbox is within
  its bounds: the document channel and the manual channel hold at most their capacities, every
  queued message passed the publisher's validation, no pending request is already retired, and
  the memory of retired ids holds at most its capacity.
\<close>

theorem ingress_hub_bounded:
  "mailbox_ok (hub_view (default_mailbox cap) (run (ingress_hub_step cap) [] calls) ns)"
  by (rule ingress_hub.hub_run_inv)

text \<open>
  C7: the two backends are the same machine. Whatever operations a client has issued, the asyncio
  ingress and the Manager mailbox are in corresponding states and give the same reply, errors
  included, to the next operation.
\<close>

theorem ingress_backends_agree:
  "snd (aq_exec (run aq_step (new_asyncio_ingress d c) es) e) =
     snd (mb_exec (run mb_step (new_mailbox d c) es) e) \<and>
   aq_view (run aq_step (new_asyncio_ingress d c) es) = run mb_step (new_mailbox d c) es"
proof -
  have "aq_step = (\<lambda>s e. fst (aq_exec s e))" by (simp add: fun_eq_iff aq_step_def)
  with asyncio.replies_agree[OF aq_good_new] asyncio.run_view[OF aq_good_new] show ?thesis
    by (simp add: aq_view_new)
qed

text \<open>
  C29: no notification is lost. A batch is refused as a whole, with nothing enqueued, if any
  message is malformed; otherwise the messages that fit are queued in order, and if any did not
  fit the auto-rescan flag is left set and each of them is counted as an overflow.
\<close>

theorem ingress_documents_never_lost:
  assumes "mailbox_ok m"
  shows "mb_put_documents msgs m =
    (if \<exists>msg \<in> set msgs. validate_document_message msg \<noteq> None then Inl ValueError
     else let room = nat (mb_document_capacity m) - length (mb_documents m)
          in Inr (m\<lparr>mb_documents := mb_documents m @ take room msgs,
                    mb_document_overflows := mb_document_overflows m + int (length msgs - room),
                    mb_auto_rescan_pending := (mb_auto_rescan_pending m \<or> room < length msgs)\<rparr>))"
proof (cases "validate_documents msgs")
  case None
  then have "mb_put_documents msgs m = Inr (fold mb_put_locked msgs m)"
    and "\<not> (\<exists>msg \<in> set msgs. validate_document_message msg \<noteq> None)"
    by (simp_all add: mb_put_documents_def validate_documents_None[symmetric])
  moreover have "int (length (mb_documents m)) \<le> mb_document_capacity m"
    using assms by (simp add: mailbox_ok_def)
  ultimately show ?thesis by (simp add: fold_put_locked Let_def)
next
  case (Some e)
  moreover have "e = ValueError" by (cases e)
  ultimately show ?thesis
    using validate_documents_None[of msgs] by (auto simp: mb_put_documents_def)
qed

definition doc_message :: "pystr \<Rightarrow> ingress_message" where
  "doc_message d = \<lparr>im_kind = KDocument, im_doc_id = Some d, im_retry_failed = False, im_request_id = None\<rparr>"

definition retry_message :: "pystr \<Rightarrow> ingress_message" where
  "retry_message r = \<lparr>im_kind = KRescan, im_doc_id = None, im_retry_failed = True, im_request_id = Some r\<rparr>"

theorem ingress_documents_never_lost_witness:
  "mb_put_documents [doc_message [1], doc_message [2], doc_message [3]] (new_mailbox 2 1) =
     Inr ((new_mailbox 2 1)\<lparr>mb_documents := [doc_message [1], doc_message [2]],
       mb_document_overflows := 1, mb_auto_rescan_pending := True\<rparr>)"
  using ingress_documents_never_lost[OF mailbox_ok_new, of "[doc_message [1], doc_message [2], doc_message [3]]" 2 1]
  by (simp add: doc_message_def validate_document_message_def nonempty_text_def new_mailbox_def Let_def)

text \<open>
  a manual request is sticky. Whatever other operations follow, as long as none of them
  acknowledges that id, cancels the channel or clears the mailbox, the request stays pending with
  its message, and no request gets ahead of it.
\<close>

theorem ingress_manual_sticky:
  assumes "map_of (mb_manual_retries m) rid = Some msg" and "list_all (leaves_pending rid) es"
  shows "map_of (mb_manual_retries (run mb_step m es)) rid = Some msg \<and>
    set (ahead rid (run mb_step m es)) \<subseteq> set (ahead rid m)"
  by (rule pending_run[OF assms])

theorem ingress_manual_sticky_witness:
  "map_of (mb_manual_retries (run mb_step (new_mailbox 1 2)
     [RequestManualRetry [1] (retry_message [1]), RequestManualRetry [2] (retry_message [2]),
      AckManual [1], DrainDocuments None, ConsumeAutoRescan, RequestManualRetry [3] (retry_message [3])])) [2] =
   Some (retry_message [2])"
proof -
  let ?m = "run mb_step (new_mailbox 1 2)
     [RequestManualRetry [1] (retry_message [1]), RequestManualRetry [2] (retry_message [2])]"
  let ?es = "[AckManual [1], DrainDocuments None, ConsumeAutoRescan, RequestManualRetry [3] (retry_message [3])]"
  have "map_of (mb_manual_retries ?m) [2] = Some (retry_message [2])" by code_simp
  moreover have "list_all (leaves_pending [2]) ?es" by simp
  ultimately have "map_of (mb_manual_retries (run mb_step ?m ?es)) [2] = Some (retry_message [2])"
    using ingress_manual_sticky[of ?m "[2]" "retry_message [2]" ?es] by blast
  then show ?thesis by simp
qed

text \<open>
  a retired id is not accepted again within the window. Once an id is retired with a state,
  as long as fewer ids than the capacity of the memory have been retired since, the mailbox still
  knows that first state, whatever operations ran (a later acknowledgement included), and a
  publication under that id is answered as terminal and changes nothing.
\<close>

theorem ingress_replay_refused:
  assumes "retired_within k rid st m" and "int (k + retired_by m es) < terminal_ids_capacity"
    and "validate_manual_request rid msg = None"
  shows "terminal_get (mb_terminal (run mb_step m es)) rid = Some st \<and>
    mb_exec (run mb_step m es) (RequestManualRetry rid msg) = (run mb_step m es, ReplyPublish ALREADY_TERMINAL)"
proof -
  have "terminal_get (mb_terminal (run mb_step m es)) rid = Some st"
    using retired_within_run[OF assms(1,2)] by (simp add: retired_within_def)
  with assms(3) show ?thesis by (simp add: or_error_publish_def mb_request_manual_retry_def)
qed

theorem ingress_replay_refused_witness:
  "snd (mb_exec (run mb_step (run mb_step (new_mailbox 1 1)
      [RequestManualRetry [7] (retry_message [7]), ClearAll])
      [AckManual [7], AckManual [8], CancelManual]) (RequestManualRetry [7] (retry_message [7]))) =
   ReplyPublish ALREADY_TERMINAL"
proof -
  let ?m = "run mb_step (new_mailbox 1 1) [RequestManualRetry [7] (retry_message [7]), ClearAll]"
  let ?es = "[AckManual [7], AckManual [8], CancelManual]"
  have "mb_terminal ?m = \<lparr>ti_capacity = 4096, ti_ids = [([7], CANCELLED_BY_CLEAR)]\<rparr>" by code_simp
  then have "retired_within 0 [7] CANCELLED_BY_CLEAR ?m"
    by (simp add: retired_within_def terminal_ok_def terminal_get_def terminal_ids_capacity_def)
  moreover have "retired_by ?m ?es = 2" by code_simp
  then have "int (0 + retired_by ?m ?es) < terminal_ids_capacity" by (simp add: terminal_ids_capacity_def)
  moreover have "validate_manual_request [7] (retry_message [7]) = None" by code_simp
  ultimately show ?thesis
    using ingress_replay_refused[of 0 "[7]" CANCELLED_BY_CLEAR ?m ?es "retry_message [7]"]
    by (simp only: snd_conv)
qed

text \<open>
  a destructive clear leaves nothing behind. The cleared mailbox has no work, and every
  request that was pending is retired as cancelled, provided the memory of retired ids is at
  least as large as the manual channel.
\<close>

theorem ingress_clear_cancels:
  assumes "mailbox_ok m" and "mb_manual_capacity m \<le> ti_capacity (mb_terminal m)"
    and "rid \<in> fst ` set (mb_manual_retries m)"
  shows "\<not> mb_has_work (mb_clear m) \<and> terminal_get (mb_terminal (mb_clear m)) rid = Some CANCELLED_BY_CLEAR"
proof -
  have "terminal_get (mb_terminal m) rid = None" using assms(1,3) by (auto simp: mailbox_ok_def manual_ok_def)
  then have "terminal_get (retire_all (mb_manual_retries m) (mb_terminal m)) rid = Some CANCELLED_BY_CLEAR"
    using assms by (intro cleared_terminal) (auto simp: mailbox_ok_def manual_ok_def)
  then show ?thesis by (simp add: mb_clear_def mb_has_work_def)
qed

theorem ingress_clear_cancels_witness:
  "terminal_get (mb_terminal (mb_clear (run mb_step (new_mailbox 1 2)
     [RequestManualRetry [1] (retry_message [1]), RequestManualRetry [2] (retry_message [2])]))) [2] =
   Some CANCELLED_BY_CLEAR"
proof -
  let ?es = "[RequestManualRetry [1] (retry_message [1]), RequestManualRetry [2] (retry_message [2])]"
  let ?m = "run mb_step (new_mailbox 1 2) ?es"
  have "mailbox_ok ?m" using mailbox.run_ok[OF mailbox_ok_new, of 1 2 ?es] by (simp add: mb_step_def)
  moreover have "mb_manual_capacity ?m \<le> ti_capacity (mb_terminal ?m)" by code_simp
  moreover have "map fst (mb_manual_retries ?m) = [[1], [2]]" by code_simp
  then have "[2] \<in> fst ` set (mb_manual_retries ?m)" by (metis list.set_intros(1,2) set_map)
  ultimately show ?thesis using ingress_clear_cancels[of ?m "[2]"] by blast
qed

text \<open>
  C30: no wake-up is lost on the event loop. After any operations, feeder turns, supervisor turns
  and moves to a new loop, the event is set exactly when there is work; so a supervisor returns
  from its wait exactly when there is work, and a move carries every message over with the event.
\<close>

theorem ingress_no_lost_wakeup:
  "(let a = run loop_step (new_asyncio_ingress d c) es
    in aq_work_event a = aq_has_work a \<and> snd (aq_wait_turn a) = aq_has_work a \<and>
       aq_view (loop_step a Rebind) = aq_view a \<and> aq_work_event (loop_step a Rebind) = aq_has_work a)"
proof -
  define a where "a = run loop_step (new_asyncio_ingress d c) es"
  have good: "aq_good a" unfolding a_def by (rule loop.run_inv[OF aq_good_new])
  have "aq_good (loop_step a Rebind)" by (rule aq_good_loop_step[OF good])
  then have "aq_work_event (loop_step a Rebind) = aq_has_work (loop_step a Rebind)"
    by (simp only: aq_good_def)
  moreover have "aq_has_work (loop_step a Rebind) = aq_has_work a" by (simp add: aq_has_work_view)
  moreover have "snd (aq_wait_turn a) = aq_has_work a" by (simp add: aq_wait_turn_def Let_def)
  ultimately show ?thesis using good unfolding a_def[symmetric] by (simp add: Let_def aq_good_def)
qed

end
