(* ===== verification/LoginLimiter.thy ===== *)
theory LoginLimiter
  imports PyText
begin

section \<open>The login rate limiter\<close>

text \<open>
  \<^verbatim>\<open>lightrag/api/login_rate_limit.py\<close> and its use by the \<^verbatim>\<open>/login\<close>
  handler of \<^verbatim>\<open>lightrag/api/lightrag_server.py\<close>: a sliding window of confirmed failures and
  a count of in-flight reservations for each client-and-user key, in a table of bounded size
  that evicts only dead keys. The reading of the monotonic clock is an argument of every
  operation; a written warning is an entry of the log.
\<close>

record login_entry =
  le_failures :: "real list"
  le_pending :: int

datatype alert_category = Lockout | TableFull

record login_alert =
  al_time :: real
  al_category :: alert_category
  al_suppressed :: int

record limiter =
  ll_max_attempts :: int
  ll_window :: real
  ll_max_keys :: int
  ll_alert_interval :: real
  ll_entries :: "(pystr, login_entry) dict"
  ll_alert_last :: "(alert_category, real) dict"
  ll_alert_suppressed :: "(alert_category, int) dict"
  ll_log :: "login_alert list"

definition default_max_tracked_keys :: int where "default_max_tracked_keys = 10000"

definition default_alert_interval :: real where "default_alert_interval = 60"

definition pending_retry_after :: real where "pending_retry_after = 1"

definition new_limiter :: "int \<Rightarrow> real \<Rightarrow> int \<Rightarrow> real \<Rightarrow> limiter" where
  "new_limiter max_attempts window max_keys interval =
     \<lparr>ll_max_attempts = max_attempts, ll_window = window, ll_max_keys = max_keys,
      ll_alert_interval = interval, ll_entries = [], ll_alert_last = [], ll_alert_suppressed = [],
      ll_log = []\<rparr>"

definition enabled :: "limiter \<Rightarrow> bool" where
  "enabled lm \<longleftrightarrow> ll_max_attempts lm > 0 \<and> ll_window lm > 0"

definition prune :: "real \<Rightarrow> real \<Rightarrow> login_entry \<Rightarrow> login_entry" where
  "prune window now e = e\<lparr>le_failures := dropWhile (\<lambda>t. t \<le> now - window) (le_failures e)\<rparr>"

lemma prune_pending [simp]: "le_pending (prune w now e) = le_pending e"
  by (simp add: prune_def)

definition live_entry :: "pystr \<Rightarrow> real \<Rightarrow> limiter \<Rightarrow> limiter \<times> login_entry option" where
  "live_entry key now lm =
     (case map_of (ll_entries lm) key of
        None \<Rightarrow> (lm, None)
      | Some e \<Rightarrow>
         let e' = prune (ll_window lm) now e
         in if le_failures e' = [] \<and> le_pending e' = 0
            then (lm\<lparr>ll_entries := AList.delete key (ll_entries lm)\<rparr>, None)
            else (lm\<lparr>ll_entries := AList.update key e' (ll_entries lm)\<rparr>, Some e'))"

definition retry_after :: "pystr \<Rightarrow> real \<Rightarrow> limiter \<Rightarrow> limiter \<times> real option" where
  "retry_after key now lm =
     (if \<not> enabled lm then (lm, None)
      else case live_entry key now lm of
        (lm1, None) \<Rightarrow> (lm1, None)
      | (lm1, Some e) \<Rightarrow>
         let confirmed = int (length (le_failures e))
         in if confirmed + le_pending e < ll_max_attempts lm then (lm1, None)
            else if confirmed \<ge> ll_max_attempts lm
            then (lm1, Some (max 0 (ll_window lm - (now - hd (le_failures e)))))
            else (lm1, Some pending_retry_after))"

definition alert :: "real \<Rightarrow> alert_category \<Rightarrow> limiter \<Rightarrow> limiter" where
  "alert now cat lm =
     (let suppressed = (case map_of (ll_alert_suppressed lm) cat of Some n \<Rightarrow> n | None \<Rightarrow> 0);
          throttled = (case map_of (ll_alert_last lm) cat of
             Some t0 \<Rightarrow> now - t0 < ll_alert_interval lm | None \<Rightarrow> False)
      in if throttled
         then lm\<lparr>ll_alert_suppressed := AList.update cat (suppressed + 1) (ll_alert_suppressed lm)\<rparr>
         else lm\<lparr>ll_alert_suppressed := AList.delete cat (ll_alert_suppressed lm),
                  ll_alert_last := AList.update cat now (ll_alert_last lm),
                  ll_log := ll_log lm @ [\<lparr>al_time = now, al_category = cat, al_suppressed = suppressed\<rparr>]\<rparr>)"

text \<open>
  Making room walks the table from its least recently active key. On an empty table whose limit
  is not positive the walk asks for the first key of nothing, which raises.
\<close>

datatype room = HaveRoom | NoRoom | StopIteration

fun make_room_loop :: "int \<Rightarrow> real \<Rightarrow> real \<Rightarrow> (pystr, login_entry) dict \<Rightarrow> (pystr, login_entry) dict \<times> room" where
  "make_room_loop max_keys window now [] = ([], if 0 \<ge> max_keys then StopIteration else HaveRoom)"
| "make_room_loop max_keys window now ((k, e) # es) =
     (if int (length ((k, e) # es)) \<ge> max_keys then
        let e' = prune window now e
        in if le_failures e' \<noteq> [] \<or> le_pending e' > 0 then ((k, e') # es, NoRoom)
           else make_room_loop max_keys window now es
      else ((k, e) # es, HaveRoom))"

definition make_room :: "real \<Rightarrow> limiter \<Rightarrow> limiter \<times> room" where
  "make_room now lm =
     (let (es, r) = make_room_loop (ll_max_keys lm) (ll_window lm) now (ll_entries lm);
          lm1 = lm\<lparr>ll_entries := es\<rparr>
      in (if r = NoRoom then alert now TableFull lm1 else lm1, r))"

text \<open>A reservation answers whether it raised.\<close>

definition add_pending :: "pystr \<Rightarrow> login_entry \<Rightarrow> limiter \<Rightarrow> limiter" where
  "add_pending key e lm =
     lm\<lparr>ll_entries := move_to_end key (AList.update key (e\<lparr>le_pending := le_pending e + 1\<rparr>) (ll_entries lm))\<rparr>"

definition reserve_attempt :: "pystr \<Rightarrow> real \<Rightarrow> limiter \<Rightarrow> limiter \<times> bool" where
  "reserve_attempt key now lm =
     (if \<not> enabled lm then (lm, False)
      else case live_entry key now lm of
        (lm1, Some e) \<Rightarrow> (add_pending key e lm1, False)
      | (lm1, None) \<Rightarrow>
         (case make_room now lm1 of
            (lm2, HaveRoom) \<Rightarrow> (add_pending key \<lparr>le_failures = [], le_pending = 0\<rparr> lm2, False)
          | (lm2, NoRoom) \<Rightarrow> (lm2, False)
          | (lm2, StopIteration) \<Rightarrow> (lm2, True)))"

definition release :: "pystr \<Rightarrow> limiter \<Rightarrow> limiter" where
  "release key lm =
     (case map_of (ll_entries lm) key of
        None \<Rightarrow> lm
      | Some e \<Rightarrow>
         let e' = (if le_pending e > 0 then e\<lparr>le_pending := le_pending e - 1\<rparr> else e)
         in if le_pending e' = 0 \<and> le_failures e' = []
            then lm\<lparr>ll_entries := AList.delete key (ll_entries lm)\<rparr>
            else lm\<lparr>ll_entries := AList.update key e' (ll_entries lm)\<rparr>)"

definition commit_failure :: "pystr \<Rightarrow> real \<Rightarrow> limiter \<Rightarrow> limiter" where
  "commit_failure key now lm =
     (if \<not> enabled lm then lm
      else case map_of (ll_entries lm) key of
        None \<Rightarrow> lm
      | Some e \<Rightarrow>
         let e1 = prune (ll_window lm) now e;
             e2 = e1\<lparr>le_failures := le_failures e1 @ [now]\<rparr>;
             lm1 = lm\<lparr>ll_entries := move_to_end key (AList.update key e2 (ll_entries lm))\<rparr>
         in if int (length (le_failures e2)) = ll_max_attempts lm then alert now Lockout lm1 else lm1)"

definition reset :: "pystr \<Rightarrow> limiter \<Rightarrow> limiter" where
  "reset key lm =
     (case map_of (ll_entries lm) key of
        None \<Rightarrow> lm
      | Some e \<Rightarrow>
         if le_pending e = 0 then lm\<lparr>ll_entries := AList.delete key (ll_entries lm)\<rparr>
         else lm\<lparr>ll_entries := AList.update key (e\<lparr>le_failures := []\<rparr>) (ll_entries lm)\<rparr>)"

datatype login_op =
    RetryAfter pystr
  | ReserveAttempt pystr
  | Release pystr
  | CommitFailure pystr
  | Reset pystr

fun login_step :: "limiter \<Rightarrow> real \<times> login_op \<Rightarrow> limiter" where
  "login_step lm (now, RetryAfter key) = fst (retry_after key now lm)"
| "login_step lm (now, ReserveAttempt key) = fst (reserve_attempt key now lm)"
| "login_step lm (now, Release key) = release key lm"
| "login_step lm (now, CommitFailure key) = commit_failure key now lm"
| "login_step lm (now, Reset key) = reset key lm"


subsection \<open>The login handler\<close>

text \<open>
  The handler checks and reserves with no await in between, verifies the password on a thread,
  and then records the outcome and releases. So a login is two atomic steps, with steps of other
  requests in between; a verification that raises only releases. The reply of a refused login
  carries its retry hint in whole seconds.
\<close>

datatype verification = PasswordOk | PasswordWrong | VerifyRaised

datatype admission = Refused int | Admitted | AdmissionRaised

definition login_begin :: "pystr \<Rightarrow> real \<Rightarrow> limiter \<Rightarrow> limiter \<times> admission" where
  "login_begin key now lm =
     (case retry_after key now lm of
        (lm1, Some r) \<Rightarrow> (lm1, Refused (\<lfloor>r\<rfloor> + 1))
      | (lm1, None) \<Rightarrow>
         (case reserve_attempt key now lm1 of
            (lm2, raised) \<Rightarrow> (lm2, if raised then AdmissionRaised else Admitted)))"

definition login_finish :: "pystr \<Rightarrow> verification \<Rightarrow> real \<Rightarrow> limiter \<Rightarrow> limiter" where
  "login_finish key v now lm =
     release key (case v of PasswordWrong \<Rightarrow> commit_failure key now lm
       | PasswordOk \<Rightarrow> reset key lm | VerifyRaised \<Rightarrow> lm)"

datatype login_event = Begin pystr | Finish pystr verification

fun handler_step :: "limiter \<Rightarrow> real \<times> login_event \<Rightarrow> limiter" where
  "handler_step lm (now, Begin key) = fst (login_begin key now lm)"
| "handler_step lm (now, Finish key v) = login_finish key v now lm"


subsection \<open>The invariant of the table\<close>

text \<open>No key is kept idle, and the table is within its size.\<close>

definition entry_ok :: "login_entry \<Rightarrow> bool" where
  "entry_ok e \<longleftrightarrow> 0 \<le> le_pending e \<and> (le_failures e \<noteq> [] \<or> 0 < le_pending e)"

definition limiter_ok :: "limiter \<Rightarrow> bool" where
  "limiter_ok lm \<longleftrightarrow> keys_distinct (ll_entries lm) \<and>
     (\<forall>(k, e) \<in> set (ll_entries lm). entry_ok e) \<and>
     int (length (ll_entries lm)) \<le> max 0 (ll_max_keys lm)"

lemma limiter_okD:
  "limiter_ok lm \<Longrightarrow> map_of (ll_entries lm) k = Some e \<Longrightarrow> entry_ok e"
  by (auto simp: limiter_ok_def dest: map_of_SomeD)

lemma alert_entries [simp]:
  "ll_entries (alert now cat lm) = ll_entries lm"
  "ll_max_keys (alert now cat lm) = ll_max_keys lm"
  "ll_max_attempts (alert now cat lm) = ll_max_attempts lm"
  "ll_window (alert now cat lm) = ll_window lm"
  "ll_alert_interval (alert now cat lm) = ll_alert_interval lm"
  by (simp_all add: alert_def Let_def)

lemma limiter_ok_alert [simp]: "limiter_ok (alert now cat lm) = limiter_ok lm"
  by (simp add: limiter_ok_def)

lemma limiter_ok_delete: "limiter_ok lm \<Longrightarrow> limiter_ok (lm\<lparr>ll_entries := AList.delete k (ll_entries lm)\<rparr>)"
proof -
  assume "limiter_ok lm"
  moreover have "length (AList.delete k (ll_entries lm)) \<le> length (ll_entries lm)"
    by (rule AList.length_delete_le)
  ultimately show ?thesis by (auto simp: limiter_ok_def set_dict_delete)
qed

lemma limiter_ok_update:
  assumes "limiter_ok lm" and "entry_ok e"
    and "map_of (ll_entries lm) k = None \<Longrightarrow> int (length (ll_entries lm)) < ll_max_keys lm"
  shows "limiter_ok (lm\<lparr>ll_entries := AList.update k e (ll_entries lm)\<rparr>)"
    and "limiter_ok (lm\<lparr>ll_entries := move_to_end k (AList.update k e (ll_entries lm))\<rparr>)"
proof -
  have "int (length (AList.update k e (ll_entries lm))) \<le> max 0 (ll_max_keys lm)"
    using assms(1,3) by (auto simp: limiter_ok_def length_dict_update)
  then show "limiter_ok (lm\<lparr>ll_entries := AList.update k e (ll_entries lm)\<rparr>)"
    and "limiter_ok (lm\<lparr>ll_entries := move_to_end k (AList.update k e (ll_entries lm))\<rparr>)"
    using assms(1,2) set_dict_update_subset[of k e "ll_entries lm"]
    by (fastforce simp: limiter_ok_def length_move_to_end)+
qed

lemma live_entry_cases:
  assumes "live_entry key now lm = (lm1, r)"
  obtains (absent) "map_of (ll_entries lm) key = None" "lm1 = lm" "r = None"
  | (dead) e where "map_of (ll_entries lm) key = Some e"
      "le_failures (prune (ll_window lm) now e) = []" "le_pending e = 0"
      "lm1 = lm\<lparr>ll_entries := AList.delete key (ll_entries lm)\<rparr>" "r = None"
  | (live) e where "map_of (ll_entries lm) key = Some e"
      "le_failures (prune (ll_window lm) now e) \<noteq> [] \<or> le_pending e \<noteq> 0"
      "lm1 = lm\<lparr>ll_entries := AList.update key (prune (ll_window lm) now e) (ll_entries lm)\<rparr>"
      "r = Some (prune (ll_window lm) now e)"
  using assms
  by (auto simp: live_entry_def Let_def prune_def split: option.splits if_splits)

lemma live_entry_ok:
  assumes "limiter_ok lm" and "live_entry key now lm = (lm1, r)"
  shows "limiter_ok lm1"
  using assms(2)
proof (cases rule: live_entry_cases)
  case (live e)
  with limiter_okD[OF assms(1)] have "entry_ok (prune (ll_window lm) now e)"
    by (fastforce simp: entry_ok_def prune_def)
  with live assms(1) show ?thesis by (auto intro: limiter_ok_update)
qed (use assms(1) limiter_ok_delete in auto)

lemma live_entry_frame:
  assumes "live_entry key now lm = (lm1, r)"
  shows "ll_max_keys lm1 = ll_max_keys lm" "ll_max_attempts lm1 = ll_max_attempts lm"
    "ll_window lm1 = ll_window lm" "ll_alert_interval lm1 = ll_alert_interval lm"
    "ll_log lm1 = ll_log lm" "ll_alert_last lm1 = ll_alert_last lm"
    "map_of (ll_entries lm1) key = r"
  using assms by (auto elim!: live_entry_cases)

text \<open>Making room drops a prefix of dead keys and may prune the key at the front.\<close>

lemma make_room_loop_cases:
  assumes "make_room_loop mk w now es = (es', r)"
  shows "\<exists>dead rest. es = dead @ rest \<and>
     (\<forall>(k, e) \<in> set dead. le_failures (prune w now e) = [] \<and> le_pending e \<le> 0) \<and>
     (case r of
        NoRoom \<Rightarrow> (\<exists>k e more. rest = (k, e) # more \<and> es' = (k, prune w now e) # more \<and>
          (le_failures (prune w now e) \<noteq> [] \<or> 0 < le_pending e) \<and> mk \<le> int (length rest))
      | HaveRoom \<Rightarrow> es' = rest \<and> int (length rest) < mk
      | StopIteration \<Rightarrow> es' = [] \<and> rest = [] \<and> mk \<le> 0)"
  using assms
proof (induction mk w now es rule: make_room_loop.induct)
  case (1 mk w now)
  then show ?case by (auto split: if_splits)
next
  case (2 mk w now k e es)
  show ?case
  proof (cases "int (length ((k, e) # es)) \<ge> mk")
    case False
    with "2.prems" show ?thesis by (intro exI[of _ "[]"] exI[of _ "(k, e) # es"]) (auto split: if_splits)
  next
    case full: True
    show ?thesis
    proof (cases "le_failures (prune w now e) \<noteq> [] \<or> le_pending (prune w now e) > 0")
      case True
      with full "2.prems" have "r = NoRoom" "es' = (k, prune w now e) # es"
        by (auto simp: Let_def simp del: prune_pending)
      with True full show ?thesis by (intro exI[of _ "[]"] exI[of _ "(k, e) # es"]) auto
    next
      case False
      with full "2.prems" have loop: "make_room_loop mk w now es = (es', r)" by (simp add: Let_def)
      from "2.IH"[OF full refl False loop] obtain dead rest where ih: "es = dead @ rest"
        "\<forall>(k, e) \<in> set dead. le_failures (prune w now e) = [] \<and> le_pending e \<le> 0"
        "case r of
          NoRoom \<Rightarrow> (\<exists>k e more. rest = (k, e) # more \<and> es' = (k, prune w now e) # more \<and>
            (le_failures (prune w now e) \<noteq> [] \<or> 0 < le_pending e) \<and> mk \<le> int (length rest))
        | HaveRoom \<Rightarrow> es' = rest \<and> int (length rest) < mk
        | StopIteration \<Rightarrow> es' = [] \<and> rest = [] \<and> mk \<le> 0" by blast
      have "le_failures (prune w now e) = [] \<and> le_pending e \<le> 0" using False by (simp add: prune_def)
      with ih show ?thesis by (intro exI[of _ "(k, e) # dead"] exI[of _ rest]) simp
    qed
  qed
qed

lemma make_room_frame:
  assumes "make_room now lm = (lm1, r)"
  shows "ll_max_keys lm1 = ll_max_keys lm" "ll_max_attempts lm1 = ll_max_attempts lm"
    "ll_window lm1 = ll_window lm" "ll_alert_interval lm1 = ll_alert_interval lm"
    "make_room_loop (ll_max_keys lm) (ll_window lm) now (ll_entries lm) = (ll_entries lm1, r)"
  using assms by (auto simp: make_room_def Let_def split: prod.splits if_splits)

lemma make_room_ok:
  assumes "limiter_ok lm" and "make_room now lm = (lm1, r)"
  shows "limiter_ok lm1"
proof -
  obtain dead rest where es: "ll_entries lm = dead @ rest"
    and r: "case r of
        NoRoom \<Rightarrow> (\<exists>k e more. rest = (k, e) # more \<and> ll_entries lm1 = (k, prune (ll_window lm) now e) # more \<and>
          (le_failures (prune (ll_window lm) now e) \<noteq> [] \<or> 0 < le_pending e) \<and> ll_max_keys lm \<le> int (length rest))
      | HaveRoom \<Rightarrow> ll_entries lm1 = rest \<and> int (length rest) < ll_max_keys lm
      | StopIteration \<Rightarrow> ll_entries lm1 = [] \<and> rest = [] \<and> ll_max_keys lm \<le> 0"
    using make_room_loop_cases[OF make_room_frame(5)[OF assms(2)]] by blast
  have rest: "keys_distinct rest" "\<forall>(k, e) \<in> set rest. entry_ok e" "int (length rest) \<le> max 0 (ll_max_keys lm)"
    using assms(1) unfolding limiter_ok_def es by auto
  show ?thesis
  proof (cases r)
    case NoRoom
    with r obtain k e more where rest_eq: "rest = (k, e) # more"
      and es1: "ll_entries lm1 = (k, prune (ll_window lm) now e) # more"
      and live: "le_failures (prune (ll_window lm) now e) \<noteq> [] \<or> 0 < le_pending e" by auto
    have "entry_ok (prune (ll_window lm) now e)" using live rest(2) by (auto simp: rest_eq entry_ok_def)
    with rest show ?thesis by (simp add: limiter_ok_def es1 rest_eq make_room_frame[OF assms(2)])
  qed (use r rest in \<open>simp_all add: limiter_ok_def make_room_frame[OF assms(2)]\<close>)
qed

lemma retry_after_ok: "limiter_ok lm \<Longrightarrow> limiter_ok (fst (retry_after key now lm))"
  by (auto simp: retry_after_def Let_def dest: live_entry_ok split: prod.splits option.splits)

lemma add_pending_ok:
  assumes "limiter_ok lm" and "0 \<le> le_pending e"
    and "map_of (ll_entries lm) key = None \<Longrightarrow> int (length (ll_entries lm)) < ll_max_keys lm"
  shows "limiter_ok (add_pending key e lm)"
  using assms by (auto simp: add_pending_def entry_ok_def intro!: limiter_ok_update(2))

lemma reserve_attempt_cases:
  assumes "reserve_attempt key now lm = (lm', raised)"
  obtains (disabled) "\<not> enabled lm" "lm' = lm" "\<not> raised"
  | (live) lm1 e where "enabled lm" "live_entry key now lm = (lm1, Some e)" "lm' = add_pending key e lm1" "\<not> raised"
  | (fresh) lm1 lm2 where "enabled lm" "live_entry key now lm = (lm1, None)" "make_room now lm1 = (lm2, HaveRoom)"
      "lm' = add_pending key \<lparr>le_failures = [], le_pending = 0\<rparr> lm2" "\<not> raised"
  | (untracked) lm1 r where "enabled lm" "live_entry key now lm = (lm1, None)" "make_room now lm1 = (lm', r)" "r \<noteq> HaveRoom"
      "raised = (r = StopIteration)"
  using assms that
  by (auto simp: reserve_attempt_def split: if_splits prod.splits option.splits room.splits)

lemma reserve_attempt_ok:
  assumes "limiter_ok lm"
  shows "limiter_ok (fst (reserve_attempt key now lm))"
proof -
  obtain lm' raised where r: "reserve_attempt key now lm = (lm', raised)" by fastforce
  then have "limiter_ok lm'"
  proof (cases rule: reserve_attempt_cases)
    case (live lm1 e)
    from live_entry_ok[OF assms live(2)] live_entry_frame(7)[OF live(2)]
    have "limiter_ok lm1" "map_of (ll_entries lm1) key = Some e" by simp_all
    with live show ?thesis using limiter_okD by (auto simp: entry_ok_def intro!: add_pending_ok)
  next
    case (fresh lm1 lm2)
    from make_room_ok[OF live_entry_ok[OF assms fresh(2)] fresh(3)]
    have ok: "limiter_ok lm2" .
    from make_room_loop_cases[OF make_room_frame(5)[OF fresh(3)]] make_room_frame(1)[OF fresh(3)]
    have "int (length (ll_entries lm2)) < ll_max_keys lm2" by auto
    with ok fresh show ?thesis by (auto intro!: add_pending_ok)
  next
    case (untracked lm1 r)
    with make_room_ok[OF live_entry_ok[OF assms untracked(2)] untracked(3)] show ?thesis by simp
  qed (use assms in simp)
  with r show ?thesis by simp
qed

lemma release_ok: "limiter_ok lm \<Longrightarrow> limiter_ok (release key lm)"
  using limiter_okD[of lm key]
  by (auto simp: release_def Let_def entry_ok_def intro!: limiter_ok_update limiter_ok_delete
      split: option.splits)

lemma reset_ok: "limiter_ok lm \<Longrightarrow> limiter_ok (reset key lm)"
  using limiter_okD[of lm key]
  by (auto simp: reset_def entry_ok_def intro!: limiter_ok_update limiter_ok_delete split: option.splits)

lemma commit_failure_ok: "limiter_ok lm \<Longrightarrow> limiter_ok (commit_failure key now lm)"
  using limiter_okD[of lm key]
  by (auto simp: commit_failure_def Let_def entry_ok_def prune_def intro!: limiter_ok_update
      split: option.splits)

interpretation login: guarded_component login_step limiter_ok
proof unfold_locales
  fix lm and e :: "real \<times> login_op"
  assume "limiter_ok lm"
  then show "limiter_ok (login_step lm e)"
    by (cases "(lm, e)" rule: login_step.cases)
      (simp_all add: retry_after_ok reserve_attempt_ok release_ok commit_failure_ok reset_ok)
qed

lemma login_begin_ok: "limiter_ok lm \<Longrightarrow> limiter_ok (fst (login_begin key now lm))"
proof -
  assume "limiter_ok lm"
  then have "limiter_ok (fst (retry_after key now lm))" by (rule retry_after_ok)
  from this reserve_attempt_ok[OF this, of key now] show ?thesis
    by (auto simp: login_begin_def split: prod.splits option.splits)
qed

lemma login_finish_ok: "limiter_ok lm \<Longrightarrow> limiter_ok (login_finish key v now lm)"
  by (cases v) (simp_all add: login_finish_def release_ok reset_ok commit_failure_ok)

interpretation handler: guarded_component handler_step limiter_ok
proof unfold_locales
  fix lm and e :: "real \<times> login_event"
  assume "limiter_ok lm"
  then show "limiter_ok (handler_step lm e)"
    by (cases "(lm, e)" rule: handler_step.cases) (simp_all add: login_begin_ok login_finish_ok)
qed

lemma limiter_ok_new: "limiter_ok (new_limiter a w k i)"
  by (simp add: limiter_ok_def new_limiter_def)


subsection \<open>Failures inside a window\<close>

definition in_window :: "real \<Rightarrow> real \<Rightarrow> real list \<Rightarrow> nat" where
  "in_window w t xs = length (filter (\<lambda>x. t - w < x) xs)"

definition failures_in :: "(pystr, login_entry) dict \<Rightarrow> pystr \<Rightarrow> real list" where
  "failures_in es key = (case map_of es key of None \<Rightarrow> [] | Some e \<Rightarrow> le_failures e)"

definition window_count :: "limiter \<Rightarrow> pystr \<Rightarrow> real \<Rightarrow> nat" where
  "window_count lm key t = in_window (ll_window lm) t (failures_in (ll_entries lm) key)"

lemma in_window_Nil [simp]: "in_window w t [] = 0"
  by (simp add: in_window_def)

lemma failures_in_update [simp]:
  "failures_in (AList.update k e es) k' = (if k' = k then le_failures e else failures_in es k')"
  by (simp add: failures_in_def)

lemma failures_in_move [simp]: "failures_in (move_to_end k es) = failures_in es"
  by (simp add: failures_in_def fun_eq_iff)

lemma failures_in_delete [simp]:
  "failures_in (AList.delete k es) k' = (if k' = k then [] else failures_in es k')"
  by (simp add: failures_in_def dict_lookup_delete)

lemma failures_in_lookup [simp]:
  "map_of es k = None \<Longrightarrow> failures_in es k = []"
  "map_of es k = Some e \<Longrightarrow> failures_in es k = le_failures e"
  by (simp_all add: failures_in_def)

lemma in_window_dropWhile: "now \<le> t \<Longrightarrow> in_window w t (dropWhile (\<lambda>x. x \<le> now - w) xs) = in_window w t xs"
  by (induction xs) (auto simp: in_window_def)

lemma in_window_prune [simp]: "now \<le> t \<Longrightarrow> in_window w t (le_failures (prune w now e)) = in_window w t (le_failures e)"
  by (simp add: prune_def in_window_dropWhile)

lemma in_window_pruned_empty: "le_failures (prune w now e) = [] \<Longrightarrow> now \<le> t \<Longrightarrow> in_window w t (le_failures e) = 0"
  using in_window_prune[of now t w e] by (simp add: in_window_def del: in_window_prune)

lemma in_window_le_length: "in_window w t xs \<le> length xs"
  by (simp add: in_window_def)

lemma in_window_mono: "t \<le> t' \<Longrightarrow> in_window w t' xs \<le> in_window w t xs"
  by (induction xs) (auto simp: in_window_def)

lemma window_count_alert [simp]: "window_count (alert now cat lm) key t = window_count lm key t"
  by (simp add: window_count_def)

lemma live_entry_window:
  assumes "live_entry key now lm = (lm1, r)" and "now \<le> t"
  shows "window_count lm1 k t = window_count lm k t"
  using assms(1)
proof (cases rule: live_entry_cases)
  case (dead e)
  with in_window_pruned_empty[OF dead(2) assms(2)] show ?thesis
    by (simp add: window_count_def)
qed (use assms(2) in \<open>simp_all add: window_count_def\<close>)

lemma make_room_window:
  assumes "limiter_ok lm" and "make_room now lm = (lm1, r)" and "now \<le> t"
  shows "window_count lm1 k t = window_count lm k t"
proof -
  obtain dead rest where es: "ll_entries lm = dead @ rest"
    and dead: "\<forall>(k, e) \<in> set dead. le_failures (prune (ll_window lm) now e) = [] \<and> le_pending e \<le> 0"
    and r: "case r of
        NoRoom \<Rightarrow> (\<exists>k e more. rest = (k, e) # more \<and> ll_entries lm1 = (k, prune (ll_window lm) now e) # more \<and>
          (le_failures (prune (ll_window lm) now e) \<noteq> [] \<or> 0 < le_pending e) \<and> ll_max_keys lm \<le> int (length rest))
      | HaveRoom \<Rightarrow> ll_entries lm1 = rest \<and> int (length rest) < ll_max_keys lm
      | StopIteration \<Rightarrow> ll_entries lm1 = [] \<and> rest = [] \<and> ll_max_keys lm \<le> 0"
    using make_room_loop_cases[OF make_room_frame(5)[OF assms(2)]] by blast
  have w: "ll_window lm1 = ll_window lm" by (rule make_room_frame(3)[OF assms(2)])
  have rest: "in_window (ll_window lm) t (failures_in rest k) =
      window_count lm k t"
  proof (cases "map_of dead k")
    case None
    then show ?thesis by (simp add: window_count_def es failures_in_def map_add_def split: option.splits)
  next
    case (Some e)
    then have "(k, e) \<in> set dead" by (rule map_of_SomeD)
    moreover from this have "map_of rest k = None"
      using assms(1) unfolding limiter_ok_def es by (force simp: map_of_eq_None_iff)
    ultimately show ?thesis
      using dead Some assms(3) by (auto simp: window_count_def es failures_in_def map_add_def in_window_pruned_empty)
  qed
  have "window_count lm1 k t = in_window (ll_window lm) t (failures_in rest k)"
    using r assms(3) by (cases r) (auto simp: window_count_def w failures_in_def split: if_splits)
  with rest show ?thesis by simp
qed

lemma add_pending_window:
  "map_of (ll_entries lm) key = Some e \<or> map_of (ll_entries lm) key = None \<and> le_failures e = [] \<Longrightarrow>
     window_count (add_pending key e lm) k t = window_count lm k t"
  by (auto simp: add_pending_def window_count_def)

lemma retry_after_window:
  "now \<le> t \<Longrightarrow> window_count (fst (retry_after key now lm)) k t = window_count lm k t"
  by (auto simp: retry_after_def Let_def dest: live_entry_window split: prod.splits option.splits)

lemma make_room_absent:
  assumes "make_room now lm = (lm1, r)" and "map_of (ll_entries lm) key = None"
  shows "map_of (ll_entries lm1) key = None"
  using make_room_loop_cases[OF make_room_frame(5)[OF assms(1)]] assms(2)
  by (cases r) (auto split: if_splits)

lemma reserve_attempt_window:
  assumes "limiter_ok lm" and "now \<le> t"
  shows "window_count (fst (reserve_attempt key now lm)) k t = window_count lm k t"
proof -
  obtain lm' raised where r: "reserve_attempt key now lm = (lm', raised)" by fastforce
  then have "window_count lm' k t = window_count lm k t"
  proof (cases rule: reserve_attempt_cases)
    case (live lm1 e)
    with live_entry_frame(7)[OF live(2)] live_entry_window[OF live(2) assms(2)] show ?thesis
      by (simp add: add_pending_window)
  next
    case (fresh lm1 lm2)
    have "map_of (ll_entries lm2) key = None"
      using live_entry_frame(7)[OF fresh(2)] make_room_absent[OF fresh(3)] by simp
    with fresh live_entry_window[OF fresh(2) assms(2)]
      make_room_window[OF live_entry_ok[OF assms(1) fresh(2)] fresh(3) assms(2)]
    show ?thesis by (simp add: add_pending_window)
  next
    case (untracked lm1 r)
    with live_entry_window[OF untracked(2) assms(2)]
      make_room_window[OF live_entry_ok[OF assms(1) untracked(2)] untracked(3) assms(2)]
    show ?thesis by simp
  qed simp
  with r show ?thesis by simp
qed

lemma release_window: "window_count (release key lm) k t = window_count lm k t"
  by (auto simp: release_def Let_def window_count_def split: option.splits)

lemma commit_failure_window:
  assumes "now \<le> t"
  shows "window_count (commit_failure key now lm) k t =
    window_count lm k t +
      (if k = key \<and> enabled lm \<and> map_of (ll_entries lm) key \<noteq> None \<and> t - ll_window lm < now then 1 else 0)"
proof -
  have "in_window w t (xs @ [now]) = in_window w t xs + (if t - w < now then 1 else 0)" for w xs
    by (simp add: in_window_def)
  then show ?thesis
    using assms by (auto simp: commit_failure_def Let_def window_count_def split: option.splits)
qed

lemma reset_window: "k \<noteq> key \<Longrightarrow> window_count (reset key lm) k t = window_count lm k t"
  by (auto simp: reset_def window_count_def split: option.splits)

text \<open>So a step before \<open>t\<close> that is not a reset of the key keeps the failures that count at \<open>t\<close>.\<close>

lemma login_step_window:
  assumes "limiter_ok lm" and "now \<le> t" and "op \<noteq> Reset key"
  shows "window_count lm key t \<le> window_count (login_step lm (now, op)) key t"
  using assms
  by (cases op) (auto simp: retry_after_window reserve_attempt_window release_window commit_failure_window reset_window)

lemma login_run_window:
  assumes "limiter_ok lm" and "list_all (\<lambda>(now, op). now \<le> t \<and> op \<noteq> Reset key) steps"
  shows "window_count lm key t \<le> window_count (run login_step lm steps) key t"
  using assms
proof (induction steps arbitrary: lm)
  case Nil
  then show ?case by simp
next
  case (Cons s steps)
  obtain now op where s: "s = (now, op)" by fastforce
  have "window_count lm key t \<le> window_count (login_step lm s) key t"
    using Cons.prems by (auto simp: s intro!: login_step_window)
  also have "\<dots> \<le> window_count (run login_step (login_step lm s) steps) key t"
    using Cons.prems by (intro Cons.IH login.step_inv) auto
  finally show ?case by simp
qed

definition same_config :: "limiter \<Rightarrow> limiter \<Rightarrow> bool" where
  "same_config lm lm' \<longleftrightarrow> ll_max_attempts lm' = ll_max_attempts lm \<and> ll_window lm' = ll_window lm \<and>
     ll_max_keys lm' = ll_max_keys lm \<and> ll_alert_interval lm' = ll_alert_interval lm"

lemma retry_after_config: "same_config lm (fst (retry_after key now lm))"
proof -
  obtain lm1 r where l: "live_entry key now lm = (lm1, r)" by fastforce
  from live_entry_frame[OF l] show ?thesis
    by (simp add: retry_after_def l same_config_def Let_def split: option.splits)
qed

lemma reserve_attempt_config: "same_config lm (fst (reserve_attempt key now lm))"
proof -
  obtain lm' raised where r: "reserve_attempt key now lm = (lm', raised)" by fastforce
  then have "same_config lm lm'"
    by (cases rule: reserve_attempt_cases)
      (auto simp: same_config_def add_pending_def make_room_frame live_entry_frame)
  with r show ?thesis by simp
qed

lemma outcome_config:
  "same_config lm (release key lm)" "same_config lm (reset key lm)" "same_config lm (commit_failure key now lm)"
  by (simp_all add: same_config_def release_def reset_def commit_failure_def Let_def split: option.splits)

lemma login_step_config: "same_config lm (login_step lm e)"
  by (cases "(lm, e)" rule: login_step.cases)
    (simp_all add: retry_after_config reserve_attempt_config outcome_config)

lemma login_run_config: "same_config lm (run login_step lm steps)"
proof (induction steps arbitrary: lm)
  case Nil
  show ?case by (simp add: same_config_def)
next
  case (Cons e steps)
  from Cons.IH[of "login_step lm e"] login_step_config[of lm e] show ?case by (simp add: same_config_def)
qed


lemma locked_out:
  assumes "limiter_ok lm" and "enabled lm" and "ll_max_attempts lm \<le> int (window_count lm key t)"
  shows "\<exists>r. snd (retry_after key t lm) = Some r \<and> 0 \<le> r"
proof -
  obtain lm1 r where l: "live_entry key t lm = (lm1, r)" by fastforce
  then show ?thesis
  proof (cases rule: live_entry_cases)
    case (live e)
    have "window_count lm key t \<le> length (le_failures (prune (ll_window lm) t e))"
      using in_window_le_length[of "ll_window lm" t "le_failures (prune (ll_window lm) t e)"] live(1)
      by (simp add: window_count_def)
    moreover have "0 \<le> le_pending e" using limiter_okD[OF assms(1) live(1)] by (simp add: entry_ok_def)
    ultimately show ?thesis
      using live(4) l assms live_entry_frame[OF l] by (simp add: retry_after_def Let_def)
  next
    case (dead e)
    with in_window_pruned_empty[OF dead(2), of t] assms show ?thesis
      by (simp add: window_count_def enabled_def)
  next
    case absent
    with assms show ?thesis by (simp add: window_count_def enabled_def)
  qed
qed


subsection \<open>The load of a key\<close>

definition pending_in :: "(pystr, login_entry) dict \<Rightarrow> pystr \<Rightarrow> int" where
  "pending_in es key = (case map_of es key of None \<Rightarrow> 0 | Some e \<Rightarrow> le_pending e)"

definition load :: "limiter \<Rightarrow> pystr \<Rightarrow> real \<Rightarrow> int" where
  "load lm key t = int (window_count lm key t) + pending_in (ll_entries lm) key"

lemma pending_in_simps [simp]:
  "pending_in (AList.update k e es) k' = (if k' = k then le_pending e else pending_in es k')"
  "pending_in (move_to_end k es) = pending_in es"
  "pending_in (AList.delete k es) k' = (if k' = k then 0 else pending_in es k')"
  "map_of es k = None \<Longrightarrow> pending_in es k = 0"
  "map_of es k = Some e \<Longrightarrow> pending_in es k = le_pending e"
  by (simp_all add: pending_in_def dict_lookup_delete fun_eq_iff)

lemma live_entry_pending:
  "live_entry key now lm = (lm1, r) \<Longrightarrow> pending_in (ll_entries lm1) k = pending_in (ll_entries lm) k"
  by (erule live_entry_cases) auto

lemma make_room_pending:
  assumes "limiter_ok lm" and "make_room now lm = (lm1, r)"
  shows "pending_in (ll_entries lm1) k = pending_in (ll_entries lm) k"
proof -
  obtain dead rest where es: "ll_entries lm = dead @ rest"
    and dead: "\<forall>(k, e) \<in> set dead. le_failures (prune (ll_window lm) now e) = [] \<and> le_pending e \<le> 0"
    and r: "case r of
        NoRoom \<Rightarrow> (\<exists>k e more. rest = (k, e) # more \<and> ll_entries lm1 = (k, prune (ll_window lm) now e) # more \<and>
          (le_failures (prune (ll_window lm) now e) \<noteq> [] \<or> 0 < le_pending e) \<and> ll_max_keys lm \<le> int (length rest))
      | HaveRoom \<Rightarrow> ll_entries lm1 = rest \<and> int (length rest) < ll_max_keys lm
      | StopIteration \<Rightarrow> ll_entries lm1 = [] \<and> rest = [] \<and> ll_max_keys lm \<le> 0"
    using make_room_loop_cases[OF make_room_frame(5)[OF assms(2)]] by blast
  have rest: "pending_in rest k = pending_in (ll_entries lm) k"
  proof (cases "map_of dead k")
    case None
    then show ?thesis by (simp add: es pending_in_def map_add_def split: option.splits)
  next
    case (Some e)
    then have e: "(k, e) \<in> set dead" by (rule map_of_SomeD)
    moreover from this have "map_of rest k = None"
      using assms(1) unfolding limiter_ok_def es by (force simp: map_of_eq_None_iff)
    moreover have "le_pending e = 0"
    proof -
      have "(k, e) \<in> set (ll_entries lm)" using e by (simp add: es)
      then have "0 \<le> le_pending e" using assms(1) by (auto simp: limiter_ok_def entry_ok_def)
      moreover have "le_pending e \<le> 0" using e dead by auto
      ultimately show ?thesis by simp
    qed
    ultimately show ?thesis using Some by (simp add: es pending_in_def map_add_def)
  qed
  have "pending_in (ll_entries lm1) k = pending_in rest k"
    using r by (cases r) (auto simp: pending_in_def split: if_splits)
  with rest show ?thesis by simp
qed

lemma retry_after_load:
  assumes "now \<le> t"
  shows "load (fst (retry_after key now lm)) k t = load lm k t"
proof -
  obtain lm1 r where l: "live_entry key now lm = (lm1, r)" by fastforce
  from live_entry_pending[OF l] live_entry_window[OF l assms] show ?thesis
    by (simp add: retry_after_def l load_def Let_def split: option.splits)
qed

lemma retry_after_None_load:
  assumes "enabled lm" and "retry_after key now lm = (lm1, None)"
  shows "load lm1 key now < ll_max_attempts lm"
proof -
  obtain lm2 r where l: "live_entry key now lm = (lm2, r)" by fastforce
  have lm1: "lm1 = lm2" and "r \<noteq> None \<longrightarrow> int (length (le_failures (the r))) + le_pending (the r) < ll_max_attempts lm"
    using assms live_entry_frame[OF l]
    by (auto simp: retry_after_def l Let_def split: option.splits if_splits)
  moreover have "in_window (ll_window lm2) now (le_failures (the r)) \<le> length (le_failures (the r))"
    by (rule in_window_le_length)
  ultimately show ?thesis
    using live_entry_frame(7)[OF l] assms(1)
    by (cases r) (auto simp: load_def window_count_def enabled_def)
qed

lemma reserve_attempt_load:
  assumes "limiter_ok lm" and "now \<le> t"
  shows "load (fst (reserve_attempt key now lm)) k t \<le> load lm k t + (if k = key then 1 else 0)"
proof -
  obtain lm' raised where r: "reserve_attempt key now lm = (lm', raised)" by fastforce
  have "pending_in (ll_entries lm') k \<le> pending_in (ll_entries lm) k + (if k = key then 1 else 0)"
    using r
  proof (cases rule: reserve_attempt_cases)
    case (live lm1 e)
    with live_entry_pending[OF live(2), of k] live_entry_frame(7)[OF live(2)] show ?thesis
      by (auto simp: add_pending_def)
  next
    case (fresh lm1 lm2)
    with live_entry_pending[OF fresh(2), of k] live_entry_frame(7)[OF fresh(2)]
      make_room_pending[OF live_entry_ok[OF assms(1) fresh(2)] fresh(3), of k] show ?thesis
      by (auto simp: add_pending_def)
  next
    case (untracked lm1 r)
    with live_entry_pending[OF untracked(2), of k]
      make_room_pending[OF live_entry_ok[OF assms(1) untracked(2)] untracked(3), of k] show ?thesis
      by simp
  qed simp
  with r reserve_attempt_window[OF assms, of key k] show ?thesis by (simp add: load_def)
qed

lemma release_pending:
  assumes "limiter_ok lm"
  shows "pending_in (ll_entries (release key lm)) k =
    (if k = key then max 0 (pending_in (ll_entries lm) k - 1) else pending_in (ll_entries lm) k)"
  using limiter_okD[OF assms, of key]
  by (auto simp: release_def Let_def entry_ok_def max_def split: option.splits)

lemma commit_failure_pending:
  "pending_in (ll_entries (commit_failure key now lm)) k = pending_in (ll_entries lm) k"
  by (auto simp: commit_failure_def Let_def split: option.splits)

lemma reset_load:
  assumes "limiter_ok lm"
  shows "load (reset key lm) k t \<le> load lm k t"
  using limiter_okD[OF assms, of key]
  by (auto simp: reset_def load_def window_count_def entry_ok_def split: option.splits)

lemma release_load:
  assumes "limiter_ok lm"
  shows "load (release key lm) k t \<le> load lm k t"
proof -
  have "0 \<le> pending_in (ll_entries lm) k"
    using limiter_okD[OF assms, of k] by (cases "map_of (ll_entries lm) k") (auto simp: entry_ok_def)
  then show ?thesis by (auto simp: load_def release_window release_pending[OF assms])
qed


subsection \<open>Paired attempts\<close>

text \<open>
  A finish is paired when the table still holds the reservation it ends, or no longer knows the
  key at all.
\<close>

fun paired :: "limiter \<Rightarrow> (real \<times> login_event) list \<Rightarrow> bool" where
  "paired lm [] = True"
| "paired lm ((now, Begin key) # evs) = paired (handler_step lm (now, Begin key)) evs"
| "paired lm ((now, Finish key v) # evs) =
     ((map_of (ll_entries lm) key = None \<or> 0 < pending_in (ll_entries lm) key) \<and>
      paired (handler_step lm (now, Finish key v)) evs)"

lemma login_begin_load:
  assumes ok: "limiter_ok lm" and en: "enabled lm"
    and within: "\<forall>k. load lm k now \<le> ll_max_attempts lm"
  shows "load (fst (login_begin key now lm)) k now \<le> ll_max_attempts lm"
proof -
  obtain lm1 r where ra: "retry_after key now lm = (lm1, r)" by fastforce
  then have lm1: "load lm1 k now = load lm k now" for k
    using retry_after_load[of now now key lm k] by simp
  show ?thesis
  proof (cases r)
    case (Some r')
    with ra lm1 within show ?thesis by (simp add: login_begin_def)
  next
    case None
    have "limiter_ok lm1" using retry_after_ok[OF ok, of key now] ra by simp
    from reserve_attempt_load[OF this, of now now key k] lm1[of k] within
      retry_after_None_load[OF en, of key now lm1] ra None
    have "load (fst (reserve_attempt key now lm1)) k now \<le> ll_max_attempts lm"
      by (cases "k = key") (auto intro: order_trans)
    with ra None show ?thesis by (cases "reserve_attempt key now lm1") (simp add: login_begin_def)
  qed
qed

lemma login_finish_load:
  assumes ok: "limiter_ok lm" and within: "\<forall>k. load lm k now \<le> ll_max_attempts lm"
    and paired: "map_of (ll_entries lm) key = None \<or> 0 < pending_in (ll_entries lm) key"
  shows "load (login_finish key v now lm) k now \<le> ll_max_attempts lm"
proof (cases v)
  case PasswordOk
  with reset_load[OF ok] release_load[OF reset_ok[OF ok]] within show ?thesis
    by (simp add: login_finish_def) (meson order_trans)
next
  case VerifyRaised
  with release_load[OF ok] within show ?thesis by (simp add: login_finish_def) (meson order_trans)
next
  case PasswordWrong
  let ?lm1 = "commit_failure key now lm"
  have ok1: "limiter_ok ?lm1" by (rule commit_failure_ok[OF ok])
  have "load (release key ?lm1) k now \<le> load lm k now"
    using paired
    by (auto simp: load_def release_window release_pending[OF ok1] commit_failure_pending
        commit_failure_window[OF order_refl])
  with PasswordWrong within show ?thesis by (simp add: login_finish_def) (meson order_trans)
qed

lemma handler_step_config: "same_config lm (handler_step lm e)"
proof -
  have "same_config lm (fst (login_begin key now lm))" for key now
    using retry_after_config[of lm key now] reserve_attempt_config[of "fst (retry_after key now lm)" key now]
    by (auto simp: login_begin_def same_config_def split: prod.splits option.splits)
  moreover have "same_config lm (login_finish key v now lm)" for key v now
    using outcome_config[of lm key] outcome_config(1)[of "commit_failure key now lm" key]
      outcome_config(1)[of "reset key lm" key] outcome_config(3)[of lm key now]
    by (cases v) (auto simp: login_finish_def same_config_def)
  ultimately show ?thesis by (cases "(lm, e)" rule: handler_step.cases) simp_all
qed

lemma handler_run_load:
  assumes "limiter_ok lm" and "enabled lm" and "\<forall>k. load lm k t0 \<le> ll_max_attempts lm"
    and "sorted (t0 # map fst evs @ [t])" and "paired lm evs"
  shows "load (run handler_step lm evs) k t \<le> ll_max_attempts lm"
  using assms
proof (induction evs arbitrary: lm t0)
  case Nil
  have "load lm k t \<le> load lm k t0"
    using Nil.prems(4) in_window_mono[of t0 t "ll_window lm"] by (simp add: load_def window_count_def)
  with Nil.prems(3) show ?case by (auto intro: order_trans)
next
  case (Cons e evs)
  obtain now ev where e: "e = (now, ev)" by fastforce
  have "load lm k now \<le> load lm k t0" for k
    using Cons.prems(4) in_window_mono[of t0 now "ll_window lm"] by (simp add: e load_def window_count_def)
  with Cons.prems(3) have within: "\<forall>k. load lm k now \<le> ll_max_attempts lm" by (meson order_trans)
  have cfg: "same_config lm (handler_step lm e)" by (rule handler_step_config)
  have "\<forall>k. load (handler_step lm e) k now \<le> ll_max_attempts lm"
    using login_begin_load[OF Cons.prems(1,2) within] login_finish_load[OF Cons.prems(1) within] Cons.prems(5)
    by (cases ev) (simp_all add: e)
  moreover have "paired (handler_step lm e) evs" using Cons.prems(5) by (cases ev) (simp_all add: e)
  ultimately have "load (run handler_step (handler_step lm e) evs) k t \<le> ll_max_attempts (handler_step lm e)"
    using Cons.prems cfg
    by (intro Cons.IH[of _ now] handler.step_inv) (auto simp: e same_config_def enabled_def)
  with cfg show ?case by (simp add: same_config_def)
qed


subsection \<open>The alert log\<close>

definition alert_times :: "alert_category \<Rightarrow> limiter \<Rightarrow> real list" where
  "alert_times cat lm = map al_time (filter (\<lambda>a. al_category a = cat) (ll_log lm))"

definition alerts_ok :: "limiter \<Rightarrow> bool" where
  "alerts_ok lm \<longleftrightarrow> (\<forall>cat. successively (\<lambda>x y. ll_alert_interval lm \<le> y - x) (alert_times cat lm) \<and>
     map_of (ll_alert_last lm) cat = (if alert_times cat lm = [] then None else Some (last (alert_times cat lm))))"

text \<open>The alerts of a category the limiter accounts for: written, summarised, or still counted.\<close>

definition accounted :: "limiter \<Rightarrow> alert_category \<Rightarrow> int" where
  "accounted lm cat =
     sum_list (map (\<lambda>a. 1 + al_suppressed a) (filter (\<lambda>a. al_category a = cat) (ll_log lm))) +
     (case map_of (ll_alert_suppressed lm) cat of Some n \<Rightarrow> n | None \<Rightarrow> 0)"

lemma alert_accounted:
  "accounted (alert now cat lm) cat' = accounted lm cat' + (if cat' = cat then 1 else 0)"
  by (auto simp: accounted_def alert_def Let_def dict_lookup_delete split: option.splits)

lemma alert_times_alert:
  "alert_times cat' (alert now cat lm) =
     alert_times cat' lm @ (if cat' = cat \<and> \<not> (case map_of (ll_alert_last lm) cat of
       Some t0 \<Rightarrow> now - t0 < ll_alert_interval lm | None \<Rightarrow> False) then [now] else [])"
  by (auto simp: alert_times_def alert_def Let_def)

lemma alert_last_alert:
  "map_of (ll_alert_last (alert now cat lm)) cat' =
     (if cat' = cat \<and> \<not> (case map_of (ll_alert_last lm) cat of
       Some t0 \<Rightarrow> now - t0 < ll_alert_interval lm | None \<Rightarrow> False) then Some now
      else map_of (ll_alert_last lm) cat')"
  by (auto simp: alert_def Let_def)

lemma alerts_ok_alert: "alerts_ok lm \<Longrightarrow> alerts_ok (alert now cat lm)"
  unfolding alerts_ok_def alert_times_alert alert_last_alert alert_entries
  by (auto simp: successively_append_iff split: option.splits if_splits)

definition same_alerts :: "limiter \<Rightarrow> limiter \<Rightarrow> bool" where
  "same_alerts lm lm' \<longleftrightarrow> ll_log lm' = ll_log lm \<and> ll_alert_last lm' = ll_alert_last lm \<and>
     ll_alert_interval lm' = ll_alert_interval lm"

lemma alerts_ok_same: "alerts_ok lm \<Longrightarrow> same_alerts lm lm' \<Longrightarrow> alerts_ok lm'"
  by (simp add: alerts_ok_def same_alerts_def alert_times_def)

lemma live_entry_alerts: "live_entry key now lm = (lm1, r) \<Longrightarrow> same_alerts lm lm1"
  by (simp add: same_alerts_def live_entry_frame)

lemma make_room_alerts: "alerts_ok lm \<Longrightarrow> make_room now lm = (lm1, r) \<Longrightarrow> alerts_ok lm1"
  by (auto simp: make_room_def Let_def same_alerts_def
      intro!: alerts_ok_alert intro: alerts_ok_same split: prod.splits if_splits)

lemma alerts_ok_step: "alerts_ok lm \<Longrightarrow> alerts_ok (login_step lm e)"
proof (induction lm e rule: login_step.induct)
  case (1 lm now key)
  obtain lm1 r where l: "live_entry key now lm = (lm1, r)" by fastforce
  have "fst (retry_after key now lm) \<in> {lm, lm1}"
    by (simp add: retry_after_def l Let_def split: option.splits)
  with 1 live_entry_alerts[OF l] show ?case by (auto intro: alerts_ok_same)
next
  case (2 lm now key)
  obtain lm' raised where r: "reserve_attempt key now lm = (lm', raised)" by fastforce
  have add: "same_alerts lm0 (add_pending key e lm0)" for e lm0
    by (simp add: same_alerts_def add_pending_def)
  from r have "alerts_ok lm'"
  proof (cases rule: reserve_attempt_cases)
    case (live lm1 e)
    with 2 show ?thesis by (metis add alerts_ok_same live_entry_alerts)
  next
    case (fresh lm1 lm2)
    with 2 show ?thesis by (metis add alerts_ok_same live_entry_alerts make_room_alerts)
  next
    case (untracked lm1 r)
    with 2 show ?thesis by (metis alerts_ok_same live_entry_alerts make_room_alerts)
  qed (use 2 in simp)
  with r show ?case by simp
next
  case (3 lm now key)
  have "same_alerts lm (release key lm)" by (simp add: release_def same_alerts_def Let_def split: option.splits)
  with 3 show ?case by (auto intro: alerts_ok_same)
next
  case (4 lm now key)
  have "alerts_ok (lm\<lparr>ll_entries := es\<rparr>)" for es
    using 4 by (rule alerts_ok_same) (simp add: same_alerts_def)
  with 4 show ?case by (simp add: commit_failure_def Let_def alerts_ok_alert split: option.splits)
next
  case (5 lm now key)
  have "same_alerts lm (reset key lm)" by (simp add: reset_def same_alerts_def split: option.splits)
  with 5 show ?case by (auto intro: alerts_ok_same)
qed

interpretation alerts: guarded_component login_step alerts_ok
  by unfold_locales (rule alerts_ok_step)

lemma alerts_ok_new: "alerts_ok (new_limiter a w k i)"
  by (simp add: alerts_ok_def new_limiter_def alert_times_def)


section \<open>Properties\<close>

text \<open>
  the table is bounded and holds no idle key. After any sequence of operations, at whatever
  clock readings and with whatever configuration, there are at most as many keys as the limit,
  and every key has a failure or a reservation on record.
\<close>

theorem login_table_bounded:
  "limiter_ok (run login_step (new_limiter attempts window keys interval) steps)"
  by (rule login.run_inv[OF limiter_ok_new])

text \<open>
  a lockout cannot be flushed. If a key has enough failures that are still in the window at
  time \<open>t\<close>, then whatever operations run until then on whatever keys, floods of new keys included,
  short of a successful login of that key, an attempt at \<open>t\<close> is refused.
\<close>

theorem login_lockout_survives:
  assumes "limiter_ok lm" and "enabled lm" and "ll_max_attempts lm \<le> int (window_count lm key t)"
    and "list_all (\<lambda>(now, op). now \<le> t \<and> op \<noteq> Reset key) steps"
  shows "\<exists>r. snd (retry_after key t (run login_step lm steps)) = Some r \<and> 0 \<le> r"
proof (rule locked_out)
  show "limiter_ok (run login_step lm steps)" by (rule login.run_inv[OF assms(1)])
  show "enabled (run login_step lm steps)"
    using login_run_config[of lm steps] assms(2) by (simp add: same_config_def enabled_def)
  show "ll_max_attempts (run login_step lm steps) \<le> int (window_count (run login_step lm steps) key t)"
    using login_run_config[of lm steps] login_run_window[OF assms(1,4)] assms(3)
    by (simp add: same_config_def)
qed

definition login_ex_locked :: limiter where
  "login_ex_locked = run login_step (new_limiter 2 10 2 60)
     [(0, ReserveAttempt [1]), (1, CommitFailure [1]), (1, Release [1]),
      (2, ReserveAttempt [1]), (3, CommitFailure [1]), (3, Release [1])]"

lemma login_ex_locked_value:
  "login_ex_locked = \<lparr>ll_max_attempts = 2, ll_window = 10, ll_max_keys = 2, ll_alert_interval = 60,
     ll_entries = [([1], \<lparr>le_failures = [1, 3], le_pending = 0\<rparr>)], ll_alert_last = [(Lockout, 3)],
     ll_alert_suppressed = [], ll_log = [\<lparr>al_time = 3, al_category = Lockout, al_suppressed = 0\<rparr>]\<rparr>"
  by code_simp

theorem login_lockout_survives_witness:
  "\<exists>r. snd (retry_after [1] 9 (run login_step login_ex_locked
     [(4, ReserveAttempt [2]), (5, ReserveAttempt [3]), (6, ReserveAttempt [4]), (7, Release [1])])) = Some r \<and> 0 \<le> r"
proof (rule login_lockout_survives)
  show "limiter_ok login_ex_locked"
    unfolding login_ex_locked_def by (rule login.run_inv[OF limiter_ok_new])
qed (simp_all add: login_ex_locked_value enabled_def window_count_def failures_in_def in_window_def)


definition login_ex_events :: "(real \<times> login_event) list" where
  "login_ex_events = [(0, Begin [1]), (0, Begin [1]), (1, Begin [1]), (2, Finish [1] PasswordWrong),
     (3, Begin [1]), (4, Finish [1] PasswordWrong)]"


text \<open>
  warnings are throttled and none is uncounted. After any operations two consecutive written
  warnings of one category are at least the interval apart, and every alert raised from then on
  adds exactly one to what its category has written, summarised or still counts.
\<close>

theorem login_alerts_throttled:
  "(let lm = run login_step (new_limiter attempts window keys interval) steps
    in successively (\<lambda>x y. interval \<le> y - x) (alert_times cat lm) \<and>
       accounted (alert now cat' lm) cat = accounted lm cat + (if cat = cat' then 1 else 0))"
proof -
  let ?lm = "run login_step (new_limiter attempts window keys interval) steps"
  have "alerts_ok ?lm" by (rule alerts.run_inv[OF alerts_ok_new])
  moreover have "ll_alert_interval ?lm = interval"
    using login_run_config[of "new_limiter attempts window keys interval" steps]
    by (simp add: same_config_def new_limiter_def)
  ultimately show ?thesis by (auto simp: alerts_ok_def alert_accounted Let_def)
qed

text \<open>
  a full table can hold a dead key behind a live one. A key that is only waiting for its
  password check stays at the front while a key behind it ages out, so a new key goes untracked
  although a slot could be reclaimed.
\<close>

theorem login_dead_key_behind_live:
  "(let lm = run login_step (new_limiter 5 10 2 60)
       [(0, ReserveAttempt [1]), (1, ReserveAttempt [2]), (2, CommitFailure [2]), (2, Release [2])]
    in map fst (ll_entries lm) = [[1], [2]] \<and>
       (\<exists>e. map_of (ll_entries lm) [2] = Some e \<and> le_failures (prune 10 20 e) = [] \<and> le_pending e = 0) \<and>
       snd (make_room 20 lm) = NoRoom \<and>
       map_of (ll_entries (login_step lm (20, ReserveAttempt [3]))) [3] = None)"
proof -
  let ?lm = "run login_step (new_limiter 5 10 2 60)
       [(0, ReserveAttempt [1]), (1, ReserveAttempt [2]), (2, CommitFailure [2]), (2, Release [2])]"
  have lm: "?lm = \<lparr>ll_max_attempts = 5, ll_window = 10, ll_max_keys = 2, ll_alert_interval = 60,
     ll_entries = [([1], \<lparr>le_failures = [], le_pending = 1\<rparr>), ([2], \<lparr>le_failures = [2], le_pending = 0\<rparr>)],
     ll_alert_last = [], ll_alert_suppressed = [], ll_log = []\<rparr>"
    by code_simp
  show ?thesis
    unfolding lm Let_def
    by (simp add: prune_def make_room_def reserve_attempt_def live_entry_def enabled_def alert_def)
qed

text \<open>
  an attempt that went untracked can end the reservation of another. When the table is full a
  login of key 2 starts untracked; once key 1 is gone a second login of key 2 is tracked; when the
  first one ends, its release drops the second one's reservation, so a third login is admitted at
  a limit of one while the second is still in flight.
\<close>

theorem login_untracked_release:
  "(let lm = run handler_step (new_limiter 1 10 1 60)
       [(0, Begin [1]), (0, Begin [2]), (1, Finish [1] PasswordOk), (2, Begin [2])]
    in snd (login_begin [2] 3 lm) = Refused 2 \<and>
       snd (login_begin [2] 3 (handler_step lm (3, Finish [2] VerifyRaised))) = Admitted)"
proof -
  let ?lm = "run handler_step (new_limiter 1 10 1 60)
       [(0, Begin [1]), (0, Begin [2]), (1, Finish [1] PasswordOk), (2, Begin [2])]"
  have lm: "?lm = \<lparr>ll_max_attempts = 1, ll_window = 10, ll_max_keys = 1, ll_alert_interval = 60,
     ll_entries = [([2], \<lparr>le_failures = [], le_pending = 1\<rparr>)],
     ll_alert_last = [(TableFull, 0)], ll_alert_suppressed = [],
     ll_log = [\<lparr>al_time = 0, al_category = TableFull, al_suppressed = 0\<rparr>]\<rparr>"
    by code_simp
  show ?thesis
    unfolding lm Let_def
    by (simp add: login_begin_def login_finish_def release_def retry_after_def prune_def make_room_def
        reserve_attempt_def live_entry_def enabled_def add_pending_def pending_retry_after_def move_to_end_def Let_def)
qed

end
