(* ===== verification/Coordinator.thy ===== *)
theory Coordinator
  imports PyText
begin

section \<open>The distributed coordinator\<close>

text \<open>
  \<^verbatim>\<open>lightrag/distributed/coordinator.py\<close>: durable tickets, resource locks, document claims
  and mutation records of one workspace, kept in PostgreSQL tables that every process shares, and
  the fence that uncertain work raises. The tables of one scope are the record \<open>coord_db\<close> with
  the primary keys of \<^verbatim>\<open>migrations/v001.py\<close>; a process is a \<open>coord_client\<close>. Every
  transaction locks the workspace row first, so transactions of one scope are atomic steps. What
  the network may do to a transaction is an argument of it.
\<close>

type_synonym uuid = nat

datatype coord_error =
    ConfigurationMismatch
  | CoordinationBusy
  | WorkspaceFenced
  | OperationOwnership
  | CoordinationUnavailable
  | CoordValueError

record workspace_row =
  ws_manifest_hash :: pystr
  ws_generation :: int
  ws_fenced :: bool
  ws_fence_reason :: "pystr option"

datatype op_state = OpActive | OpCompleted | OpRecovered

record op_row =
  or_id :: uuid
  or_generation :: int
  or_owner :: uuid
  or_witness :: nat
  or_kind :: pystr
  or_exclusive :: bool
  or_metadata :: "(pystr, pystr) dict"
  or_state :: op_state
  or_phase :: pystr
  or_created_at :: real
  or_heartbeat_at :: real
  or_finished_at :: "real option"

record lock_row =
  lr_key :: pystr
  lr_op :: uuid
  lr_task :: uuid
  lr_depth :: int

record claim_row =
  cl_doc :: pystr
  cl_op :: uuid
  cl_phase :: pystr
  cl_heartbeat_at :: real

datatype mutation_state = MutPending | MutAck | MutRecovered

record mutation_row =
  mu_id :: uuid
  mu_op :: uuid
  mu_backend :: pystr
  mu_namespace :: pystr
  mu_method :: pystr
  mu_state :: mutation_state

record audit_row =
  au_id :: uuid
  au_old_generation :: int
  au_new_generation :: int
  au_actor :: pystr
  au_reason :: pystr
  au_operations :: "op_row list"
  au_locks :: "lock_row list"
  au_claims :: "claim_row list"
  au_mutations :: "mutation_row list"

text \<open>\<open>cd_held\<close> is what \<^verbatim>\<open>pg_locks\<close> shows of the witness locks: witness and holding session.\<close>

record coord_db =
  cd_workspace :: "workspace_row option"
  cd_operations :: "op_row list"
  cd_locks :: "lock_row list"
  cd_claims :: "claim_row list"
  cd_mutations :: "mutation_row list"
  cd_audits :: "audit_row list"
  cd_held :: "(nat \<times> uuid) list"

definition empty_db :: coord_db where
  "empty_db = \<lparr>cd_workspace = None, cd_operations = [], cd_locks = [], cd_claims = [],
     cd_mutations = [], cd_audits = [], cd_held = []\<rparr>"

text \<open>The permit a client holds while its operation is open.\<close>

record operation =
  oh_id :: uuid
  oh_generation :: int
  oh_owner :: uuid

record coord_client =
  cc_owner :: uuid
  cc_witness :: nat
  cc_manifest_hash :: "pystr option"
  cc_pool :: bool
  cc_broken :: bool
  cc_read_only :: bool
  cc_witness_open :: bool

definition new_client :: "uuid \<Rightarrow> nat \<Rightarrow> pystr option \<Rightarrow> coord_client" where
  "new_client owner witness manifest =
     \<lparr>cc_owner = owner, cc_witness = witness, cc_manifest_hash = manifest, cc_pool = False,
      cc_broken = False, cc_read_only = False, cc_witness_open = False\<rparr>"

text \<open>
  What a transaction's connection does: it answers, it is lost before the commit (nothing is
  written), or the commit is written and its response is lost.
\<close>

datatype link = LinkOk | LostBeforeCommit | LostAfterCommit

text \<open>The body of a transaction: it gives a value, denies, or violates a constraint.\<close>

datatype 'a outcome = Value 'a | Denied coord_error | DbFailed

type_synonym 'a body = "coord_db \<Rightarrow> coord_db \<times> 'a outcome"

definition bind_body :: "'a body \<Rightarrow> ('a \<Rightarrow> 'b body) \<Rightarrow> 'b body" where
  "bind_body m f db =
     (case m db of (db1, Value a) \<Rightarrow> f a db1 | (db1, Denied e) \<Rightarrow> (db1, Denied e) | (db1, DbFailed) \<Rightarrow> (db1, DbFailed))"


subsection \<open>Quarantine and transactions\<close>

text \<open>Quarantine retires the pool and the witness session; the server drops the session's lock.\<close>

definition drop_session :: "coord_client \<Rightarrow> coord_db \<Rightarrow> coord_db" where
  "drop_session c db = db\<lparr>cd_held := filter (\<lambda>h. h \<noteq> (cc_witness c, cc_owner c)) (cd_held db)\<rparr>"

definition quarantine :: "coord_client \<Rightarrow> coord_db \<Rightarrow> coord_client \<times> coord_db" where
  "quarantine c db =
     (c\<lparr>cc_broken := True, cc_witness_open := False\<rparr>, drop_session c db)"

definition fail_unavailable :: "coord_client \<Rightarrow> coord_db \<Rightarrow> coord_client \<times> coord_db \<times> (coord_error + 'a)" where
  "fail_unavailable c db = (let (c1, db1) = quarantine c db in (c1, db1, Inl CoordinationUnavailable))"

text \<open>A fence found inside the body is committed although the caller is denied.\<close>

definition committed :: "coord_db \<Rightarrow> coord_db \<Rightarrow> 'a outcome \<Rightarrow> coord_db" where
  "committed db db1 r =
     (case r of Value _ \<Rightarrow> db1 | Denied e \<Rightarrow> if e = WorkspaceFenced then db1 else db | DbFailed \<Rightarrow> db)"

definition transaction ::
    "bool \<Rightarrow> link \<Rightarrow> (workspace_row \<Rightarrow> 'a body) \<Rightarrow> coord_client \<Rightarrow> coord_db \<Rightarrow>
     coord_client \<times> coord_db \<times> (coord_error + 'a)" where
  "transaction administrative lk body c db =
     (if \<not> cc_pool c \<or> cc_broken c then (c, db, Inl CoordinationUnavailable)
      else if \<not> administrative \<and> (cc_read_only c \<or> \<not> cc_witness_open c) then fail_unavailable c db
      else if lk = LostBeforeCommit then fail_unavailable c db
      else case cd_workspace db of
        None \<Rightarrow> (c, db, Inl ConfigurationMismatch)
      | Some row \<Rightarrow>
         (let (db1, r) = body row db; db2 = committed db db1 r
          in if lk = LostAfterCommit \<or> r = DbFailed then fail_unavailable c db2
             else (c, db2, case r of Value v \<Rightarrow> Inr v | Denied e \<Rightarrow> Inl e | DbFailed \<Rightarrow> Inl CoordinationUnavailable)))"


subsection \<open>Fence and validation\<close>

definition witness_held :: "coord_db \<Rightarrow> nat \<Rightarrow> bool" where
  "witness_held db w \<longleftrightarrow> w \<in> set (map fst (cd_held db))"

definition orphans :: "coord_db \<Rightarrow> uuid list" where
  "orphans db = map or_id (filter (\<lambda>x. or_state x = OpActive \<and> \<not> witness_held db (or_witness x)) (cd_operations db))"

definition fence :: "pystr \<Rightarrow> coord_db \<Rightarrow> coord_db" where
  "fence reason db =
     db\<lparr>cd_workspace := map_option (\<lambda>w. w\<lparr>ws_fenced := True,
        ws_fence_reason := (case ws_fence_reason w of None \<Rightarrow> Some reason | Some r \<Rightarrow> Some r)\<rparr>) (cd_workspace db)\<rparr>"

definition check_scope :: "workspace_row \<Rightarrow> unit body" where
  "check_scope row db =
     (if ws_fenced row then (db, Denied WorkspaceFenced)
      else if orphans db \<noteq> [] then (fence (lit ''Owner witness disappeared'') db, Denied WorkspaceFenced)
      else (db, Value ()))"

definition find_operation :: "operation \<Rightarrow> coord_client \<Rightarrow> coord_db \<Rightarrow> op_row option" where
  "find_operation op c db =
     find (\<lambda>x. or_id x = oh_id op \<and> or_owner x = cc_owner c \<and> or_generation x = oh_generation op \<and>
       or_state x = OpActive) (cd_operations db)"

definition validate :: "coord_client \<Rightarrow> workspace_row \<Rightarrow> operation \<Rightarrow> bool \<Rightarrow> op_row body" where
  "validate c row op check_fence db =
     (if oh_owner op \<noteq> cc_owner c then (db, Denied OperationOwnership)
      else if oh_generation op \<noteq> ws_generation row then (db, Denied OperationOwnership)
      else case find_operation op c db of
        None \<Rightarrow> (db, Denied OperationOwnership)
      | Some found \<Rightarrow>
         if check_fence then bind_body (check_scope row) (\<lambda>_ db1. (db1, Value found)) db
         else (db, Value found))"

text \<open>
  The wait loop after an attempt that gave nothing: give up when the deadline is reached,
  otherwise sleep for the poll interval or what is left, whichever is shorter.
\<close>

datatype wait_choice = GiveUp | SleepFor real

definition wait_action :: "real \<Rightarrow> real \<Rightarrow> real \<Rightarrow> wait_choice" where
  "wait_action poll_interval deadline now =
     (let remaining = deadline - now in if remaining \<le> 0 then GiveUp else SleepFor (min poll_interval remaining))"


subsection \<open>Statements\<close>

definition map_op :: "uuid \<Rightarrow> (op_row \<Rightarrow> op_row) \<Rightarrow> coord_db \<Rightarrow> coord_db" where
  "map_op i f db = db\<lparr>cd_operations := map (\<lambda>x. if or_id x = i then f x else x) (cd_operations db)\<rparr>"

definition map_claim :: "(claim_row \<Rightarrow> bool) \<Rightarrow> (claim_row \<Rightarrow> claim_row) \<Rightarrow> coord_db \<Rightarrow> coord_db" where
  "map_claim P f db = db\<lparr>cd_claims := map (\<lambda>x. if P x then f x else x) (cd_claims db)\<rparr>"

definition has_pending :: "uuid \<Rightarrow> coord_db \<Rightarrow> bool" where
  "has_pending i db \<longleftrightarrow> list_ex (\<lambda>m. mu_op m = i \<and> mu_state m = MutPending) (cd_mutations db)"

definition has_locks :: "uuid \<Rightarrow> coord_db \<Rightarrow> bool" where
  "has_locks i db \<longleftrightarrow> list_ex (\<lambda>l. lr_op l = i) (cd_locks db)"

text \<open>Two rows with one primary key are a constraint violation.\<close>

definition insert_op :: "op_row \<Rightarrow> unit body" where
  "insert_op r db =
     (if or_id r \<in> set (map or_id (cd_operations db)) then (db, DbFailed)
      else (db\<lparr>cd_operations := cd_operations db @ [r]\<rparr>, Value ()))"

definition insert_mutation :: "mutation_row \<Rightarrow> unit body" where
  "insert_mutation r db =
     (if mu_id r \<in> set (map mu_id (cd_mutations db)) then (db, DbFailed)
      else (db\<lparr>cd_mutations := cd_mutations db @ [r]\<rparr>, Value ()))"

definition insert_audit :: "audit_row \<Rightarrow> unit body" where
  "insert_audit r db =
     (if au_id r \<in> set (map au_id (cd_audits db)) then (db, DbFailed)
      else (db\<lparr>cd_audits := cd_audits db @ [r]\<rparr>, Value ()))"


subsection \<open>Initialisation\<close>

text \<open>
  Initialisation opens the pool and, for a writer, registers the scope, takes the witness lock on
  a session of its own and looks for orphans. \<open>verified\<close> is whether the schema check passed. Any
  failure quarantines; only a fence found at the end is left for admission to report.
\<close>

definition register_scope :: "coord_client \<Rightarrow> coord_db \<Rightarrow> coord_db \<times> bool" where
  "register_scope c db =
     (let manifest = (case cc_manifest_hash c of Some m \<Rightarrow> m | None \<Rightarrow> []);
          db1 = (case cd_workspace db of
             None \<Rightarrow> db\<lparr>cd_workspace := Some \<lparr>ws_manifest_hash = manifest, ws_generation = 1,
                       ws_fenced = False, ws_fence_reason = None\<rparr>\<rparr>
           | Some _ \<Rightarrow> db)
      in if map_option ws_manifest_hash (cd_workspace db1) = Some manifest then (db1, True) else (db, False))"

definition take_witness :: "coord_client \<Rightarrow> coord_db \<Rightarrow> coord_client \<times> coord_db \<times> bool" where
  "take_witness c db =
     (if witness_held db (cc_witness c) then (c, db, False)
      else (c\<lparr>cc_witness_open := True\<rparr>, db\<lparr>cd_held := cd_held db @ [(cc_witness c, cc_owner c)]\<rparr>, True))"

definition initialize ::
    "bool \<Rightarrow> bool \<Rightarrow> link \<Rightarrow> link \<Rightarrow> link \<Rightarrow> coord_client \<Rightarrow> coord_db \<Rightarrow> coord_client \<times> coord_db \<times> (coord_error + unit)" where
  "initialize read_only verified lk_register lk_witness lk_discover c db =
     (if cc_broken c then (c, db, Inl CoordinationUnavailable)
      else if cc_pool c then (c, db, Inr ())
      else if \<not> read_only \<and> cc_manifest_hash c = None then (c, db, Inl CoordValueError)
      else
        let c1 = c\<lparr>cc_read_only := read_only, cc_pool := True\<rparr>
        in if \<not> verified \<or> lk_register = LostBeforeCommit then fail_unavailable c1 db
           else if read_only then (c1, db, Inr ())
           else case register_scope c1 db of
             (db1, False) \<Rightarrow> (let (c2, db2) = quarantine c1 db1 in (c2, db2, Inl ConfigurationMismatch))
           | (db1, True) \<Rightarrow>
              if lk_register = LostAfterCommit \<or> lk_witness = LostBeforeCommit then fail_unavailable c1 db1
              else case take_witness c1 db1 of
                (c2, db2, False) \<Rightarrow> fail_unavailable c2 db2
              | (c2, db2, True) \<Rightarrow>
                 if lk_witness = LostAfterCommit then fail_unavailable c2 db2
                 else case transaction False lk_discover (\<lambda>row. check_scope row) c2 db2 of
                   (c3, db3, Inr _) \<Rightarrow> (c3, db3, Inr ())
                 | (c3, db3, Inl e) \<Rightarrow>
                    if e = WorkspaceFenced then (c3, db3, Inr ())
                    else (let (c4, db4) = quarantine c3 db3 in (c4, db4, Inl e)))"


subsection \<open>Operations\<close>

definition exclusion_conflict :: "bool \<Rightarrow> coord_db \<Rightarrow> bool" where
  "exclusion_conflict exclusive db \<longleftrightarrow>
     list_ex (\<lambda>x. or_state x = OpActive \<and> (exclusive \<or> or_exclusive x)) (cd_operations db)"

text \<open>One admission attempt: \<open>None\<close> is a conflict, to be tried again by the wait loop.\<close>

definition admit_body ::
    "coord_client \<Rightarrow> uuid \<Rightarrow> pystr \<Rightarrow> bool \<Rightarrow> (pystr, pystr) dict \<Rightarrow> real \<Rightarrow> workspace_row \<Rightarrow> operation option body" where
  "admit_body c i kind exclusive metadata now row =
     bind_body (check_scope row) (\<lambda>_ db.
       if exclusion_conflict exclusive db then (db, Value None)
       else bind_body
         (insert_op \<lparr>or_id = i, or_generation = ws_generation row, or_owner = cc_owner c,
            or_witness = cc_witness c, or_kind = kind, or_exclusive = exclusive, or_metadata = metadata,
            or_state = OpActive, or_phase = lit ''admitted'', or_created_at = now, or_heartbeat_at = now,
            or_finished_at = None\<rparr>)
         (\<lambda>_ db1. (db1, Value (Some \<lparr>oh_id = i, oh_generation = ws_generation row, oh_owner = cc_owner c\<rparr>))) db)"

definition admit_attempt ::
    "link \<Rightarrow> uuid \<Rightarrow> pystr \<Rightarrow> bool \<Rightarrow> (pystr, pystr) dict \<Rightarrow> real \<Rightarrow> coord_client \<Rightarrow> coord_db \<Rightarrow>
     coord_client \<times> coord_db \<times> (coord_error + operation option)" where
  "admit_attempt lk i kind exclusive metadata now c db =
     (if blank kind then (c, db, Inl CoordValueError)
      else transaction False lk (admit_body c i kind exclusive metadata now) c db)"

text \<open>A confirmed end: nothing may be pending or locked; the claims go and the ticket completes.\<close>

definition complete_body :: "coord_client \<Rightarrow> operation \<Rightarrow> real \<Rightarrow> workspace_row \<Rightarrow> unit body" where
  "complete_body c op now row =
     bind_body (validate c row op True) (\<lambda>_ db.
       if has_pending (oh_id op) db \<or> has_locks (oh_id op) db
       then (fence (lit ''Operation ended with unfinished children or mutations'') db, Denied WorkspaceFenced)
       else (map_op (oh_id op)
               (\<lambda>x. x\<lparr>or_state := OpCompleted, or_phase := lit ''completed'', or_finished_at := Some now,
                     or_heartbeat_at := now\<rparr>)
               (db\<lparr>cd_claims := filter (\<lambda>x. cl_op x \<noteq> oh_id op) (cd_claims db)\<rparr>), Value ()))"

definition complete_operation where
  "complete_operation lk op now c db = transaction False lk (complete_body c op now) c db"

text \<open>An exceptional end, of an operation, of a lock or of a mutation.\<close>

definition uncertain_body :: "coord_client \<Rightarrow> operation \<Rightarrow> pystr \<Rightarrow> workspace_row \<Rightarrow> unit body" where
  "uncertain_body c op reason row =
     bind_body (validate c row op False) (\<lambda>_ db.
       (map_op (oh_id op) (\<lambda>x. x\<lparr>or_phase := lit ''uncertain''\<rparr>) (fence reason db), Value ()))"

definition mark_uncertain :: "link \<Rightarrow> operation \<Rightarrow> pystr \<Rightarrow> coord_client \<Rightarrow> coord_db \<Rightarrow> coord_client \<times> coord_db" where
  "mark_uncertain lk op reason c db =
     (case transaction False lk (uncertain_body c op reason) c db of
        (c1, db1, Inr _) \<Rightarrow> (c1, db1)
      | (c1, db1, Inl _) \<Rightarrow> quarantine c1 db1)"


subsection \<open>Resource locks\<close>

definition lock_keys :: "pystr list \<Rightarrow> pystr list" where
  "lock_keys keys = sort (remdups keys)"

definition acquire_lock :: "uuid \<Rightarrow> uuid \<Rightarrow> pystr \<Rightarrow> coord_db \<Rightarrow> coord_db" where
  "acquire_lock i task key db =
     (if key \<in> set (map lr_key (cd_locks db))
      then db\<lparr>cd_locks := map (\<lambda>x. if lr_key x = key then x\<lparr>lr_depth := lr_depth x + 1\<rparr> else x) (cd_locks db)\<rparr>
      else db\<lparr>cd_locks := cd_locks db @ [\<lparr>lr_key = key, lr_op = i, lr_task = task, lr_depth = 1\<rparr>]\<rparr>)"

definition lock_body :: "coord_client \<Rightarrow> operation \<Rightarrow> uuid \<Rightarrow> pystr list \<Rightarrow> workspace_row \<Rightarrow> bool body" where
  "lock_body c op task ordered row =
     bind_body (validate c row op True) (\<lambda>_ db.
       if list_ex (\<lambda>x. lr_key x \<in> set ordered \<and> (lr_op x \<noteq> oh_id op \<or> lr_task x \<noteq> task)) (cd_locks db)
       then (db, Value False)
       else (fold (acquire_lock (oh_id op) task) ordered db, Value True))"

definition lock_attempt where
  "lock_attempt lk op task keys c db =
     (if list_ex blank keys then (c, db, Inl CoordValueError)
      else transaction False lk (lock_body c op task (lock_keys keys)) c db)"

definition unlock_body :: "coord_client \<Rightarrow> operation \<Rightarrow> uuid \<Rightarrow> pystr list \<Rightarrow> workspace_row \<Rightarrow> unit body" where
  "unlock_body c op task ordered row =
     bind_body (validate c row op True) (\<lambda>_ db.
       (db\<lparr>cd_locks := filter (\<lambda>x. \<not> (lr_op x = oh_id op \<and> lr_task x = task \<and> lr_depth x = 0))
          (map (\<lambda>x. if lr_op x = oh_id op \<and> lr_task x = task \<and> lr_key x \<in> set ordered
                     then x\<lparr>lr_depth := lr_depth x - 1\<rparr> else x) (cd_locks db))\<rparr>, Value ()))"

definition unlock where
  "unlock lk op task keys c db = transaction False lk (unlock_body c op task (lock_keys keys)) c db"


subsection \<open>Document claims, progress and mutations\<close>

definition try_claim_body :: "coord_client \<Rightarrow> operation \<Rightarrow> pystr \<Rightarrow> real \<Rightarrow> workspace_row \<Rightarrow> bool body" where
  "try_claim_body c op doc now row =
     bind_body (validate c row op True) (\<lambda>_ db.
       if doc \<in> set (map cl_doc (cd_claims db)) then (db, Value False)
       else (db\<lparr>cd_claims := cd_claims db @
               [\<lparr>cl_doc = doc, cl_op = oh_id op, cl_phase = lit ''claimed'', cl_heartbeat_at = now\<rparr>]\<rparr>, Value True))"

definition try_claim where
  "try_claim lk op doc now c db =
     (if blank doc then (c, db, Inl CoordValueError)
      else transaction False lk (try_claim_body c op doc now) c db)"

definition check_claim :: "operation \<Rightarrow> pystr \<Rightarrow> unit body" where
  "check_claim op doc db =
     (case find (\<lambda>x. cl_doc x = doc) (cd_claims db) of
        None \<Rightarrow> (db, Denied OperationOwnership)
      | Some r \<Rightarrow> if cl_op r \<noteq> oh_id op then (db, Denied OperationOwnership) else (db, Value ()))"

definition assert_claim where
  "assert_claim lk op doc c db =
     transaction False lk (\<lambda>row. bind_body (validate c row op True) (\<lambda>_. check_claim op doc)) c db"

definition release_claim_body :: "coord_client \<Rightarrow> operation \<Rightarrow> pystr \<Rightarrow> workspace_row \<Rightarrow> unit body" where
  "release_claim_body c op doc row =
     bind_body (validate c row op True) (\<lambda>_. bind_body (check_claim op doc) (\<lambda>_ db.
       if has_pending (oh_id op) db then (db, Denied OperationOwnership)
       else (db\<lparr>cd_claims := filter (\<lambda>x. cl_doc x \<noteq> doc) (cd_claims db)\<rparr>, Value ())))"

definition release_claim where
  "release_claim lk op doc c db = transaction False lk (release_claim_body c op doc) c db"

definition merge_metadata :: "(pystr, pystr) dict \<Rightarrow> (pystr, pystr) dict \<Rightarrow> (pystr, pystr) dict" where
  "merge_metadata new old = fold (\<lambda>(k, v). AList.update k v) new old"

definition set_phase_body ::
    "coord_client \<Rightarrow> operation \<Rightarrow> pystr \<Rightarrow> pystr option \<Rightarrow> (pystr, pystr) dict \<Rightarrow> real \<Rightarrow> workspace_row \<Rightarrow> unit body" where
  "set_phase_body c op phase doc metadata now row =
     bind_body (validate c row op True) (\<lambda>_.
       bind_body (case doc of None \<Rightarrow> (\<lambda>db. (db, Value ()))
           | Some d \<Rightarrow> bind_body (check_claim op d) (\<lambda>_ db.
               (map_claim (\<lambda>x. cl_doc x = d) (\<lambda>x. x\<lparr>cl_phase := phase, cl_heartbeat_at := now\<rparr>) db, Value ())))
         (\<lambda>_ db. (map_op (oh_id op)
             (\<lambda>x. x\<lparr>or_phase := phase, or_metadata := merge_metadata metadata (or_metadata x),
                   or_heartbeat_at := now\<rparr>) db, Value ())))"

definition set_phase where
  "set_phase lk op phase doc metadata now c db =
     (if blank phase then (c, db, Inl CoordValueError)
      else transaction False lk (set_phase_body c op phase doc metadata now) c db)"

definition heartbeat_body :: "coord_client \<Rightarrow> operation \<Rightarrow> real \<Rightarrow> workspace_row \<Rightarrow> unit body" where
  "heartbeat_body c op now row =
     bind_body (validate c row op True) (\<lambda>_ db.
       (map_claim (\<lambda>x. cl_op x = oh_id op) (\<lambda>x. x\<lparr>cl_heartbeat_at := now\<rparr>)
          (map_op (oh_id op) (\<lambda>x. x\<lparr>or_heartbeat_at := now\<rparr>) db), Value ()))"

definition heartbeat where
  "heartbeat lk op now c db = transaction False lk (heartbeat_body c op now) c db"

definition begin_mutation_body ::
    "coord_client \<Rightarrow> operation \<Rightarrow> uuid \<Rightarrow> pystr \<Rightarrow> pystr \<Rightarrow> pystr \<Rightarrow> workspace_row \<Rightarrow> unit body" where
  "begin_mutation_body c op i backend ns meth row =
     bind_body (validate c row op True) (\<lambda>_.
       insert_mutation \<lparr>mu_id = i, mu_op = oh_id op, mu_backend = backend, mu_namespace = ns,
         mu_method = meth, mu_state = MutPending\<rparr>)"

definition begin_mutation where
  "begin_mutation lk op i backend ns meth c db =
     (if list_ex blank [backend, ns, meth] then (c, db, Inl CoordValueError)
      else transaction False lk (begin_mutation_body c op i backend ns meth) c db)"

definition ack_mutation_body :: "coord_client \<Rightarrow> operation \<Rightarrow> uuid \<Rightarrow> workspace_row \<Rightarrow> unit body" where
  "ack_mutation_body c op i row =
     bind_body (validate c row op False) (\<lambda>_ db.
       (db\<lparr>cd_mutations := map (\<lambda>m. if mu_id m = i \<and> mu_op m = oh_id op \<and> mu_state m = MutPending
          then m\<lparr>mu_state := MutAck\<rparr> else m) (cd_mutations db)\<rparr>, Value ()))"

definition ack_mutation where
  "ack_mutation lk op i c db = transaction False lk (ack_mutation_body c op i) c db"


subsection \<open>Inspection and recovery\<close>

record coord_snapshot =
  sn_generation :: int
  sn_fenced :: bool
  sn_fence_reason :: "pystr option"
  sn_operations :: "op_row list"
  sn_locks :: "lock_row list"
  sn_claims :: "claim_row list"
  sn_mutations :: "mutation_row list"
  sn_audits :: "audit_row list"
  sn_orphans :: "uuid list"

text \<open>A row of the mutation table belongs to the scope through its operation.\<close>

definition scope_mutations :: "coord_db \<Rightarrow> mutation_row list" where
  "scope_mutations db = filter (\<lambda>m. mu_op m \<in> set (map or_id (cd_operations db))) (cd_mutations db)"

definition snapshot :: "coord_db \<Rightarrow> coord_error + coord_snapshot" where
  "snapshot db =
     (case cd_workspace db of None \<Rightarrow> Inl ConfigurationMismatch
      | Some w \<Rightarrow> Inr \<lparr>sn_generation = ws_generation w, sn_fenced = ws_fenced w \<or> orphans db \<noteq> [],
          sn_fence_reason = ws_fence_reason w, sn_operations = cd_operations db, sn_locks = cd_locks db,
          sn_claims = cd_claims db, sn_mutations = scope_mutations db, sn_audits = cd_audits db,
          sn_orphans = orphans db\<rparr>)"

definition inspect :: "link \<Rightarrow> coord_client \<Rightarrow> coord_db \<Rightarrow> coord_error + coord_snapshot" where
  "inspect lk c db =
     (if \<not> cc_pool c \<or> cc_broken c then Inl CoordinationUnavailable
      else if lk \<noteq> LinkOk then Inl CoordinationUnavailable else snapshot db)"

definition live_unfinished :: "coord_db \<Rightarrow> bool" where
  "live_unfinished db \<longleftrightarrow> list_ex (\<lambda>x. or_state x = OpActive \<and> or_id x \<notin> set (orphans db)) (cd_operations db)"

definition recover_body ::
    "int \<Rightarrow> uuid \<Rightarrow> pystr \<Rightarrow> pystr \<Rightarrow> real \<Rightarrow> workspace_row \<Rightarrow> (coord_error + coord_snapshot) body" where
  "recover_body expected i actor reason now row db =
     (if ws_generation row \<noteq> expected then (db, Denied OperationOwnership)
      else if live_unfinished db then (db, Denied CoordinationBusy)
      else bind_body
        (insert_audit \<lparr>au_id = i, au_old_generation = expected, au_new_generation = expected + 1,
           au_actor = actor, au_reason = reason, au_operations = cd_operations db, au_locks = cd_locks db,
           au_claims = cd_claims db, au_mutations = scope_mutations db\<rparr>)
        (\<lambda>_ db1.
          let ids = set (map or_id (cd_operations db1));
              db2 = db1\<lparr>cd_mutations := map (\<lambda>m. if mu_op m \<in> ids \<and> mu_state m = MutPending
                          then m\<lparr>mu_state := MutRecovered\<rparr> else m) (cd_mutations db1)\<rparr>;
              db3 = db2\<lparr>cd_operations := map (\<lambda>x. if or_state x = OpActive
                          then x\<lparr>or_state := OpRecovered, or_finished_at := Some now\<rparr> else x) (cd_operations db2)\<rparr>;
              db4 = db3\<lparr>cd_locks := [], cd_claims := []\<rparr>;
              db5 = db4\<lparr>cd_workspace := map_option (\<lambda>w. w\<lparr>ws_generation := ws_generation w + 1,
                          ws_fenced := False, ws_fence_reason := None\<rparr>) (cd_workspace db4)\<rparr>
          in (db5, Value (snapshot db5))) db)"

definition recover ::
    "link \<Rightarrow> int \<Rightarrow> uuid \<Rightarrow> pystr \<Rightarrow> pystr \<Rightarrow> bool \<Rightarrow> bool \<Rightarrow> bool \<Rightarrow> real \<Rightarrow> coord_client \<Rightarrow> coord_db \<Rightarrow>
     coord_client \<times> coord_db \<times> (coord_error + (coord_error + coord_snapshot))" where
  "recover lk expected i actor reason writers_stopped inflight_finished state_audited now c db =
     (if \<not> (writers_stopped \<and> inflight_finished \<and> state_audited) then (c, db, Inl CoordValueError)
      else if blank actor \<or> blank reason \<or> expected < 1 then (c, db, Inl CoordValueError)
      else transaction True lk (recover_body expected i actor reason now) c db)"


subsection \<open>Processes and steps\<close>

text \<open>
  A process gets a new random owner id and a new random witness when it is built. Afterwards each
  of its calls is a transaction; its session may also go away by itself, noticed or not.
\<close>

record coord_system =
  sy_clients :: "(uuid, coord_client) dict"
  sy_db :: coord_db

datatype coord_call =
    Initialize bool bool link link link
  | Admit link uuid pystr bool "(pystr, pystr) dict" real
  | Complete link operation real
  | Uncertain link operation pystr
  | Lock link operation uuid "pystr list"
  | Unlock link operation uuid "pystr list"
  | TryClaim link operation pystr real
  | AssertClaim link operation pystr
  | ReleaseClaim link operation pystr
  | SetPhase link operation pystr "pystr option" "(pystr, pystr) dict" real
  | Heartbeat link operation real
  | BeginMutation link operation uuid pystr pystr pystr
  | AckMutation link operation uuid
  | Recover link int uuid pystr pystr bool bool bool real
  | Close
  | SessionClosed
  | SessionDropped

fun coord_exec :: "coord_call \<Rightarrow> coord_client \<Rightarrow> coord_db \<Rightarrow> coord_client \<times> coord_db" where
  "coord_exec (Initialize ro ver l1 l2 l3) c db = (let (c1, db1, _) = initialize ro ver l1 l2 l3 c db in (c1, db1))"
| "coord_exec (Admit lk i kind ex meta now) c db =
     (let (c1, db1, _) = admit_attempt lk i kind ex meta now c db in (c1, db1))"
| "coord_exec (Complete lk op now) c db = (let (c1, db1, _) = complete_operation lk op now c db in (c1, db1))"
| "coord_exec (Uncertain lk op reason) c db = mark_uncertain lk op reason c db"
| "coord_exec (Lock lk op task keys) c db = (let (c1, db1, _) = lock_attempt lk op task keys c db in (c1, db1))"
| "coord_exec (Unlock lk op task keys) c db = (let (c1, db1, _) = unlock lk op task keys c db in (c1, db1))"
| "coord_exec (TryClaim lk op doc now) c db = (let (c1, db1, _) = try_claim lk op doc now c db in (c1, db1))"
| "coord_exec (AssertClaim lk op doc) c db = (let (c1, db1, _) = assert_claim lk op doc c db in (c1, db1))"
| "coord_exec (ReleaseClaim lk op doc) c db = (let (c1, db1, _) = release_claim lk op doc c db in (c1, db1))"
| "coord_exec (SetPhase lk op ph doc meta now) c db =
     (let (c1, db1, _) = set_phase lk op ph doc meta now c db in (c1, db1))"
| "coord_exec (Heartbeat lk op now) c db = (let (c1, db1, _) = heartbeat lk op now c db in (c1, db1))"
| "coord_exec (BeginMutation lk op i b n m) c db = (let (c1, db1, _) = begin_mutation lk op i b n m c db in (c1, db1))"
| "coord_exec (AckMutation lk op i) c db = (let (c1, db1, _) = ack_mutation lk op i c db in (c1, db1))"
| "coord_exec (Recover lk g i a r w f s now) c db =
     (let (c1, db1, _) = recover lk g i a r w f s now c db in (c1, db1))"
| "coord_exec Close c db = quarantine c db"
| "coord_exec SessionClosed c db = (c\<lparr>cc_witness_open := False\<rparr>, drop_session c db)"
| "coord_exec SessionDropped c db = (c, drop_session c db)"

datatype coord_event = NewProcess uuid nat "pystr option" | Call uuid coord_call

fun coord_step :: "coord_system \<Rightarrow> coord_event \<Rightarrow> coord_system" where
  "coord_step s (NewProcess owner witness manifest) =
     (if map_of (sy_clients s) owner \<noteq> None \<or>
         list_ex (\<lambda>(_, c). cc_witness c = witness) (sy_clients s) then s
      else s\<lparr>sy_clients := AList.update owner (new_client owner witness manifest) (sy_clients s)\<rparr>)"
| "coord_step s (Call owner call) =
     (case map_of (sy_clients s) owner of None \<Rightarrow> s
      | Some c \<Rightarrow> let (c1, db1) = coord_exec call c (sy_db s)
          in s\<lparr>sy_clients := AList.update owner c1 (sy_clients s), sy_db := db1\<rparr>)"

definition empty_system :: coord_system where
  "empty_system = \<lparr>sy_clients = [], sy_db = empty_db\<rparr>"


subsection \<open>The invariant of the tables\<close>

definition active_of :: "op_row list \<Rightarrow> uuid set" where
  "active_of ops = or_id ` {x \<in> set ops. or_state x = OpActive}"

abbreviation active_ids :: "coord_db \<Rightarrow> uuid set" where
  "active_ids db \<equiv> active_of (cd_operations db)"

text \<open>
  Active tickets are of the current generation, and an exclusive one is alone. Locks, claims and
  pending mutations belong to active tickets. Every generation left behind has its audit row.
\<close>

definition op_table_ok :: "int option \<Rightarrow> op_row list \<Rightarrow> bool" where
  "op_table_ok g ops \<longleftrightarrow> distinct (map or_id ops) \<and>
     (\<forall>x \<in> set ops. or_state x = OpActive \<longrightarrow> g = Some (or_generation x) \<and>
        (or_exclusive x \<longrightarrow> (\<forall>y \<in> set ops. or_state y = OpActive \<longrightarrow> or_id y = or_id x)))"

definition lock_table_ok :: "uuid set \<Rightarrow> lock_row list \<Rightarrow> bool" where
  "lock_table_ok A ls \<longleftrightarrow> distinct (map lr_key ls) \<and> (\<forall>x \<in> set ls. lr_op x \<in> A)"

definition claim_table_ok :: "uuid set \<Rightarrow> claim_row list \<Rightarrow> bool" where
  "claim_table_ok A cs \<longleftrightarrow> distinct (map cl_doc cs) \<and> (\<forall>x \<in> set cs. cl_op x \<in> A)"

definition mutation_table_ok :: "uuid set \<Rightarrow> mutation_row list \<Rightarrow> bool" where
  "mutation_table_ok A ms \<longleftrightarrow> distinct (map mu_id ms) \<and> (\<forall>m \<in> set ms. mu_state m = MutPending \<longrightarrow> mu_op m \<in> A)"

definition audit_chain :: "int option \<Rightarrow> audit_row list \<Rightarrow> bool" where
  "audit_chain g as \<longleftrightarrow>
     (case g of None \<Rightarrow> as = []
      | Some n \<Rightarrow> 1 \<le> n \<and> map au_old_generation as = [1..n - 1]) \<and>
     (\<forall>a \<in> set as. au_new_generation a = au_old_generation a + 1)"

abbreviation generation_of :: "coord_db \<Rightarrow> int option" where
  "generation_of db \<equiv> map_option ws_generation (cd_workspace db)"

definition coord_ok :: "coord_db \<Rightarrow> bool" where
  "coord_ok db \<longleftrightarrow> op_table_ok (generation_of db) (cd_operations db) \<and>
     lock_table_ok (active_ids db) (cd_locks db) \<and> claim_table_ok (active_ids db) (cd_claims db) \<and>
     mutation_table_ok (active_ids db) (cd_mutations db) \<and> audit_chain (generation_of db) (cd_audits db)"

lemma bind_body_cases:
  assumes "bind_body m f db = (db', r)"
  obtains (passed) db1 a where "m db = (db1, Value a)" "f a db1 = (db', r)"
  | (denied) e where "m db = (db', Denied e)" "r = Denied e"
  | (failed) "m db = (db', DbFailed)" "r = DbFailed"
  using assms by (auto simp: bind_body_def split: prod.splits outcome.splits)

lemma bind_body_value: "m db = (db1, Value a) \<Longrightarrow> bind_body m f db = f a db1"
  by (simp add: bind_body_def)

lemma bind_body_denied: "m db = (db1, Denied e) \<Longrightarrow> bind_body m f db = (db1, Denied e)"
  by (simp add: bind_body_def)

lemma check_scope_cases:
  obtains (fenced) "ws_fenced row" "check_scope row db = (db, Denied WorkspaceFenced)"
  | (orphaned) "\<not> ws_fenced row" "orphans db \<noteq> []"
      "check_scope row db = (fence (lit ''Owner witness disappeared'') db, Denied WorkspaceFenced)"
  | (clear) "\<not> ws_fenced row" "orphans db = []" "check_scope row db = (db, Value ())"
  by (cases "ws_fenced row"; cases "orphans db = []") (auto simp: check_scope_def)

text \<open>Validation either denies, at most fencing, or yields the active row of the operation.\<close>

lemma validate_cases:
  assumes "validate c row op cf db = (db', r)"
  obtains (denied) e where "r = Denied e"
      "db' = db \<or> db' = fence (lit ''Owner witness disappeared'') db \<and> e = WorkspaceFenced"
  | (found) x where "r = Value x" "db' = db" "x \<in> set (cd_operations db)" "or_id x = oh_id op"
      "or_owner x = cc_owner c" "or_generation x = oh_generation op" "or_state x = OpActive"
      "oh_owner op = cc_owner c" "oh_generation op = ws_generation row"
      "cf \<longrightarrow> \<not> ws_fenced row \<and> orphans db = []"
proof (cases "oh_owner op \<noteq> cc_owner c \<or> oh_generation op \<noteq> ws_generation row")
  case True
  with assms denied show ?thesis by (auto simp: validate_def split: if_splits)
next
  case owner: False
  show ?thesis
  proof (cases "find_operation op c db")
    case None
    with owner assms denied show ?thesis by (auto simp: validate_def)
  next
    case (Some x)
    then have x: "x \<in> set (cd_operations db)" "or_id x = oh_id op" "or_owner x = cc_owner c"
      "or_generation x = oh_generation op" "or_state x = OpActive"
      by (auto simp: find_operation_def find_Some_iff)
    show ?thesis
    proof (cases cf)
      case False
      with owner Some assms x found show ?thesis by (auto simp: validate_def)
    next
      case True
      show ?thesis
      proof (cases rule: check_scope_cases[of row db])
        case clear
        with owner Some assms x found True show ?thesis by (auto simp: validate_def bind_body_def)
      qed (use owner Some assms True denied in \<open>auto simp: validate_def bind_body_def\<close>)
    qed
  qed
qed

lemma fence_sel [simp]:
  "cd_operations (fence r db) = cd_operations db" "cd_locks (fence r db) = cd_locks db"
  "cd_claims (fence r db) = cd_claims db" "cd_mutations (fence r db) = cd_mutations db"
  "cd_audits (fence r db) = cd_audits db" "cd_held (fence r db) = cd_held db"
  "orphans (fence r db) = orphans db" "generation_of (fence r db) = generation_of db"
  by (simp_all add: fence_def orphans_def witness_held_def option.map_comp comp_def)

lemma fence_workspace:
  "cd_workspace (fence r db) = map_option (\<lambda>w. w\<lparr>ws_fenced := True,
     ws_fence_reason := (case ws_fence_reason w of None \<Rightarrow> Some r | Some r' \<Rightarrow> Some r')\<rparr>) (cd_workspace db)"
  by (simp add: fence_def)

lemma coord_ok_fence [simp]: "coord_ok (fence r db) = coord_ok db"
  by (simp add: coord_ok_def del: option.map_comp)


definition validated :: "coord_client \<Rightarrow> workspace_row \<Rightarrow> operation \<Rightarrow> bool \<Rightarrow> op_row \<Rightarrow> coord_db \<Rightarrow> bool" where
  "validated c row op cf x db \<longleftrightarrow> x \<in> set (cd_operations db) \<and> or_id x = oh_id op \<and>
     or_owner x = cc_owner c \<and> or_generation x = oh_generation op \<and> or_state x = OpActive \<and>
     oh_owner op = cc_owner c \<and> oh_generation op = ws_generation row \<and>
     (cf \<longrightarrow> \<not> ws_fenced row \<and> orphans db = [])"

lemma validated_active: "validated c row op cf x db \<Longrightarrow> oh_id op \<in> active_ids db"
  by (auto simp: validated_def active_of_def intro: rev_image_eqI)

lemma validate_bind_cases:
  assumes "bind_body (validate c row op cf) f db = (db', r)"
  obtains (denied) e where "r = Denied e"
      "db' = db \<or> db' = fence (lit ''Owner witness disappeared'') db \<and> e = WorkspaceFenced"
  | (passed) x where "validated c row op cf x db" "f x db = (db', r)"
  using assms
proof (cases rule: bind_body_cases)
  case (passed db1 x)
  from passed(1) that(2)[of x] passed(2) show ?thesis
    by (cases rule: validate_cases) (auto simp: validated_def)
next
  case (denied e)
  from denied(1) that(1)[of e] denied(2) show ?thesis
    by (cases rule: validate_cases) auto
next
  case failed
  from failed(1) show ?thesis by (cases rule: validate_cases) auto
qed

text \<open>So a validated body keeps what a fence keeps and what its continuation keeps.\<close>

lemma validated_keeps:
  assumes "P db" and "\<And>r. P (fence r db)"
    and "\<And>x. validated c row op cf x db \<Longrightarrow> P (fst (f x db))"
  shows "P (fst (bind_body (validate c row op cf) f db))"
proof -
  obtain db' r where b: "bind_body (validate c row op cf) f db = (db', r)" by fastforce
  then have "P db'"
  proof (cases rule: validate_bind_cases)
    case (passed x)
    with assms(3)[of x] show ?thesis by simp
  qed (use assms in auto)
  with b show ?thesis by simp
qed

lemma map_op_sel [simp]:
  "cd_workspace (map_op i f db) = cd_workspace db" "cd_locks (map_op i f db) = cd_locks db"
  "cd_claims (map_op i f db) = cd_claims db" "cd_mutations (map_op i f db) = cd_mutations db"
  "cd_audits (map_op i f db) = cd_audits db" "cd_held (map_op i f db) = cd_held db"
  by (simp_all add: map_op_def)

lemma map_claim_sel [simp]:
  "cd_workspace (map_claim P f db) = cd_workspace db" "cd_locks (map_claim P f db) = cd_locks db"
  "cd_operations (map_claim P f db) = cd_operations db" "cd_mutations (map_claim P f db) = cd_mutations db"
  "cd_audits (map_claim P f db) = cd_audits db" "cd_held (map_claim P f db) = cd_held db"
  by (simp_all add: map_claim_def)

lemma lock_table_mono: "lock_table_ok A ls \<Longrightarrow> A \<subseteq> B \<Longrightarrow> lock_table_ok B ls"
  by (auto simp: lock_table_ok_def)

lemma claim_table_mono: "claim_table_ok A cs \<Longrightarrow> A \<subseteq> B \<Longrightarrow> claim_table_ok B cs"
  by (auto simp: claim_table_ok_def)

lemma mutation_table_mono: "mutation_table_ok A ms \<Longrightarrow> A \<subseteq> B \<Longrightarrow> mutation_table_ok B ms"
  by (auto simp: mutation_table_ok_def)

text \<open>Changing what is not ownership of an operation: phase, metadata, heartbeat.\<close>

lemma op_table_map:
  fixes f :: "op_row \<Rightarrow> op_row"
  assumes "op_table_ok g ops" and f: "\<And>x. or_id (f x) = or_id x \<and> or_state (f x) = or_state x \<and>
      or_generation (f x) = or_generation x \<and> or_exclusive (f x) = or_exclusive x"
  shows "op_table_ok g (map f ops)" and "active_of (map f ops) = active_of ops"
proof -
  have "map or_id (map f ops) = map or_id ops" by (simp add: f)
  then show "op_table_ok g (map f ops)"
    using assms(1) unfolding op_table_ok_def set_map ball_simps by (simp only: f ball_simps) blast
  have "{x \<in> f ` set ops. or_state x = OpActive} = f ` {x \<in> set ops. or_state x = OpActive}"
    using f by force
  then show "active_of (map f ops) = active_of ops"
    unfolding active_of_def set_map by (simp only: image_image f)
qed

lemma coord_ok_map_op:
  assumes "coord_ok db" and f: "\<And>x. or_id (f x) = or_id x \<and> or_state (f x) = or_state x \<and>
      or_generation (f x) = or_generation x \<and> or_exclusive (f x) = or_exclusive x"
  shows "coord_ok (map_op i f db)"
proof -
  define g where "g = (\<lambda>x. if or_id x = i then f x else x)"
  have "cd_operations (map_op i f db) = map g (cd_operations db)" by (simp add: map_op_def g_def)
  moreover have "or_id (g x) = or_id x \<and> or_state (g x) = or_state x \<and>
      or_generation (g x) = or_generation x \<and> or_exclusive (g x) = or_exclusive x" for x
    by (simp add: g_def f)
  ultimately show ?thesis
    using assms(1) op_table_map[of "generation_of db" "cd_operations db" g] by (simp add: coord_ok_def)
qed

lemma claim_table_map:
  "claim_table_ok A cs \<Longrightarrow> (\<And>x. cl_doc (f x) = cl_doc x \<and> cl_op (f x) = cl_op x) \<Longrightarrow> claim_table_ok A (map f cs)"
  by (auto simp: claim_table_ok_def comp_def)

lemma coord_ok_map_claim:
  assumes "coord_ok db" and f: "\<And>x. cl_doc (f x) = cl_doc x \<and> cl_op (f x) = cl_op x"
  shows "coord_ok (map_claim P f db)"
  using assms(1) claim_table_map[of "active_ids db" "cd_claims db" "\<lambda>x. if P x then f x else x"]
  by (simp add: coord_ok_def map_claim_def f)

lemma op_table_append:
  assumes "op_table_ok g ops" and "or_id r \<notin> set (map or_id ops)" and "g = Some (or_generation r)"
    and "\<forall>x \<in> set ops. or_state x = OpActive \<longrightarrow> \<not> or_exclusive r \<and> \<not> or_exclusive x"
  shows "op_table_ok g (ops @ [r])"
  using assms by (auto simp: op_table_ok_def)

lemma coord_ok_insert_op:
  assumes "coord_ok db" and "or_id r \<notin> set (map or_id (cd_operations db))" and "generation_of db = Some (or_generation r)"
    and "\<forall>x \<in> set (cd_operations db). or_state x = OpActive \<longrightarrow> \<not> or_exclusive r \<and> \<not> or_exclusive x"
  shows "coord_ok (db\<lparr>cd_operations := cd_operations db @ [r]\<rparr>)"
proof -
  have "active_ids db \<subseteq> active_of (cd_operations db @ [r])" by (auto simp: active_of_def)
  with assms op_table_append[of "generation_of db" "cd_operations db" r] show ?thesis
    by (auto simp: coord_ok_def intro: lock_table_mono claim_table_mono mutation_table_mono)
qed

lemma coord_ok_admit:
  assumes ok: "coord_ok db" and ws: "cd_workspace db = Some row"
  shows "coord_ok (fst (admit_body c i kind ex meta now row db))"
proof (cases rule: check_scope_cases[of row db])
  case clear
  show ?thesis
  proof (cases "exclusion_conflict ex db \<or> i \<in> set (map or_id (cd_operations db))")
    case True
    with clear ok show ?thesis by (auto simp: admit_body_def bind_body_def insert_op_def)
  next
    case False
    then have "\<forall>x \<in> set (cd_operations db). or_state x = OpActive \<longrightarrow> \<not> ex \<and> \<not> or_exclusive x"
      by (auto simp: exclusion_conflict_def list_ex_iff)
    with False clear ok ws show ?thesis
      by (auto simp: admit_body_def bind_body_def insert_op_def intro!: coord_ok_insert_op)
  qed
qed (use ok in \<open>simp_all add: admit_body_def bind_body_def\<close>)

lemma op_table_finish:
  fixes f :: "op_row \<Rightarrow> op_row"
  assumes "op_table_ok g ops" and f: "\<And>x. or_id (f x) = or_id x \<and> or_state (f x) \<noteq> OpActive"
    and "g' = g \<or> (\<forall>x \<in> set ops. or_state x = OpActive \<longrightarrow> P x)"
  shows "op_table_ok g' (map (\<lambda>x. if P x then f x else x) ops)"
proof -
  let ?f = "\<lambda>x. if P x then f x else x"
  have ids: "map or_id (map ?f ops) = map or_id ops" by (simp add: f)
  have act: "y \<in> set ops \<and> or_state y = OpActive \<and> \<not> P y" if "y \<in> set (map ?f ops)" "or_state y = OpActive" for y
    using that f by (auto split: if_splits)
  from assms(3) show ?thesis
  proof
    assume "g' = g"
    with assms(1) act show ?thesis unfolding op_table_ok_def ids by blast
  next
    assume "\<forall>x \<in> set ops. or_state x = OpActive \<longrightarrow> P x"
    with assms(1) act show ?thesis unfolding op_table_ok_def ids by blast
  qed
qed

lemma active_of_finish:
  fixes f :: "op_row \<Rightarrow> op_row"
  assumes f: "\<And>x. or_id (f x) = or_id x \<and> or_state (f x) \<noteq> OpActive"
  shows "active_of (map (\<lambda>x. if or_id x = i then f x else x) ops) = active_of ops - {i}"
proof -
  have "{x \<in> (\<lambda>x. if or_id x = i then f x else x) ` set ops. or_state x = OpActive} =
      {x \<in> set ops. or_state x = OpActive \<and> or_id x \<noteq> i}"
    using f by force
  then show ?thesis unfolding active_of_def set_map by blast
qed

lemma coord_ok_complete:
  assumes ok: "coord_ok db"
  shows "coord_ok (fst (complete_body c op now row db))"
  unfolding complete_body_def
proof (rule validated_keeps[where P = coord_ok])
  fix x
  let ?i = "oh_id op"
  define f :: "op_row \<Rightarrow> op_row" where "f = (\<lambda>x. x\<lparr>or_state := OpCompleted, or_phase := lit ''completed'', or_finished_at := Some now,
      or_heartbeat_at := now\<rparr>)"
  have f: "or_id (f x) = or_id x \<and> or_state (f x) \<noteq> OpActive" for x by (simp add: f_def)
  have act: "active_of (map (\<lambda>x. if or_id x = ?i then f x else x) (cd_operations db)) = active_ids db - {?i}"
    by (rule active_of_finish[OF f])
  have "coord_ok (map_op ?i f (db\<lparr>cd_claims := filter (\<lambda>x. cl_op x \<noteq> ?i) (cd_claims db)\<rparr>))"
    if "\<not> has_pending ?i db" "\<not> has_locks ?i db"
    unfolding coord_ok_def map_op_def
    using that ok f act op_table_finish[of "generation_of db" "cd_operations db" f "generation_of db"]
    by (auto simp: coord_ok_def lock_table_ok_def claim_table_ok_def mutation_table_ok_def has_pending_def
        has_locks_def list_ex_iff distinct_map_filter)
  with ok show "coord_ok (fst (if has_pending ?i db \<or> has_locks ?i db
      then (fence (lit ''Operation ended with unfinished children or mutations'') db, Denied WorkspaceFenced)
      else (map_op ?i (\<lambda>x. x\<lparr>or_state := OpCompleted, or_phase := lit ''completed'',
              or_finished_at := Some now, or_heartbeat_at := now\<rparr>)
              (db\<lparr>cd_claims := filter (\<lambda>x. cl_op x \<noteq> ?i) (cd_claims db)\<rparr>), Value ())))"
    by (simp add: f_def)
qed (use ok in simp_all)

lemma lock_table_map:
  "lock_table_ok A ls \<Longrightarrow> (\<And>x. lr_key (f x) = lr_key x \<and> lr_op (f x) = lr_op x) \<Longrightarrow> lock_table_ok A (map f ls)"
  by (auto simp: lock_table_ok_def comp_def)

lemma lock_table_filter: "lock_table_ok A ls \<Longrightarrow> lock_table_ok A (filter P ls)"
  by (auto simp: lock_table_ok_def distinct_map_filter)

lemma acquire_lock_frame [simp]:
  "cd_operations (acquire_lock i task key db) = cd_operations db"
  "cd_workspace (acquire_lock i task key db) = cd_workspace db"
  "cd_claims (acquire_lock i task key db) = cd_claims db"
  "cd_mutations (acquire_lock i task key db) = cd_mutations db"
  "cd_audits (acquire_lock i task key db) = cd_audits db"
  "cd_held (acquire_lock i task key db) = cd_held db"
  by (simp_all add: acquire_lock_def)

lemma coord_ok_acquire:
  assumes "coord_ok db" and "i \<in> active_ids db"
  shows "coord_ok (acquire_lock i task key db)"
proof -
  have "lock_table_ok (active_ids db) (cd_locks (acquire_lock i task key db))"
    using assms by (auto simp: coord_ok_def acquire_lock_def intro!: lock_table_map) (auto simp: lock_table_ok_def)
  with assms(1) show ?thesis by (simp add: coord_ok_def)
qed

lemma coord_ok_acquire_all:
  "coord_ok db \<Longrightarrow> i \<in> active_ids db \<Longrightarrow> coord_ok (fold (acquire_lock i task) keys db)"
  by (induction keys arbitrary: db) (auto simp: coord_ok_acquire)

lemma coord_ok_lock:
  assumes "coord_ok db"
  shows "coord_ok (fst (lock_body c op task ordered row db))"
  unfolding lock_body_def
  by (rule validated_keeps[where P = coord_ok])
    (use assms in \<open>auto intro!: coord_ok_acquire_all dest: validated_active\<close>)

lemma coord_ok_unlock:
  assumes "coord_ok db"
  shows "coord_ok (fst (unlock_body c op task ordered row db))"
  unfolding unlock_body_def
  by (rule validated_keeps[where P = coord_ok])
    (use assms in \<open>auto simp: coord_ok_def intro!: lock_table_filter lock_table_map\<close>)


lemma coord_ok_try_claim:
  assumes "coord_ok db"
  shows "coord_ok (fst (try_claim_body c op doc now row db))"
  unfolding try_claim_body_def
  by (rule validated_keeps[where P = coord_ok])
    (use assms in \<open>auto simp: coord_ok_def claim_table_ok_def dest: validated_active\<close>)

lemma check_claim_db [simp]: "fst (check_claim op doc db) = db"
  by (simp add: check_claim_def split: option.splits)

lemma check_claim_cases:
  obtains (denied) "check_claim op doc db = (db, Denied OperationOwnership)"
  | (owner) r where "check_claim op doc db = (db, Value ())" "r \<in> set (cd_claims db)" "cl_doc r = doc" "cl_op r = oh_id op"
proof (cases "find (\<lambda>x. cl_doc x = doc) (cd_claims db)")
  case None
  with denied show ?thesis by (simp add: check_claim_def)
next
  case (Some r)
  then have "r \<in> set (cd_claims db)" "cl_doc r = doc" by (auto simp: find_Some_iff)
  with Some denied owner show ?thesis by (cases "cl_op r = oh_id op") (auto simp: check_claim_def)
qed

lemma claim_table_filter: "claim_table_ok A cs \<Longrightarrow> claim_table_ok A (filter P cs)"
  by (auto simp: claim_table_ok_def distinct_map_filter)

lemma coord_ok_release_claim:
  assumes "coord_ok db"
  shows "coord_ok (fst (release_claim_body c op doc row db))"
  unfolding release_claim_body_def
proof (rule validated_keeps[where P = coord_ok])
  fix x
  show "coord_ok (fst (bind_body (check_claim op doc) (\<lambda>_ db.
       if has_pending (oh_id op) db then (db, Denied OperationOwnership)
       else (db\<lparr>cd_claims := filter (\<lambda>x. cl_doc x \<noteq> doc) (cd_claims db)\<rparr>, Value ())) db))"
    using assms by (cases rule: check_claim_cases[of op doc db])
      (auto simp: bind_body_def coord_ok_def intro: claim_table_filter)
qed (use assms in simp_all)

lemma coord_ok_set_phase:
  assumes "coord_ok db"
  shows "coord_ok (fst (set_phase_body c op ph doc meta now row db))"
  unfolding set_phase_body_def
proof (rule validated_keeps[where P = coord_ok])
  fix x
  let ?g = "\<lambda>x. x\<lparr>or_phase := ph, or_metadata := merge_metadata meta (or_metadata x), or_heartbeat_at := now\<rparr>"
  have g: "coord_ok db1 \<Longrightarrow> coord_ok (map_op (oh_id op) ?g db1)" for db1
    by (rule coord_ok_map_op) simp_all
  have h: "coord_ok (map_claim P (\<lambda>x. x\<lparr>cl_phase := ph, cl_heartbeat_at := now\<rparr>) db)" for P
    using assms by (rule coord_ok_map_claim) simp
  show "coord_ok (fst (bind_body (case doc of None \<Rightarrow> (\<lambda>db. (db, Value ()))
           | Some d \<Rightarrow> bind_body (check_claim op d) (\<lambda>_ db.
               (map_claim (\<lambda>x. cl_doc x = d) (\<lambda>x. x\<lparr>cl_phase := ph, cl_heartbeat_at := now\<rparr>) db, Value ())))
         (\<lambda>_ db. (map_op (oh_id op) ?g db, Value ())) db))"
  proof (cases doc)
    case None
    with g assms show ?thesis by (simp add: bind_body_def)
  next
    case (Some d)
    with g h assms show ?thesis
      by (cases rule: check_claim_cases[of op d db]) (simp_all add: bind_body_def)
  qed
qed (use assms in simp_all)

lemma coord_ok_heartbeat:
  assumes "coord_ok db"
  shows "coord_ok (fst (heartbeat_body c op now row db))"
  unfolding heartbeat_body_def
  by (rule validated_keeps[where P = coord_ok])
    (use assms in \<open>auto intro!: coord_ok_map_claim coord_ok_map_op\<close>)

lemma coord_ok_begin_mutation:
  assumes "coord_ok db"
  shows "coord_ok (fst (begin_mutation_body c op i b n m row db))"
  unfolding begin_mutation_body_def
  by (rule validated_keeps[where P = coord_ok])
    (use assms in \<open>auto simp: insert_mutation_def coord_ok_def mutation_table_ok_def dest: validated_active\<close>)

lemma mutation_table_map:
  fixes f :: "mutation_row \<Rightarrow> mutation_row"
  assumes "mutation_table_ok A ms"
    and f: "\<And>x. mu_id (f x) = mu_id x \<and> mu_op (f x) = mu_op x \<and> (mu_state (f x) = MutPending \<longrightarrow> mu_state x = MutPending)"
  shows "mutation_table_ok A (map f ms)"
proof -
  have "map mu_id (map f ms) = map mu_id ms" by (simp add: f)
  with assms show ?thesis unfolding mutation_table_ok_def set_map ball_simps by metis
qed

lemma coord_ok_ack:
  assumes "coord_ok db"
  shows "coord_ok (fst (ack_mutation_body c op i row db))"
  unfolding ack_mutation_body_def
  by (rule validated_keeps[where P = coord_ok])
    (use assms in \<open>auto simp: coord_ok_def intro!: mutation_table_map split: if_splits\<close>)

lemma coord_ok_uncertain:
  assumes "coord_ok db"
  shows "coord_ok (fst (uncertain_body c op reason row db))"
  unfolding uncertain_body_def
  by (rule validated_keeps[where P = coord_ok]) (use assms in \<open>auto intro!: coord_ok_map_op\<close>)

definition recover_db :: "audit_row \<Rightarrow> real \<Rightarrow> coord_db \<Rightarrow> coord_db" where
  "recover_db a now db =
     db\<lparr>cd_audits := cd_audits db @ [a],
        cd_mutations := map (\<lambda>m. if mu_op m \<in> set (map or_id (cd_operations db)) \<and> mu_state m = MutPending
          then m\<lparr>mu_state := MutRecovered\<rparr> else m) (cd_mutations db),
        cd_operations := map (\<lambda>x. if or_state x = OpActive
          then x\<lparr>or_state := OpRecovered, or_finished_at := Some now\<rparr> else x) (cd_operations db),
        cd_locks := [], cd_claims := [],
        cd_workspace := map_option (\<lambda>w. w\<lparr>ws_generation := ws_generation w + 1,
          ws_fenced := False, ws_fence_reason := None\<rparr>) (cd_workspace db)\<rparr>"

lemma recover_body_cases:
  assumes "recover_body expected i actor reason now row db = (db', r)"
  obtains (stale) "ws_generation row \<noteq> expected" "db' = db" "r = Denied OperationOwnership"
  | (live) "live_unfinished db" "db' = db" "r = Denied CoordinationBusy"
  | (duplicate) "db' = db" "r = DbFailed"
  | (recovered) a where "ws_generation row = expected" "\<not> live_unfinished db" "db' = recover_db a now db"
      "au_old_generation a = expected" "au_new_generation a = expected + 1"
      "au_actor a = actor" "au_reason a = reason" "au_operations a = cd_operations db" "au_locks a = cd_locks db"
      "au_claims a = cd_claims db" "au_mutations a = scope_mutations db"
      "r = Value (snapshot db')"
proof (cases "ws_generation row \<noteq> expected \<or> live_unfinished db \<or> i \<in> set (map au_id (cd_audits db))")
  case True
  with assms have "db' = db \<and> (ws_generation row \<noteq> expected \<and> r = Denied OperationOwnership \<or>
      live_unfinished db \<and> r = Denied CoordinationBusy \<or> r = DbFailed)"
    by (simp add: recover_body_def bind_body_def insert_audit_def split: if_splits)
  with stale live duplicate show ?thesis by blast
next
  case False
  then show ?thesis
    using assms
    by (intro recovered[of "\<lparr>au_id = i, au_old_generation = expected, au_new_generation = expected + 1,
           au_actor = actor, au_reason = reason, au_operations = cd_operations db, au_locks = cd_locks db,
           au_claims = cd_claims db, au_mutations = scope_mutations db\<rparr>"])
      (auto simp: recover_body_def bind_body_def insert_audit_def recover_db_def Let_def)
qed

lemma mutation_table_settle:
  assumes "mutation_table_ok A ms" and "A \<subseteq> B"
  shows "mutation_table_ok {} (map (\<lambda>m. if mu_op m \<in> B \<and> mu_state m = MutPending
      then m\<lparr>mu_state := MutRecovered\<rparr> else m) ms)"
proof -
  have "map mu_id (map (\<lambda>m. if mu_op m \<in> B \<and> mu_state m = MutPending then m\<lparr>mu_state := MutRecovered\<rparr> else m) ms) =
      map mu_id ms" by simp
  with assms show ?thesis unfolding mutation_table_ok_def by (auto split: if_splits simp del: map_map)
qed

lemma active_of_subset: "active_of ops \<subseteq> set (map or_id ops)"
  by (auto simp: active_of_def)

lemma coord_ok_recover_db:
  assumes ok: "coord_ok db" and ws: "cd_workspace db = Some row"
    and a: "au_old_generation a = ws_generation row" "au_new_generation a = ws_generation row + 1"
  shows "coord_ok (recover_db a now db)"
proof -
  define f :: "op_row \<Rightarrow> op_row" where "f = (\<lambda>x. x\<lparr>or_state := OpRecovered, or_finished_at := Some now\<rparr>)"
  have f: "or_id (f x) = or_id x \<and> or_state (f x) \<noteq> OpActive" for x by (simp add: f_def)
  let ?ops = "map (\<lambda>x. if or_state x = OpActive then f x else x) (cd_operations db)"
  have none: "active_of ?ops = {}" using f by (auto simp: active_of_def)
  have "op_table_ok (Some (ws_generation row + 1)) ?ops"
    using ok f by (intro op_table_finish[where g = "generation_of db"]) (auto simp: coord_ok_def)
  moreover have "audit_chain (Some (ws_generation row + 1)) (cd_audits db @ [a])"
  proof -
    have "1 \<le> ws_generation row" using ok ws by (simp add: coord_ok_def audit_chain_def)
    then have "[1..ws_generation row] = [1..ws_generation row - 1] @ [ws_generation row]"
      by (metis upto_rec2)
    with ok ws a show ?thesis by (auto simp: coord_ok_def audit_chain_def)
  qed
  moreover have "mutation_table_ok {} (map (\<lambda>m. if mu_op m \<in> set (map or_id (cd_operations db)) \<and>
      mu_state m = MutPending then m\<lparr>mu_state := MutRecovered\<rparr> else m) (cd_mutations db))"
    using ok by (intro mutation_table_settle[OF _ active_of_subset]) (simp add: coord_ok_def)
  moreover have sel: "cd_operations (recover_db a now db) = ?ops" "cd_locks (recover_db a now db) = []"
    "generation_of (recover_db a now db) = Some (ws_generation row + 1)" "cd_claims (recover_db a now db) = []"
    "cd_mutations (recover_db a now db) = map (\<lambda>m. if mu_op m \<in> set (map or_id (cd_operations db)) \<and>
      mu_state m = MutPending then m\<lparr>mu_state := MutRecovered\<rparr> else m) (cd_mutations db)"
    "cd_audits (recover_db a now db) = cd_audits db @ [a]"
    by (simp_all add: recover_db_def f_def ws)
  ultimately show ?thesis
    unfolding coord_ok_def sel none by (simp only: lock_table_ok_def claim_table_ok_def) simp
qed

lemma coord_ok_recover:
  assumes ok: "coord_ok db" and ws: "cd_workspace db = Some row"
  shows "coord_ok (fst (recover_body expected i actor reason now row db))"
proof -
  obtain db' r where b: "recover_body expected i actor reason now row db = (db', r)" by fastforce
  then have "coord_ok db'"
    by (cases rule: recover_body_cases) (use ok ws in \<open>auto intro: coord_ok_recover_db\<close>)
  with b show ?thesis by simp
qed


subsection \<open>What only moves forward\<close>

text \<open>
  The generation never decreases; within a generation a fence and its reason stay; a ticket that
  is no longer active, a mutation that is no longer pending and an audit row never change again.
\<close>

definition workspace_le :: "coord_db \<Rightarrow> coord_db \<Rightarrow> bool" where
  "workspace_le db db' \<longleftrightarrow>
     (\<forall>w. cd_workspace db = Some w \<longrightarrow> (\<exists>w'. cd_workspace db' = Some w' \<and>
        (ws_generation w < ws_generation w' \<or>
         ws_generation w = ws_generation w' \<and>
           (ws_fenced w \<longrightarrow> ws_fenced w' \<and> (\<forall>r. ws_fence_reason w = Some r \<longrightarrow> ws_fence_reason w' = Some r)))))"

definition history_le :: "coord_db \<Rightarrow> coord_db \<Rightarrow> bool" where
  "history_le db db' \<longleftrightarrow>
     (\<forall>x \<in> set (cd_operations db). \<exists>y \<in> set (cd_operations db').
        or_id y = or_id x \<and> (or_state x \<noteq> OpActive \<longrightarrow> or_state y = or_state x)) \<and>
     (\<forall>m \<in> set (cd_mutations db). \<exists>m' \<in> set (cd_mutations db').
        mu_id m' = mu_id m \<and> mu_op m' = mu_op m \<and> (mu_state m \<noteq> MutPending \<longrightarrow> mu_state m' = mu_state m)) \<and>
     (\<exists>more. cd_audits db' = cd_audits db @ more)"

definition db_le :: "coord_db \<Rightarrow> coord_db \<Rightarrow> bool" where
  "db_le db db' \<longleftrightarrow> workspace_le db db' \<and> history_le db db'"

text \<open>A client only adds tickets and sessions of its own.\<close>

definition only_own :: "coord_client \<Rightarrow> coord_db \<Rightarrow> coord_db \<Rightarrow> bool" where
  "only_own c db db' \<longleftrightarrow>
     set (cd_held db') \<subseteq> insert (cc_witness c, cc_owner c) (set (cd_held db)) \<and>
     (\<lambda>x. (or_owner x, or_witness x)) ` set (cd_operations db') \<subseteq>
       insert (cc_owner c, cc_witness c) ((\<lambda>x. (or_owner x, or_witness x)) ` set (cd_operations db))"

definition advances :: "coord_client \<Rightarrow> coord_db \<Rightarrow> coord_db \<Rightarrow> bool" where
  "advances c db db' \<longleftrightarrow> db_le db db' \<and> only_own c db db'"

lemma workspace_le_refl: "workspace_le db db"
  by (simp add: workspace_le_def)

lemma workspace_le_trans:
  assumes ab: "workspace_le a b" and bc: "workspace_le b c"
  shows "workspace_le a c"
  unfolding workspace_le_def
proof (intro allI impI)
  fix w
  assume w: "cd_workspace a = Some w"
  from ab w obtain w' where w': "cd_workspace b = Some w'" "ws_generation w < ws_generation w' \<or>
      ws_generation w = ws_generation w' \<and>
        (ws_fenced w \<longrightarrow> ws_fenced w' \<and> (\<forall>r. ws_fence_reason w = Some r \<longrightarrow> ws_fence_reason w' = Some r))"
    unfolding workspace_le_def by blast
  from bc w'(1) obtain w'' where w'': "cd_workspace c = Some w''" "ws_generation w' < ws_generation w'' \<or>
      ws_generation w' = ws_generation w'' \<and>
        (ws_fenced w' \<longrightarrow> ws_fenced w'' \<and> (\<forall>r. ws_fence_reason w' = Some r \<longrightarrow> ws_fence_reason w'' = Some r))"
    unfolding workspace_le_def by blast
  from w'(2) w''(2) have "ws_generation w < ws_generation w'' \<or>
      ws_generation w = ws_generation w'' \<and>
        (ws_fenced w \<longrightarrow> ws_fenced w'' \<and> (\<forall>r. ws_fence_reason w = Some r \<longrightarrow> ws_fence_reason w'' = Some r))"
    by auto
  with w''(1) show "\<exists>w'. cd_workspace c = Some w' \<and> (ws_generation w < ws_generation w' \<or>
      ws_generation w = ws_generation w' \<and>
        (ws_fenced w \<longrightarrow> ws_fenced w' \<and> (\<forall>r. ws_fence_reason w = Some r \<longrightarrow> ws_fence_reason w' = Some r)))"
    by blast
qed

lemma history_le_refl: "history_le db db"
  unfolding history_le_def by blast

lemma history_le_trans:
  assumes ab: "history_le a b" and bc: "history_le b c"
  shows "history_le a c"
  unfolding history_le_def
proof (intro conjI ballI)
  fix x
  assume "x \<in> set (cd_operations a)"
  with ab obtain y where y: "y \<in> set (cd_operations b)" "or_id y = or_id x"
    "or_state x \<noteq> OpActive \<longrightarrow> or_state y = or_state x" unfolding history_le_def by blast
  with bc obtain z where "z \<in> set (cd_operations c)" "or_id z = or_id y"
    "or_state y \<noteq> OpActive \<longrightarrow> or_state z = or_state y" unfolding history_le_def by blast
  with y show "\<exists>z \<in> set (cd_operations c). or_id z = or_id x \<and> (or_state x \<noteq> OpActive \<longrightarrow> or_state z = or_state x)"
    by (intro bexI[of _ z]) auto
next
  fix x
  assume "x \<in> set (cd_mutations a)"
  with ab obtain y where y: "y \<in> set (cd_mutations b)" "mu_id y = mu_id x" "mu_op y = mu_op x"
    "mu_state x \<noteq> MutPending \<longrightarrow> mu_state y = mu_state x" unfolding history_le_def by blast
  with bc obtain z where "z \<in> set (cd_mutations c)" "mu_id z = mu_id y" "mu_op z = mu_op y"
    "mu_state y \<noteq> MutPending \<longrightarrow> mu_state z = mu_state y" unfolding history_le_def by blast
  with y show "\<exists>z \<in> set (cd_mutations c). mu_id z = mu_id x \<and> mu_op z = mu_op x \<and>
      (mu_state x \<noteq> MutPending \<longrightarrow> mu_state z = mu_state x)"
    by (intro bexI[of _ z]) auto
next
  show "\<exists>more. cd_audits c = cd_audits a @ more"
    using ab bc unfolding history_le_def by (metis append.assoc)
qed

lemma only_own_refl: "only_own c db db"
  by (auto simp: only_own_def)

lemma only_own_trans: "only_own c db1 db2 \<Longrightarrow> only_own c db2 db3 \<Longrightarrow> only_own c db1 db3"
  unfolding only_own_def by blast

lemma advances_refl [simp]: "advances c db db"
  by (simp add: advances_def db_le_def workspace_le_refl history_le_refl only_own_refl)

lemma advances_trans: "advances c db1 db2 \<Longrightarrow> advances c db2 db3 \<Longrightarrow> advances c db1 db3"
  unfolding advances_def db_le_def
  by (blast intro: workspace_le_trans history_le_trans only_own_trans)

lemma advances_fence: "advances c db0 db \<Longrightarrow> advances c db0 (fence r db)"
proof (erule advances_trans)
  show "advances c db (fence r db)"
  proof -
    have "history_le db (fence r db)" using history_le_refl[of db] by (simp add: history_le_def)
    moreover have "only_own c db (fence r db)" using only_own_refl[of c db] by (simp add: only_own_def)
    moreover have "workspace_le db (fence r db)" by (simp add: workspace_le_def fence_workspace)
    ultimately show ?thesis by (simp add: advances_def db_le_def)
  qed
qed

text \<open>Statements that touch neither the scope row nor the rows of tickets, mutations and audits.\<close>

lemma advances_tables:
  assumes "cd_workspace db' = cd_workspace db" and "cd_operations db' = cd_operations db"
    and "cd_mutations db' = cd_mutations db" and "cd_audits db' = cd_audits db"
    and "set (cd_held db') \<subseteq> insert (cc_witness c, cc_owner c) (set (cd_held db))"
  shows "advances c db db'"
proof -
  have "history_le db db'" using history_le_refl[of db] assms by (simp add: history_le_def)
  moreover have "only_own c db db'" using assms by (auto simp: only_own_def)
  moreover have "workspace_le db db'" using assms by (simp add: workspace_le_def)
  ultimately show ?thesis by (simp add: advances_def db_le_def)
qed

lemma advances_ops:
  fixes f :: "op_row \<Rightarrow> op_row"
  assumes "cd_workspace db' = cd_workspace db" and "cd_operations db' = map f (cd_operations db)"
    and "cd_mutations db' = cd_mutations db" and "cd_audits db' = cd_audits db" and "cd_held db' = cd_held db"
    and f: "\<And>x. or_id (f x) = or_id x \<and> or_owner (f x) = or_owner x \<and> or_witness (f x) = or_witness x"
    and g: "\<And>x. x \<in> set (cd_operations db) \<Longrightarrow> or_state x \<noteq> OpActive \<Longrightarrow> or_state (f x) = or_state x"
  shows "advances c db db'"
proof -
  have "history_le db db'"
    using assms unfolding history_le_def by (auto simp: f g)
  moreover have "workspace_le db db'" using assms(1) by (simp add: workspace_le_def)
  moreover have "only_own c db db'"
    using assms(2,5) unfolding only_own_def by (auto simp: f)
  ultimately show ?thesis by (simp add: advances_def db_le_def)
qed

lemma advances_mutations:
  fixes f :: "mutation_row \<Rightarrow> mutation_row"
  assumes "cd_workspace db' = cd_workspace db" and "cd_operations db' = cd_operations db"
    and "cd_mutations db' = map f (cd_mutations db) @ new" and "cd_audits db' = cd_audits db"
    and "cd_held db' = cd_held db"
    and f: "\<And>m. mu_id (f m) = mu_id m \<and> mu_op (f m) = mu_op m \<and> (mu_state m \<noteq> MutPending \<longrightarrow> mu_state (f m) = mu_state m)"
  shows "advances c db db'"
proof -
  have "history_le db db'"
    using assms unfolding history_le_def by (auto intro!: bexI[where x = "f _"])
  moreover have "workspace_le db db'" using assms(1) by (simp add: workspace_le_def)
  moreover have "only_own c db db'" using assms(2,5) unfolding only_own_def by auto
  ultimately show ?thesis by (simp add: advances_def db_le_def)
qed

lemma advances_admit: "advances c db (fst (admit_body c i kind ex meta now row db))"
proof (cases rule: check_scope_cases[of row db])
  case clear
  then show ?thesis
    by (auto simp: admit_body_def bind_body_def insert_op_def advances_def db_le_def workspace_le_def
        history_le_def only_own_def)
qed (simp_all add: admit_body_def bind_body_def advances_fence)

lemma advances_complete:
  assumes "coord_ok db"
  shows "advances c db (fst (complete_body c op now row db))"
  unfolding complete_body_def
proof (rule validated_keeps[where P = "advances c db"])
  fix x
  assume v: "validated c row op True x db"
  have uniq: "y = x" if "y \<in> set (cd_operations db)" "or_id y = oh_id op" for y
  proof -
    have "inj_on or_id (set (cd_operations db))"
      using assms by (simp add: coord_ok_def op_table_ok_def distinct_map)
    moreover have "x \<in> set (cd_operations db)" "or_id x = or_id y"
      using v that by (simp_all add: validated_def)
    ultimately show ?thesis using that(1) by (metis inj_onD)
  qed
  let ?f = "\<lambda>x. x\<lparr>or_state := OpCompleted, or_phase := lit ''completed'', or_finished_at := Some now,
      or_heartbeat_at := now\<rparr>"
  have "advances c db (map_op (oh_id op) ?f (db\<lparr>cd_claims := cl\<rparr>))" for cl
    using uniq v
    by (intro advances_ops[where f = "\<lambda>x. if or_id x = oh_id op then ?f x else x"])
      (auto simp: map_op_def validated_def)
  then show "advances c db (fst (if has_pending (oh_id op) db \<or> has_locks (oh_id op) db
      then (fence (lit ''Operation ended with unfinished children or mutations'') db, Denied WorkspaceFenced)
      else (map_op (oh_id op) ?f (db\<lparr>cd_claims := filter (\<lambda>x. cl_op x \<noteq> oh_id op) (cd_claims db)\<rparr>), Value ())))"
    by (simp add: advances_fence)
qed (simp_all add: advances_fence)

lemma advances_map_op:
  assumes "\<And>x. or_id (f x) = or_id x \<and> or_owner (f x) = or_owner x \<and> or_witness (f x) = or_witness x \<and>
      or_state (f x) = or_state x"
  shows "advances c db (map_op i f db)"
  by (rule advances_ops[where f = "\<lambda>x. if or_id x = i then f x else x"]) (auto simp: map_op_def assms)

lemma advances_uncertain: "advances c db (fst (uncertain_body c op reason row db))"
  unfolding uncertain_body_def
proof (rule validated_keeps[where P = "advances c db"])
  fix x
  have "advances c (fence reason db) (map_op (oh_id op) (\<lambda>x. x\<lparr>or_phase := lit ''uncertain''\<rparr>) (fence reason db))"
    by (rule advances_map_op) simp
  then show "advances c db (fst (map_op (oh_id op) (\<lambda>x. x\<lparr>or_phase := lit ''uncertain''\<rparr>) (fence reason db), Value ()))"
    using advances_trans[OF advances_fence[OF advances_refl]] by simp
qed (simp_all add: advances_fence)

lemma acquire_all_frame [simp]:
  "cd_operations (fold (acquire_lock i task) keys db) = cd_operations db"
  "cd_workspace (fold (acquire_lock i task) keys db) = cd_workspace db"
  "cd_claims (fold (acquire_lock i task) keys db) = cd_claims db"
  "cd_mutations (fold (acquire_lock i task) keys db) = cd_mutations db"
  "cd_audits (fold (acquire_lock i task) keys db) = cd_audits db"
  "cd_held (fold (acquire_lock i task) keys db) = cd_held db"
  by (induction keys arbitrary: db) simp_all

lemma advances_lock: "advances c db (fst (lock_body c op task ordered row db))"
  unfolding lock_body_def
  by (rule validated_keeps[where P = "advances c db"]) (auto simp: advances_fence intro: advances_tables)

lemma advances_unlock: "advances c db (fst (unlock_body c op task ordered row db))"
  unfolding unlock_body_def
  by (rule validated_keeps[where P = "advances c db"]) (auto simp: advances_fence intro: advances_tables)

lemma advances_try_claim: "advances c db (fst (try_claim_body c op doc now row db))"
  unfolding try_claim_body_def
  by (rule validated_keeps[where P = "advances c db"]) (auto simp: advances_fence intro: advances_tables)

lemma advances_map_claim: "advances c db (map_claim P f db)"
  by (rule advances_tables) auto

lemma advances_heartbeat: "advances c db (fst (heartbeat_body c op now row db))"
  unfolding heartbeat_body_def
proof (rule validated_keeps[where P = "advances c db"])
  fix x
  have "advances c db (map_op (oh_id op) (\<lambda>x. x\<lparr>or_heartbeat_at := now\<rparr>) db)"
    by (rule advances_map_op) simp
  then show "advances c db (fst (map_claim (\<lambda>x. cl_op x = oh_id op) (\<lambda>x. x\<lparr>cl_heartbeat_at := now\<rparr>)
      (map_op (oh_id op) (\<lambda>x. x\<lparr>or_heartbeat_at := now\<rparr>) db), Value ()))"
    using advances_trans[OF _ advances_map_claim] by simp
qed (simp_all add: advances_fence)

lemma advances_begin_mutation: "advances c db (fst (begin_mutation_body c op i b n m row db))"
  unfolding begin_mutation_body_def
  by (rule validated_keeps[where P = "advances c db"])
    (auto simp: advances_fence insert_mutation_def intro: advances_mutations[where f = id])

lemma advances_ack: "advances c db (fst (ack_mutation_body c op i row db))"
  unfolding ack_mutation_body_def
proof (rule validated_keeps[where P = "advances c db"])
  fix x
  show "advances c db (fst (db\<lparr>cd_mutations := map (\<lambda>m. if mu_id m = i \<and> mu_op m = oh_id op \<and> mu_state m = MutPending
          then m\<lparr>mu_state := MutAck\<rparr> else m) (cd_mutations db)\<rparr>, Value ()))"
    by (rule advances_mutations[where new = "[]" and f = "\<lambda>m. if mu_id m = i \<and> mu_op m = oh_id op \<and>
        mu_state m = MutPending then m\<lparr>mu_state := MutAck\<rparr> else m"]) simp_all
qed (simp_all add: advances_fence)

lemma advances_release_claim: "advances c db (fst (release_claim_body c op doc row db))"
  unfolding release_claim_body_def
proof (rule validated_keeps[where P = "advances c db"])
  fix x
  show "advances c db (fst (bind_body (check_claim op doc) (\<lambda>_ db.
       if has_pending (oh_id op) db then (db, Denied OperationOwnership)
       else (db\<lparr>cd_claims := filter (\<lambda>x. cl_doc x \<noteq> doc) (cd_claims db)\<rparr>, Value ())) db))"
    by (cases rule: check_claim_cases[of op doc db]) (auto simp: bind_body_def intro: advances_tables)
qed (simp_all add: advances_fence)

lemma advances_set_phase: "advances c db (fst (set_phase_body c op ph doc meta now row db))"
  unfolding set_phase_body_def
proof (rule validated_keeps[where P = "advances c db"])
  fix x
  let ?g = "\<lambda>x. x\<lparr>or_phase := ph, or_metadata := merge_metadata meta (or_metadata x), or_heartbeat_at := now\<rparr>"
  have g: "advances c db db1 \<Longrightarrow> advances c db (map_op (oh_id op) ?g db1)" for db1
    by (erule advances_trans) (rule advances_map_op, simp)
  show "advances c db (fst (bind_body (case doc of None \<Rightarrow> (\<lambda>db. (db, Value ()))
           | Some d \<Rightarrow> bind_body (check_claim op d) (\<lambda>_ db.
               (map_claim (\<lambda>x. cl_doc x = d) (\<lambda>x. x\<lparr>cl_phase := ph, cl_heartbeat_at := now\<rparr>) db, Value ())))
         (\<lambda>_ db. (map_op (oh_id op) ?g db, Value ())) db))"
  proof (cases doc)
    case None
    then show ?thesis using g[OF advances_refl] by (simp add: bind_body_def)
  next
    case (Some d)
    then show ?thesis
      using g[OF advances_map_claim]
      by (cases rule: check_claim_cases[of op d db]) (simp_all add: bind_body_def)
  qed
qed (simp_all add: advances_fence)

lemma advances_recover: "cd_workspace db = Some row \<Longrightarrow> advances c db (fst (recover_body g i a r now row db))"
proof -
  assume ws: "cd_workspace db = Some row"
  obtain db' res where b: "recover_body g i a r now row db = (db', res)" by fastforce
  then have "advances c db db'"
  proof (cases rule: recover_body_cases)
    case (recovered au)
    have "history_le db db'"
      unfolding history_le_def recovered(3)
    proof (intro conjI ballI)
      fix x
      assume "x \<in> set (cd_operations db)"
      then show "\<exists>y \<in> set (cd_operations (recover_db au now db)).
          or_id y = or_id x \<and> (or_state x \<noteq> OpActive \<longrightarrow> or_state y = or_state x)"
        by (intro bexI[of _ "if or_state x = OpActive then x\<lparr>or_state := OpRecovered, or_finished_at := Some now\<rparr> else x"])
          (simp_all add: recover_db_def)
    next
      fix m
      assume "m \<in> set (cd_mutations db)"
      then show "\<exists>m' \<in> set (cd_mutations (recover_db au now db)). mu_id m' = mu_id m \<and> mu_op m' = mu_op m \<and>
          (mu_state m \<noteq> MutPending \<longrightarrow> mu_state m' = mu_state m)"
        by (intro bexI[of _ "if mu_op m \<in> set (map or_id (cd_operations db)) \<and> mu_state m = MutPending
              then m\<lparr>mu_state := MutRecovered\<rparr> else m"]) (simp_all add: recover_db_def)
    next
      show "\<exists>more. cd_audits (recover_db au now db) = cd_audits db @ more" by (simp add: recover_db_def)
    qed
    moreover have "workspace_le db db'" using ws by (simp add: recovered workspace_le_def recover_db_def)
    moreover have "only_own c db db'" by (auto simp: recovered only_own_def recover_db_def)
    ultimately show ?thesis by (simp add: advances_def db_le_def)
  qed simp_all
  with b show ?thesis by simp
qed


subsection \<open>Calls and processes\<close>

text \<open>What a call keeps: the tables' invariant, the order, and the identity of the client.\<close>

definition good_call :: "coord_client \<Rightarrow> coord_db \<Rightarrow> coord_client \<Rightarrow> coord_db \<Rightarrow> bool" where
  "good_call c db c' db' \<longleftrightarrow> coord_ok db' \<and> advances c db db' \<and>
     cc_owner c' = cc_owner c \<and> cc_witness c' = cc_witness c"

lemma coord_ok_held [simp]: "coord_ok (db\<lparr>cd_held := h\<rparr>) = coord_ok db"
  by (simp add: coord_ok_def)

lemma advances_held:
  "set h \<subseteq> insert (cc_witness c, cc_owner c) (set (cd_held db)) \<Longrightarrow> advances c db0 db \<Longrightarrow>
     advances c db0 (db\<lparr>cd_held := h\<rparr>)"
  by (erule advances_trans) (rule advances_tables, auto)

lemma good_call_refl: "coord_ok db \<Longrightarrow> good_call c db c db"
  by (simp add: good_call_def)

lemma advances_same:
  "cc_owner c' = cc_owner c \<Longrightarrow> cc_witness c' = cc_witness c \<Longrightarrow> advances c' db db' = advances c db db'"
  by (simp add: advances_def only_own_def)

lemma good_call_trans:
  assumes "good_call c db c1 db1" and "good_call c1 db1 c2 db2"
  shows "good_call c db c2 db2"
proof -
  have "advances c db1 db2"
    using assms advances_same[of c1 c db1 db2] by (simp add: good_call_def)
  with assms show ?thesis unfolding good_call_def by (metis advances_trans)
qed

lemma good_quarantine:
  assumes "coord_ok db"
  shows "good_call c db (fst (quarantine c db)) (snd (quarantine c db))"
  using assms by (auto simp: quarantine_def drop_session_def good_call_def intro!: advances_held)

lemma fail_unavailable_eq:
  "fail_unavailable c db = (fst (quarantine c db), snd (quarantine c db), Inl CoordinationUnavailable)"
  by (simp add: fail_unavailable_def split: prod.splits)

lemma committed_cases: "committed db db1 r = db \<or> committed db db1 r = db1"
  by (auto simp: committed_def split: outcome.splits)

lemma good_transaction:
  assumes ok: "coord_ok db"
    and body: "\<And>row. cd_workspace db = Some row \<Longrightarrow> coord_ok (fst (body row db)) \<and> advances c db (fst (body row db))"
    and t: "transaction adm lk body c db = (c', db', res)"
  shows "good_call c db c' db'"
proof (cases "\<not> cc_pool c \<or> cc_broken c")
  case True
  with t ok show ?thesis by (auto simp: transaction_def good_call_refl)
next
  case live: False
  show ?thesis
  proof (cases "\<not> adm \<and> (cc_read_only c \<or> \<not> cc_witness_open c) \<or> lk = LostBeforeCommit")
    case True
    with live t good_quarantine[OF ok] show ?thesis
      by (auto simp: transaction_def fail_unavailable_eq split: if_splits)
  next
    case False
    show ?thesis
    proof (cases "cd_workspace db")
      case None
      with live False t ok show ?thesis by (auto simp: transaction_def good_call_refl split: if_splits)
    next
      case (Some row)
      obtain db1 r where b: "body row db = (db1, r)" by fastforce
      define db2 where "db2 = committed db db1 r"
      have "good_call c db c db2"
        using ok body[OF Some] b committed_cases[of db db1 r] by (auto simp: good_call_def db2_def)
      moreover have "(c', db') = (c, db2) \<or> (c', db') = quarantine c db2"
        using live False t Some b
        by (auto simp: transaction_def fail_unavailable_eq db2_def Let_def split: if_splits)
      moreover have "good_call c db2 (fst (quarantine c db2)) (snd (quarantine c db2))"
        using calculation(1) by (intro good_quarantine) (simp add: good_call_def)
      ultimately show ?thesis by (metis good_call_trans prod.inject prod.collapse)
    qed
  qed
qed

lemma good_initialize:
  assumes ok: "coord_ok db" and i: "initialize ro ver l1 l2 l3 c db = (c', db', res)"
  shows "good_call c db c' db'"
proof -
  define c1 where "c1 = c\<lparr>cc_read_only := ro, cc_pool := True\<rparr>"
  have c1: "cc_owner c1 = cc_owner c" "cc_witness c1 = cc_witness c" by (simp_all add: c1_def)
  obtain db1 ok1 where r: "register_scope c1 db = (db1, ok1)" by fastforce
  have reg: "coord_ok db1" "advances c1 db db1"
  proof -
    have "db1 = db \<or> cd_workspace db = None \<and> (\<exists>w. db1 = db\<lparr>cd_workspace := Some w\<rparr> \<and> ws_generation w = 1)"
      using r by (auto simp: register_scope_def Let_def split: option.splits if_splits)
    moreover have "coord_ok (db\<lparr>cd_workspace := Some w\<rparr>)" if "cd_workspace db = None" "ws_generation w = 1" for w
      using ok that by (auto simp: coord_ok_def op_table_ok_def audit_chain_def)
    moreover have "advances c1 db (db\<lparr>cd_workspace := Some w\<rparr>)" if "cd_workspace db = None" for w
      using that history_le_refl[of db] only_own_refl[of c1 db]
      by (simp add: advances_def db_le_def workspace_le_def history_le_def only_own_def)
    ultimately show "coord_ok db1" "advances c1 db db1" using ok by auto
  qed
  obtain c2 db2 ok2 where w: "take_witness c1 db1 = (c2, db2, ok2)" by (metis prod_cases3)
  have wit: "good_call c db c2 db2"
    using w reg c1 advances_same[of c1 c db db1]
    by (auto simp: take_witness_def good_call_def intro!: advances_held split: if_splits)
  have g1: "good_call c db c1 db1" and g0: "good_call c db c1 db"
    using reg ok by (auto simp: good_call_def c1 advances_same[of c1 c, OF c1])
  obtain c3 db3 res3 where t: "transaction False l3 check_scope c2 db2 = (c3, db3, res3)" by (metis prod_cases3)
  have "good_call c2 db2 c3 db3"
  proof (rule good_transaction[OF _ _ t])
    show "coord_ok db2" using wit by (simp add: good_call_def)
    fix row
    show "coord_ok (fst (check_scope row db2)) \<and> advances c2 db2 (fst (check_scope row db2))"
      using \<open>coord_ok db2\<close> by (cases rule: check_scope_cases[of row db2]) (auto simp: advances_fence)
  qed
  with wit have disc: "good_call c db c3 db3" by (rule good_call_trans)
  have q: "good_call c db (fst (quarantine ca dba)) (snd (quarantine ca dba))" if "good_call c db ca dba" for ca dba
    using that good_quarantine[of dba ca] good_call_trans by (auto simp: good_call_def)
  show ?thesis
    using i r w t good_call_refl[OF ok, of c] g0 q[OF g0] g1 q[OF g1] q[OF wit] disc q[OF disc]
    unfolding initialize_def c1_def[symmetric] Let_def
    by (cases ok1; cases ok2; cases res3) (auto simp: fail_unavailable_eq case_prod_unfold split: if_splits)
qed


lemma good_mark_uncertain:
  assumes ok: "coord_ok db" and m: "mark_uncertain lk op reason c db = (c', db')"
  shows "good_call c db c' db'"
proof -
  obtain c1 db1 r where t: "transaction False lk (uncertain_body c op reason) c db = (c1, db1, r)"
    by (metis prod_cases3)
  have g: "good_call c db c1 db1"
    by (rule good_transaction[OF ok _ t]) (use ok coord_ok_uncertain advances_uncertain in blast)
  then have "good_call c1 db1 (fst (quarantine c1 db1)) (snd (quarantine c1 db1))"
    by (intro good_quarantine) (simp add: good_call_def)
  with g have "good_call c db (fst (quarantine c1 db1)) (snd (quarantine c1 db1))" by (rule good_call_trans)
  with g m t show ?thesis by (cases r) (auto simp: mark_uncertain_def)
qed

lemma good_body_calls:
  assumes ok: "coord_ok db"
  shows "transaction False lk (admit_body c i kind ex meta now) c db = (c', db', r1) \<Longrightarrow> good_call c db c' db'"
    and "transaction False lk (complete_body c op now) c db = (c', db', r2) \<Longrightarrow> good_call c db c' db'"
    and "transaction False lk (lock_body c op task ordered) c db = (c', db', r3) \<Longrightarrow> good_call c db c' db'"
    and "transaction False lk (unlock_body c op task ordered) c db = (c', db', r4) \<Longrightarrow> good_call c db c' db'"
    and "transaction False lk (try_claim_body c op doc now) c db = (c', db', r5) \<Longrightarrow> good_call c db c' db'"
    and "transaction False lk (release_claim_body c op doc) c db = (c', db', r6) \<Longrightarrow> good_call c db c' db'"
    and "transaction False lk (set_phase_body c op ph d meta now) c db = (c', db', r7) \<Longrightarrow> good_call c db c' db'"
    and "transaction False lk (heartbeat_body c op now) c db = (c', db', r8) \<Longrightarrow> good_call c db c' db'"
    and "transaction False lk (begin_mutation_body c op i b n m) c db = (c', db', r9) \<Longrightarrow> good_call c db c' db'"
    and "transaction False lk (ack_mutation_body c op i) c db = (c', db', r10) \<Longrightarrow> good_call c db c' db'"
    and "transaction True lk (recover_body g i a r now) c db = (c', db', r11) \<Longrightarrow> good_call c db c' db'"
  by (erule good_transaction[OF ok, rotated]; simp add: ok coord_ok_admit coord_ok_complete coord_ok_lock
      coord_ok_unlock coord_ok_try_claim coord_ok_release_claim coord_ok_set_phase coord_ok_heartbeat
      coord_ok_begin_mutation coord_ok_ack coord_ok_recover advances_admit advances_complete advances_lock
      advances_unlock advances_try_claim advances_release_claim advances_set_phase advances_heartbeat
      advances_begin_mutation advances_ack advances_recover)+

lemma good_assert_claim:
  assumes ok: "coord_ok db" and t: "assert_claim lk op doc c db = (c', db', r)"
  shows "good_call c db c' db'"
proof (rule good_transaction[OF ok _ t[unfolded assert_claim_def]])
  fix row
  let ?b = "fst (bind_body (validate c row op True) (\<lambda>_. check_claim op doc) db)"
  have "coord_ok ?b" by (rule validated_keeps[where P = coord_ok]) (use ok in simp_all)
  moreover have "advances c db ?b"
    by (rule validated_keeps[where P = "advances c db"]) (simp_all add: advances_fence)
  ultimately show "coord_ok ?b \<and> advances c db ?b" by simp
qed

lemma good_drop_session:
  assumes "coord_ok db" and "cc_owner c' = cc_owner c" and "cc_witness c' = cc_witness c"
  shows "good_call c db c' (drop_session c db)"
  using assms by (auto simp: good_call_def drop_session_def intro!: advances_held)

lemma good_exec:
  assumes ok: "coord_ok db" and x: "coord_exec call c db = (c', db')"
  shows "good_call c db c' db'"
proof (cases call)
  case (Initialize ro ver l1 l2 l3)
  with x good_initialize[OF ok] show ?thesis by (auto split: prod.splits)
next
  case (Uncertain lk op reason)
  with x good_mark_uncertain[OF ok] show ?thesis by auto
next
  case (AssertClaim lk op doc)
  with x good_assert_claim[OF ok] show ?thesis by (auto split: prod.splits)
next
  case Close
  with x good_quarantine[OF ok, of c] show ?thesis by simp
next
  case SessionClosed
  with x good_drop_session[OF ok] show ?thesis by auto
next
  case SessionDropped
  with x good_drop_session[OF ok] show ?thesis by auto
qed (use x good_body_calls[OF ok] good_call_refl[OF ok, of c] in
    \<open>auto simp: admit_attempt_def complete_operation_def lock_attempt_def unlock_def try_claim_def release_claim_def
      set_phase_def heartbeat_def begin_mutation_def ack_mutation_def recover_def split: prod.splits if_splits\<close>)


subsection \<open>The invariant of the system\<close>

text \<open>
  Processes have owner ids and witnesses of their own; every session of the witness locks and
  every ticket belongs to the process that made it.
\<close>

definition registered :: "(uuid, coord_client) dict \<Rightarrow> (uuid \<times> nat) set" where
  "registered cs = {(ow, w). map_option cc_witness (map_of cs ow) = Some w}"

definition clients_ok :: "(uuid, coord_client) dict \<Rightarrow> bool" where
  "clients_ok cs \<longleftrightarrow> (\<forall>ow c. map_of cs ow = Some c \<longrightarrow> cc_owner c = ow) \<and>
     (\<forall>o1 o2 w. (o1, w) \<in> registered cs \<longrightarrow> (o2, w) \<in> registered cs \<longrightarrow> o1 = o2)"

definition sessions_ok :: "(uuid, coord_client) dict \<Rightarrow> coord_db \<Rightarrow> bool" where
  "sessions_ok cs db \<longleftrightarrow> (\<lambda>x. (or_owner x, or_witness x)) ` set (cd_operations db) \<subseteq> registered cs \<and>
     set (cd_held db) \<subseteq> prod.swap ` registered cs"

definition sys_ok :: "coord_system \<Rightarrow> bool" where
  "sys_ok s \<longleftrightarrow> coord_ok (sy_db s) \<and> clients_ok (sy_clients s) \<and> sessions_ok (sy_clients s) (sy_db s)"

lemma sessions_ok_call:
  assumes "sessions_ok cs db" and "(cc_owner c, cc_witness c) \<in> registered cs" and "only_own c db db'"
  shows "sessions_ok cs db'"
proof -
  let ?ops = "\<lambda>db. (\<lambda>x. (or_owner x, or_witness x)) ` set (cd_operations db)"
  have "?ops db' \<subseteq> insert (cc_owner c, cc_witness c) (?ops db)" using assms(3) by (simp only: only_own_def)
  also have "\<dots> \<subseteq> registered cs" using assms(1,2) by (simp only: sessions_ok_def insert_subset)
  finally have ops: "?ops db' \<subseteq> registered cs" .
  have "(cc_witness c, cc_owner c) \<in> prod.swap ` registered cs" using imageI[OF assms(2), of prod.swap] by simp
  then have "insert (cc_witness c, cc_owner c) (set (cd_held db)) \<subseteq> prod.swap ` registered cs"
    using assms(1) by (simp only: sessions_ok_def insert_subset)
  with assms(3) have "set (cd_held db') \<subseteq> prod.swap ` registered cs"
    unfolding only_own_def by (meson order_trans)
  with ops show ?thesis by (simp only: sessions_ok_def)
qed

lemma sys_ok_call:
  assumes ok: "sys_ok s" and c: "map_of (sy_clients s) ow = Some c" and g: "good_call c (sy_db s) c' db'"
  shows "sys_ok (s\<lparr>sy_clients := AList.update ow c' (sy_clients s), sy_db := db'\<rparr>)"
proof -
  let ?cs = "AList.update ow c' (sy_clients s)"
  have own: "cc_owner c = ow" using ok c by (simp add: sys_ok_def clients_ok_def)
  have reg: "registered ?cs = registered (sy_clients s)"
    using c g by (auto simp: registered_def good_call_def split: if_splits)
  have "(cc_owner c, cc_witness c) \<in> registered (sy_clients s)"
    using c own by (simp add: registered_def)
  then have "sessions_ok (sy_clients s) db'"
    using ok g sessions_ok_call[of "sy_clients s" "sy_db s" c db']
    by (simp add: sys_ok_def good_call_def advances_def)
  then have "sessions_ok ?cs db'" unfolding sessions_ok_def reg .
  moreover have "clients_ok ?cs"
    using ok g own unfolding sys_ok_def clients_ok_def reg by (auto simp: good_call_def split: if_splits)
  ultimately show ?thesis using g by (simp add: sys_ok_def good_call_def)
qed

lemma sys_ok_new:
  assumes ok: "sys_ok s" and new: "map_of (sy_clients s) ow = None"
    and fresh: "\<forall>(_, c) \<in> set (sy_clients s). cc_witness c \<noteq> w"
  shows "sys_ok (s\<lparr>sy_clients := AList.update ow (new_client ow w manifest) (sy_clients s)\<rparr>)"
proof -
  let ?cs = "AList.update ow (new_client ow w manifest) (sy_clients s)"
  have reg: "registered ?cs = insert (ow, w) (registered (sy_clients s))"
    using new by (auto simp: registered_def new_client_def split: if_splits)
  have unused: "(k, w) \<notin> registered (sy_clients s)" for k
    using fresh by (auto simp: registered_def dest: map_of_SomeD)
  have "sessions_ok ?cs (sy_db s)" using ok reg by (auto simp: sys_ok_def sessions_ok_def)
  moreover have "\<forall>k c. map_of ?cs k = Some c \<longrightarrow> cc_owner c = k"
    using ok by (auto simp: sys_ok_def clients_ok_def new_client_def split: if_splits)
  moreover have "o1 = o2" if "(o1, v) \<in> registered ?cs" "(o2, v) \<in> registered ?cs" for o1 o2 v
  proof (cases "v = w")
    case True
    with that unused[of o1] unused[of o2] show ?thesis unfolding reg by simp
  next
    case False
    with that have "(o1, v) \<in> registered (sy_clients s)" "(o2, v) \<in> registered (sy_clients s)"
      unfolding reg by simp_all
    moreover from ok have "\<forall>o1 o2 v. (o1, v) \<in> registered (sy_clients s) \<longrightarrow> (o2, v) \<in> registered (sy_clients s) \<longrightarrow> o1 = o2"
      unfolding sys_ok_def clients_ok_def by (elim conjE)
    ultimately show ?thesis by blast
  qed
  ultimately have "clients_ok ?cs" unfolding clients_ok_def by blast
  with \<open>sessions_ok ?cs (sy_db s)\<close> ok show ?thesis by (simp add: sys_ok_def)
qed

definition sys_le :: "coord_system \<Rightarrow> coord_system \<Rightarrow> bool" where
  "sys_le s s' \<longleftrightarrow> db_le (sy_db s) (sy_db s')"

lemma coord_step_cases:
  obtains (same) "coord_step s e = s"
  | (fresh) ow w manifest where "map_of (sy_clients s) ow = None" "\<forall>(_, c) \<in> set (sy_clients s). cc_witness c \<noteq> w"
      "coord_step s e = s\<lparr>sy_clients := AList.update ow (new_client ow w manifest) (sy_clients s)\<rparr>"
  | (call) ow c c' db' cl where "map_of (sy_clients s) ow = Some c" "coord_exec cl c (sy_db s) = (c', db')"
      "coord_step s e = s\<lparr>sy_clients := AList.update ow c' (sy_clients s), sy_db := db'\<rparr>"
proof (cases e)
  case (NewProcess ow w m)
  show ?thesis
  proof (cases "map_of (sy_clients s) ow \<noteq> None \<or> list_ex (\<lambda>(_, c). cc_witness c = w) (sy_clients s)")
    case True
    with NewProcess same show ?thesis by simp
  next
    case False
    then have "\<forall>(_, c) \<in> set (sy_clients s). cc_witness c \<noteq> w" by (auto simp: list_ex_iff)
    with NewProcess False fresh[of ow w m] show ?thesis by simp
  qed
next
  case (Call ow cl)
  show ?thesis
  proof (cases "map_of (sy_clients s) ow")
    case None
    with Call same show ?thesis by simp
  next
    case (Some c)
    obtain c' db' where "coord_exec cl c (sy_db s) = (c', db')" by fastforce
    with Call Some call show ?thesis by simp
  qed
qed

interpretation coord: monotone_component coord_step sys_ok sys_le
proof unfold_locales
  fix s e
  assume ok: "sys_ok s"
  show "sys_ok (coord_step s e)"
  proof (cases rule: coord_step_cases[of s e])
    case (fresh ow w m)
    with sys_ok_new[OF ok] show ?thesis by simp
  next
    case (call ow c c' db' cl)
    have "good_call c (sy_db s) c' db'" using ok call(2) by (intro good_exec) (simp_all add: sys_ok_def)
    with sys_ok_call[OF ok call(1)] call(3) show ?thesis by simp
  qed (use ok in simp)
next
  fix s t u
  show "sys_le s s" by (simp add: sys_le_def db_le_def workspace_le_refl history_le_refl)
  show "sys_le s t \<Longrightarrow> sys_le t u \<Longrightarrow> sys_le s u"
    unfolding sys_le_def db_le_def by (blast intro: workspace_le_trans history_le_trans)
next
  fix s e
  assume ok: "sys_ok s"
  show "sys_le s (coord_step s e)"
  proof (cases rule: coord_step_cases[of s e])
    case (call ow c c' db' cl)
    have "good_call c (sy_db s) c' db'" using ok call(2) by (intro good_exec) (simp_all add: sys_ok_def)
    with call(3) show ?thesis by (simp add: sys_le_def good_call_def advances_def)
  qed (simp_all add: sys_le_def db_le_def workspace_le_refl history_le_refl)
qed

lemma sys_ok_empty: "sys_ok empty_system"
  by (simp add: sys_ok_def empty_system_def empty_db_def coord_ok_def op_table_ok_def lock_table_ok_def
      claim_table_ok_def mutation_table_ok_def audit_chain_def clients_ok_def sessions_ok_def registered_def)

end
