(* ===== verification/CoordinatorProperties.thy ===== *)
theory CoordinatorProperties
  imports Coordinator
begin

section \<open>What the coordinator promises\<close>

text \<open>
  The properties of \<^verbatim>\<open>lightrag/distributed/coordinator.py\<close>: its tables stay
  consistent and only move forward, uncertain work always ends in a fence, a fence stops new work,
  and only an audited recovery lifts it.
\<close>

definition healthy :: "coord_client \<Rightarrow> bool" where
  "healthy c \<longleftrightarrow> cc_pool c \<and> \<not> cc_broken c \<and> \<not> cc_read_only c \<and> cc_witness_open c"

lemma transaction_healthy:
  assumes "healthy c" and "cd_workspace db = Some row"
  shows "transaction False LinkOk body c db =
    (let (db1, r) = body row db; db2 = committed db db1 r
     in if r = DbFailed then fail_unavailable c db2
        else (c, db2, case r of Value v \<Rightarrow> Inr v | Denied e \<Rightarrow> Inl e | DbFailed \<Rightarrow> Inl CoordinationUnavailable))"
  using assms by (simp add: transaction_def healthy_def)

lemma transaction_success:
  assumes "transaction adm lk body c db = (c', db', Inr v)"
  obtains row where "cd_workspace db = Some row" "body row db = (db', Value v)" "c' = c" "lk = LinkOk"
  using assms
  by (cases lk) (auto simp: transaction_def fail_unavailable_eq committed_def Let_def
      split: if_splits option.splits outcome.splits prod.splits)

lemma transaction_refused:
  assumes "transaction adm lk body c db = (c', db', Inl e)"
    and "\<And>row. cd_workspace db = Some row \<Longrightarrow> P (fst (body row db))" and "P db"
  shows "(c', db') = (c, db) \<or> (\<exists>db2. P db2 \<and> ((c', db') = (c, db2) \<or> (c', db') = quarantine c db2))"
proof -
  have f: "fail_unavailable c x = (c', db', Inl e) \<Longrightarrow> (c', db') = quarantine c x" for x
    by (auto simp: fail_unavailable_eq)
  show ?thesis
    using assms(1)
  proof (cases "cd_workspace db")
    case None
    with assms(1,3) f show ?thesis
      by (auto simp: transaction_def split: if_splits)
  next
    case (Some row)
    obtain db1 r where b: "body row db = (db1, r)" by fastforce
    have P: "P (committed db db1 r)" using assms(2)[OF Some] assms(3) b committed_cases[of db db1 r] by auto
    show ?thesis
      using assms(1,3) Some b f P by (auto simp: transaction_def Let_def split: if_splits)
  qed
qed

text \<open>An example: two processes with a ticket each, the first of which holds a lock.\<close>

definition coord_ex_op1 :: operation where
  "coord_ex_op1 = \<lparr>oh_id = 100, oh_generation = 1, oh_owner = 1\<rparr>"

definition coord_ex_op2 :: operation where
  "coord_ex_op2 = \<lparr>oh_id = 200, oh_generation = 1, oh_owner = 2\<rparr>"

definition coord_ex_client :: "uuid \<Rightarrow> coord_client" where
  "coord_ex_client i = \<lparr>cc_owner = i, cc_witness = 11 * i, cc_manifest_hash = Some [109], cc_pool = True,
     cc_broken = False, cc_read_only = False, cc_witness_open = True\<rparr>"

definition coord_ex_ticket :: "uuid \<Rightarrow> op_row" where
  "coord_ex_ticket i = \<lparr>or_id = 100 * i, or_generation = 1, or_owner = i, or_witness = 11 * i, or_kind = [119],
     or_exclusive = False, or_metadata = [], or_state = OpActive, or_phase = lit ''admitted'',
     or_created_at = 0, or_heartbeat_at = 0, or_finished_at = None\<rparr>"

definition coord_ex_db :: coord_db where
  "coord_ex_db = \<lparr>cd_workspace = Some \<lparr>ws_manifest_hash = [109], ws_generation = 1, ws_fenced = False,
       ws_fence_reason = None\<rparr>,
     cd_operations = [coord_ex_ticket 1, coord_ex_ticket 2],
     cd_locks = [\<lparr>lr_key = [107], lr_op = 100, lr_task = 7, lr_depth = 1\<rparr>], cd_claims = [],
     cd_mutations = [], cd_audits = [], cd_held = [(11, 1), (22, 2)]\<rparr>"

definition coord_ex :: coord_system where
  "coord_ex = \<lparr>sy_clients = [(1, coord_ex_client 1), (2, coord_ex_client 2)], sy_db = coord_ex_db\<rparr>"

lemma active_of_simps:
  "active_of [] = {}"
  "active_of (x # xs) = (if or_state x = OpActive then insert (or_id x) (active_of xs) else active_of xs)"
  by (auto simp: active_of_def)

lemma coord_ex_ok: "sys_ok coord_ex"
  by (simp add: sys_ok_def coord_ex_def coord_ex_db_def coord_ok_def op_table_ok_def lock_table_ok_def
      claim_table_ok_def mutation_table_ok_def audit_chain_def clients_ok_def sessions_ok_def registered_def
      coord_ex_ticket_def coord_ex_client_def active_of_simps image_iff)

text \<open>
  C1: whatever processes do and whatever the network does to them, the tables are consistent:
  active tickets are of the current generation and an exclusive one is alone; every lock, every
  claim and every pending mutation belongs to an active ticket and no key or document has two
  owners; and there is exactly one audit row for each generation left behind.
\<close>

theorem coord_tables_consistent: "coord_ok (sy_db (run coord_step empty_system es))"
  using coord.run_inv[OF sys_ok_empty, of es] by (simp add: sys_ok_def)

text \<open>
  C16: nothing moves backwards. From any reachable state on, the generation never decreases, a
  fence stays with its first reason until the generation changes, finished tickets and settled
  mutations keep their state, and the audit trail only grows.
\<close>

theorem coord_only_forward:
  "db_le (sy_db (run coord_step empty_system es)) (sy_db (run coord_step (run coord_step empty_system es) fs))"
  using coord.run_le[OF coord.run_inv[OF sys_ok_empty]] by (simp add: sys_le_def)

lemma acquire_all_locked:
  "k \<in> set keys \<or> k \<in> set (map lr_key (filter (\<lambda>r. lr_op r = i \<and> lr_task r = t) (cd_locks db))) \<Longrightarrow>
   \<forall>r \<in> set (cd_locks db). lr_key r \<in> set keys \<longrightarrow> lr_op r = i \<and> lr_task r = t \<Longrightarrow>
   k \<in> set (map lr_key (filter (\<lambda>r. lr_op r = i \<and> lr_task r = t) (cd_locks (fold (acquire_lock i t) keys db))))"
proof (induction keys arbitrary: db)
  case Nil
  then show ?case by simp
next
  case (Cons key keys)
  let ?own = "\<lambda>db. set (map lr_key (filter (\<lambda>r. lr_op r = i \<and> lr_task r = t) (cd_locks db)))"
  have own: "?own (acquire_lock i t key db) = insert key (?own db)"
  proof (cases "key \<in> set (map lr_key (cd_locks db))")
    case True
    then obtain r where r: "r \<in> set (cd_locks db)" "lr_key r = key" by auto
    with Cons.prems(2) have "lr_op r = i" "lr_task r = t" by auto
    define g :: "lock_row \<Rightarrow> lock_row" where "g = (\<lambda>x. if lr_key x = key then x\<lparr>lr_depth := lr_depth x + 1\<rparr> else x)"
    have g: "lr_key (g x) = lr_key x \<and> lr_op (g x) = lr_op x \<and> lr_task (g x) = lr_task x" for x
      by (simp add: g_def)
    have "cd_locks (acquire_lock i t key db) = map g (cd_locks db)" using True by (simp add: acquire_lock_def g_def)
    then have "?own (acquire_lock i t key db) = ?own db" by (simp add: filter_map comp_def g image_image)
    moreover have "key \<in> ?own db" using r \<open>lr_op r = i\<close> \<open>lr_task r = t\<close> by (auto intro!: image_eqI)
    ultimately show ?thesis by blast
  next
    case False
    then show ?thesis by (auto simp: acquire_lock_def)
  qed
  have "\<forall>r \<in> set (cd_locks (acquire_lock i t key db)). lr_key r \<in> set keys \<longrightarrow> lr_op r = i \<and> lr_task r = t"
    using Cons.prems(2) by (auto simp: acquire_lock_def)
  moreover have "k \<in> set keys \<or> k \<in> ?own (acquire_lock i t key db)"
    using Cons.prems(1) unfolding own by auto
  ultimately show ?case using Cons.IH by simp
qed

text \<open>
  a lock is exclusive and all or nothing. An attempt that gets an answer is granted exactly
  when every key that is already locked is locked by the same task of the same operation; a
  granted attempt leaves every key locked by it, a refused one changes nothing.
\<close>

theorem coord_lock_exclusive:
  assumes "lock_attempt lk op task keys c db = (c', db', Inr granted)"
  shows "granted = (\<forall>r \<in> set (cd_locks db). lr_key r \<in> set keys \<longrightarrow> lr_op r = oh_id op \<and> lr_task r = task) \<and>
    (if granted then \<forall>k \<in> set keys. \<exists>r \<in> set (cd_locks db'). lr_key r = k \<and> lr_op r = oh_id op \<and> lr_task r = task
     else db' = db)"
proof -
  let ?free = "\<forall>r \<in> set (cd_locks db). lr_key r \<in> set keys \<longrightarrow> lr_op r = oh_id op \<and> lr_task r = task"
  from assms obtain row where b: "lock_body c op task (lock_keys keys) row db = (db', Value granted)"
    by (auto simp: lock_attempt_def split: if_splits elim!: transaction_success)
  have keys: "set (lock_keys keys) = set keys" by (simp add: lock_keys_def)
  from b have d: "granted = ?free \<and>
      db' = (if ?free then fold (acquire_lock (oh_id op) task) (lock_keys keys) db else db)"
    unfolding lock_body_def
    by (cases rule: validate_bind_cases) (auto simp: list_ex_iff keys split: if_splits)
  show ?thesis
  proof (cases ?free)
    case True
    have "\<exists>r \<in> set (cd_locks db'). lr_key r = k \<and> lr_op r = oh_id op \<and> lr_task r = task" if "k \<in> set keys" for k
      using acquire_all_locked[of k "lock_keys keys" "oh_id op" task db] that True d keys by auto
    with True d show ?thesis by simp
  qed (use d in auto)
qed


theorem coord_lock_exclusive_witness:
  "(\<forall>r \<in> set (cd_locks (coord_ex_db)). lr_key r \<in> set [[107]] \<longrightarrow>
     lr_op r = oh_id coord_ex_op2 \<and> lr_task r = 8) = False"
proof -
  obtain c' db' r where l: "lock_attempt LinkOk coord_ex_op2 8 [[107]] (coord_ex_client 2) (coord_ex_db) = (c', db', r)"
    by (metis prod_cases3)
  moreover have "snd (snd (lock_attempt LinkOk coord_ex_op2 8 [[107]] (coord_ex_client 2) (coord_ex_db))) = Inr False"
    by code_simp
  ultimately have "r = Inr False" by simp
  with coord_lock_exclusive[of LinkOk coord_ex_op2 8 "[[107]]" "coord_ex_client 2" "coord_ex_db" c' db' False] l
  show ?thesis by simp
qed

lemma validate_fenced:
  assumes "ws_fenced row"
  shows "\<exists>e. bind_body (validate c row op True) f db = (db, Denied e)"
  using assms
  by (auto simp: validate_def bind_body_def check_scope_def split: option.splits)

lemma fenced_transaction:
  assumes "healthy c" and "cd_workspace db = Some row" and "\<exists>e. body row db = (db, Denied e)"
  shows "\<exists>e. transaction False LinkOk body c db = (c, db, Inl e)"
  using assms by (auto simp: transaction_healthy committed_def)

text \<open>
  a fence stops new work. A process in good order whose request arrives while the scope is
  fenced is denied and changes nothing, be it an admission, a lock, a claim or a mutation; so is
  the completion of an operation, which therefore stays active for the recovery.
\<close>

theorem coord_fence_stops_work:
  assumes "healthy c" and "cd_workspace db = Some row" and "ws_fenced row"
  shows "(\<exists>e. admit_attempt LinkOk i kind ex meta now c db = (c, db, Inl e)) \<and>
    (\<exists>e. lock_attempt LinkOk op task keys c db = (c, db, Inl e)) \<and>
    (\<exists>e. try_claim LinkOk op doc now c db = (c, db, Inl e)) \<and>
    (\<exists>e. begin_mutation LinkOk op i b n m c db = (c, db, Inl e)) \<and>
    (\<exists>e. complete_operation LinkOk op now c db = (c, db, Inl e))"
proof -
  note f = fenced_transaction[OF assms(1,2)] and v = validate_fenced[OF assms(3)]
  have "\<exists>e. admit_body c i kind ex meta now row db = (db, Denied e)"
    using assms(3) by (simp add: admit_body_def bind_body_def check_scope_def)
  then have "\<exists>e. admit_attempt LinkOk i kind ex meta now c db = (c, db, Inl e)"
    using f by (auto simp: admit_attempt_def)
  moreover have "\<exists>e. lock_body c op task ks row db = (db, Denied e)" for ks
    by (simp add: lock_body_def v)
  then have "\<exists>e. lock_attempt LinkOk op task keys c db = (c, db, Inl e)"
    using f by (auto simp: lock_attempt_def)
  moreover have "\<exists>e. try_claim_body c op doc now row db = (db, Denied e)"
    by (simp add: try_claim_body_def v)
  then have "\<exists>e. try_claim LinkOk op doc now c db = (c, db, Inl e)"
    using f by (auto simp: try_claim_def)
  moreover have "\<exists>e. begin_mutation_body c op i b n m row db = (db, Denied e)"
    by (simp add: begin_mutation_body_def v)
  then have "\<exists>e. begin_mutation LinkOk op i b n m c db = (c, db, Inl e)"
    using f by (auto simp: begin_mutation_def)
  moreover have "\<exists>e. complete_body c op now row db = (db, Denied e)"
    by (simp add: complete_body_def v)
  then have "\<exists>e. complete_operation LinkOk op now c db = (c, db, Inl e)"
    using f by (auto simp: complete_operation_def)
  ultimately show ?thesis by blast
qed

definition coord_ex_fenced :: coord_db where
  "coord_ex_fenced = snd (mark_uncertain LinkOk coord_ex_op1 [117] (coord_ex_client 1) coord_ex_db)"

theorem coord_fence_stops_work_witness:
  "\<exists>e. admit_attempt LinkOk 300 [119] False [] 2 (coord_ex_client 2) (coord_ex_fenced) =
     (coord_ex_client 2, coord_ex_fenced, Inl e)"
proof -
  have "healthy (coord_ex_client 2)" by code_simp
  moreover have "cd_workspace (coord_ex_fenced) =
      Some \<lparr>ws_manifest_hash = [109], ws_generation = 1, ws_fenced = True, ws_fence_reason = Some [117]\<rparr>"
    by code_simp
  ultimately show ?thesis using coord_fence_stops_work[of "coord_ex_client 2" "coord_ex_fenced"] by simp
qed

text \<open>
  a crash is found. When the witness of a process with an open ticket has gone, the next
  admission by any process in good order is denied, and the fence it raises is durable.
\<close>

theorem coord_crash_found:
  assumes "healthy c" and "cd_workspace db = Some row" and "orphans db \<noteq> []" and "\<not> blank kind"
  shows "(case admit_attempt LinkOk i kind ex meta now c db of (c', db', r) \<Rightarrow>
     c' = c \<and> r = Inl WorkspaceFenced \<and> map_option ws_fenced (cd_workspace db') = Some True)"
proof (cases rule: check_scope_cases[of row db])
  case fenced
  with assms show ?thesis
    by (simp add: admit_attempt_def transaction_healthy admit_body_def bind_body_def committed_def)
next
  case orphaned
  with assms show ?thesis
    by (simp add: admit_attempt_def transaction_healthy admit_body_def bind_body_def committed_def fence_workspace)
qed (use assms(3) in simp)

theorem coord_crash_found_witness:
  "(case admit_attempt LinkOk 300 [119] True [] 2 (coord_ex_client 2)
       (drop_session (coord_ex_client 1) coord_ex_db) of (c', db', r) \<Rightarrow>
     c' = coord_ex_client 2 \<and> r = Inl WorkspaceFenced \<and> map_option ws_fenced (cd_workspace db') = Some True)"
proof (rule coord_crash_found)
  show "healthy (coord_ex_client 2)" by code_simp
  show "cd_workspace (drop_session (coord_ex_client 1) coord_ex_db) =
      Some \<lparr>ws_manifest_hash = [109], ws_generation = 1, ws_fenced = False, ws_fence_reason = None\<rparr>"
    by code_simp
  have "orphans (drop_session (coord_ex_client 1) coord_ex_db) = [100]" by code_simp
  then show "orphans (drop_session (coord_ex_client 1) coord_ex_db) \<noteq> []" by simp
  show "\<not> blank [119]" by code_simp
qed


text \<open>A permit whose ticket is active stays active through a marking, and is an orphan once the session is gone.\<close>

lemma quarantine_orphan:
  assumes "x \<in> set (cd_operations db)" and "or_state x = OpActive" and "or_witness x = cc_witness c"
    and "\<forall>ow. (cc_witness c, ow) \<in> set (cd_held db) \<longrightarrow> ow = cc_owner c"
  shows "or_id x \<in> set (orphans (snd (quarantine c db)))"
  using assms by (auto simp: quarantine_def drop_session_def orphans_def witness_held_def intro!: image_eqI)

lemma uncertain_body_ops:
  "\<exists>f. cd_operations (fst (uncertain_body c op reason row db)) = map f (cd_operations db) \<and>
     (\<forall>x. or_id (f x) = or_id x \<and> or_state (f x) = or_state x \<and> or_witness (f x) = or_witness x) \<and>
     cd_held (fst (uncertain_body c op reason row db)) = cd_held db"
proof -
  obtain db' r where b: "uncertain_body c op reason row db = (db', r)" by fastforce
  from b[unfolded uncertain_body_def] show ?thesis
  proof (cases rule: validate_bind_cases)
    case (denied e)
    then have "cd_operations db' = map id (cd_operations db) \<and> cd_held db' = cd_held db" by auto
    then show ?thesis using b by (intro exI[of _ id]) simp
  next
    case (passed x)
    let ?f = "\<lambda>x. if or_id x = oh_id op then x\<lparr>or_phase := lit ''uncertain''\<rparr> else x"
    from passed(2) have "cd_operations db' = map ?f (cd_operations db) \<and> cd_held db' = cd_held db"
      by (auto simp: map_op_def)
    then show ?thesis using b by (intro exI[of _ ?f]) simp
  qed
qed

lemma uncertain_success_fences:
  assumes "uncertain_body c op reason row db = (db', Value ())" and "cd_workspace db = Some row"
  shows "map_option ws_fenced (cd_workspace db') = Some True"
  using assms(1)[unfolded uncertain_body_def]
proof (cases rule: validate_bind_cases)
  case (passed x)
  with assms(2) show ?thesis by (auto simp: fence_workspace)
qed simp

text \<open>
  C2: uncertain work fails closed. When a process of a consistent system gives up an operation it
  has a ticket for, then whatever the network does to that transaction, the scope is fenced
  afterwards or the ticket is an orphan that every other process will find.
\<close>

theorem coord_uncertain_fails_closed:
  assumes "sys_ok s" and "map_of (sy_clients s) ow = Some c"
    and "x \<in> set (cd_operations (sy_db s))" and "or_state x = OpActive" and "or_owner x = ow"
  shows "(case mark_uncertain lk op reason c (sy_db s) of (c', db') \<Rightarrow>
     map_option ws_fenced (cd_workspace db') = Some True \<or> or_id x \<in> set (orphans db'))"
proof -
  let ?db = "sy_db s"
  have owner: "cc_owner c = ow" using assms(1,2) by (simp add: sys_ok_def clients_ok_def)
  have wit: "or_witness x = cc_witness c"
  proof -
    have "(or_owner x, or_witness x) \<in> registered (sy_clients s)"
      using assms(1,3) by (auto simp: sys_ok_def sessions_ok_def)
    with assms(2,5) show ?thesis by (auto simp: registered_def)
  qed
  have only: "\<forall>k. (cc_witness c, k) \<in> set (cd_held ?db) \<longrightarrow> k = cc_owner c"
  proof (intro allI impI)
    fix k
    assume "(cc_witness c, k) \<in> set (cd_held ?db)"
    then have "(cc_witness c, k) \<in> prod.swap ` registered (sy_clients s)"
      using assms(1) by (auto simp: sys_ok_def sessions_ok_def)
    then have "(k, cc_witness c) \<in> registered (sy_clients s)" by force
    moreover have "(ow, cc_witness c) \<in> registered (sy_clients s)" using assms(2) by (simp add: registered_def)
    ultimately show "k = cc_owner c" using assms(1) owner unfolding sys_ok_def clients_ok_def by blast
  qed
  define P :: "coord_db \<Rightarrow> bool" where "P = (\<lambda>db. cd_held db = cd_held ?db \<and>
      (\<exists>y \<in> set (cd_operations db). or_id y = or_id x \<and> or_state y = OpActive \<and> or_witness y = cc_witness c))"
  have P0: "P ?db" using assms(3,4) wit by (auto simp: P_def)
  have Pb: "P (fst (uncertain_body c op reason row ?db))" for row
    using uncertain_body_ops[of c op reason row ?db] assms(3,4) wit by (auto simp: P_def)
  have orphan: "or_id x \<in> set (orphans (snd (quarantine c db)))" if "P db" for db
    using that only quarantine_orphan[of _ db c] unfolding P_def by metis
  obtain c1 db1 r where t: "transaction False lk (uncertain_body c op reason) c ?db = (c1, db1, r)"
    by (metis prod_cases3)
  show ?thesis
  proof (cases r)
    case (Inr v)
    from t[unfolded Inr] obtain row where "cd_workspace ?db = Some row"
      "uncertain_body c op reason row ?db = (db1, Value v)" by (rule transaction_success)
    with uncertain_success_fences[of c op reason row ?db db1] show ?thesis
      by (simp add: mark_uncertain_def t Inr)
  next
    case (Inl e)
    from transaction_refused[OF t[unfolded Inl], of P] Pb P0
    obtain db2 where db2: "P db2" "(c1, db1) = (c, db2) \<or> (c1, db1) = quarantine c db2" by blast
    have idem: "snd (quarantine c1 (snd (quarantine c db2))) = snd (quarantine c db2)" if "c1 = fst (quarantine c db2)"
      using that by (simp add: quarantine_def drop_session_def)
    have "snd (quarantine c1 db1) = snd (quarantine c db2)"
      using db2(2) idem by (metis fst_conv snd_conv)
    moreover have "mark_uncertain lk op reason c ?db = quarantine c1 db1" by (simp add: mark_uncertain_def t Inl)
    ultimately show ?thesis using orphan[OF db2(1)] by (simp add: case_prod_unfold)
  qed
qed

theorem coord_uncertain_fails_closed_witness:
  "(case mark_uncertain LostBeforeCommit coord_ex_op1 [117] (coord_ex_client 1) (sy_db coord_ex) of (c', db') \<Rightarrow>
     map_option ws_fenced (cd_workspace db') = Some True \<or> or_id (coord_ex_ticket 1) \<in> set (orphans db'))"
  by (rule coord_uncertain_fails_closed[OF coord_ex_ok, of 1])
    (simp_all add: coord_ex_def coord_ex_db_def coord_ex_ticket_def)

lemma recovered_none_active: "active_ids (recover_db a now db) = {}"
  by (auto simp: active_of_def recover_db_def)

lemma recovered_none_pending:
  assumes "coord_ok db"
  shows "\<forall>m \<in> set (cd_mutations (recover_db a now db)). mu_state m \<noteq> MutPending"
proof -
  have "mutation_table_ok {} (cd_mutations (recover_db a now db))"
    using assms by (auto simp: coord_ok_def recover_db_def intro!: mutation_table_settle[OF _ active_of_subset, simplified])
  then show ?thesis by (auto simp: mutation_table_ok_def)
qed

text \<open>
  C9: only an audited recovery lifts a fence. A recovery that succeeds had all three confirmations,
  the current generation and no live writer; it moves the generation on by one, lifts the fence,
  leaves no active ticket, lock, claim or pending mutation of the scope, and appends an audit row
  with the tables as they were.
\<close>

theorem coord_recovery_audited:
  assumes "coord_ok db" and "recover lk expected i actor reason w f a now c db = (c', db', Inr snap)"
  shows "w \<and> f \<and> a \<and> map_option ws_generation (cd_workspace db) = Some expected \<and> \<not> live_unfinished db \<and>
    map_option ws_generation (cd_workspace db') = Some (expected + 1) \<and>
    map_option ws_fenced (cd_workspace db') = Some False \<and>
    active_ids db' = {} \<and> cd_locks db' = [] \<and> cd_claims db' = [] \<and>
    (\<forall>m \<in> set (cd_mutations db'). mu_state m \<noteq> MutPending) \<and>
    (\<exists>au. cd_audits db' = cd_audits db @ [au] \<and> au_actor au = actor \<and> au_reason au = reason \<and>
       au_operations au = cd_operations db \<and> au_locks au = cd_locks db \<and> au_claims au = cd_claims db \<and>
       au_mutations au = scope_mutations db)"
proof -
  from assms(2) have conf: "w \<and> f \<and> a" and t: "transaction True lk (recover_body expected i actor reason now) c db = (c', db', Inr snap)"
    by (auto simp: recover_def split: if_splits)
  from t obtain row where row: "cd_workspace db = Some row"
    and b: "recover_body expected i actor reason now row db = (db', Value snap)" by (rule transaction_success)
  from b show ?thesis
  proof (cases rule: recover_body_cases)
    case (recovered au)
    have ws: "map_option ws_generation (cd_workspace db') = Some (expected + 1)"
      "map_option ws_fenced (cd_workspace db') = Some False" "cd_locks db' = []" "cd_claims db' = []"
      "cd_audits db' = cd_audits db @ [au]"
      using row recovered(1) by (simp_all add: recovered(3) recover_db_def)
    have gone: "active_ids db' = {}" "\<forall>m \<in> set (cd_mutations db'). mu_state m \<noteq> MutPending"
      unfolding recovered(3) using recovered_none_active recovered_none_pending[OF assms(1)] by blast+
    show ?thesis using conf ws gone row recovered by (intro conjI exI[of _ au]) simp_all
  qed simp_all
qed

definition coord_ex_dead :: coord_db where
  "coord_ex_dead = coord_ex_db\<lparr>cd_held := []\<rparr>"

theorem coord_recovery_audited_witness:
  "\<exists>c' db' snap. recover LinkOk 1 9 [97] [114] True True True 5 (coord_ex_client 1) coord_ex_dead = (c', db', Inr snap) \<and>
     active_ids db' = {} \<and> map_option ws_generation (cd_workspace db') = Some 2"
proof -
  obtain c' db' r where t: "recover LinkOk 1 9 [97] [114] True True True 5 (coord_ex_client 1) coord_ex_dead = (c', db', r)"
    by (metis prod_cases3)
  have "isl (snd (snd (recover LinkOk 1 9 [97] [114] True True True 5 (coord_ex_client 1) coord_ex_dead))) = False"
    by code_simp
  with t obtain snap where r: "r = Inr snap" by (cases r) auto
  have "coord_ok coord_ex_dead" using coord_ex_ok by (simp add: coord_ex_dead_def coord_ex_def sys_ok_def)
  from coord_recovery_audited[OF this t[unfolded r]] t r show ?thesis by auto
qed

text \<open>
  a permit from before a recovery is dead. In every state after a generation has been left
  behind, validation of a permit of that generation denies, for every process, with or without
  the fence check, and changes nothing.
\<close>

theorem coord_stale_permit_refused:
  assumes "sys_ok s" and "cd_workspace (sy_db s) = Some w" and "oh_generation op < ws_generation w"
    and "cd_workspace (sy_db (run coord_step s es)) = Some row"
  shows "validate c row op cf (sy_db (run coord_step s es)) = (sy_db (run coord_step s es), Denied OperationOwnership)"
proof -
  have "workspace_le (sy_db s) (sy_db (run coord_step s es))"
    using coord.run_le[OF assms(1), of es] by (simp add: sys_le_def db_le_def)
  with assms(2,4) have "ws_generation w \<le> ws_generation row"
    unfolding workspace_le_def by force
  with assms(3) show ?thesis by (simp add: validate_def)
qed

theorem coord_stale_permit_refused_witness:
  "validate (coord_ex_client 2) \<lparr>ws_manifest_hash = [109], ws_generation = 1, ws_fenced = False, ws_fence_reason = None\<rparr>
     \<lparr>oh_id = 200, oh_generation = 0, oh_owner = 2\<rparr> False coord_ex_db = (coord_ex_db, Denied OperationOwnership)"
  using coord_stale_permit_refused[OF coord_ex_ok, where es = "[]" and op = "\<lparr>oh_id = 200, oh_generation = 0, oh_owner = 2\<rparr>"
      and c = "coord_ex_client 2" and cf = False]
  by (simp add: coord_ex_def coord_ex_db_def)

text \<open>
  completion is exact. A confirmed end of an operation by a process in good order, in a scope
  with neither fence nor orphans, succeeds just when nothing of it is pending or locked: then its
  ticket is completed and its claims are gone; otherwise the ticket stays active and the scope is
  fenced.
\<close>

theorem coord_completion_exact:
  assumes "healthy c" and "cd_workspace db = Some row" and "\<not> ws_fenced row" and "orphans db = []"
    and "find_operation op c db = Some x" and "oh_owner op = cc_owner c" and "oh_generation op = ws_generation row"
  shows "(case complete_operation LinkOk op now c db of (c', db', r) \<Rightarrow> c' = c \<and>
    (if has_pending (oh_id op) db \<or> has_locks (oh_id op) db
     then r = Inl WorkspaceFenced \<and> map_option ws_fenced (cd_workspace db') = Some True \<and>
       cd_operations db' = cd_operations db
     else r = Inr () \<and> oh_id op \<notin> active_ids db' \<and> (\<forall>k \<in> set (cd_claims db'). cl_op k \<noteq> oh_id op) \<and>
       cd_workspace db' = Some row))"
proof -
  have v: "validate c row op True db = (db, Value x)"
    using assms by (simp add: validate_def bind_body_def check_scope_def)
  have bb: "bind_body (validate c row op True) g db = g x db" for g :: "op_row \<Rightarrow> unit body"
    by (simp add: bind_body_def v)
  have gone: "oh_id op \<notin> active_of (map (\<lambda>y. if or_id y = oh_id op then y\<lparr>or_state := OpCompleted,
      or_phase := lit ''completed'', or_finished_at := Some now, or_heartbeat_at := now\<rparr> else y) (cd_operations db))"
    by (auto simp: active_of_def split: if_splits)
  show ?thesis
    using assms(2) gone
    by (auto simp: complete_operation_def transaction_healthy[OF assms(1,2)] complete_body_def
        bb committed_def fence_workspace map_op_def)
qed

theorem coord_completion_exact_witness:
  "snd (snd (complete_operation LinkOk coord_ex_op1 3 (coord_ex_client 1) coord_ex_db)) = Inl WorkspaceFenced \<and>
   snd (snd (complete_operation LinkOk coord_ex_op2 3 (coord_ex_client 2) coord_ex_db)) = Inr ()"
proof -
  let ?row = "\<lparr>ws_manifest_hash = [109], ws_generation = 1, ws_fenced = False, ws_fence_reason = None\<rparr>"
  have row: "cd_workspace coord_ex_db = Some ?row" by (simp add: coord_ex_db_def)
  have h: "healthy (coord_ex_client i)" for i by (simp add: healthy_def coord_ex_client_def)
  have orph: "orphans coord_ex_db = []" by code_simp
  have f: "find_operation coord_ex_op1 (coord_ex_client 1) coord_ex_db = Some (coord_ex_ticket 1)"
    "find_operation coord_ex_op2 (coord_ex_client 2) coord_ex_db = Some (coord_ex_ticket 2)"
    by (simp_all add: find_operation_def coord_ex_db_def coord_ex_ticket_def coord_ex_op1_def coord_ex_op2_def
        coord_ex_client_def)
  have locked: "has_locks 100 coord_ex_db" "\<not> has_locks 200 coord_ex_db" "\<not> has_pending 200 coord_ex_db"
    by (simp_all add: has_locks_def has_pending_def coord_ex_db_def)
  have o: "oh_id coord_ex_op1 = 100" "oh_id coord_ex_op2 = 200" "oh_owner coord_ex_op1 = 1" "oh_owner coord_ex_op2 = 2"
    "oh_generation coord_ex_op1 = 1" "oh_generation coord_ex_op2 = 1" "cc_owner (coord_ex_client i) = i" for i
    by (simp_all add: coord_ex_op1_def coord_ex_op2_def coord_ex_client_def)
  from coord_completion_exact[OF h row _ orph f(1), of 3] coord_completion_exact[OF h row _ orph f(2), of 3]
  show ?thesis by (simp add: o locked case_prod_unfold)
qed

end
