(* ===== verification/PipelineControl.thy ===== *)
theory PipelineControl
  imports Coordinator
begin

section \<open>Durable pipeline control\<close>

text \<open>
  \<^verbatim>\<open>lightrag/distributed/control.py\<close>: the pause flag with its epoch, the manual retry
  requests and their targets, kept in the tables of \<^verbatim>\<open>migrations/v002.py\<close> and
  \<^verbatim>\<open>v003.py\<close> beside those of the coordinator. Every operation is a transaction of the
  coordinator (theory \<open>Coordinator\<close>) that first checks the scope and, for the retry
  maintenance, an exclusive ticket; its writes are kept just when that transaction commits.
\<close>

datatype request_state = Selecting | Resetting | Completed

record retry_request =
  rq_id :: pystr
  rq_state :: request_state
  rq_created_at :: real
  rq_cutoff :: real

record retry_target =
  rt_request :: pystr
  rt_doc :: pystr
  rt_version :: pystr
  rt_done :: bool

text \<open>\<open>ct_control\<close> is the row of \<open>pipeline_control\<close>, the pause flag and the epoch, if there is one.\<close>

record control_tables =
  ct_control :: "(bool \<times> int) option"
  ct_requests :: "retry_request list"
  ct_targets :: "retry_target list"

definition empty_tables :: control_tables where
  "empty_tables = \<lparr>ct_control = None, ct_requests = [], ct_targets = []\<rparr>"

datatype control_error = ReleaseDenied | ControlValueError | CoordFailed coord_error

text \<open>
  What \<open>_transaction\<close> runs before it hands the connection over.
\<close>

definition control_guard :: "coord_client \<Rightarrow> operation option \<Rightarrow> workspace_row \<Rightarrow> unit body" where
  "control_guard c op row =
     bind_body (check_scope row) (\<lambda>_. case op of
       None \<Rightarrow> (\<lambda>db. (db, Value ()))
     | Some ticket \<Rightarrow> bind_body (validate c row ticket True)
         (\<lambda>found db. if or_exclusive found then (db, Value ()) else (db, Denied OperationOwnership)))"

text \<open>Does the transaction reach its body and commit? A lost response does not undo it.\<close>

definition link_commits :: "link \<Rightarrow> link" where
  "link_commits lk = (if lk = LostAfterCommit then LinkOk else lk)"

definition commits :: "link \<Rightarrow> operation option \<Rightarrow> coord_client \<Rightarrow> coord_db \<Rightarrow> bool" where
  "commits lk op c db \<longleftrightarrow> \<not> isl (snd (snd (transaction False (link_commits lk) (control_guard c op) c db)))"

definition control_transaction ::
  "link \<Rightarrow> operation option \<Rightarrow> (control_tables \<Rightarrow> control_tables \<times> 'a) \<Rightarrow> coord_client \<Rightarrow> coord_db \<Rightarrow> control_tables \<Rightarrow>
   coord_client \<times> coord_db \<times> control_tables \<times> (control_error + 'a)" where
  "control_transaction lk op f c db t =
     (case transaction False lk (control_guard c op) c db of
        (c1, db1, r) \<Rightarrow>
          (c1, db1, if commits lk op c db then fst (f t) else t,
           case r of Inl e \<Rightarrow> Inl (CoordFailed e) | Inr _ \<Rightarrow> Inr (snd (f t))))"

text \<open>The writers' gate of a release: \<open>None\<close> without a release runtime, else its answer.\<close>

definition release_write ::
  "bool option \<Rightarrow> coord_client \<times> coord_db \<times> control_tables \<times> (control_error + 'a) \<Rightarrow>
   coord_client \<Rightarrow> coord_db \<Rightarrow> control_tables \<Rightarrow> coord_client \<times> coord_db \<times> control_tables \<times> (control_error + 'a)" where
  "release_write gate call c db t = (if gate = Some False then (c, db, t, Inl ReleaseDenied) else call)"


subsection \<open>The statements\<close>

definition write_pause :: "control_tables \<Rightarrow> control_tables" where
  "write_pause t = t\<lparr>ct_control := Some (case ct_control t of None \<Rightarrow> (True, 1) | Some (_, e) \<Rightarrow> (True, e + 1))\<rparr>"

definition write_resume :: "control_tables \<Rightarrow> control_tables" where
  "write_resume t = t\<lparr>ct_control := map_option (\<lambda>(_, e). (False, e)) (ct_control t)\<rparr>"

definition find_request :: "control_tables \<Rightarrow> pystr \<Rightarrow> retry_request option" where
  "find_request t rid = find (\<lambda>r. rq_id r = rid) (ct_requests t)"

text \<open>A new request is inserted and resumes; a known one is only read.\<close>

definition write_request :: "pystr \<Rightarrow> real option \<Rightarrow> real \<Rightarrow> control_tables \<Rightarrow> control_tables \<times> retry_request" where
  "write_request rid cutoff now t =
     (case find_request t rid of
        Some r \<Rightarrow> (t, r)
      | None \<Rightarrow>
          let r = \<lparr>rq_id = rid, rq_state = Selecting, rq_created_at = now,
                   rq_cutoff = (case cutoff of None \<Rightarrow> now | Some x \<Rightarrow> x)\<rparr>
          in (write_resume (t\<lparr>ct_requests := ct_requests t @ [r]\<rparr>), r))"

definition has_target :: "control_tables \<Rightarrow> pystr \<Rightarrow> pystr \<Rightarrow> bool" where
  "has_target t rid doc = list_ex (\<lambda>x. rt_request x = rid \<and> rt_doc x = doc) (ct_targets t)"

definition insert_target :: "pystr \<Rightarrow> pystr \<times> pystr \<Rightarrow> control_tables \<Rightarrow> control_tables" where
  "insert_target rid d t =
     (if has_target t rid (fst d) then t
      else t\<lparr>ct_targets := ct_targets t @
               [\<lparr>rt_request = rid, rt_doc = fst d, rt_version = snd d, rt_done = False\<rparr>]\<rparr>)"

definition set_state :: "(retry_request \<Rightarrow> bool) \<Rightarrow> request_state \<Rightarrow> control_tables \<Rightarrow> control_tables" where
  "set_state p s t = t\<lparr>ct_requests := map (\<lambda>r. if p r then r\<lparr>rq_state := s\<rparr> else r) (ct_requests t)\<rparr>"

definition set_done :: "(retry_target \<Rightarrow> bool) \<Rightarrow> control_tables \<Rightarrow> control_tables" where
  "set_done p t = t\<lparr>ct_targets := map (\<lambda>x. if p x then x\<lparr>rt_done := True\<rparr> else x) (ct_targets t)\<rparr>"

definition open_targets :: "control_tables \<Rightarrow> pystr \<Rightarrow> retry_target list" where
  "open_targets t rid = filter (\<lambda>x. rt_request x = rid \<and> \<not> rt_done x) (ct_targets t)"

definition write_finish_selection :: "pystr \<Rightarrow> control_tables \<Rightarrow> control_tables" where
  "write_finish_selection rid = set_state (\<lambda>r. rq_id r = rid \<and> rq_state r = Selecting) Resetting"

definition write_finish_target :: "pystr \<Rightarrow> pystr \<Rightarrow> control_tables \<Rightarrow> control_tables" where
  "write_finish_target rid doc = set_done (\<lambda>x. rt_request x = rid \<and> rt_doc x = doc)"

definition write_finish_request :: "pystr \<Rightarrow> control_tables \<Rightarrow> control_tables" where
  "write_finish_request rid t =
     set_state (\<lambda>r. rq_id r = rid \<and> rq_state r = Resetting \<and> open_targets t rid = []) Completed t"

definition write_cancel :: "control_tables \<Rightarrow> control_tables" where
  "write_cancel t = set_state (\<lambda>r. rq_state r \<noteq> Completed) Completed (set_done (\<lambda>x. \<not> rt_done x) t)"

text \<open>Texts are ordered by code points, as under the C collation.\<close>

definition next_pending :: "control_tables \<Rightarrow> retry_request option" where
  "next_pending t =
     (case sort_key (\<lambda>r. (rq_created_at r, rq_id r)) (filter (\<lambda>r. rq_state r \<noteq> Completed) (ct_requests t)) of
        [] \<Rightarrow> None | r # _ \<Rightarrow> Some r)"

definition target_page :: "pystr \<Rightarrow> nat \<Rightarrow> control_tables \<Rightarrow> (pystr \<times> pystr) list" where
  "target_page rid n t = map (\<lambda>x. (rt_doc x, rt_version x)) (take n (sort_key rt_doc (open_targets t rid)))"


subsection \<open>The operations\<close>

definition pause where
  "pause gate lk c db t = release_write gate (control_transaction lk None (\<lambda>t. (write_pause t, ())) c db t) c db t"

definition resume where
  "resume gate lk c db t = release_write gate (control_transaction lk None (\<lambda>t. (write_resume t, ())) c db t) c db t"

definition request_retry where
  "request_retry gate lk rid cutoff now c db t =
     release_write gate
       (if blank rid then (c, db, t, Inl ControlValueError)
        else control_transaction lk None (write_request rid cutoff now) c db t) c db t"

definition next_request where
  "next_request lk op c db t = control_transaction lk (Some op) (\<lambda>t. (t, next_pending t)) c db t"

definition add_targets where
  "add_targets gate lk op rid targets c db t =
     release_write gate (control_transaction lk (Some op) (\<lambda>t. (fold (insert_target rid) targets t, ())) c db t) c db t"

definition finish_selection where
  "finish_selection gate lk op rid c db t =
     release_write gate (control_transaction lk (Some op) (\<lambda>t. (write_finish_selection rid t, ())) c db t) c db t"

definition targets where
  "targets lk op rid page c db t =
     (if \<not> (1 \<le> page \<and> page \<le> (1024 :: int)) then (c, db, t, Inl ControlValueError)
      else control_transaction lk (Some op) (\<lambda>t. (t, target_page rid (nat page) t)) c db t)"

definition finish_target where
  "finish_target gate lk op rid doc c db t =
     release_write gate (control_transaction lk (Some op) (\<lambda>t. (write_finish_target rid doc t, ())) c db t) c db t"

definition finish_request where
  "finish_request gate lk op rid c db t =
     release_write gate (control_transaction lk (Some op) (\<lambda>t. (write_finish_request rid t, ())) c db t) c db t"

definition cancel_requests where
  "cancel_requests gate lk op c db t =
     release_write gate (control_transaction lk (Some op) (\<lambda>t. (write_cancel t, ())) c db t) c db t"

text \<open>Status is an administrative read of both sets of tables.\<close>

record status_report =
  st_paused :: bool
  st_cancel_epoch :: int
  st_pending_retries :: nat
  st_active_operations :: nat
  st_claimed_documents :: nat
  st_fenced :: bool
  st_generation :: int
  st_recovery_required :: bool
  st_orphaned_operations :: bool

definition status_row :: "control_tables \<Rightarrow> workspace_row \<Rightarrow> coord_db \<Rightarrow> status_report" where
  "status_row t row db =
     \<lparr>st_paused = (case ct_control t of None \<Rightarrow> False | Some (p, _) \<Rightarrow> p),
      st_cancel_epoch = (case ct_control t of None \<Rightarrow> 0 | Some (_, e) \<Rightarrow> e),
      st_pending_retries = length (filter (\<lambda>r. rq_state r \<noteq> Completed) (ct_requests t)),
      st_active_operations = length (filter (\<lambda>x. or_state x = OpActive) (cd_operations db)),
      st_claimed_documents = length (cd_claims db),
      st_fenced = ws_fenced row, st_generation = ws_generation row,
      st_recovery_required = (ws_fenced row \<or> orphans db \<noteq> []),
      st_orphaned_operations = (orphans db \<noteq> [])\<rparr>"

definition control_status :: "link \<Rightarrow> coord_client \<Rightarrow> coord_db \<Rightarrow> control_tables \<Rightarrow>
    coord_client \<times> coord_db \<times> (coord_error + status_report)" where
  "control_status lk c db t = transaction True lk (\<lambda>row db. (db, Value (status_row t row db))) c db"


subsection \<open>Steps\<close>

datatype control_op =
  DoPause
| DoResume
| DoRequest pystr "real option" real
| DoAdd operation pystr "(pystr \<times> pystr) list"
| DoFinishSelection operation pystr
| DoFinishTarget operation pystr pystr
| DoFinishRequest operation pystr
| DoCancel operation

text \<open>
  A step of the tables: some process runs an operation, with whatever the coordinator's
  tables, the process, the network and the release gate are at that moment.
\<close>

type_synonym control_event = "bool option \<times> link \<times> coord_client \<times> coord_db \<times> control_op"

fun control_step :: "control_tables \<Rightarrow> control_event \<Rightarrow> control_tables" where
  "control_step t (gate, lk, c, db, DoPause) = fst (snd (snd (pause gate lk c db t)))"
| "control_step t (gate, lk, c, db, DoResume) = fst (snd (snd (resume gate lk c db t)))"
| "control_step t (gate, lk, c, db, DoRequest rid cutoff now) = fst (snd (snd (request_retry gate lk rid cutoff now c db t)))"
| "control_step t (gate, lk, c, db, DoAdd op rid ts) = fst (snd (snd (add_targets gate lk op rid ts c db t)))"
| "control_step t (gate, lk, c, db, DoFinishSelection op rid) = fst (snd (snd (finish_selection gate lk op rid c db t)))"
| "control_step t (gate, lk, c, db, DoFinishTarget op rid doc) = fst (snd (snd (finish_target gate lk op rid doc c db t)))"
| "control_step t (gate, lk, c, db, DoFinishRequest op rid) = fst (snd (snd (finish_request gate lk op rid c db t)))"
| "control_step t (gate, lk, c, db, DoCancel op) = fst (snd (snd (cancel_requests gate lk op c db t)))"

text \<open>What an operation writes when it commits, and the ticket it needs.\<close>

fun write_of :: "control_op \<Rightarrow> control_tables \<Rightarrow> control_tables" where
  "write_of DoPause t = write_pause t"
| "write_of DoResume t = write_resume t"
| "write_of (DoRequest rid cutoff now) t = fst (write_request rid cutoff now t)"
| "write_of (DoAdd op rid ts) t = fold (insert_target rid) ts t"
| "write_of (DoFinishSelection op rid) t = write_finish_selection rid t"
| "write_of (DoFinishTarget op rid doc) t = write_finish_target rid doc t"
| "write_of (DoFinishRequest op rid) t = write_finish_request rid t"
| "write_of (DoCancel op) t = write_cancel t"

fun ticket_of :: "control_op \<Rightarrow> operation option" where
  "ticket_of DoPause = None"
| "ticket_of DoResume = None"
| "ticket_of (DoRequest rid cutoff now) = None"
| "ticket_of (DoAdd op rid ts) = Some op"
| "ticket_of (DoFinishSelection op rid) = Some op"
| "ticket_of (DoFinishTarget op rid doc) = Some op"
| "ticket_of (DoFinishRequest op rid) = Some op"
| "ticket_of (DoCancel op) = Some op"

fun well_formed_op :: "control_op \<Rightarrow> bool" where
  "well_formed_op (DoRequest rid cutoff now) = (\<not> blank rid)"
| "well_formed_op op = True"

lemma control_transaction_tables:
  "fst (snd (snd (control_transaction lk op f c db t))) = (if commits lk op c db then fst (f t) else t)"
  by (simp add: control_transaction_def split: prod.splits)

lemma release_write_tables:
  "fst (snd (snd (release_write gate call c db t))) = (if gate = Some False then t else fst (snd (snd call)))"
  by (simp add: release_write_def)

lemmas control_op_defs = pause_def resume_def request_retry_def add_targets_def finish_selection_def
  finish_target_def finish_request_def cancel_requests_def

text \<open>A step writes all of its statement or nothing.\<close>

lemma control_step_eq:
  "control_step t (gate, lk, c, db, op) =
     (if gate \<noteq> Some False \<and> well_formed_op op \<and> commits lk (ticket_of op) c db then write_of op t else t)"
  by (cases op) (simp_all add: control_op_defs release_write_tables control_transaction_tables)

lemma control_step_cases:
  obtains (kept) "control_step t ev = t"
  | (wrote) gate lk c db op where "ev = (gate, lk, c, db, op)" "commits lk (ticket_of op) c db"
      "gate \<noteq> Some False" "well_formed_op op" "control_step t ev = write_of op t"
proof -
  obtain gate lk c db op where ev: "ev = (gate, lk, c, db, op)" by (cases ev) auto
  show ?thesis
    by (cases "gate \<noteq> Some False \<and> well_formed_op op \<and> commits lk (ticket_of op) c db")
      (auto simp: ev control_step_eq intro: kept wrote)
qed


subsection \<open>Only forward\<close>

fun rank :: "request_state \<Rightarrow> nat" where
  "rank Selecting = 0"
| "rank Resetting = 1"
| "rank Completed = 2"

definition epoch :: "control_tables \<Rightarrow> int" where
  "epoch t = (case ct_control t of None \<Rightarrow> 0 | Some (_, e) \<Rightarrow> e)"

definition paused :: "control_tables \<Rightarrow> bool" where
  "paused t = (case ct_control t of None \<Rightarrow> False | Some (p, _) \<Rightarrow> p)"

definition request_le :: "retry_request \<Rightarrow> retry_request \<Rightarrow> bool" where
  "request_le r s \<longleftrightarrow> rq_id r = rq_id s \<and> rq_created_at r = rq_created_at s \<and> rq_cutoff r = rq_cutoff s \<and>
     rank (rq_state r) \<le> rank (rq_state s)"

definition target_le :: "retry_target \<Rightarrow> retry_target \<Rightarrow> bool" where
  "target_le x y \<longleftrightarrow> rt_request x = rt_request y \<and> rt_doc x = rt_doc y \<and> rt_version x = rt_version y \<and>
     (rt_done x \<longrightarrow> rt_done y)"

definition forward :: "control_tables \<Rightarrow> control_tables \<Rightarrow> bool" where
  "forward t u \<longleftrightarrow> epoch t \<le> epoch u \<and> grows request_le (ct_requests t) (ct_requests u) \<and>
     grows target_le (ct_targets t) (ct_targets u)"

definition control_ok :: "control_tables \<Rightarrow> bool" where
  "control_ok t \<longleftrightarrow> distinct (map rq_id (ct_requests t)) \<and>
     distinct (map (\<lambda>x. (rt_request x, rt_doc x)) (ct_targets t)) \<and> 0 \<le> epoch t"

lemma request_le_refl: "request_le r r" and request_le_trans: "request_le r s \<Longrightarrow> request_le s u \<Longrightarrow> request_le r u"
  and target_le_refl: "target_le x x" and target_le_trans: "target_le x y \<Longrightarrow> target_le y z \<Longrightarrow> target_le x z"
  by (auto simp: request_le_def target_le_def)

lemma forward_refl: "forward t t"
  by (simp add: forward_def grows_refl request_le_refl target_le_refl)

lemma forward_trans: "forward t u \<Longrightarrow> forward u v \<Longrightarrow> forward t v"
  unfolding forward_def
  using grows_trans[of request_le, OF request_le_trans] grows_trans[of target_le, OF target_le_trans] by force

text \<open>One lemma for each statement.\<close>

lemma write_pause_ok: "control_ok t \<Longrightarrow> control_ok (write_pause t) \<and> forward t (write_pause t)"
  by (auto simp: control_ok_def forward_def write_pause_def epoch_def grows_refl request_le_refl target_le_refl
      split: option.splits)

lemma epoch_resume [simp]: "epoch (write_resume t) = epoch t"
  by (cases "ct_control t") (auto simp: epoch_def write_resume_def)

lemma tables_resume [simp]: "ct_requests (write_resume t) = ct_requests t" "ct_targets (write_resume t) = ct_targets t"
  by (simp_all add: write_resume_def)

lemma write_resume_ok: "control_ok t \<Longrightarrow> control_ok (write_resume t) \<and> forward t (write_resume t)"
  by (simp add: control_ok_def forward_def grows_refl request_le_refl target_le_refl)

lemma epoch_tables [simp]: "epoch (t\<lparr>ct_requests := rs\<rparr>) = epoch t" "epoch (t\<lparr>ct_targets := ts\<rparr>) = epoch t"
  by (simp_all add: epoch_def)

lemma find_request_None: "find_request t rid = None \<longleftrightarrow> rid \<notin> set (map rq_id (ct_requests t))"
  by (auto simp: find_request_def find_None_iff)

lemma write_request_ok: "control_ok t \<Longrightarrow> control_ok (fst (write_request rid cutoff now t)) \<and> forward t (fst (write_request rid cutoff now t))"
proof (cases "find_request t rid")
  case (Some r)
  assume "control_ok t"
  then show ?thesis by (simp add: write_request_def Some forward_refl)
next
  case None
  assume ok: "control_ok t"
  have "rid \<notin> set (map rq_id (ct_requests t))" using None find_request_None by metis
  then show ?thesis
    using ok by (simp add: write_request_def None Let_def control_ok_def forward_def
      grows_refl grows_append request_le_refl target_le_refl)
qed

lemma insert_target_ok: "control_ok t \<Longrightarrow> control_ok (insert_target rid d t) \<and> forward t (insert_target rid d t)"
  by (auto simp: insert_target_def has_target_def list_ex_iff control_ok_def forward_def
      grows_refl grows_append request_le_refl target_le_refl)

lemma insert_targets_ok: "control_ok t \<Longrightarrow> control_ok (fold (insert_target rid) ds t) \<and> forward t (fold (insert_target rid) ds t)"
proof (induction ds arbitrary: t)
  case (Cons d ds)
  note a = insert_target_ok[OF Cons.prems, of rid d]
  note b = Cons.IH[OF conjunct1[OF a]]
  show ?case using b forward_trans[OF conjunct2[OF a] conjunct2[OF b]] by simp
qed (simp add: forward_refl)

lemma set_state_ok:
  assumes "control_ok t" and "\<And>r. p r \<Longrightarrow> rank (rq_state r) \<le> rank s"
  shows "control_ok (set_state p s t) \<and> forward t (set_state p s t)"
proof -
  have m: "map rq_id (ct_requests (set_state p s t)) = map rq_id (ct_requests t)"
    by (auto simp: set_state_def)
  have g: "grows request_le (ct_requests t) (ct_requests (set_state p s t))"
    unfolding set_state_def using assms(2) by (simp add: grows_map request_le_def)
  have e: "epoch (set_state p s t) = epoch t" "ct_targets (set_state p s t) = ct_targets t"
    by (simp_all add: set_state_def)
  show ?thesis
    using assms(1) g unfolding control_ok_def forward_def m e by (simp add: grows_refl target_le_refl)
qed

lemma set_done_ok:
  assumes "control_ok t"
  shows "control_ok (set_done p t) \<and> forward t (set_done p t)"
proof -
  have m: "map (\<lambda>x. (rt_request x, rt_doc x)) (ct_targets (set_done p t)) = map (\<lambda>x. (rt_request x, rt_doc x)) (ct_targets t)"
    by (auto simp: set_done_def)
  have g: "grows target_le (ct_targets t) (ct_targets (set_done p t))"
    unfolding set_done_def by (simp add: grows_map target_le_def)
  have e: "epoch (set_done p t) = epoch t" "ct_requests (set_done p t) = ct_requests t"
    by (simp_all add: set_done_def)
  show ?thesis
    using assms g unfolding control_ok_def forward_def m e by (simp add: grows_refl request_le_refl)
qed

lemma write_of_ok:
  assumes "control_ok t"
  shows "control_ok (write_of op t) \<and> forward t (write_of op t)"
proof (cases op)
  case (DoFinishSelection o' rid)
  show ?thesis unfolding DoFinishSelection write_of.simps write_finish_selection_def
    by (intro set_state_ok assms) simp
next
  case (DoFinishRequest o' rid)
  show ?thesis unfolding DoFinishRequest write_of.simps write_finish_request_def
    by (intro set_state_ok assms) simp
next
  case (DoCancel o')
  note d = set_done_ok[OF assms, of "\<lambda>x. \<not> rt_done x"]
  have "rank s \<le> rank Completed" for s by (cases s) simp_all
  then have "control_ok (write_cancel t) \<and> forward (set_done (\<lambda>x. \<not> rt_done x) t) (write_cancel t)"
    unfolding write_cancel_def using d by (intro set_state_ok) simp_all
  then show ?thesis unfolding DoCancel write_of.simps using d forward_trans by blast
qed (simp_all add: assms write_pause_ok write_resume_ok write_request_ok insert_targets_ok write_finish_target_def set_done_ok)

interpretation control: monotone_component control_step control_ok forward
proof unfold_locales
  fix t ev assume ok: "control_ok t"
  show "control_ok (control_step t ev)"
    by (cases rule: control_step_cases[of t ev]) (use ok write_of_ok[OF ok] in auto)
  show "forward t (control_step t ev)"
    by (cases rule: control_step_cases[of t ev]) (use forward_refl write_of_ok[OF ok] in auto)
qed (auto intro: forward_refl forward_trans)


subsection \<open>Pause, replay and tickets\<close>

lemma paused_simps [simp]:
  "paused (write_pause t)" "paused (t\<lparr>ct_requests := rs\<rparr>) = paused t" "paused (t\<lparr>ct_targets := ts\<rparr>) = paused t"
  "paused (set_state p s t) = paused t" "paused (set_done q t) = paused t"
  by (auto simp: paused_def write_pause_def set_state_def set_done_def split: option.splits)

lemma paused_insert [simp]: "paused (fold (insert_target rid) ds t) = paused t"
proof (induction ds arbitrary: t)
  case (Cons d ds)
  then show ?case by (simp add: insert_target_def)
qed simp

definition known :: "control_tables \<Rightarrow> pystr \<Rightarrow> bool" where
  "known t rid \<longleftrightarrow> rid \<in> set (map rq_id (ct_requests t))"

lemma grows_ids: "grows request_le xs ys \<Longrightarrow> \<exists>zs. map rq_id ys = map rq_id xs @ zs"
proof -
  assume "grows request_le xs ys"
  then obtain us vs where "ys = us @ vs" "list_all2 request_le xs us" by (auto simp: grows_def)
  moreover from this(2) have "map rq_id us = map rq_id xs"
    by (induction xs us rule: list_all2_induct) (auto simp: request_le_def)
  ultimately show ?thesis by auto
qed

lemma known_forward: "forward t u \<Longrightarrow> known t rid \<Longrightarrow> known u rid"
  unfolding known_def forward_def using grows_ids[of "ct_requests t" "ct_requests u"] by (metis Un_iff set_append)

text \<open>An operation that may clear the pause: a resume, or a request with an id not seen before.\<close>

fun may_resume :: "control_tables \<Rightarrow> control_op \<Rightarrow> bool" where
  "may_resume t DoResume = True"
| "may_resume t (DoRequest rid cutoff now) = (\<not> known t rid)"
| "may_resume t op = False"

lemma write_of_paused: "\<not> may_resume t op \<Longrightarrow> paused t \<Longrightarrow> paused (write_of op t)"
proof (cases op)
  case (DoRequest rid cutoff now)
  assume h: "\<not> may_resume t op" "paused t"
  then have "find_request t rid \<noteq> None" unfolding find_request_None DoRequest by (simp add: known_def)
  then show ?thesis using h by (auto simp: DoRequest write_request_def)
qed (simp_all add: write_finish_selection_def write_finish_target_def write_finish_request_def write_cancel_def)

lemma may_resume_forward: "forward t u \<Longrightarrow> \<not> may_resume t op \<Longrightarrow> \<not> may_resume u op"
  using known_forward[of t u] by (cases op) auto

lemma run_paused:
  "control_ok t \<Longrightarrow> paused t \<Longrightarrow> (\<And>gate lk c db op. (gate, lk, c, db, op) \<in> set evs \<Longrightarrow> \<not> may_resume t op) \<Longrightarrow>
   paused (run control_step t evs)"
proof (induction evs arbitrary: t)
  case (Cons ev evs)
  have ok: "control_ok (control_step t ev)" by (rule control.step_inv[OF Cons.prems(1)])
  have fw: "forward t (control_step t ev)" by (rule control.step_le[OF Cons.prems(1)])
  have p: "paused (control_step t ev)"
  proof (cases rule: control_step_cases[of t ev])
    case kept
    then show ?thesis using Cons.prems(2) by simp
  next
    case (wrote gate lk c db op)
    then have "\<not> may_resume t op" using Cons.prems(3)[of gate lk c db op] by simp
    then show ?thesis unfolding wrote(5) using write_of_paused Cons.prems(2) by blast
  qed
  have "\<not> may_resume (control_step t ev) op" if "(gate, lk, c, db, op) \<in> set evs" for gate lk c db op
    using may_resume_forward[OF fw] Cons.prems(3)[of gate lk c db op] that by simp
  from Cons.IH[OF ok p this] show ?case by simp
qed simp

text \<open>What it takes for a transaction with a ticket to commit.\<close>

lemma commits_ticket:
  assumes "commits lk (Some op) c db"
  shows "\<exists>row found. cd_workspace db = Some row \<and> \<not> ws_fenced row \<and> orphans db = [] \<and>
    oh_owner op = cc_owner c \<and> oh_generation op = ws_generation row \<and>
    find_operation op c db = Some found \<and> or_exclusive found"
proof -
  have t: "\<not> isl (snd (snd (transaction False (link_commits lk) (control_guard c (Some op)) c db)))"
    using assms by (simp add: commits_def)
  obtain row where row: "cd_workspace db = Some row"
    using t by (cases "cd_workspace db") (auto simp: transaction_def fail_unavailable_def Let_def split: if_splits prod.splits)
  obtain db1 r where g: "control_guard c (Some op) row db = (db1, r)" by (cases "control_guard c (Some op) row db")
  have "r = Value ()"
    using t by (cases r) (auto simp: transaction_def fail_unavailable_def row g Let_def split: if_splits prod.splits)
  then have v: "control_guard c (Some op) row db = (db1, Value ())" using g by simp
  have a: "\<not> ws_fenced row" "orphans db = []"
    using v by (auto simp: control_guard_def bind_body_def check_scope_def split: if_splits)
  then have v2: "bind_body (validate c row op True)
      (\<lambda>found db. if or_exclusive found then (db, Value ()) else (db, Denied OperationOwnership)) db = (db1, Value ())"
    using v by (simp add: control_guard_def bind_body_def[of "check_scope row"] check_scope_def)
  show ?thesis
    using v2 a row by (auto simp: bind_body_def validate_def check_scope_def split: if_splits option.splits prod.splits)
qed


subsection \<open>Properties\<close>

text \<open>
  Control intent only moves forward, whatever processes, networks and release gates do: the
  epoch never decreases, a request keeps its identity and times and never goes back a state, a
  target keeps its first version and stays done, nothing is deleted, and request ids and the
  targets of a request stay unique.
\<close>
theorem control_only_forward:
  "control_ok (run control_step empty_tables evs) \<and>
   forward (run control_step empty_tables evs) (run control_step empty_tables (evs @ later))"
proof -
  have "control_ok empty_tables" by (simp add: control_ok_def empty_tables_def epoch_def)
  then have ok: "control_ok (run control_step empty_tables evs)" by (rule control.run_inv)
  then show ?thesis using control.run_le[OF ok, of later] by (simp add: run_append)
qed

text \<open>
  C37: A pause holds until somebody resumes: whatever else runs, and however often known request
  ids are sent again, only an explicit resume or a request with a new id can clear it.
\<close>
theorem control_pause_sticks:
  assumes "paused (run control_step empty_tables evs)"
    and "\<forall>(gate, lk, c, db, op) \<in> set later. \<not> may_resume (run control_step empty_tables evs) op"
  shows "paused (run control_step empty_tables (evs @ later))"
proof -
  have "control_ok empty_tables" by (simp add: control_ok_def empty_tables_def epoch_def)
  then have ok: "control_ok (run control_step empty_tables evs)" by (rule control.run_inv)
  have "paused (run control_step (run control_step empty_tables evs) later)"
    by (rule run_paused[OF ok assms(1)]) (use assms(2) in blast)
  then show ?thesis by (simp add: run_append)
qed

text \<open>A healthy process and a scope without work, for the examples.\<close>

definition demo_client :: coord_client where
  "demo_client = \<lparr>cc_owner = 1, cc_witness = 7, cc_manifest_hash = None, cc_pool = True, cc_broken = False,
     cc_read_only = False, cc_witness_open = True\<rparr>"

definition demo_db :: coord_db where
  "demo_db = empty_db\<lparr>cd_workspace := Some \<lparr>ws_manifest_hash = [], ws_generation = 1, ws_fenced = False, ws_fence_reason = None\<rparr>\<rparr>"

lemma demo_commits: "commits LinkOk None demo_client demo_db"
  by (simp add: commits_def link_commits_def transaction_def control_guard_def bind_body_def check_scope_def orphans_def
    committed_def demo_client_def demo_db_def empty_db_def Let_def)

lemma control_pause_sticks_witness:
  "paused (run control_step empty_tables
     ([(None, LinkOk, demo_client, demo_db, DoRequest [97] None 5), (None, LinkOk, demo_client, demo_db, DoPause)]
      @ [(Some True, LinkOk, demo_client, demo_db, DoRequest [97] None 9)]))"
proof -
  let ?evs = "[(None, LinkOk, demo_client, demo_db, DoRequest [97] None 5), (None, LinkOk, demo_client, demo_db, DoPause)]"
  have r: "run control_step empty_tables ?evs =
      write_pause (fst (write_request [97] None 5 empty_tables))"
    by (simp add: control_step_eq demo_commits blank_def py_space_def)
  have "paused (run control_step empty_tables ?evs)" unfolding r by simp
  moreover have "known (run control_step empty_tables ?evs) [97]"
    unfolding r by (simp add: known_def write_request_def find_request_def empty_tables_def write_pause_def write_resume_def Let_def)
  ultimately show ?thesis by (intro control_pause_sticks) simp_all
qed

text \<open>
  Sending a known request id again changes nothing and answers with the stored request; a
  lost response is no answer.
\<close>
theorem control_replay_reads:
  assumes "find_request t rid = Some r" and "request_retry gate lk rid cutoff now c db t = (c', db', t', res)"
  shows "t' = t \<and> (\<forall>x. res = Inr x \<longrightarrow> x = r)"
  using assms
  by (auto simp: request_retry_def release_write_def control_transaction_def write_request_def
      split: if_splits prod.splits sum.splits)

lemma control_replay_reads_witness:
  "fst (snd (snd (request_retry None LinkOk [97] None 9 demo_client demo_db
     (fst (write_request [97] None 5 empty_tables))))) = fst (write_request [97] None 5 empty_tables)"
proof -
  let ?t = "fst (write_request [97] None 5 empty_tables)"
  obtain r where "find_request ?t [97] = Some r"
    by (simp add: find_request_def write_request_def empty_tables_def write_resume_def Let_def)
  moreover obtain c' db' t' res where x: "request_retry None LinkOk [97] None 9 demo_client demo_db ?t = (c', db', t', res)"
    by (cases "request_retry None LinkOk [97] None 9 demo_client demo_db ?t") auto
  ultimately show ?thesis using control_replay_reads by fastforce
qed

text \<open>
  The maintenance of retries writes only under an exclusive ticket that is active in the
  current generation and belongs to the process, in a scope that is neither fenced nor has an
  orphaned ticket.
\<close>
theorem control_needs_exclusive_ticket:
  assumes "control_step t (gate, lk, c, db, op) \<noteq> t" and "ticket_of op = Some ticket"
  shows "gate \<noteq> Some False \<and> (\<exists>row found. cd_workspace db = Some row \<and> \<not> ws_fenced row \<and> orphans db = [] \<and>
    oh_owner ticket = cc_owner c \<and> oh_generation ticket = ws_generation row \<and>
    find_operation ticket c db = Some found \<and> or_exclusive found)"
proof -
  have "gate \<noteq> Some False" "commits lk (Some ticket) c db"
    using assms by (auto simp: control_step_eq split: if_splits)
  then show ?thesis using commits_ticket by blast
qed

definition demo_ticket :: operation where
  "demo_ticket = \<lparr>oh_id = 3, oh_generation = 1, oh_owner = 1\<rparr>"

definition demo_busy_db :: coord_db where
  "demo_busy_db = demo_db\<lparr>cd_held := [(7, 1)],
     cd_operations := [\<lparr>or_id = 3, or_generation = 1, or_owner = 1, or_witness = 7, or_kind = [], or_exclusive = True,
       or_metadata = [], or_state = OpActive, or_phase = [], or_created_at = 0, or_heartbeat_at = 0, or_finished_at = None\<rparr>]\<rparr>"

lemma demo_ticket_commits: "commits LinkOk (Some demo_ticket) demo_client demo_busy_db"
  by (simp add: commits_def link_commits_def transaction_def control_guard_def bind_body_def check_scope_def orphans_def
    witness_held_def validate_def find_operation_def committed_def demo_client_def demo_db_def demo_busy_db_def demo_ticket_def
    empty_db_def Let_def)

lemma control_needs_exclusive_ticket_witness: "\<exists>found. find_operation demo_ticket demo_client demo_busy_db = Some found \<and> or_exclusive found"
proof -
  have "control_step empty_tables (None, LinkOk, demo_client, demo_busy_db, DoAdd demo_ticket [97] [([1], [2])]) \<noteq> empty_tables"
    by (simp add: control_step_eq demo_ticket_commits insert_target_def has_target_def empty_tables_def)
  from control_needs_exclusive_ticket[OF this] show ?thesis by auto
qed

end
