(* ===== verification/PipelineRetry.thy ===== *)
theory PipelineRetry
  imports PipelineControl PyStrings
begin

section \<open>Manual retries across crashes\<close>

text \<open>
  \<open>reset_requests\<close> of \<^verbatim>\<open>lightrag/distributed/pipeline.py\<close>: the versions of the failed
  documents are persisted as targets before any document is reset, and a reset is acknowledged
  after it. Between any two writes the process may die and another one replays the request.
  The document-status store is a map from ids to the fields the loop reads; a version is the
  text of the time of the last write, \<open>stamp\<close> standing for \<open>str(updated_at)\<close>.
\<close>

datatype doc_state = DocFailed | DocPending | DocOther

record doc_row =
  dr_state :: doc_state
  dr_updated :: nat
  dr_custom_patch :: bool

type_synonym docs = "pystr \<Rightarrow> doc_row option"

text \<open>The targets one page contributes: failed, without a custom-chunk patch, not after the cutoff.\<close>

definition selectable :: "real \<Rightarrow> doc_row \<Rightarrow> bool" where
  "selectable cutoff row \<longleftrightarrow> dr_state row = DocFailed \<and> \<not> dr_custom_patch row \<and> real (dr_updated row) \<le> cutoff"

fun page_targets :: "(nat \<Rightarrow> pystr) \<Rightarrow> real \<Rightarrow> docs \<Rightarrow> pystr list \<Rightarrow> (pystr \<times> pystr) list" where
  "page_targets stamp cutoff ds [] = []"
| "page_targets stamp cutoff ds (d # rest) =
     (case ds d of
        None \<Rightarrow> page_targets stamp cutoff ds rest
      | Some row \<Rightarrow>
          (if selectable cutoff row then (d, stamp (dr_updated row)) # page_targets stamp cutoff ds rest
           else page_targets stamp cutoff ds rest))"

text \<open>
  One target: reset when the document is as it was selected and has content. The update sets the
  document pending at the time of the write.
\<close>

definition resettable :: "(nat \<Rightarrow> pystr) \<Rightarrow> docs \<Rightarrow> pystr \<Rightarrow> pystr \<Rightarrow> bool" where
  "resettable stamp ds d version \<longleftrightarrow>
     (case ds d of None \<Rightarrow> False
      | Some row \<Rightarrow> dr_state row = DocFailed \<and> stamp (dr_updated row) = version \<and> \<not> dr_custom_patch row)"

definition reset_doc :: "nat \<Rightarrow> pystr \<Rightarrow> docs \<Rightarrow> docs" where
  "reset_doc now d ds = ds(d := Some \<lparr>dr_state = DocPending, dr_updated = now, dr_custom_patch = False\<rparr>)"

text \<open>
  The system: the control tables, the documents, the time of the last write to each document,
  and the resets done so far, which is history only.
\<close>

record retry_system =
  ry_tables :: control_tables
  ry_docs :: docs
  ry_last :: "pystr \<Rightarrow> nat"
  ry_resets :: "(pystr \<times> pystr) list"

definition empty_system :: retry_system where
  "empty_system = \<lparr>ry_tables = empty_tables, ry_docs = (\<lambda>_. None), ry_last = (\<lambda>_. 0), ry_resets = []\<rparr>"

text \<open>
  Anything else may write a document, with a later time than any write to it before; control
  operations run as they do in \<open>PipelineControl\<close>; the loop resets a document for a target it
  has read, which may be done by now. The last case is one round of the inner loop up to the
  acknowledgement, which is a control operation of its own.
\<close>

datatype retry_event =
  WriteDoc pystr nat "doc_row option"
| Control control_event
| ResetTarget pystr pystr bool nat

fun retry_step :: "(nat \<Rightarrow> pystr) \<Rightarrow> retry_system \<Rightarrow> retry_event \<Rightarrow> retry_system" where
  "retry_step stamp s (WriteDoc d now row) =
     (if ry_last s d < now
      then s\<lparr>ry_docs := (ry_docs s)(d := map_option (\<lambda>r. r\<lparr>dr_updated := now\<rparr>) row), ry_last := (ry_last s)(d := now)\<rparr>
      else s)"
| "retry_step stamp s (Control ev) = s\<lparr>ry_tables := control_step (ry_tables s) ev\<rparr>"
| "retry_step stamp s (ResetTarget rid d has_content now) =
     (case find (\<lambda>x. rt_request x = rid \<and> rt_doc x = d) (ct_targets (ry_tables s)) of
        None \<Rightarrow> s
      | Some x \<Rightarrow>
          if resettable stamp (ry_docs s) d (rt_version x) \<and> has_content \<and> ry_last s d < now
          then s\<lparr>ry_docs := reset_doc now d (ry_docs s), ry_last := (ry_last s)(d := now),
                 ry_resets := ry_resets s @ [(rid, d)]\<rparr>
          else s)"


subsection \<open>The invariant\<close>

text \<open>
  A document is as old as its last write, and the target of a reset names a version older than
  that.
\<close>

definition target_spent :: "(nat \<Rightarrow> pystr) \<Rightarrow> retry_system \<Rightarrow> pystr \<times> pystr \<Rightarrow> bool" where
  "target_spent stamp s p \<longleftrightarrow> (\<exists>x \<in> set (ct_targets (ry_tables s)). rt_request x = fst p \<and> rt_doc x = snd p \<and>
     (\<exists>u. rt_version x = stamp u \<and> u < ry_last s (snd p)))"

definition retry_ok :: "(nat \<Rightarrow> pystr) \<Rightarrow> retry_system \<Rightarrow> bool" where
  "retry_ok stamp s \<longleftrightarrow> control_ok (ry_tables s) \<and> distinct (ry_resets s) \<and>
     (\<forall>d row. ry_docs s d = Some row \<longrightarrow> dr_updated row = ry_last s d) \<and>
     (\<forall>p \<in> set (ry_resets s). target_spent stamp s p)"

lemma retry_okI:
  assumes "control_ok (ry_tables s)" and "distinct (ry_resets s)"
    and "\<And>d row. ry_docs s d = Some row \<Longrightarrow> dr_updated row = ry_last s d"
    and "\<And>p. p \<in> set (ry_resets s) \<Longrightarrow> target_spent stamp s p"
  shows "retry_ok stamp s"
  using assms by (simp add: retry_ok_def)

lemma retry_okD:
  assumes "retry_ok stamp s"
  shows "control_ok (ry_tables s)" and "distinct (ry_resets s)"
    and "ry_docs s d = Some row \<Longrightarrow> dr_updated row = ry_last s d"
    and "p \<in> set (ry_resets s) \<Longrightarrow> target_spent stamp s p"
  using assms by (simp_all add: retry_ok_def)

text \<open>A spent target stays spent while tables go forward and documents get younger.\<close>

lemma target_spent_mono:
  assumes "target_spent stamp s p" and "forward (ry_tables s) (ry_tables t)" and "\<And>d. ry_last s d \<le> ry_last t d"
  shows "target_spent stamp t p"
proof -
  obtain x u where x: "x \<in> set (ct_targets (ry_tables s))" "rt_request x = fst p" "rt_doc x = snd p"
      "rt_version x = stamp u" "u < ry_last s (snd p)"
    using assms(1) by (auto simp: target_spent_def)
  obtain us vs where g: "ct_targets (ry_tables t) = us @ vs" "list_all2 target_le (ct_targets (ry_tables s)) us"
    using assms(2) by (auto simp: forward_def grows_def)
  obtain y where y: "y \<in> set us" "target_le x y"
    using g(2) x(1) by (metis list_all2_conv_all_nth in_set_conv_nth)
  then show ?thesis
    using x g(1) assms(3)[of "snd p"] by (auto simp: target_spent_def target_le_def intro!: bexI[of _ y] exI[of _ u])
qed

text \<open>A spent target resets nothing: its version is not that of the document any more.\<close>

lemma spent_not_resettable:
  assumes inj: "inj stamp" and ok: "retry_ok stamp s" and sp: "target_spent stamp s (rid, d)"
    and f: "find (\<lambda>x. rt_request x = rid \<and> rt_doc x = d) (ct_targets (ry_tables s)) = Some x"
  shows "\<not> resettable stamp (ry_docs s) d (rt_version x)"
proof
  assume "resettable stamp (ry_docs s) d (rt_version x)"
  then obtain row where row: "ry_docs s d = Some row" "stamp (dr_updated row) = rt_version x"
    by (auto simp: resettable_def split: option.splits)
  obtain y u where y: "y \<in> set (ct_targets (ry_tables s))" "rt_request y = rid" "rt_doc y = d"
      "rt_version y = stamp u" "u < ry_last s d"
    using sp by (auto simp: target_spent_def)
  have "x \<in> set (ct_targets (ry_tables s))" "rt_request x = rid" "rt_doc x = d"
    using find_Some_mem[OF f] find_Some_holds[OF f] by auto
  moreover have "inj_on (\<lambda>z. (rt_request z, rt_doc z)) (set (ct_targets (ry_tables s)))"
    using retry_okD(1)[OF ok] by (simp add: control_ok_def distinct_map)
  ultimately have "x = y" using y by (auto dest: inj_onD)
  then have "dr_updated row = u" using row(2) y(4) inj by (simp add: inj_eq)
  then show False using retry_okD(3)[OF ok row(1)] y(5) by simp
qed


lemma retry_step_ok:
  assumes inj: "inj stamp" and ok: "retry_ok stamp s"
  shows "retry_ok stamp (retry_step stamp s ev)"
proof (cases ev)
  case (WriteDoc d now row)
  show ?thesis
  proof (cases "ry_last s d < now")
    case False
    then show ?thesis using ok by (simp add: WriteDoc)
  next
    case True
    define t where "t = s\<lparr>ry_docs := (ry_docs s)(d := map_option (\<lambda>r. r\<lparr>dr_updated := now\<rparr>) row), ry_last := (ry_last s)(d := now)\<rparr>"
    have "retry_ok stamp t"
    proof (rule retry_okI)
      show "control_ok (ry_tables t)" "distinct (ry_resets t)" using retry_okD(1,2)[OF ok] by (simp_all add: t_def)
      show "dr_updated r = ry_last t d'" if "ry_docs t d' = Some r" for d' r
        using that retry_okD(3)[OF ok, of d'] by (auto simp: t_def split: if_splits)
      show "target_spent stamp t p" if "p \<in> set (ry_resets t)" for p
        by (rule target_spent_mono[of stamp s]) (use that True retry_okD(4)[OF ok, of p] in \<open>auto simp: t_def forward_refl\<close>)
    qed
    then show ?thesis using True by (simp add: WriteDoc t_def)
  qed
next
  case (Control ev')
  define t where "t = s\<lparr>ry_tables := control_step (ry_tables s) ev'\<rparr>"
  note c = retry_okD(1)[OF ok]
  have "retry_ok stamp t"
  proof (rule retry_okI)
    show "control_ok (ry_tables t)" using control.step_inv[OF c] by (simp add: t_def)
    show "distinct (ry_resets t)" using retry_okD(2)[OF ok] by (simp add: t_def)
    show "dr_updated r = ry_last t d'" if "ry_docs t d' = Some r" for d' r
      using that retry_okD(3)[OF ok, of d'] by (simp add: t_def)
    show "target_spent stamp t p" if "p \<in> set (ry_resets t)" for p
      by (rule target_spent_mono[of stamp s]) (use that retry_okD(4)[OF ok, of p] control.step_le[OF c] in \<open>auto simp: t_def\<close>)
  qed
  then show ?thesis by (simp add: Control t_def)
next
  case (ResetTarget rid d has_content now)
  show ?thesis
  proof (cases "find (\<lambda>x. rt_request x = rid \<and> rt_doc x = d) (ct_targets (ry_tables s))")
    case None
    then show ?thesis using ok by (simp add: ResetTarget)
  next
    case (Some x)
    show ?thesis
    proof (cases "resettable stamp (ry_docs s) d (rt_version x) \<and> has_content \<and> ry_last s d < now")
      case False
      then have "retry_step stamp s ev = s" unfolding ResetTarget retry_step.simps Some option.case by (rule if_not_P)
      then show ?thesis using ok by simp
    next
      case True
      define t where "t = s\<lparr>ry_docs := reset_doc now d (ry_docs s), ry_last := (ry_last s)(d := now), ry_resets := ry_resets s @ [(rid, d)]\<rparr>"
      have e: "retry_step stamp s ev = t"
        unfolding ResetTarget retry_step.simps Some option.case t_def by (rule if_P[OF True])
      have fresh: "(rid, d) \<notin> set (ry_resets s)"
        using spent_not_resettable[OF inj ok _ Some] retry_okD(4)[OF ok] True by blast
      obtain row where row: "ry_docs s d = Some row" "stamp (dr_updated row) = rt_version x"
        using True by (auto simp: resettable_def split: option.splits)
      have "target_spent stamp t (rid, d)"
        unfolding target_spent_def
        using find_Some_mem[OF Some] find_Some_holds[OF Some] row True retry_okD(3)[OF ok row(1)]
        by (intro bexI[of _ x] conjI exI[of _ "dr_updated row"]) (auto simp: t_def)
      moreover have "target_spent stamp t p" if "p \<in> set (ry_resets s)" for p
        by (rule target_spent_mono[of stamp s]) (use that True retry_okD(4)[OF ok, of p] in \<open>auto simp: t_def forward_refl\<close>)
      ultimately have "retry_ok stamp t"
        by (intro retry_okI)
          (use fresh retry_okD(1,2)[OF ok] retry_okD(3)[OF ok] in \<open>auto simp: t_def reset_doc_def split: if_splits\<close>)
      then show ?thesis unfolding e .
    qed
  qed
qed

text \<open>The times as texts of one element are one version function that keeps times apart.\<close>

definition plain_stamp :: "nat \<Rightarrow> pystr" where
  "plain_stamp u = [u]"

lemma inj_plain_stamp: "inj plain_stamp"
  by (simp add: inj_def plain_stamp_def)

lemma retry_run_ok:
  assumes "inj stamp"
  shows "retry_ok stamp s \<Longrightarrow> retry_ok stamp (run (retry_step stamp) s evs)"
  by (induction evs arbitrary: s) (auto intro: retry_step_ok[OF assms])

lemma empty_system_ok: "retry_ok stamp empty_system"
  by (simp add: retry_ok_def empty_system_def control_ok_def empty_tables_def epoch_def)


subsection \<open>Properties\<close>



text \<open>
  What a page adds as targets are failed documents without a custom-chunk patch whose last
  write is not after the request's cutoff, with the version they have.
\<close>
theorem page_targets_exact:
  "(d, v) \<in> set (page_targets stamp cutoff ds page) \<longleftrightarrow>
     d \<in> set page \<and> (\<exists>row. ds d = Some row \<and> dr_state row = DocFailed \<and> \<not> dr_custom_patch row \<and>
       real (dr_updated row) \<le> cutoff \<and> v = stamp (dr_updated row))"
  by (induction page) (auto simp: selectable_def split: option.splits)

end
