(* ===== verification/QueryAccounting.thy ===== *)
theory QueryAccounting
  imports PyStrings
begin

section \<open>Query usage accounting\<close>

text \<open>
  \<^verbatim>\<open>lightrag/query_accounting.py\<close>: the request-local scope that holds a quote, and the
  accounted call. The authority is external: a reservation or a settlement is a message to it,
  of which the model keeps the history, and its answer is an event. A call is a task that is
  suspended at each await, so calls of one scope interleave in any way. The transport pool and
  the client configuration are not modelled.
\<close>

datatype usage_error =
  QuoteInvalid
| ClosedOrUnknown
| ModelNotQuoted
| HiddenTransportAttempts
| UnquotedWireOverrides
| ChoiceLimit
| OutputLimit
| RequestUnbounded
| InputLimit
| CallLimit
| ClosedBeforeSend
| ProviderOutcomeUnknown
| ProviderProofMissing
| AuthorityFailed
| CallCancelled

text \<open>A value of the decoded quote or payload, as far as its type is asked for.\<close>

datatype json_value = JInt int | JReal real | JNonFinite | JText pystr | JOther

record raw_model =
  rm_kind :: "json_value option"
  rm_model :: "json_value option"
  rm_origin :: "json_value option"
  rm_input_ceiling :: "json_value option"
  rm_output_ceiling :: "json_value option"

text \<open>\<open>rq_models\<close> is \<open>None\<close> where the key is missing or no list.\<close>

record raw_quote =
  rq_query_id :: "json_value option"
  rq_lease_id :: "json_value option"
  rq_max_calls :: "json_value option"
  rq_deadline :: "json_value option"
  rq_models :: "raw_model list option"


subsection \<open>The quote\<close>

definition text_within :: "nat \<Rightarrow> json_value option \<Rightarrow> bool" where
  "text_within n v = (case v of Some (JText s) \<Rightarrow> 0 < length s \<and> length s \<le> n | _ \<Rightarrow> False)"

definition int_within :: "int \<Rightarrow> int \<Rightarrow> json_value option \<Rightarrow> bool" where
  "int_within lo hi v = (case v of Some (JInt i) \<Rightarrow> lo \<le> i \<and> i \<le> hi | _ \<Rightarrow> False)"

definition deadline_of :: "json_value option \<Rightarrow> real option" where
  "deadline_of v = (case v of Some (JInt i) \<Rightarrow> Some (real_of_int i) | Some (JReal x) \<Rightarrow> Some x | _ \<Rightarrow> None)"

definition valid_model :: "raw_model \<Rightarrow> bool" where
  "valid_model q \<longleftrightarrow>
     (rm_kind q = Some (JText (lit ''llm'')) \<or> rm_kind q = Some (JText (lit ''embedding''))) \<and>
     text_within 255 (rm_model q) \<and> text_within 255 (rm_origin q) \<and>
     int_within 1 1048576 (rm_input_ceiling q) \<and> int_within 0 32768 (rm_output_ceiling q) \<and>
     (rm_output_ceiling q = Some (JInt 0) \<longleftrightarrow> rm_kind q = Some (JText (lit ''embedding'')))"

fun valid_models :: "(json_value option \<times> json_value option \<times> json_value option) list \<Rightarrow> raw_model list \<Rightarrow> bool" where
  "valid_models seen [] = True"
| "valid_models seen (q # qs) =
     ((rm_kind q, rm_model q, rm_origin q) \<notin> set seen \<and> valid_model q \<and>
      valid_models ((rm_kind q, rm_model q, rm_origin q) # seen) qs)"

text \<open>Every failed requirement, missing key or wrong type gives the one error.\<close>

definition validate_quote :: "real \<Rightarrow> raw_quote \<Rightarrow> pystr \<Rightarrow> bool" where
  "validate_quote now q query_id \<longleftrightarrow>
     rq_query_id q = Some (JText query_id) \<and> text_within 255 (rq_lease_id q) \<and>
     int_within 1 16 (rq_max_calls q) \<and>
     (case deadline_of (rq_deadline q) of None \<Rightarrow> False | Some d \<Rightarrow> now < d) \<and>
     (case rq_models q of None \<Rightarrow> False
      | Some ms \<Rightarrow> 1 \<le> length ms \<and> length ms \<le> 16 \<and> valid_models [] ms)"

datatype usage_kind = Llm | Embedding

record quoted_model =
  qm_kind :: usage_kind
  qm_model :: pystr
  qm_origin :: pystr
  qm_input_ceiling :: int
  qm_output_ceiling :: int

record usage_quote =
  uq_max_calls :: int
  uq_deadline :: real
  uq_models :: "quoted_model list"

fun text_of :: "json_value option \<Rightarrow> pystr" where
  "text_of (Some (JText s)) = s"
| "text_of v = []"

fun int_of :: "json_value option \<Rightarrow> int" where
  "int_of (Some (JInt i)) = i"
| "int_of v = 0"

text \<open>How a quote that was validated is read afterwards.\<close>

definition read_model :: "raw_model \<Rightarrow> quoted_model" where
  "read_model q =
     \<lparr>qm_kind = (if rm_kind q = Some (JText (lit ''llm'')) then Llm else Embedding),
      qm_model = text_of (rm_model q), qm_origin = text_of (rm_origin q),
      qm_input_ceiling = int_of (rm_input_ceiling q), qm_output_ceiling = int_of (rm_output_ceiling q)\<rparr>"

definition read_quote :: "raw_quote \<Rightarrow> usage_quote" where
  "read_quote q =
     \<lparr>uq_max_calls = int_of (rq_max_calls q),
      uq_deadline = (case deadline_of (rq_deadline q) of None \<Rightarrow> 0 | Some d \<Rightarrow> d),
      uq_models = (case rq_models q of None \<Rightarrow> [] | Some ms \<Rightarrow> map read_model ms)\<rparr>"


subsection \<open>Limits and request checks\<close>

definition rstrip_slash :: "pystr \<Rightarrow> pystr" where
  "rstrip_slash s = rev (dropWhile (\<lambda>c. c = 47) (rev s))"

definition limits ::
  "usage_quote \<Rightarrow> bool \<Rightarrow> bool \<Rightarrow> real \<Rightarrow> usage_kind \<Rightarrow> pystr \<Rightarrow> pystr \<Rightarrow> usage_error + quoted_model" where
  "limits quote shut failed now kind model origin =
     (if shut \<or> failed \<or> uq_deadline quote \<le> now then Inl ClosedOrUnknown
      else case filter (\<lambda>q. qm_kind q = kind \<and> qm_model q = model \<and> rstrip_slash (qm_origin q) = rstrip_slash origin)
                  (uq_models quote) of
             [q] \<Rightarrow> Inr q
           | _ \<Rightarrow> Inl ModelNotQuoted)"

text \<open>
  What the call looks at in the payload: truth of \<open>stream\<close> and of the override keys, \<open>n\<close>,
  \<open>max_tokens\<close>, and the size of its JSON for a given output limit, \<open>None\<close> where the
  payload cannot be serialized.
\<close>

record payload =
  pl_stream :: bool
  pl_overrides :: bool
  pl_n :: "json_value option"
  pl_max_tokens :: "json_value option"
  pl_size :: "int \<Rightarrow> int option"

definition output_limit :: "usage_kind \<Rightarrow> quoted_model \<Rightarrow> payload \<Rightarrow> usage_error + int" where
  "output_limit kind q p =
     (if kind = Embedding then Inr 0
      else if pl_n p \<noteq> None \<and> pl_n p \<noteq> Some (JInt 1) then Inl ChoiceLimit
      else case (case pl_max_tokens p of None \<Rightarrow> Some (JInt (qm_output_ceiling q)) | v \<Rightarrow> v) of
             Some (JInt out) \<Rightarrow> if 0 < out \<and> out \<le> qm_output_ceiling q then Inr out else Inl OutputLimit
           | _ \<Rightarrow> Inl OutputLimit)"

definition check_request :: "usage_kind \<Rightarrow> quoted_model \<Rightarrow> int \<Rightarrow> payload \<Rightarrow> usage_error + (int \<times> int)" where
  "check_request kind q max_retries p =
     (if max_retries \<noteq> 0 \<or> pl_stream p then Inl HiddenTransportAttempts
      else if pl_overrides p then Inl UnquotedWireOverrides
      else case output_limit kind q p of
             Inl e \<Rightarrow> Inl e
           | Inr out \<Rightarrow> (case pl_size p out of
               None \<Rightarrow> Inl RequestUnbounded
             | Some sz \<Rightarrow> if qm_input_ceiling q < sz then Inl InputLimit else Inr (sz, out)))"


subsection \<open>The provider's usage\<close>

record provider_usage =
  pu_prompt :: "json_value option"
  pu_completion :: "json_value option"
  pu_total :: "json_value option"

record response =
  rs_model :: "pystr option"
  rs_usage :: "provider_usage option"

record usage_counts =
  uc_prompt :: int
  uc_completion :: int
  uc_total :: int

definition raw_usage :: "response \<Rightarrow> usage_kind \<Rightarrow> pystr \<Rightarrow> usage_counts option" where
  "raw_usage r kind expected =
     (case rs_usage r of
        None \<Rightarrow> None
      | Some u \<Rightarrow>
          if rs_model r \<noteq> Some expected then None
          else case (pu_prompt u, if kind = Embedding then Some (JInt 0) else pu_completion u, pu_total u) of
                 (Some (JInt a), Some (JInt b), Some (JInt t)) \<Rightarrow>
                   if 0 \<le> a \<and> 0 \<le> b \<and> 0 \<le> t \<and> t = a + b
                   then Some \<lparr>uc_prompt = a, uc_completion = b, uc_total = t\<rparr> else None
               | _ \<Rightarrow> None)"


subsection \<open>The accounted call\<close>

text \<open>
  Where a call is suspended: at the lock of the scope, in a reservation, in the provider's call,
  or in the settlement that follows a refusal to send, a failed call or a response.
\<close>

datatype settle_reason = AfterRefusal | AfterError bool | AfterResponse

datatype call_state =
  AtLock usage_kind pystr pystr
| Reserving nat usage_kind pystr
| Sending nat usage_kind pystr
| Settling nat "usage_counts option" settle_reason
| CallDone "usage_error option"

datatype finish_status = StCompleted | StCancelled | StFailed | StUnknown

text \<open>
  The scope: its flags and lock, its calls, and what was sent to the authority and the provider.
  \<open>sc_refused\<close> lists the reservations whose outcome is an exception.
\<close>

record usage_scope =
  sc_quote :: usage_quote
  sc_count :: nat
  sc_closed :: bool
  sc_failed :: bool
  sc_lock :: "nat option"
  sc_calls :: "nat \<Rightarrow> call_state option"
  sc_reserved :: "nat list"
  sc_refused :: "nat list"
  sc_sent :: "nat list"
  sc_settled :: "(nat \<times> usage_counts option) list"
  sc_finish :: "finish_status option"

definition new_scope :: "usage_quote \<Rightarrow> usage_scope" where
  "new_scope q = \<lparr>sc_quote = q, sc_count = 0, sc_closed = False, sc_failed = False, sc_lock = None,
     sc_calls = (\<lambda>_. None), sc_reserved = [], sc_refused = [], sc_sent = [], sc_settled = [], sc_finish = None\<rparr>"

definition put_call :: "nat \<Rightarrow> call_state \<Rightarrow> usage_scope \<Rightarrow> usage_scope" where
  "put_call t st s = s\<lparr>sc_calls := (sc_calls s)(t := Some st)\<rparr>"

definition begin_call :: "nat \<Rightarrow> usage_kind \<Rightarrow> pystr \<Rightarrow> pystr \<Rightarrow> int \<Rightarrow> payload \<Rightarrow> real \<Rightarrow> usage_scope \<Rightarrow> usage_scope" where
  "begin_call t kind model origin max_retries p now s =
     (case limits (sc_quote s) (sc_closed s) (sc_failed s) now kind model (rstrip_slash origin) of
        Inl e \<Rightarrow> put_call t (CallDone (Some e)) s
      | Inr q \<Rightarrow> (case check_request kind q max_retries p of
          Inl e \<Rightarrow> put_call t (CallDone (Some e)) s
        | Inr _ \<Rightarrow> put_call t (AtLock kind model (rstrip_slash origin)) s))"

text \<open>Under the lock: the limits again, the call limit, the count and the reservation.\<close>

definition enter_lock :: "nat \<Rightarrow> usage_kind \<Rightarrow> pystr \<Rightarrow> pystr \<Rightarrow> real \<Rightarrow> usage_scope \<Rightarrow> usage_scope" where
  "enter_lock t kind model origin now s =
     (case limits (sc_quote s) (sc_closed s) (sc_failed s) now kind model origin of
        Inl e \<Rightarrow> put_call t (CallDone (Some e)) s
      | Inr q \<Rightarrow>
          if uq_max_calls (sc_quote s) \<le> int (sc_count s) then put_call t (CallDone (Some CallLimit)) s
          else put_call t (Reserving (Suc (sc_count s)) kind model)
                 (s\<lparr>sc_count := Suc (sc_count s), sc_lock := Some t, sc_reserved := sc_reserved s @ [Suc (sc_count s)]\<rparr>))"

text \<open>The authority's answer releases the lock; the checks before the send follow at once.\<close>

definition settle :: "nat \<Rightarrow> nat \<Rightarrow> usage_counts option \<Rightarrow> settle_reason \<Rightarrow> usage_scope \<Rightarrow> usage_scope" where
  "settle t k usage why s = put_call t (Settling k usage why) (s\<lparr>sc_settled := sc_settled s @ [(k, usage)]\<rparr>)"

definition reserve_answered :: "nat \<Rightarrow> nat \<Rightarrow> usage_kind \<Rightarrow> pystr \<Rightarrow> bool \<Rightarrow> real \<Rightarrow> usage_scope \<Rightarrow> usage_scope" where
  "reserve_answered t k kind model ok now s =
     (let s1 = s\<lparr>sc_lock := None\<rparr> in
      if \<not> ok then put_call t (CallDone (Some AuthorityFailed)) (s1\<lparr>sc_failed := True, sc_refused := sc_refused s @ [k]\<rparr>)
      else if sc_closed s \<or> sc_failed s \<or> uq_deadline (sc_quote s) \<le> now
      then settle t k None AfterRefusal (s1\<lparr>sc_failed := True\<rparr>)
      else put_call t (Sending k kind model) (s1\<lparr>sc_sent := sc_sent s @ [k]\<rparr>))"

text \<open>\<open>None\<close> is an exception of the call; the flag tells a cancellation.\<close>

definition send_answered :: "nat \<Rightarrow> nat \<Rightarrow> usage_kind \<Rightarrow> pystr \<Rightarrow> response option \<Rightarrow> bool \<Rightarrow> usage_scope \<Rightarrow> usage_scope" where
  "send_answered t k kind model r cancelled s =
     (case r of
        None \<Rightarrow> settle t k None (AfterError cancelled) (s\<lparr>sc_failed := True\<rparr>)
      | Some resp \<Rightarrow> settle t k (raw_usage resp kind model) AfterResponse s)"

definition settle_answered :: "nat \<Rightarrow> usage_counts option \<Rightarrow> settle_reason \<Rightarrow> bool \<Rightarrow> usage_scope \<Rightarrow> usage_scope" where
  "settle_answered t usage why ok s =
     (case why of
        AfterRefusal \<Rightarrow> put_call t (CallDone (Some (if ok then ClosedBeforeSend else AuthorityFailed))) s
      | AfterError cancelled \<Rightarrow>
          put_call t (CallDone (Some (if \<not> ok then AuthorityFailed
                                      else if cancelled then CallCancelled else ProviderOutcomeUnknown))) s
      | AfterResponse \<Rightarrow>
          if \<not> ok then put_call t (CallDone (Some AuthorityFailed)) (s\<lparr>sc_failed := True\<rparr>)
          else if usage = None then put_call t (CallDone (Some ProviderProofMissing)) (s\<lparr>sc_failed := True\<rparr>)
          else put_call t (CallDone None) s)"

text \<open>The exit of the scope closes it and reports; a completed body with a failed call is unknown.\<close>

definition close_scope :: "finish_status \<Rightarrow> usage_scope \<Rightarrow> usage_scope" where
  "close_scope status s =
     s\<lparr>sc_closed := True, sc_finish := Some (if sc_failed s \<and> status = StCompleted then StUnknown else status)\<rparr>"

datatype usage_event =
  BeginCall nat usage_kind pystr pystr int payload real
| LockTurn nat real
| AbandonLock nat
| ReserveAnswer nat bool real
| SendAnswer nat "response option" bool
| SettleAnswer nat bool
| CloseScope finish_status

text \<open>An event that does not fit where its call is suspended does not happen.\<close>

fun usage_step :: "usage_scope \<Rightarrow> usage_event \<Rightarrow> usage_scope" where
  "usage_step s (BeginCall t kind model origin retries p now) =
     (if sc_calls s t = None then begin_call t kind model origin retries p now s else s)"
| "usage_step s (LockTurn t now) =
     (case sc_calls s t of
        Some (AtLock kind model origin) \<Rightarrow> if sc_lock s = None then enter_lock t kind model origin now s else s
      | _ \<Rightarrow> s)"
| "usage_step s (AbandonLock t) =
     (case sc_calls s t of Some (AtLock kind model origin) \<Rightarrow> put_call t (CallDone (Some CallCancelled)) s | _ \<Rightarrow> s)"
| "usage_step s (ReserveAnswer t ok now) =
     (case sc_calls s t of Some (Reserving k kind model) \<Rightarrow> reserve_answered t k kind model ok now s | _ \<Rightarrow> s)"
| "usage_step s (SendAnswer t r cancelled) =
     (case sc_calls s t of Some (Sending k kind model) \<Rightarrow> send_answered t k kind model r cancelled s | _ \<Rightarrow> s)"
| "usage_step s (SettleAnswer t ok) =
     (case sc_calls s t of Some (Settling k usage why) \<Rightarrow> settle_answered t usage why ok s | _ \<Rightarrow> s)"
| "usage_step s (CloseScope status) = (if sc_closed s then s else close_scope status s)"


subsection \<open>The invariant\<close>

text \<open>The number of a call that is reserved or sent and not settled yet.\<close>

fun open_no :: "call_state option \<Rightarrow> nat option" where
  "open_no (Some (Reserving k kind model)) = Some k"
| "open_no (Some (Sending k kind model)) = Some k"
| "open_no st = None"

definition closed_nos :: "usage_scope \<Rightarrow> nat list" where
  "closed_nos s = map fst (sc_settled s) @ sc_refused s"

definition opens :: "usage_scope \<Rightarrow> nat \<Rightarrow> nat option" where
  "opens s t = open_no (sc_calls s t)"

text \<open>
  Every number handed out is open in exactly one call or closed exactly once, by a settlement or
  by a refused reservation.
\<close>

definition numbers :: "nat list \<Rightarrow> (nat \<Rightarrow> nat option) \<Rightarrow> nat \<Rightarrow> bool" where
  "numbers cl op n \<longleftrightarrow> distinct cl \<and> (\<forall>t u k. op t = Some k \<and> op u = Some k \<longrightarrow> t = u) \<and>
     (\<forall>t k. op t = Some k \<longrightarrow> k \<notin> set cl) \<and> {1..n} = set cl \<union> {k. \<exists>t. op t = Some k}"

definition scope_ok :: "usage_scope \<Rightarrow> bool" where
  "scope_ok s \<longleftrightarrow> numbers (closed_nos s) (opens s) (sc_count s) \<and> sc_reserved s = [1..<Suc (sc_count s)] \<and>
     int (sc_count s) \<le> max 0 (uq_max_calls (sc_quote s))"

lemma numbers_open:
  assumes "numbers cl op n" and "op t = None"
  shows "numbers cl (op(t := Some (Suc n))) (Suc n)"
proof -
  have sub: "set cl \<subseteq> {1..n}" "{k. \<exists>t. op t = Some k} \<subseteq> {1..n}" using assms(1) by (auto simp: numbers_def)
  then have fresh: "Suc n \<notin> set cl" "op u \<noteq> Some (Suc n)" for u by force+
  have "{k. \<exists>u. (op(t := Some (Suc n))) u = Some k} = insert (Suc n) {k. \<exists>u. op u = Some k}"
    using assms(2) by (auto split: if_splits) (metis option.distinct(1))
  moreover have "{1..Suc n} = insert (Suc n) {1..n}" by auto
  ultimately have "{1..Suc n} = set cl \<union> {k. \<exists>u. (op(t := Some (Suc n))) u = Some k}"
    using assms(1) by (simp add: numbers_def)
  then show ?thesis using assms(1) fresh unfolding numbers_def by (auto split: if_splits)
qed

lemma numbers_close:
  assumes "numbers cl op n" and "op t = Some k" and "distinct cl'" and "set cl' = insert k (set cl)"
  shows "numbers cl' (op(t := None)) n"
proof -
  have one: "u = t" if "op u = Some k" for u using assms(1,2) that by (auto simp: numbers_def)
  have "{k. \<exists>u. op u = Some k} = insert k {j. \<exists>u. (op(t := None)) u = Some j}"
    using assms(2) by (auto split: if_splits) (metis option.inject)
  then have "{1..n} = set cl' \<union> {j. \<exists>u. (op(t := None)) u = Some j}"
    using assms(1,4) by (auto simp: numbers_def)
  moreover have "j \<notin> set cl'" if "(op(t := None)) u = Some j" for u j
    using that assms(1,4) one[of u] by (auto simp: numbers_def split: if_splits)
  ultimately show ?thesis using assms(1,3) unfolding numbers_def by (auto split: if_splits)
qed

lemma opens_update [simp]:
  "opens (s\<lparr>sc_count := n\<rparr>) = opens s" "opens (s\<lparr>sc_lock := lk\<rparr>) = opens s" "opens (s\<lparr>sc_failed := b\<rparr>) = opens s"
  "opens (s\<lparr>sc_reserved := rs\<rparr>) = opens s" "opens (s\<lparr>sc_refused := rs\<rparr>) = opens s" "opens (s\<lparr>sc_sent := rs\<rparr>) = opens s"
  "opens (s\<lparr>sc_settled := st\<rparr>) = opens s"
  by (simp_all add: opens_def[abs_def])

lemma closed_nos_update [simp]:
  "closed_nos (s\<lparr>sc_count := n\<rparr>) = closed_nos s" "closed_nos (s\<lparr>sc_lock := lk\<rparr>) = closed_nos s"
  "closed_nos (s\<lparr>sc_failed := b\<rparr>) = closed_nos s" "closed_nos (s\<lparr>sc_reserved := rs\<rparr>) = closed_nos s"
  "closed_nos (s\<lparr>sc_sent := rs\<rparr>) = closed_nos s"
  "closed_nos (s\<lparr>sc_refused := rs\<rparr>) = map fst (sc_settled s) @ rs"
  "closed_nos (s\<lparr>sc_settled := st\<rparr>) = map fst st @ sc_refused s"
  by (simp_all add: closed_nos_def)

lemma opens_put [simp]: "opens (put_call t st s) = (opens s)(t := open_no (Some st))"
  by (auto simp: opens_def put_call_def fun_eq_iff)

lemma put_call_simps [simp]:
  "closed_nos (put_call t st s) = closed_nos s" "sc_count (put_call t st s) = sc_count s"
  "sc_reserved (put_call t st s) = sc_reserved s" "sc_quote (put_call t st s) = sc_quote s"
  "sc_failed (put_call t st s) = sc_failed s" "sc_closed (put_call t st s) = sc_closed s" "sc_sent (put_call t st s) = sc_sent s"
  by (simp_all add: put_call_def closed_nos_def)

lemma scope_ok_put:
  assumes "scope_ok s" and "opens s t = open_no (Some st)"
  shows "scope_ok (put_call t st s)"
proof -
  have "(opens s)(t := open_no (Some st)) = opens s" using assms(2) by (simp add: fun_upd_idem)
  then show ?thesis using assms(1) by (simp add: scope_ok_def)
qed

lemma scope_ok_cong:
  "scope_ok s \<Longrightarrow> sc_calls s' = sc_calls s \<Longrightarrow> sc_settled s' = sc_settled s \<Longrightarrow> sc_refused s' = sc_refused s \<Longrightarrow>
   sc_count s' = sc_count s \<Longrightarrow> sc_reserved s' = sc_reserved s \<Longrightarrow> sc_quote s' = sc_quote s \<Longrightarrow> scope_ok s'"
  by (simp add: scope_ok_def closed_nos_def opens_def[abs_def])

lemma scope_ok_settle:
  assumes "scope_ok s" and "opens s t = Some k"
  shows "scope_ok (settle t k usage why s)"
proof -
  have n: "numbers (closed_nos s) (opens s) (sc_count s)" using assms(1) by (simp add: scope_ok_def)
  have k: "k \<notin> set (closed_nos s)" "distinct (closed_nos s)" using n assms(2) by (auto simp: numbers_def)
  let ?cl = "map fst (sc_settled s @ [(k, usage)]) @ sc_refused s"
  have "numbers ?cl ((opens s)(t := None)) (sc_count s)"
    by (rule numbers_close[OF n assms(2)]) (use k in \<open>auto simp: closed_nos_def\<close>)
  then show ?thesis
    using assms(1) by (simp add: scope_ok_def settle_def)
qed


lemma begin_call_ok:
  assumes "scope_ok s" and "sc_calls s t = None"
  shows "scope_ok (begin_call t kind model origin retries p now s)"
proof -
  have "opens s t = None" using assms(2) by (simp add: opens_def)
  then show ?thesis
    using assms(1) by (auto simp: begin_call_def intro!: scope_ok_put split: sum.splits)
qed

lemma enter_lock_ok:
  assumes ok: "scope_ok s" and c: "sc_calls s t = Some (AtLock kind model origin)"
  shows "scope_ok (enter_lock t kind model origin now s)"
proof -
  have o: "opens s t = None" using c by (simp add: opens_def)
  have "scope_ok (put_call t (Reserving (Suc (sc_count s)) kind model)
      (s\<lparr>sc_count := Suc (sc_count s), sc_lock := Some t, sc_reserved := sc_reserved s @ [Suc (sc_count s)]\<rparr>))"
    if "\<not> uq_max_calls (sc_quote s) \<le> int (sc_count s)"
  proof -
    have "numbers (closed_nos s) ((opens s)(t := Some (Suc (sc_count s)))) (Suc (sc_count s))"
      using ok o by (intro numbers_open) (simp_all add: scope_ok_def)
    then show ?thesis using ok that by (simp add: scope_ok_def)
  qed
  then show ?thesis
    using ok o by (auto simp: enter_lock_def intro!: scope_ok_put split: sum.splits)
qed

lemma reserve_answered_ok:
  assumes ok: "scope_ok s" and c: "sc_calls s t = Some (Reserving k kind model)"
  shows "scope_ok (reserve_answered t k kind model b now s)"
proof -
  have o: "opens s t = Some k" using c by (simp add: opens_def)
  define s1 where "s1 = s\<lparr>sc_lock := None\<rparr>"
  have ok1: "scope_ok s1" using scope_ok_cong[OF ok] by (simp add: s1_def)
  have refused: "scope_ok (put_call t (CallDone (Some AuthorityFailed)) (s1\<lparr>sc_failed := True, sc_refused := sc_refused s @ [k]\<rparr>))"
  proof -
    have n: "numbers (closed_nos s) (opens s) (sc_count s)" using ok by (simp add: scope_ok_def)
    have k: "k \<notin> set (closed_nos s)" "distinct (closed_nos s)" using n o by (auto simp: numbers_def)
    have "numbers (map fst (sc_settled s) @ sc_refused s @ [k]) ((opens s)(t := None)) (sc_count s)"
      by (rule numbers_close[OF n o]) (use k in \<open>auto simp: closed_nos_def\<close>)
    then show ?thesis using ok by (simp add: scope_ok_def s1_def)
  qed
  have settled: "scope_ok (settle t k None AfterRefusal (s1\<lparr>sc_failed := True\<rparr>))"
    by (rule scope_ok_settle) (use scope_ok_cong[OF ok1, of "s1\<lparr>sc_failed := True\<rparr>"] o in \<open>simp_all add: opens_def s1_def\<close>)
  have sent: "scope_ok (put_call t (Sending k kind model) (s1\<lparr>sc_sent := sc_sent s @ [k]\<rparr>))"
    by (rule scope_ok_put) (use scope_ok_cong[OF ok1, of "s1\<lparr>sc_sent := sc_sent s @ [k]\<rparr>"] o in \<open>simp_all add: opens_def s1_def\<close>)
  show ?thesis
    unfolding reserve_answered_def Let_def s1_def[symmetric] using refused settled sent by simp
qed

lemma send_answered_ok:
  assumes ok: "scope_ok s" and c: "sc_calls s t = Some (Sending k kind model)"
  shows "scope_ok (send_answered t k kind model r b s)"
proof -
  have o: "opens s t = Some k" using c by (simp add: opens_def)
  have f: "scope_ok (s\<lparr>sc_failed := True\<rparr>)" using scope_ok_cong[OF ok] by simp
  have of: "opens (s\<lparr>sc_failed := True\<rparr>) t = Some k" using o by (simp add: opens_def)
  show ?thesis
    unfolding send_answered_def using scope_ok_settle[OF ok o] scope_ok_settle[OF f of] by (simp split: option.split)
qed

lemma settle_answered_ok:
  assumes ok: "scope_ok s" and c: "sc_calls s t = Some (Settling k usage why)"
  shows "scope_ok (settle_answered t usage why b s)"
proof -
  have o: "opens s t = None" using c by (simp add: opens_def)
  have f: "scope_ok (s\<lparr>sc_failed := True\<rparr>)" using scope_ok_cong[OF ok] by simp
  have d: "scope_ok (put_call t (CallDone e) s)" for e by (rule scope_ok_put[OF ok]) (simp add: o)
  have df: "scope_ok (put_call t (CallDone e) (s\<lparr>sc_failed := True\<rparr>))" for e
    by (rule scope_ok_put[OF f]) (use o in \<open>simp add: opens_def\<close>)
  show ?thesis unfolding settle_answered_def using d df by (simp split: settle_reason.split)
qed

lemma usage_step_ok: "scope_ok s \<Longrightarrow> scope_ok (usage_step s ev)"
proof (cases ev)
  case (AbandonLock t)
  assume ok: "scope_ok s"
  have "scope_ok (put_call t (CallDone (Some CallCancelled)) s)" if "sc_calls s t = Some (AtLock a b c)" for a b c
    by (rule scope_ok_put[OF ok]) (simp add: opens_def that)
  then show ?thesis using ok by (simp add: AbandonLock split: option.split call_state.split)
next
  case (CloseScope status)
  assume ok: "scope_ok s"
  then show ?thesis using scope_ok_cong[OF ok, of "close_scope status s"] by (simp add: CloseScope close_scope_def)
qed (auto intro: begin_call_ok enter_lock_ok reserve_answered_ok send_answered_ok settle_answered_ok
  split: option.splits call_state.splits)

interpretation usage: guarded_component usage_step scope_ok
  by unfold_locales (rule usage_step_ok)

lemma new_scope_ok: "scope_ok (new_scope q)"
  by (simp add: scope_ok_def numbers_def new_scope_def closed_nos_def opens_def)

lemma usage_run_ok: "scope_ok (run usage_step (new_scope q) evs)"
  by (rule usage.run_inv[OF new_scope_ok])

lemma quote_kept: "sc_quote (usage_step s ev) = sc_quote s"
  by (cases ev)
    (auto simp: begin_call_def enter_lock_def reserve_answered_def send_answered_def settle_answered_def settle_def
      put_call_def close_scope_def Let_def split: option.splits call_state.splits sum.splits settle_reason.splits)

lemma run_quote: "sc_quote (run usage_step s evs) = sc_quote s"
  by (induction evs arbitrary: s) (simp_all add: quote_kept)


lemma raw_usage_complete:
  "raw_usage r kind expected = Some u \<Longrightarrow> rs_model r = Some expected \<and> 0 \<le> uc_prompt u \<and> 0 \<le> uc_completion u \<and>
     uc_total u = uc_prompt u + uc_completion u \<and> (kind = Embedding \<longrightarrow> uc_completion u = 0)"
  by (auto simp: raw_usage_def split: option.splits json_value.splits if_splits)

lemma validated_max_calls:
  "validate_quote now q qid \<Longrightarrow> 1 \<le> uq_max_calls (read_quote q) \<and> uq_max_calls (read_quote q) \<le> 16"
  by (auto simp: validate_quote_def read_quote_def int_within_def split: option.splits json_value.splits)


subsection \<open>Properties\<close>

text \<open>
  C39: Under a validated quote a scope never reserves more calls than the quote allows, and so
  never more than sixteen, whatever its calls do and however they interleave; the reservations
  are numbered without gaps or repetitions.
\<close>
theorem query_calls_bounded:
  assumes "validate_quote now q qid" and "s = run usage_step (new_scope (read_quote q)) evs"
  shows "int (length (sc_reserved s)) \<le> uq_max_calls (read_quote q) \<and> length (sc_reserved s) \<le> 16 \<and>
    sc_reserved s = [1..<Suc (length (sc_reserved s))]"
proof -
  have "scope_ok s" unfolding assms(2) by (rule usage_run_ok)
  moreover have "sc_quote s = read_quote q" unfolding assms(2) by (simp add: run_quote new_scope_def)
  ultimately show ?thesis using validated_max_calls[OF assms(1)] by (auto simp: scope_ok_def)
qed

definition demo_quote :: raw_quote where
  "demo_quote = \<lparr>rq_query_id = Some (JText [1]), rq_lease_id = Some (JText [2]), rq_max_calls = Some (JInt 1),
     rq_deadline = Some (JInt 100),
     rq_models = Some [\<lparr>rm_kind = Some (JText (lit ''embedding'')), rm_model = Some (JText [3]), rm_origin = Some (JText [4]),
       rm_input_ceiling = Some (JInt 10), rm_output_ceiling = Some (JInt 0)\<rparr>]\<rparr>"

lemma demo_quote_valid: "validate_quote 5 demo_quote [1]"
  by (simp add: validate_quote_def demo_quote_def text_within_def int_within_def deadline_of_def valid_model_def)

definition demo_payload :: payload where
  "demo_payload = \<lparr>pl_stream = False, pl_overrides = False, pl_n = None, pl_max_tokens = None, pl_size = (\<lambda>_. Some 7)\<rparr>"

lemma query_calls_bounded_witness:
  "length (sc_reserved (run usage_step (new_scope (read_quote demo_quote))
     [BeginCall 0 Embedding [3] [4, 47] 0 demo_payload 6, BeginCall 1 Embedding [3] [4] 0 demo_payload 6,
      LockTurn 0 7, ReserveAnswer 0 True 8, LockTurn 1 9])) \<le> 16"
  using query_calls_bounded[OF demo_quote_valid refl] by blast

text \<open>
  C40: Every reservation is settled exactly once: no number is settled twice, or settled after
  its reservation failed, and as soon as no call is in a reservation or at the provider, every
  number handed out has been settled or its reservation failed.
\<close>
theorem query_settled_once:
  assumes s_def: "s = run usage_step (new_scope q) evs"
  shows "distinct (map fst (sc_settled s) @ sc_refused s) \<and>
    ((\<forall>t. open_no (sc_calls s t) = None) \<longrightarrow> set (map fst (sc_settled s) @ sc_refused s) = set (sc_reserved s))"
proof -
  have "scope_ok s" unfolding s_def by (rule usage_run_ok)
  then have n: "numbers (map fst (sc_settled s) @ sc_refused s) (opens s) (sc_count s)"
    and r: "set (sc_reserved s) = {1..sc_count s}"
    by (auto simp: scope_ok_def closed_nos_def)
  have "set (map fst (sc_settled s) @ sc_refused s) = {1..sc_count s}" if "\<forall>t. open_no (sc_calls s t) = None"
    using n that by (simp add: numbers_def opens_def)
  then show ?thesis using n r by (simp add: numbers_def)
qed

text \<open>One call of the demo quote up to its reservation, and to the end.\<close>

definition demo_reserving :: usage_scope where
  "demo_reserving = run usage_step (new_scope (read_quote demo_quote)) [BeginCall 0 Embedding [3] [4, 47] 0 demo_payload 6, LockTurn 0 7]"

lemma demo_reserving_eq:
  "demo_reserving = put_call 0 (Reserving 1 Embedding [3])
     ((put_call 0 (AtLock Embedding [3] [4]) (new_scope (read_quote demo_quote)))\<lparr>sc_count := 1, sc_lock := Some 0, sc_reserved := [1]\<rparr>)"
  by (simp add: demo_reserving_def begin_call_def enter_lock_def limits_def new_scope_def read_quote_def read_model_def demo_quote_def
    deadline_of_def check_request_def output_limit_def demo_payload_def rstrip_slash_def put_call_def lit_def)

lemma query_settled_once_witness:
  "set (map fst (sc_settled (run usage_step demo_reserving [ReserveAnswer 0 True 8, SendAnswer 0 None False]))) = {1}"
proof -
  let ?s = "run usage_step demo_reserving [ReserveAnswer 0 True 8, SendAnswer 0 None False]"
  have s: "?s = run usage_step (new_scope (read_quote demo_quote))
      [BeginCall 0 Embedding [3] [4, 47] 0 demo_payload 6, LockTurn 0 7, ReserveAnswer 0 True 8, SendAnswer 0 None False]"
    by (simp add: demo_reserving_def)
  have e: "\<forall>t. open_no (sc_calls ?s t) = None" "sc_refused ?s = []" "set (sc_reserved ?s) = {1}"
    by (auto simp: demo_reserving_eq reserve_answered_def send_answered_def settle_def put_call_def new_scope_def
      read_quote_def demo_quote_def deadline_of_def)
  show ?thesis using query_settled_once[OF s] e by simp
qed

text \<open>
  A provider call is sent only on the authority's confirmed reservation, in a scope that at
  that moment is neither closed nor failed and before the deadline; a reservation is made only
  in such a scope too, for a model the quote names exactly once, below the call limit.
\<close>
theorem query_send_guarded:
  "(sc_sent (usage_step s ev) \<noteq> sc_sent s \<longrightarrow>
      (\<exists>t now. ev = ReserveAnswer t True now \<and> \<not> sc_closed s \<and> \<not> sc_failed s \<and> now < uq_deadline (sc_quote s))) \<and>
   (sc_reserved (usage_step s ev) \<noteq> sc_reserved s \<longrightarrow>
      (\<exists>t now kind model origin. ev = LockTurn t now \<and> \<not> sc_closed s \<and> \<not> sc_failed s \<and> now < uq_deadline (sc_quote s) \<and>
         sc_calls s t = Some (AtLock kind model origin) \<and> int (sc_count s) < uq_max_calls (sc_quote s) \<and>
         length (filter (\<lambda>q. qm_kind q = kind \<and> qm_model q = model \<and> rstrip_slash (qm_origin q) = rstrip_slash origin)
           (uq_models (sc_quote s))) = 1))"
  by (cases ev)
    (auto simp: begin_call_def enter_lock_def reserve_answered_def send_answered_def settle_answered_def settle_def limits_def
      put_call_def close_scope_def Let_def
      split: option.splits call_state.splits sum.splits settle_reason.splits if_splits list.splits)

lemma query_send_guarded_witness: "\<not> sc_closed demo_reserving \<and> \<not> sc_failed demo_reserving"
proof -
  have "sc_sent (usage_step demo_reserving (ReserveAnswer 0 True 8)) \<noteq> sc_sent demo_reserving"
    by (simp add: demo_reserving_eq reserve_answered_def put_call_def new_scope_def read_quote_def demo_quote_def deadline_of_def)
  then show ?thesis using query_send_guarded[of demo_reserving "ReserveAnswer 0 True 8"] by blast
qed

end
