(* ===== verification/TokenChunker.thy ===== *)
theory TokenChunker
  imports PyStrings
begin

section \<open>Token-window chunking\<close>

text \<open>
  \<^verbatim>\<open>lightrag/chunker/token_size.py\<close>. The tokenizer is a parameter of the model: \<open>enc\<close> and
  \<open>dec\<close> stand for \<open>tokenizer.encode\<close> and \<open>tokenizer.decode\<close>, and nothing is assumed of
  them where no hypothesis says so. Sizes are integers, as the caller may pass any; offsets
  into a text are naturals. A chunk dictionary is the record \<open>chunk\<close>, whose span is \<open>None\<close>
  where the code leaves the key \<open>_source_span\<close> out.
\<close>

record chunk =
  chunk_tokens :: nat
  chunk_content :: pystr
  chunk_order_index :: nat
  chunk_span :: "(nat \<times> nat) option"

datatype chunk_error = NegativeOverlap int | OverlapTooLarge int int | TokenLimitExceeded nat int pystr


subsection \<open>Source spans\<close>

function trim_left :: "pystr \<Rightarrow> nat \<Rightarrow> nat \<Rightarrow> nat" where
  "trim_left c a b = (if a < b \<and> py_space (c ! a) then trim_left c (Suc a) b else a)"
  by pat_completeness auto
termination by (relation "measure (\<lambda>(_, a, b). b - a)") auto

fun trim_right :: "pystr \<Rightarrow> nat \<Rightarrow> nat \<Rightarrow> nat" where
  "trim_right c a 0 = 0"
| "trim_right c a (Suc b) = (if a < Suc b \<and> py_space (c ! b) then trim_right c a b else Suc b)"

declare trim_left.simps [simp del]

definition trimmed_span :: "pystr \<Rightarrow> int \<Rightarrow> int \<Rightarrow> nat \<times> nat" where
  "trimmed_span content start fin =
     (let a = nat (max 0 (min start (int (length content))));
          b = nat (max (int a) (min fin (int (length content))));
          a' = trim_left content a b
      in (a', trim_right content a' b))"

definition source_span :: "pystr \<Rightarrow> int \<Rightarrow> int \<Rightarrow> (nat \<times> nat) option" where
  "source_span content start fin =
     (let (a, b) = trimmed_span content start fin in if b \<le> a then None else Some (a, b))"

text \<open>
  Where a decoded window lies in the text. The anchor is the last verified pair of a token
  offset and a character offset; a prediction that is off is searched for 32 characters around.
\<close>

definition predicted_start :: "('t list \<Rightarrow> pystr) \<Rightarrow> 't list \<Rightarrow> nat \<Rightarrow> nat \<times> nat \<Rightarrow> nat" where
  "predicted_start dec toks start anchor =
     (if fst anchor \<le> start then snd anchor + length (dec (slice (fst anchor) start toks))
      else length (dec (take start toks)))"

definition token_window_source_span ::
  "('t list \<Rightarrow> pystr) \<Rightarrow> pystr \<Rightarrow> 't list \<Rightarrow> nat \<Rightarrow> nat \<Rightarrow> nat \<times> nat \<Rightarrow> (nat \<times> nat) option \<times> (nat \<times> nat)" where
  "token_window_source_span dec content toks start fin anchor =
     (let window = dec (slice start fin toks);
          s = predicted_start dec toks start anchor;
          e = s + length window
      in if slice s e content = window then (source_span content (int s) (int e), (start, s))
         else case py_find content window (s - 32) (min (length content) (e + 32 + length window)) of
                None \<Rightarrow> (None, anchor)
              | Some f \<Rightarrow> (source_span content (int f) (int (f + length window)), (start, f)))"


subsection \<open>Chunking\<close>

definition make_chunk :: "pystr \<Rightarrow> nat \<Rightarrow> nat \<Rightarrow> (nat \<times> nat) option \<Rightarrow> bool \<Rightarrow> chunk" where
  "make_chunk content tokens order sp emit =
     \<lparr> chunk_tokens = tokens, chunk_content = strip content, chunk_order_index = order,
       chunk_span = (if emit then sp else None) \<rparr>"

definition window_step :: "int \<Rightarrow> int \<Rightarrow> chunk_error + nat" where
  "window_step cap overlap =
     (if cap \<le> overlap then Inl (OverlapTooLarge overlap cap) else Inr (nat (cap - overlap)))"

text \<open>\<open>range(start, stop, step)\<close> for a positive step.\<close>

function py_range :: "nat \<Rightarrow> nat \<Rightarrow> nat \<Rightarrow> nat list" where
  "py_range start stop step = (if start < stop \<and> 0 < step then start # py_range (start + step) stop step else [])"
  by pat_completeness auto
termination by (relation "measure (\<lambda>(start, stop, _). stop - start)") auto

declare py_range.simps [simp del]

text \<open>An entry of \<open>new_chunks\<close>: token count, text, span.\<close>

type_synonym item = "nat \<times> pystr \<times> (nat \<times> nat) option"

definition shift_span :: "nat \<Rightarrow> nat \<times> nat \<Rightarrow> nat \<times> nat" where
  "shift_span base s = (base + fst s, base + snd s)"

text \<open>The loop over the window starts of a text that begins at \<open>base\<close> of the document.\<close>

fun window_items ::
  "('t list \<Rightarrow> pystr) \<Rightarrow> bool \<Rightarrow> nat \<Rightarrow> pystr \<Rightarrow> 't list \<Rightarrow> nat \<Rightarrow> nat \<times> nat \<Rightarrow> nat list \<Rightarrow> item list" where
  "window_items dec emit base content toks cap anchor [] = []"
| "window_items dec emit base content toks cap anchor (start # starts) =
     (let fin = min (start + cap) (length toks);
          (sp, anchor') =
            (if emit then token_window_source_span dec content toks start fin anchor else (None, anchor))
      in (min cap (length toks - start), dec (slice start fin toks), map_option (shift_span base) sp)
         # window_items dec emit base content toks cap anchor' starts)"

fun raw_spans :: "nat \<Rightarrow> nat \<Rightarrow> pystr list \<Rightarrow> (nat \<times> nat) list" where
  "raw_spans sep_len cursor [] = []"
| "raw_spans sep_len cursor (raw # raws) =
     (cursor, cursor + length raw) # raw_spans sep_len (cursor + length raw + sep_len) raws"

definition whole_item :: "(pystr \<Rightarrow> 't list) \<Rightarrow> bool \<Rightarrow> pystr \<Rightarrow> pystr \<Rightarrow> nat \<times> nat \<Rightarrow> item" where
  "whole_item enc emit content raw sp =
     (length (enc raw), raw,
      if emit then source_span content (int (fst sp)) (int (snd sp)) else None)"

text \<open>One segment when the separator is the only cut.\<close>

definition only_items ::
  "(pystr \<Rightarrow> 't list) \<Rightarrow> bool \<Rightarrow> pystr \<Rightarrow> int \<Rightarrow> pystr \<Rightarrow> nat \<times> nat \<Rightarrow> chunk_error + item list" where
  "only_items enc emit content cap raw sp =
     (if cap < int (length (enc raw)) then Inl (TokenLimitExceeded (length (enc raw)) cap (take 120 raw))
      else Inr [whole_item enc emit content raw sp])"

text \<open>One segment when long segments are cut into windows.\<close>

definition segment_items ::
  "(pystr \<Rightarrow> 't list) \<Rightarrow> ('t list \<Rightarrow> pystr) \<Rightarrow> bool \<Rightarrow> pystr \<Rightarrow> int \<Rightarrow> int \<Rightarrow> pystr \<Rightarrow> nat \<times> nat \<Rightarrow> chunk_error + item list" where
  "segment_items enc dec emit content overlap cap raw sp =
     (if cap < int (length (enc raw)) then
        (case window_step cap overlap of
           Inl e \<Rightarrow> Inl e
         | Inr step \<Rightarrow>
             Inr (window_items dec emit (fst sp) raw (enc raw) (nat cap) (0, 0)
                    (py_range 0 (length (enc raw)) step)))
      else Inr [whole_item enc emit content raw sp])"

text \<open>The loop over the segments; the first error leaves it.\<close>

fun collect_items :: "('a \<Rightarrow> 'b \<Rightarrow> 'e + 'i list) \<Rightarrow> ('a \<times> 'b) list \<Rightarrow> 'e + 'i list" where
  "collect_items f [] = Inr []"
| "collect_items f ((a, b) # r) =
     (case f a b of
        Inl e \<Rightarrow> Inl e
      | Inr xs \<Rightarrow> (case collect_items f r of Inl e \<Rightarrow> Inl e | Inr ys \<Rightarrow> Inr (xs @ ys)))"

definition split_items ::
  "(pystr \<Rightarrow> 't list) \<Rightarrow> ('t list \<Rightarrow> pystr) \<Rightarrow> bool \<Rightarrow> pystr \<Rightarrow> pystr \<Rightarrow> bool \<Rightarrow> int \<Rightarrow> int \<Rightarrow> chunk_error + item list" where
  "split_items enc dec emit content sep only overlap cap =
     (let raws = py_split sep content
      in collect_items
           (if only then only_items enc emit content cap
            else segment_items enc dec emit content overlap cap)
           (zip raws (raw_spans (length sep) 0 raws)))"

text \<open>The windows over the whole document.\<close>

definition fixed_items ::
  "(pystr \<Rightarrow> 't list) \<Rightarrow> ('t list \<Rightarrow> pystr) \<Rightarrow> bool \<Rightarrow> pystr \<Rightarrow> int \<Rightarrow> int \<Rightarrow> chunk_error + item list" where
  "fixed_items enc dec emit content overlap cap =
     (case window_step cap overlap of
        Inl e \<Rightarrow> Inl e
      | Inr step \<Rightarrow>
          Inr (window_items dec emit 0 content (enc content) (nat cap) (0, 0)
                 (py_range 0 (length (enc content)) step)))"

fun number_chunks :: "bool \<Rightarrow> nat \<Rightarrow> item list \<Rightarrow> chunk list" where
  "number_chunks emit i [] = []"
| "number_chunks emit i ((n, content, sp) # items) =
     make_chunk content n i sp emit # number_chunks emit (Suc i) items"

definition chunking_by_token_size ::
  "(pystr \<Rightarrow> 't list) \<Rightarrow> ('t list \<Rightarrow> pystr) \<Rightarrow> pystr \<Rightarrow> pystr option \<Rightarrow> bool \<Rightarrow> int \<Rightarrow> int \<Rightarrow> bool \<Rightarrow> chunk_error + chunk list" where
  "chunking_by_token_size enc dec content split_by only overlap cap emit =
     (if overlap < 0 then Inl (NegativeOverlap overlap)
      else
        (case (if split_by = None \<or> split_by = Some [] then fixed_items enc dec emit content overlap cap
               else split_items enc dec emit content (the split_by) only overlap cap) of
           Inl e \<Rightarrow> Inl e
         | Inr items \<Rightarrow> Inr (number_chunks emit 0 items)))"

definition chunking_by_fixed_token ::
  "(pystr \<Rightarrow> 't list) \<Rightarrow> ('t list \<Rightarrow> pystr) \<Rightarrow> pystr \<Rightarrow> int \<Rightarrow> int \<Rightarrow> pystr option \<Rightarrow> bool \<Rightarrow> bool \<Rightarrow> chunk_error + chunk list" where
  "chunking_by_fixed_token enc dec content cap overlap split_by only emit =
     chunking_by_token_size enc dec content split_by only overlap cap emit"


subsection \<open>Trimming is stripping\<close>

lemma trim_left_step: "a < b \<Longrightarrow> py_space (c ! a) \<Longrightarrow> trim_left c a b = trim_left c (Suc a) b"
  and trim_left_stop: "\<not> (a < b \<and> py_space (c ! a)) \<Longrightarrow> trim_left c a b = a"
  by (subst trim_left.simps, simp)+

lemma trim_right_numeral:
  "trim_right c a (numeral k) =
     (if a < numeral k \<and> py_space (c ! pred_numeral k) then trim_right c a (pred_numeral k) else numeral k)"
  by (simp add: numeral_eq_Suc)

lemma trim_left_bounds: "a \<le> b \<Longrightarrow> a \<le> trim_left c a b \<and> trim_left c a b \<le> b"
proof (induction c a b rule: trim_left.induct)
  case (1 c a b)
  then show ?case by (subst (1 2) trim_left.simps) auto
qed

lemma trim_left_slice:
  "a \<le> b \<Longrightarrow> b \<le> length c \<Longrightarrow> slice (trim_left c a b) b c = dropWhile py_space (slice a b c)"
proof (induction c a b rule: trim_left.induct)
  case (1 c a b)
  show ?case
  proof (cases "a < b \<and> py_space (c ! a)")
    case True
    then have "slice (trim_left c a b) b c = slice (trim_left c (Suc a) b) b c"
      by (subst trim_left.simps) simp
    also have "\<dots> = dropWhile py_space (slice (Suc a) b c)" using 1 True by simp
    finally show ?thesis using True 1(3) by (simp add: slice_Cons)
  next
    case False
    then have "trim_left c a b = a" by (subst trim_left.simps) (rule if_not_P)
    then show ?thesis using False 1(2,3) by (cases "a < b") (auto simp: slice_Cons)
  qed
qed

lemma trim_right_bounds: "a \<le> b \<Longrightarrow> a \<le> trim_right c a b \<and> trim_right c a b \<le> b"
  by (induction b) (auto simp: le_Suc_eq)

lemma trim_right_slice:
  "a \<le> b \<Longrightarrow> b \<le> length c \<Longrightarrow> slice a (trim_right c a b) c = rstrip (slice a b c)"
proof (induction b)
  case 0
  then show ?case by (simp add: rstrip_def)
next
  case (Suc b)
  show ?case
  proof (cases "a = Suc b")
    case True
    then show ?thesis by (simp add: rstrip_def)
  next
    case False
    with Suc.prems have ab: "a \<le> b" by simp
    then have s: "slice a (Suc b) c = slice a b c @ [c ! b]" using Suc.prems by (simp add: slice_snoc)
    show ?thesis
    proof (cases "py_space (c ! b)")
      case True
      then have "slice a (trim_right c a (Suc b)) c = slice a (trim_right c a b) c" using ab by simp
      also have "\<dots> = rstrip (slice a b c)" using Suc.IH Suc.prems ab by simp
      finally show ?thesis unfolding s using True by (simp add: rstrip_def)
    next
      case False
      then have "trim_right c a (Suc b) = Suc b" by simp
      then show ?thesis unfolding s using False s by (simp add: rstrip_def)
    qed
  qed
qed

text \<open>The trimmed span of a slice that lies in the text is where its stripped text lies.\<close>

lemma trimmed_span_exact:
  assumes "a \<le> b" and "b \<le> length content" and "trimmed_span content (int a) (int b) = (x, y)"
  shows "a \<le> x \<and> x \<le> y \<and> y \<le> b \<and> slice x y content = strip (slice a b content)"
proof -
  have xy: "x = trim_left content a b" "y = trim_right content x b"
    using assms by (auto simp: trimmed_span_def Let_def min_def max_def split: if_splits)
  have x: "a \<le> x \<and> x \<le> b" unfolding xy(1) by (rule trim_left_bounds[OF assms(1)])
  have y: "x \<le> y \<and> y \<le> b" unfolding xy(2) using x by (intro trim_right_bounds) simp
  have "slice x y content = rstrip (slice x b content)"
    unfolding xy(2) using x assms(2) by (intro trim_right_slice) simp_all
  also have "slice x b content = lstrip (slice a b content)"
    unfolding xy(1) lstrip_def using assms(1,2) by (rule trim_left_slice)
  finally show ?thesis using x y by (simp add: strip_def)
qed

definition span_of :: "pystr \<Rightarrow> pystr \<Rightarrow> (nat \<times> nat) option \<Rightarrow> bool" where
  "span_of content piece sp \<longleftrightarrow>
     (\<forall>a b. sp = Some (a, b) \<longrightarrow> a < b \<and> b \<le> length content \<and> slice a b content = strip piece)"

lemma source_span_exact:
  assumes "a \<le> b" and "b \<le> length content" and "slice a b content = piece"
  shows "span_of content piece (source_span content (int a) (int b))"
    and "(source_span content (int a) (int b) = None) = blank piece"
proof -
  obtain x y where xy: "trimmed_span content (int a) (int b) = (x, y)" by (cases "trimmed_span content (int a) (int b)")
  from trimmed_span_exact[OF assms(1,2) xy]
  have e: "a \<le> x" "x \<le> y" "y \<le> b" "slice x y content = strip piece" using assms(3) by auto
  then show "span_of content piece (source_span content (int a) (int b))"
    using assms(2) by (auto simp: span_of_def source_span_def xy)
  have "strip piece = [] \<longleftrightarrow> y \<le> x"
    using e assms(2) length_slice[of x y content] by (cases "y \<le> x") auto
  then show "(source_span content (int a) (int b) = None) = blank piece"
    by (simp add: source_span_def xy strip_idem_space)
qed


lemma clamp_low: "nat (max 0 (min (int k) (int n))) = min k n"
  and clamp_min: "nat (min (int k) (int n)) = min k n"
  by (simp_all add: min_def)

lemma clamp_high: "nat (max (int x) (min (int k) (int n))) = max x (min k n)"
  by (simp add: min_def max_def)

lemma source_span_empty: "source_span content (int a) (int a) = None"
proof -
  obtain x y where xy: "trimmed_span content (int a) (int a) = (x, y)" by (cases "trimmed_span content (int a) (int a)")
  define m where "m = min a (length content)"
  have "trimmed_span content (int m) (int m) = (x, y)"
    using xy by (simp add: trimmed_span_def clamp_low clamp_min clamp_high m_def del: max_absorb2 of_nat_min)
  from trimmed_span_exact[OF _ _ this] have "y \<le> x" by (auto simp: m_def)
  then show ?thesis by (simp add: source_span_def xy)
qed

lemma token_window_span_of:
  "span_of content (dec (slice start fin toks)) (fst (token_window_source_span dec content toks start fin anchor))"
proof -
  define w where "w = dec (slice start fin toks)"
  define s where "s = predicted_start dec toks start anchor"
  note defs = token_window_source_span_def Let_def w_def[symmetric] s_def[symmetric]
  show ?thesis
  proof (cases "slice s (s + length w) content = w")
    case True
    then have r: "fst (token_window_source_span dec content toks start fin anchor) =
        source_span content (int s) (int (s + length w))" by (simp add: defs)
    show ?thesis
    proof (cases "w = []")
      case True
      then show ?thesis unfolding r by (simp add: source_span_empty span_of_def)
    next
      case False
      then have "s + length w \<le> length content"
        using True length_slice[of s "s + length w" content] by (cases w) (auto simp: min_def split: if_splits)
      then show ?thesis unfolding r w_def[symmetric] using True by (intro source_span_exact(1)) simp_all
    qed
  next
    case False
    show ?thesis
    proof (cases "py_find content w (s - 32) (min (length content) (s + length w + 32 + length w))")
      case None
      then show ?thesis using False by (simp add: defs span_of_def)
    next
      case (Some f)
      have "fst (token_window_source_span dec content toks start fin anchor) =
          source_span content (int f) (int (f + length w))"
        using False Some by (simp add: defs)
      moreover have "slice f (f + length w) content = w" "f + length w \<le> length content"
        using py_find_Some[OF Some] by auto
      ultimately show ?thesis unfolding w_def[symmetric] by (simp only: source_span_exact(1) le_add1)
    qed
  qed
qed

lemma span_of_shift:
  assumes "span_of (slice base (base + n) content) piece sp" and "base + n \<le> length content"
  shows "span_of content piece (map_option (shift_span base) sp)"
  using assms
  by (auto simp: span_of_def shift_span_def length_slice slice_slice)

lemma window_items_spans:
  assumes "slice base (base + length raw) content = raw" and "base + length raw \<le> length content"
    and "(n, piece, sp) \<in> set (window_items dec emit base raw toks cap anchor starts)"
  shows "span_of content piece sp"
  using assms(3)
proof (induction starts arbitrary: anchor)
  case Nil
  then show ?case by simp
next
  case (Cons start starts)
  let ?fin = "min (start + cap) (length toks)"
  obtain sp' tk ch where tw: "token_window_source_span dec raw toks start ?fin anchor = (sp', tk, ch)"
    by (cases "token_window_source_span dec raw toks start ?fin anchor")
  have none: "span_of content t None" for t by (simp add: span_of_def)
  have one: "span_of content (dec (slice start ?fin toks))
      (map_option (shift_span base) sp')"
    using token_window_span_of[of raw dec start ?fin toks anchor] assms(1,2)
    by (intro span_of_shift[where n = "length raw"]) (simp_all add: tw)
  show ?case
  proof (cases emit)
    case True
    then show ?thesis using Cons.prems Cons.IH one by (auto simp: Let_def tw)
  next
    case False
    then show ?thesis using Cons.prems Cons.IH none by (cases anchor) (auto simp: Let_def)
  qed
qed


lemma raw_spans_exact:
  assumes "raws \<noteq> []"
  shows "(raw, a, b) \<in> set (zip raws (raw_spans (length sep) (length pre) raws)) \<Longrightarrow>
    b = a + length raw \<and> slice a b (pre @ py_join sep raws) = raw \<and> b \<le> length (pre @ py_join sep raws)"
  using assms
proof (induction raws arbitrary: pre)
  case Nil
  then show ?case by simp
next
  case (Cons r raws)
  show ?case
  proof (cases "raws = []")
    case True
    with Cons.prems show ?thesis by (auto simp: slice_def)
  next
    case False
    have j: "pre @ py_join sep (r # raws) = (pre @ r @ sep) @ py_join sep raws"
      using False by (simp add: py_join_Cons)
    from Cons.prems(1) consider
        "raw = r" "a = length pre" "b = length pre + length r"
      | "(raw, a, b) \<in> set (zip raws (raw_spans (length sep) (length (pre @ r @ sep)) raws))"
      by (auto simp: algebra_simps)
    then show ?thesis
    proof cases
      case 1
      then show ?thesis using slice_middle[of pre r "sep @ py_join sep raws"] by (simp add: j)
    next
      case 2
      from Cons.IH[OF this False] show ?thesis unfolding j .
    qed
  qed
qed

lemma segment_span:
  assumes "(raw, a, b) \<in> set (zip (py_split sep content) (raw_spans (length sep) 0 (py_split sep content)))"
  shows "b = a + length raw" and "slice a b content = raw" and "b \<le> length content"
  using raw_spans_exact[where pre = "[]" and raws = "py_split sep content" and sep = sep] assms join_split[of sep content]
  by (auto simp: py_split_def)

lemma collect_items_mem:
  "collect_items f zs = Inr xs \<Longrightarrow> x \<in> set xs \<Longrightarrow>
   \<exists>z \<in> set zs. \<exists>ys. f (fst z) (snd z) = Inr ys \<and> x \<in> set ys"
proof (induction zs arbitrary: xs)
  case (Cons z zs)
  obtain a b where z: "z = (a, b)" by (cases z)
  show ?case
  proof (cases "f a b")
    case (Inr ys)
    with Cons.prems z obtain xs' where "collect_items f zs = Inr xs'" "xs = ys @ xs'" by (auto split: sum.splits)
    with Cons z Inr show ?thesis by fastforce
  qed (use Cons.prems z in simp)
qed simp

lemma whole_item_span:
  assumes "b = a + length raw" and "slice a b content = raw" and "b \<le> length content"
    and "(n, piece, sp) = whole_item enc emit content raw (a, b)"
  shows "span_of content piece sp"
  using source_span_exact(1)[of a b content raw] assms by (auto simp: whole_item_def span_of_def)

lemma split_items_spans:
  assumes "split_items enc dec emit content sep only overlap cap = Inr items" and "(n, piece, sp) \<in> set items"
  shows "span_of content piece sp"
proof -
  let ?f = "if only then only_items enc emit content cap else segment_items enc dec emit content overlap cap"
  from assms(1) have "collect_items ?f (zip (py_split sep content) (raw_spans (length sep) 0 (py_split sep content))) = Inr items"
    by (simp only: split_items_def Let_def)
  from collect_items_mem[OF this assms(2)] obtain raw a b ys where
    z: "(raw, a, b) \<in> set (zip (py_split sep content) (raw_spans (length sep) 0 (py_split sep content)))"
    and f: "?f raw (a, b) = Inr ys" and y: "(n, piece, sp) \<in> set ys"
    by (metis prod.collapse)
  note g = segment_span[OF z]
  have w: "slice a (a + length raw) content = raw" "a + length raw \<le> length content" using g by auto
  show ?thesis
    using f y whole_item_span[OF g, of n piece sp enc emit] window_items_spans[OF w, of n piece sp dec emit]
    by (auto simp: only_items_def segment_items_def split: if_splits sum.splits)
qed

lemma fixed_items_spans:
  assumes "fixed_items enc dec emit content overlap cap = Inr items" and "(n, piece, sp) \<in> set items"
  shows "span_of content piece sp"
  using assms window_items_spans[of 0 content content n piece sp dec emit]
  by (auto simp: fixed_items_def slice_whole split: sum.splits)

lemma number_chunks_mem:
  "c \<in> set (number_chunks emit i items) \<Longrightarrow>
   \<exists>n piece sp. (n, piece, sp) \<in> set items \<and> chunk_tokens c = n \<and> chunk_content c = strip piece
     \<and> chunk_span c = (if emit then sp else None)"
proof (induction emit i items rule: number_chunks.induct)
  case (2 emit i n piece sp items)
  then consider "c = make_chunk piece n i sp emit" | "c \<in> set (number_chunks emit (Suc i) items)" by auto
  then show ?case
  proof cases
    case 1
    then show ?thesis by (intro exI[of _ n] exI[of _ piece] exI[of _ sp]) (simp add: make_chunk_def)
  next
    case 2
    then show ?thesis using "2.IH" by fastforce
  qed
qed simp

text \<open>The items a successful call numbers.\<close>

lemma chunking_items:
  assumes "chunking_by_token_size enc dec content split_by only overlap cap emit = Inr cs"
  obtains items where "0 \<le> overlap" "cs = number_chunks emit 0 items"
    "split_by = None \<or> split_by = Some [] \<Longrightarrow> fixed_items enc dec emit content overlap cap = Inr items"
    "\<And>sep. split_by = Some sep \<Longrightarrow> sep \<noteq> [] \<Longrightarrow>
       split_items enc dec emit content sep only overlap cap = Inr items"
  using assms unfolding chunking_by_token_size_def by (auto split: if_splits sum.splits)


subsection \<open>Windows, counts and errors\<close>

text \<open>The token windows a run of starts cuts out.\<close>

definition token_windows :: "'t list \<Rightarrow> nat \<Rightarrow> nat list \<Rightarrow> 't list list" where
  "token_windows toks cap starts = map (\<lambda>s. slice s (min (s + cap) (length toks)) toks) starts"

lemma window_items_fst: "map fst (window_items dec emit base content toks cap anchor starts) = map length (token_windows toks cap starts)"
  by (induction starts arbitrary: anchor)
    (auto simp: token_windows_def Let_def length_slice min_def split: prod.splits)

lemma window_items_text: "map (fst \<circ> snd) (window_items dec emit base content toks cap anchor starts) = map dec (token_windows toks cap starts)"
  by (induction starts arbitrary: anchor) (auto simp: token_windows_def Let_def split: prod.splits)

lemma number_chunks_maps:
  "map chunk_tokens (number_chunks emit i items) = map fst items"
  "map chunk_content (number_chunks emit i items) = map (strip \<circ> (fst \<circ> snd)) items"
  "map chunk_order_index (number_chunks emit i items) = [i..<i + length items]"
  "length (number_chunks emit i items) = length items"
  by (induction emit i items rule: number_chunks.induct) (simp_all add: make_chunk_def upt_conv_Cons del: upt_Suc)

lemma py_range_Cons: "a < n \<Longrightarrow> 0 < step \<Longrightarrow> py_range a n step = a # py_range (a + step) n step"
  and py_range_Nil: "\<not> (a < n \<and> 0 < step) \<Longrightarrow> py_range a n step = []"
  by (subst py_range.simps, simp)+

lemma py_range_mem: "x \<in> set (py_range a n step) \<Longrightarrow> a \<le> x \<and> x < n"
proof (induction a n step rule: py_range.induct)
  case (1 a n step)
  then show ?case by (subst (asm) (2) py_range.simps) (force split: if_splits)
qed

lemma windows_cover:
  assumes "0 < step" and "step \<le> cap"
  shows "concat (map (take step) (token_windows toks cap (py_range a (length toks) step))) = drop a toks"
  using assms
proof (induction a "length toks" step rule: py_range.induct)
  case (1 a step)
  note assms = "1.prems"
  show ?case
  proof (cases "a < length toks")
    case False
    then show ?thesis by (subst py_range.simps) (simp add: token_windows_def)
  next
    case True
    have "take step (slice a (min (a + cap) (length toks)) toks) = take step (drop a toks)"
      using assms(2) by (simp add: slice_def take_take min_def)
    moreover have "concat (map (take step) (token_windows toks cap (py_range (a + step) (length toks) step))) = drop (a + step) toks"
      using "1.hyps" True assms by blast
    ultimately show ?thesis
      using True assms append_take_drop_id[of step "drop a toks"]
      by (simp add: py_range_Cons token_windows_def add.commute)
  qed
qed

lemma py_range_nth: "i < length (py_range a n step) \<Longrightarrow> py_range a n step ! i = a + i * step"
proof (induction a n step arbitrary: i rule: py_range.induct)
  case (1 a n step)
  show ?case
  proof (cases "a < n \<and> 0 < step")
    case True
    then have e: "py_range a n step = a # py_range (a + step) n step" by (simp add: py_range_Cons)
    show ?thesis
    proof (cases i)
      case 0
      then show ?thesis by (simp add: e)
    next
      case (Suc k)
      with 1(2) have "k < length (py_range (a + step) n step)" by (simp add: e)
      from 1(1)[OF True this] show ?thesis by (simp add: e Suc)
    qed
  next
    case False
    then show ?thesis using 1(2) by (simp add: py_range_Nil)
  qed
qed

lemma windows_overlap:
  assumes "Suc i < length (py_range a (length toks) step)" and "cap = step + overlap"
  defines "ws \<equiv> token_windows toks cap (py_range a (length toks) step)"
  shows "drop step (ws ! i) = take overlap (ws ! Suc i)"
proof -
  let ?s = "py_range a (length toks) step ! i"
  have n: "py_range a (length toks) step ! Suc i = ?s + step" using py_range_nth[OF assms(1)] py_range_nth[of i] assms(1) by simp
  show ?thesis
    unfolding ws_def token_windows_def
    using assms(1) by (simp add: n nth_map assms(2) slice_def drop_take min_def add.commute add.left_commute)
qed


definition failure :: "'e + 'a \<Rightarrow> 'e option" where
  "failure r = (case r of Inl e \<Rightarrow> Some e | Inr _ \<Rightarrow> None)"

lemma failure_simps [simp]: "failure (Inl e) = Some e" "failure (Inr x) = None"
  by (simp_all add: failure_def)

lemma length_raw_spans [simp]: "length (raw_spans n cursor raws) = length raws"
  by (induction raws arbitrary: cursor) auto

lemma collect_failure_Cons:
  "failure (collect_items f (z # zs)) =
     (case failure (f (fst z) (snd z)) of Some e \<Rightarrow> Some e | None \<Rightarrow> failure (collect_items f zs))"
  by (cases z) (simp split: sum.splits)

lemma only_items_failure:
  "failure (only_items enc emit content cap raw sp) =
     (if cap < int (length (enc raw)) then Some (TokenLimitExceeded (length (enc raw)) cap (take 120 raw)) else None)"
  by (simp add: only_items_def)

lemma segment_items_failure:
  "failure (segment_items enc dec emit content overlap cap raw sp) =
     (if cap \<le> overlap \<and> cap < int (length (enc raw)) then Some (OverlapTooLarge overlap cap) else None)"
  by (simp add: segment_items_def window_step_def)

lemma only_failure:
  "failure (collect_items (only_items enc emit content cap) zs) =
     map_option (\<lambda>raw. TokenLimitExceeded (length (enc raw)) cap (take 120 raw))
       (find (\<lambda>raw. cap < int (length (enc raw))) (map fst zs))"
proof (induction zs)
  case (Cons z zs)
  then show ?case by (simp only: collect_failure_Cons only_items_failure) simp
qed simp

lemma segment_failure:
  "failure (collect_items (segment_items enc dec emit content overlap cap) zs) =
     (if cap \<le> overlap \<and> (\<exists>raw \<in> set (map fst zs). cap < int (length (enc raw)))
      then Some (OverlapTooLarge overlap cap) else None)"
proof (induction zs)
  case (Cons z zs)
  then show ?case by (simp only: collect_failure_Cons segment_items_failure) simp
qed simp

text \<open>What a call refuses, told without running it.\<close>

definition chunk_failure ::
  "(pystr \<Rightarrow> 't list) \<Rightarrow> pystr \<Rightarrow> pystr option \<Rightarrow> bool \<Rightarrow> int \<Rightarrow> int \<Rightarrow> chunk_error option" where
  "chunk_failure enc content split_by only overlap cap =
     (if overlap < 0 then Some (NegativeOverlap overlap)
      else if split_by = None \<or> split_by = Some [] then
        (if cap \<le> overlap then Some (OverlapTooLarge overlap cap) else None)
      else if only then
        map_option (\<lambda>raw. TokenLimitExceeded (length (enc raw)) cap (take 120 raw))
          (find (\<lambda>raw. cap < int (length (enc raw))) (py_split (the split_by) content))
      else if cap \<le> overlap \<and> (\<exists>raw \<in> set (py_split (the split_by) content). cap < int (length (enc raw)))
      then Some (OverlapTooLarge overlap cap) else None)"

lemma split_failure:
  "failure (split_items enc dec emit content sep only overlap cap) =
     (if only then
        map_option (\<lambda>raw. TokenLimitExceeded (length (enc raw)) cap (take 120 raw))
          (find (\<lambda>raw. cap < int (length (enc raw))) (py_split sep content))
      else if cap \<le> overlap \<and> (\<exists>raw \<in> set (py_split sep content). cap < int (length (enc raw)))
      then Some (OverlapTooLarge overlap cap) else None)"
  by (simp add: split_items_def Let_def only_failure segment_failure)

lemma fixed_failure:
  "failure (fixed_items enc dec emit content overlap cap) =
     (if cap \<le> overlap then Some (OverlapTooLarge overlap cap) else None)"
  by (simp add: fixed_items_def window_step_def)

lemma failure_case: "failure (case r of Inl e \<Rightarrow> Inl e | Inr x \<Rightarrow> Inr (f x)) = failure r"
  by (cases r) simp_all

text \<open>Every item counts at most the limit.\<close>

lemma window_items_bound:
  "0 \<le> cap \<Longrightarrow> (n, piece, sp) \<in> set (window_items dec emit base raw toks (nat cap) anchor starts) \<Longrightarrow> int n \<le> cap"
  by (induction starts arbitrary: anchor) (auto simp: Let_def split: prod.splits)

lemma split_items_bound:
  assumes "0 \<le> overlap" and "split_items enc dec emit content sep only overlap cap = Inr items"
    and "(n, piece, sp) \<in> set items"
  shows "int n \<le> cap"
proof -
  let ?f = "if only then only_items enc emit content cap else segment_items enc dec emit content overlap cap"
  from assms(2) have "collect_items ?f (zip (py_split sep content) (raw_spans (length sep) 0 (py_split sep content))) = Inr items"
    by (simp only: split_items_def Let_def)
  from collect_items_mem[OF this assms(3)] obtain raw ab ys where
    f: "?f raw ab = Inr ys" and y: "(n, piece, sp) \<in> set ys" by blast
  show ?thesis
    using f y window_items_bound[of cap n piece sp dec emit] assms(1)
    by (auto simp: only_items_def segment_items_def whole_item_def window_step_def split: if_splits)
qed

lemma fixed_items_bound:
  assumes "0 \<le> overlap" and "fixed_items enc dec emit content overlap cap = Inr items"
    and "(n, piece, sp) \<in> set items"
  shows "int n \<le> cap"
  using assms window_items_bound[of cap n piece sp dec emit]
  by (auto simp: fixed_items_def window_step_def split: if_splits)


subsection \<open>Tokenizers that concatenate\<close>

text \<open>
  Where decoding is a homomorphism that undoes encoding, the prediction from the anchor is
  always right, so a window has a span just when it is not blank.
\<close>

definition concatenative :: "(pystr \<Rightarrow> 't list) \<Rightarrow> ('t list \<Rightarrow> pystr) \<Rightarrow> bool" where
  "concatenative enc dec \<longleftrightarrow> (\<forall>s. dec (enc s) = s) \<and> (\<forall>xs ys. dec (xs @ ys) = dec xs @ dec ys)"

definition verified_anchor :: "('t list \<Rightarrow> pystr) \<Rightarrow> 't list \<Rightarrow> nat \<Rightarrow> nat \<times> nat \<Rightarrow> bool" where
  "verified_anchor dec toks bound anchor \<longleftrightarrow>
     fst anchor \<le> bound \<and> snd anchor = length (dec (take (fst anchor) toks))"

lemma window_located:
  assumes hom: "\<And>xs ys. dec (xs @ ys) = dec xs @ dec ys" and "start \<le> fin"
    and "verified_anchor dec toks start anchor"
  shows "\<exists>a. verified_anchor dec toks start (start, a) \<and>
    token_window_source_span dec (dec toks) toks start fin anchor =
      (source_span (dec toks) (int a) (int (a + length (dec (slice start fin toks)))), (start, a)) \<and>
    slice a (a + length (dec (slice start fin toks))) (dec toks) = dec (slice start fin toks) \<and>
    a + length (dec (slice start fin toks)) \<le> length (dec toks)"
proof -
  let ?w = "dec (slice start fin toks)"
  define a where "a = length (dec (take start toks))"
  have k: "fst anchor \<le> start" "snd anchor = length (dec (take (fst anchor) toks))"
    using assms(3) by (auto simp: verified_anchor_def)
  have "take start toks = take (fst anchor) toks @ slice (fst anchor) start toks"
    using slice_append[of 0 "fst anchor" start toks] k(1) by (simp add: slice_def)
  then have p: "predicted_start dec toks start anchor = a"
    using k by (simp add: predicted_start_def a_def hom)
  have "take start toks @ slice start fin toks = take fin toks"
    using slice_append[of 0 start fin toks] assms(2) by (simp add: slice_def)
  then have "toks = take start toks @ slice start fin toks @ drop fin toks"
    by (metis append.assoc append_take_drop_id)
  then have c: "dec toks = dec (take start toks) @ ?w @ dec (drop fin toks)" by (metis hom)
  have s: "slice a (a + length ?w) (dec toks) = ?w"
    unfolding a_def by (subst c) (rule slice_middle)
  have l: "a + length ?w \<le> length (dec toks)" using arg_cong[OF c, of length] by (simp add: a_def)
  have "token_window_source_span dec (dec toks) toks start fin anchor =
      (source_span (dec toks) (int a) (int (a + length ?w)), (start, a))"
    unfolding token_window_source_span_def Let_def p using s by simp
  moreover have "verified_anchor dec toks start (start, a)" by (simp add: verified_anchor_def a_def)
  ultimately show ?thesis using s l by blast
qed

lemma window_items_complete:
  assumes hom: "\<And>xs ys. dec (xs @ ys) = dec xs @ dec ys"
  shows "verified_anchor dec toks x anchor \<Longrightarrow>
    (n, piece, sp) \<in> set (window_items dec True base (dec toks) toks cap anchor (py_range x (length toks) step)) \<Longrightarrow>
    (sp = None) = blank piece"
proof (induction x "length toks" step arbitrary: anchor rule: py_range.induct)
  case (1 x step)
  show ?case
  proof (cases "x < length toks \<and> 0 < step")
    case False
    then show ?thesis using "1.prems" by (simp add: py_range_Nil)
  next
    case True
    let ?fin = "min (x + cap) (length toks)"
    obtain a where a: "verified_anchor dec toks x (x, a)"
      and tw: "token_window_source_span dec (dec toks) toks x ?fin anchor =
        (source_span (dec toks) (int a) (int (a + length (dec (slice x ?fin toks)))), (x, a))"
      and s: "slice a (a + length (dec (slice x ?fin toks))) (dec toks) = dec (slice x ?fin toks)"
      and l: "a + length (dec (slice x ?fin toks)) \<le> length (dec toks)"
      using window_located[OF hom, of x ?fin toks anchor] "1.prems"(1) True by auto
    have next_anchor: "verified_anchor dec toks (x + step) (x, a)" using a by (simp add: verified_anchor_def)
    from "1.prems"(2) consider
        "piece = dec (slice x ?fin toks)" "sp = map_option (shift_span base) (source_span (dec toks) (int a) (int (a + length (dec (slice x ?fin toks)))))"
      | "(n, piece, sp) \<in> set (window_items dec True base (dec toks) toks cap (x, a) (py_range (x + step) (length toks) step))"
      using True by (auto simp: py_range_Cons Let_def tw)
    then show ?thesis
    proof cases
      case 1
      then show ?thesis using source_span_exact(2)[OF _ l s] by simp
    next
      case 2
      then show ?thesis using "1.hyps"[OF True next_anchor] by blast
    qed
  qed
qed

lemma whole_item_complete:
  assumes "b = a + length raw" and "slice a b content = raw" and "b \<le> length content"
    and "(n, piece, sp) = whole_item enc True content raw (a, b)"
  shows "(sp = None) = blank piece"
  using source_span_exact(2)[of a b content raw] assms by (auto simp: whole_item_def)

lemma anchor_0: "concatenative enc dec \<Longrightarrow> verified_anchor dec toks 0 (0, 0)"
  unfolding concatenative_def verified_anchor_def by (metis append_is_Nil_conv append_self_conv fst_conv le_refl list.size(3) snd_conv take0)

lemma split_items_complete:
  assumes "concatenative enc dec"
    and "split_items enc dec True content sep only overlap cap = Inr items" and "(n, piece, sp) \<in> set items"
  shows "(sp = None) = blank piece"
proof -
  let ?f = "if only then only_items enc True content cap else segment_items enc dec True content overlap cap"
  have hom: "dec (xs @ ys) = dec xs @ dec ys" and inv: "dec (enc s) = s" for xs ys s
    using assms(1) by (auto simp: concatenative_def)
  from assms(2) have "collect_items ?f (zip (py_split sep content) (raw_spans (length sep) 0 (py_split sep content))) = Inr items"
    by (simp only: split_items_def Let_def)
  from collect_items_mem[OF this assms(3)] obtain raw a b ys where
    z: "(raw, a, b) \<in> set (zip (py_split sep content) (raw_spans (length sep) 0 (py_split sep content)))"
    and f: "?f raw (a, b) = Inr ys" and y: "(n, piece, sp) \<in> set ys"
    by (metis prod.collapse)
  note g = segment_span[OF z]
  note w = window_items_complete[OF hom anchor_0[OF assms(1)], where toks = "enc raw", unfolded inv]
  show ?thesis
    using f y whole_item_complete[OF g, of n piece sp enc] w[of n piece sp]
    by (auto simp: only_items_def segment_items_def split: if_splits sum.splits)
qed

lemma fixed_items_complete:
  assumes "concatenative enc dec"
    and "fixed_items enc dec True content overlap cap = Inr items" and "(n, piece, sp) \<in> set items"
  shows "(sp = None) = blank piece"
proof -
  have hom: "dec (xs @ ys) = dec xs @ dec ys" and inv: "dec (enc s) = s" for xs ys s
    using assms(1) by (auto simp: concatenative_def)
  note w = window_items_complete[OF hom anchor_0[OF assms(1)], where toks = "enc content", unfolded inv]
  show ?thesis using assms(2,3) w[of n piece sp] by (auto simp: fixed_items_def split: sum.splits)
qed


lemma chunking_failure:
  "failure (chunking_by_token_size enc dec content split_by only overlap cap emit)
     = chunk_failure enc content split_by only overlap cap"
  unfolding chunking_by_token_size_def chunk_failure_def
  by (cases "overlap < 0"; cases "split_by = None \<or> split_by = Some []")
    (simp_all only: if_True if_False failure_case fixed_failure split_failure failure_simps not_True_eq_False not_False_eq_True)

lemma chunking_succeeds:
  assumes "chunk_failure enc content split_by only overlap cap = None"
  obtains cs where "chunking_by_token_size enc dec content split_by only overlap cap emit = Inr cs"
  using chunking_failure[of enc dec content split_by only overlap cap emit] assms
  by (cases "chunking_by_token_size enc dec content split_by only overlap cap emit") auto


subsection \<open>Properties\<close>

text \<open>
  C33: Without a separator the chunks are the decoded windows of the document's tokens: no
  token is lost or repeated beyond the overlap (the first \<open>cap - overlap\<close> tokens of each
  window, put together, are exactly the tokens), two neighbours share exactly \<open>overlap\<close>
  tokens, and each chunk reports the length of its window.
\<close>
theorem chunk_windows_cover:
  assumes "chunking_by_token_size enc dec content None only overlap cap emit = Inr cs"
  shows "\<exists>ws. map chunk_content cs = map (\<lambda>w. strip (dec w)) ws \<and> map chunk_tokens cs = map length ws \<and>
    concat (map (take (nat (cap - overlap))) ws) = enc content \<and>
    (\<forall>i. Suc i < length ws \<longrightarrow> drop (nat (cap - overlap)) (ws ! i) = take (nat overlap) (ws ! Suc i))"
proof -
  from chunking_items[OF assms] obtain items where
    ov: "0 \<le> overlap" and cs: "cs = number_chunks emit 0 items"
    and f: "fixed_items enc dec emit content overlap cap = Inr items" by auto
  define step where "step = nat (cap - overlap)"
  define starts where "starts = py_range 0 (length (enc content)) step"
  from f have lt: "overlap < cap"
    and it: "items = window_items dec emit 0 content (enc content) (nat cap) (0, 0) starts"
    by (auto simp: fixed_items_def window_step_def step_def starts_def split: if_splits)
  define ws where "ws = token_windows (enc content) (nat cap) starts"
  have step: "0 < step" "step \<le> nat cap" "nat cap = step + nat overlap" using lt ov by (auto simp: step_def)
  have "map chunk_content cs = map strip (map (fst \<circ> snd) items)" by (simp add: cs number_chunks_maps)
  also have "\<dots> = map (\<lambda>w. strip (dec w)) ws" unfolding it window_items_text ws_def by simp
  finally have c: "map chunk_content cs = map (\<lambda>w. strip (dec w)) ws" .
  have n: "map chunk_tokens cs = map length ws"
    by (simp add: cs number_chunks_maps it window_items_fst ws_def)
  have k: "concat (map (take step) ws) = enc content"
    using windows_cover[OF step(1,2), of "enc content" 0] by (simp add: ws_def starts_def)
  have o: "drop step (ws ! i) = take (nat overlap) (ws ! Suc i)" if "Suc i < length ws" for i
    using windows_overlap[OF _ step(3), of i 0 "enc content"] that
    by (simp add: ws_def starts_def token_windows_def)
  show ?thesis using c n k o unfolding step_def by blast
qed

lemma chunk_windows_cover_witness:
  "\<exists>cs ws. chunking_by_token_size id id [1, 2, 3, 4, 5, 6, 7] None False 1 3 True = Inr cs \<and>
     map chunk_content cs = map strip ws \<and> concat (map (take 2) ws) = ([1, 2, 3, 4, 5, 6, 7] :: pystr)"
proof -
  have "chunk_failure id [1, 2, 3, 4, 5, 6, 7] None False 1 3 = None" by (simp add: chunk_failure_def)
  then obtain cs where cs: "chunking_by_token_size id id [1, 2, 3, 4, 5, 6, 7] None False 1 3 True = Inr cs"
    by (rule chunking_succeeds)
  from chunk_windows_cover[OF this] show ?thesis using cs by auto
qed

text \<open>
  C34: A span is where the chunk is: whatever the tokenizer does, a chunk that carries a span
  has the document's characters between its two offsets as its content.
\<close>
theorem chunk_spans_exact:
  assumes "chunking_by_fixed_token enc dec content cap overlap split_by only emit = Inr cs"
    and "c \<in> set cs" and "chunk_span c = Some (a, b)"
  shows "emit \<and> a < b \<and> b \<le> length content \<and> slice a b content = chunk_content c"
proof -
  from chunking_items[OF assms(1)[unfolded chunking_by_fixed_token_def]] obtain items where
    cs: "cs = number_chunks emit 0 items"
    and f: "split_by = None \<or> split_by = Some [] \<Longrightarrow> fixed_items enc dec emit content overlap cap = Inr items"
    and s: "\<And>sep. split_by = Some sep \<Longrightarrow> sep \<noteq> [] \<Longrightarrow> split_items enc dec emit content sep only overlap cap = Inr items"
    by blast
  from number_chunks_mem[OF assms(2)[unfolded cs]] assms(3) obtain n piece sp where
    m: "(n, piece, sp) \<in> set items" "chunk_content c = strip piece" "emit" "sp = Some (a, b)"
    by (metis option.distinct(1))
  have "span_of content piece sp"
    using fixed_items_spans[OF f m(1)] split_items_spans[OF s m(1)] by (cases split_by) auto
  then show ?thesis using m by (simp add: span_of_def)
qed


text \<open>Two characters with a blank before and after, one token for each character.\<close>

lemma chunk_demo:
  "chunking_by_fixed_token id id [32, 97, 98, 32] 5 0 None False True =
     Inr [\<lparr> chunk_tokens = 4, chunk_content = [97, 98], chunk_order_index = 0, chunk_span = Some (1, 3) \<rparr>]"
  by (simp add: chunking_by_fixed_token_def chunking_by_token_size_def fixed_items_def window_step_def
    py_range_Cons py_range_Nil token_window_source_span_def predicted_start_def source_span_def trimmed_span_def
    slice_def make_chunk_def strip_def lstrip_def rstrip_def py_space_def trim_left_step trim_left_stop
    trim_right_numeral shift_span_def)

lemma chunk_spans_exact_witness: "slice 1 3 [32, 97, 98, 32] = ([97, 98] :: pystr)"
  using chunk_spans_exact[OF chunk_demo, where a = 1 and b = 3] by simp

text \<open>
  A tokenizer that concatenates and round-trips locates every chunk: with spans asked for,
  a chunk has one exactly when its content is not empty.
\<close>
theorem chunk_spans_complete:
  assumes "chunking_by_fixed_token enc dec content cap overlap split_by only True = Inr cs"
    and "c \<in> set cs" and "concatenative enc dec"
  shows "chunk_span c = None \<longleftrightarrow> chunk_content c = []"
proof -
  from chunking_items[OF assms(1)[unfolded chunking_by_fixed_token_def]] obtain items where
    cs: "cs = number_chunks True 0 items"
    and f: "split_by = None \<or> split_by = Some [] \<Longrightarrow> fixed_items enc dec True content overlap cap = Inr items"
    and s: "\<And>sep. split_by = Some sep \<Longrightarrow> sep \<noteq> [] \<Longrightarrow> split_items enc dec True content sep only overlap cap = Inr items"
    by blast
  from number_chunks_mem[OF assms(2)[unfolded cs]] obtain n piece sp where
    m: "(n, piece, sp) \<in> set items" "chunk_content c = strip piece" "chunk_span c = sp" by auto
  have "(sp = None) = blank piece"
    using fixed_items_complete[OF assms(3) f m(1)] split_items_complete[OF assms(3) s m(1)] by (cases split_by) auto
  then show ?thesis using m by (simp add: strip_idem_space)
qed

lemma chunk_spans_complete_witness:
  "\<exists>c. chunking_by_fixed_token id id [32, 97, 98, 32] 5 0 None False True = Inr [c] \<and>
     chunk_content c \<noteq> [] \<and> chunk_span c \<noteq> None"
proof -
  have c: "concatenative id (id :: pystr \<Rightarrow> pystr)" by (simp add: concatenative_def)
  show ?thesis
    using chunk_spans_complete[OF chunk_demo, OF list.set_intros(1) c]
    by (intro exI conjI) (rule chunk_demo, simp_all)
qed

text \<open>
  A call fails exactly when, and as, the parameters and the segments say: a negative
  overlap always, an overlap that reaches the size as soon as a window is cut, a segment over
  the limit where the separator is the only cut; the first such segment is named.
\<close>
theorem chunk_errors_exact:
  "failure (chunking_by_token_size enc dec content split_by only overlap cap emit)
     = chunk_failure enc content split_by only overlap cap"
  by (rule chunking_failure)

text \<open>
  The chunks of a successful call are numbered from zero without a gap and none counts
  more tokens than the limit.
\<close>
theorem chunk_bounds:
  assumes "chunking_by_token_size enc dec content split_by only overlap cap emit = Inr cs"
  shows "map chunk_order_index cs = [0..<length cs] \<and> (\<forall>c \<in> set cs. int (chunk_tokens c) \<le> cap)"
proof -
  from chunking_items[OF assms] obtain items where
    ov: "0 \<le> overlap" and cs: "cs = number_chunks emit 0 items"
    and f: "split_by = None \<or> split_by = Some [] \<Longrightarrow> fixed_items enc dec emit content overlap cap = Inr items"
    and s: "\<And>sep. split_by = Some sep \<Longrightarrow> sep \<noteq> [] \<Longrightarrow> split_items enc dec emit content sep only overlap cap = Inr items"
    by blast
  have "int (chunk_tokens c) \<le> cap" if c: "c \<in> set cs" for c
  proof -
    from number_chunks_mem[OF c[unfolded cs]] obtain n piece sp where
      m: "(n, piece, sp) \<in> set items" "chunk_tokens c = n" by auto
    show ?thesis
      using fixed_items_bound[OF ov f m(1)] split_items_bound[OF ov s m(1)] m(2) by (cases split_by) auto
  qed
  then show ?thesis by (simp add: cs number_chunks_maps)
qed

lemma chunk_bounds_witness:
  "\<exists>cs. chunking_by_token_size id id [1, 44, 2, 3] (Some [44]) False 0 2 False = Inr cs \<and>
     map chunk_order_index cs = [0..<length cs]"
proof -
  have "chunk_failure id [1, 44, 2, 3] (Some [44]) False 0 2 = None" by (simp add: chunk_failure_def)
  then obtain cs where cs: "chunking_by_token_size id id [1, 44, 2, 3] (Some [44]) False 0 2 False = Inr cs"
    by (rule chunking_succeeds)
  from chunk_bounds[OF this] show ?thesis using cs by blast
qed

end
