(* ===== verification/TokenLimits.thy ===== *)
theory TokenLimits
  imports PyStrings
begin

section \<open>Splitting and truncating to a token budget\<close>

text \<open>
  The split and truncate contract of \<open>Tokenizer\<close> and its tiktoken override, and the list
  truncation of the query path (\<^verbatim>\<open>lightrag/utils.py\<close>). \<open>enc\<close> stands for the tokenizer's
  \<open>encode\<close>, of which nothing is assumed: a longer text may well have fewer tokens. The floating
  point estimates of the code are arguments too: \<open>fl n t x\<close> stands for
  \<open>int(x * (n / t))\<close> and \<open>rd n t x\<close> for \<open>int(round(x * (n / t)))\<close>, so that what is
  proved holds whatever rounding gives. Both are never negative.
\<close>

record token_span =
  span_start :: nat
  span_end :: nat
  span_tokens :: nat

datatype limit_error =
  NonPositiveBudget int
| NegativeOverlapTokens int
| TokenBudgetError nat nat pystr

definition mk_span :: "nat \<Rightarrow> nat \<Rightarrow> nat \<Rightarrow> token_span" where
  "mk_span a b n = \<lparr> span_start = a, span_end = b, span_tokens = n \<rparr>"

text \<open>\<open>len(self.encode(content[start : start + n]))\<close>\<close>

definition count_at :: "(pystr \<Rightarrow> 't list) \<Rightarrow> pystr \<Rightarrow> nat \<Rightarrow> nat \<Rightarrow> nat" where
  "count_at enc content start n = length (enc (slice start (start + n) content))"


subsection \<open>The bracketed search\<close>

text \<open>
  Doubling from a length that fits: the whole rest, or a bracket of a length that fits, its
  count, and one that overflows. The code enters with a seed that is positive and below the
  rest, so the first test never holds; it makes the recursion well-founded for all arguments.
\<close>

function double_loop :: "(nat \<Rightarrow> nat) \<Rightarrow> nat \<Rightarrow> nat \<Rightarrow> nat \<Rightarrow> nat \<Rightarrow> (nat \<times> nat) + (nat \<times> nat \<times> nat)" where
  "double_loop cnt m rest good good_count =
     (if good = 0 \<or> rest \<le> good then Inl (good, good_count)
      else if m < cnt (min rest (good * 2)) then Inr (good, good_count, min rest (good * 2))
      else if min rest (good * 2) = rest then Inl (rest, cnt rest)
      else double_loop cnt m rest (min rest (good * 2)) (cnt (min rest (good * 2))))"
  by pat_completeness auto
termination by (relation "measure (\<lambda>(_, _, rest, good, _). rest - good)") auto

text \<open>Halving from a length that overflows.\<close>

function halve_loop :: "(nat \<Rightarrow> nat) \<Rightarrow> nat \<Rightarrow> nat \<Rightarrow> nat \<times> nat \<times> nat" where
  "halve_loop cnt m bad =
     (if 1 < bad then
        if cnt (bad div 2) \<le> m then (bad div 2, cnt (bad div 2), bad) else halve_loop cnt m (bad div 2)
      else (0, 0, bad))"
  by pat_completeness auto
termination by (relation "measure (\<lambda>(_, _, bad). bad)") auto

function bisect_loop :: "(nat \<Rightarrow> nat) \<Rightarrow> nat \<Rightarrow> nat \<Rightarrow> nat \<Rightarrow> nat \<Rightarrow> nat \<times> nat" where
  "bisect_loop cnt m good good_count bad =
     (if 1 < bad - good then
        if cnt ((good + bad) div 2) \<le> m
        then bisect_loop cnt m ((good + bad) div 2) (cnt ((good + bad) div 2)) bad
        else bisect_loop cnt m good good_count ((good + bad) div 2)
      else (good, good_count))"
  by pat_completeness auto
termination by (relation "measure (\<lambda>(_, _, good, _, bad). bad - good)") auto

declare double_loop.simps [simp del] halve_loop.simps [simp del] bisect_loop.simps [simp del]

text \<open>After the search: the length found, or the first code point alone.\<close>

definition close_span :: "(pystr \<Rightarrow> 't list) \<Rightarrow> pystr \<Rightarrow> nat \<Rightarrow> nat \<Rightarrow> nat \<times> nat \<Rightarrow> limit_error + token_span" where
  "close_span enc content start m found =
     (if 0 < fst found then Inr (mk_span start (start + fst found) (snd found))
      else if m < count_at enc content start 1
      then Inl (TokenBudgetError m (count_at enc content start 1) (slice start (start + 80) content))
      else Inr (mk_span start (start + 1) (count_at enc content start 1)))"

definition bounded_prefix_span ::
  "(pystr \<Rightarrow> 't list) \<Rightarrow> pystr \<Rightarrow> nat \<Rightarrow> nat \<Rightarrow> nat \<Rightarrow> limit_error + token_span" where
  "bounded_prefix_span enc content start m estimate =
     (let rest = length content - start;
          seed = min rest (max 1 estimate);
          cnt = count_at enc content start
      in if cnt seed \<le> m then
           if seed = rest then Inr (mk_span start (start + seed) (cnt seed))
           else (case double_loop cnt m rest seed (cnt seed) of
                   Inl (good, n) \<Rightarrow> Inr (mk_span start (start + good) n)
                 | Inr (good, n, bad) \<Rightarrow> close_span enc content start m (bisect_loop cnt m good n bad))
         else (case halve_loop cnt m seed of
                 (good, n, bad) \<Rightarrow> close_span enc content start m (bisect_loop cnt m good n bad)))"

definition truncate_by_token_limit ::
  "(nat \<Rightarrow> nat \<Rightarrow> nat \<Rightarrow> nat) \<Rightarrow> (pystr \<Rightarrow> 't list) \<Rightarrow> pystr \<Rightarrow> int \<Rightarrow> limit_error + token_span" where
  "truncate_by_token_limit fl enc content m =
     (if m \<le> 0 then Inl (NonPositiveBudget m)
      else if content = [] then Inr (mk_span 0 0 0)
      else let full = length (enc content) in
        if int full \<le> m then Inr (mk_span 0 (length content) full)
        else bounded_prefix_span enc content 0 (nat m) (fl (length content) full (nat m)))"


subsection \<open>Splitting\<close>

text \<open>
  One window: the overlap retreats by 1, 2, 4, ... tokens (the step is \<open>2 ^ i\<close>) until the
  window makes progress; \<open>est\<close> and \<open>lend\<close> are the two estimates of this text.
\<close>

function retreat_loop ::
  "(pystr \<Rightarrow> 't list) \<Rightarrow> pystr \<Rightarrow> nat \<Rightarrow> nat \<Rightarrow> (nat \<Rightarrow> nat) \<Rightarrow> nat \<Rightarrow> nat \<Rightarrow> nat \<Rightarrow> limit_error + token_span" where
  "retreat_loop enc content m estimate lend covered target i =
     (let start = covered - (if 0 < target then lend target else 0) in
      case bounded_prefix_span enc content start m estimate of
        Inl e \<Rightarrow> if target = 0 then Inl e
                 else retreat_loop enc content m estimate lend covered (target - 2 ^ i) (Suc i)
      | Inr sp \<Rightarrow> if covered < span_end sp \<or> target = 0 then Inr sp
                 else retreat_loop enc content m estimate lend covered (target - 2 ^ i) (Suc i))"
  by pat_completeness auto
termination by (relation "measure (\<lambda>(_, _, _, _, _, _, target, _). target)") auto

declare retreat_loop.simps [simp del]


text \<open>A bracket: a length that fits or none, and a longer one that overflows.\<close>

definition bracket :: "(nat \<Rightarrow> nat) \<Rightarrow> nat \<Rightarrow> nat \<Rightarrow> nat \<times> nat \<times> nat \<Rightarrow> bool" where
  "bracket cnt m rest = (\<lambda>(good, n, bad). good < bad \<and> bad \<le> rest \<and> m < cnt bad \<and>
     (good = 0 \<and> n = 0 \<or> n = cnt good \<and> n \<le> m))"

text \<open>What the search ends with: no length, or one that fits and cannot be extended by one.\<close>

definition tight :: "(nat \<Rightarrow> nat) \<Rightarrow> nat \<Rightarrow> nat \<Rightarrow> nat \<times> nat \<Rightarrow> bool" where
  "tight cnt m rest = (\<lambda>(good, n). good < rest \<and> m < cnt (Suc good) \<and>
     (good = 0 \<and> n = 0 \<or> n = cnt good \<and> n \<le> m))"

lemma double_loop_bracket:
  "0 < good \<Longrightarrow> good < rest \<Longrightarrow> n = cnt good \<Longrightarrow> n \<le> m \<Longrightarrow>
   (case double_loop cnt m rest good n of Inl (g, k) \<Rightarrow> g = rest \<and> k = cnt rest \<and> k \<le> m
    | Inr b \<Rightarrow> 0 < fst b \<and> bracket cnt m rest b)"
proof (induction cnt m rest good n rule: double_loop.induct)
  case (1 cnt m rest good n)
  let ?next = "min rest (good * 2)"
  have less: "good < ?next" "?next \<le> rest" using "1.prems" by auto
  consider "m < cnt ?next" | "\<not> m < cnt ?next" "?next = rest" | "\<not> m < cnt ?next" "?next \<noteq> rest" by blast
  then show ?case
  proof cases
    case 1
    then have "double_loop cnt m rest good n = Inr (good, n, ?next)"
      using "1.prems" by (subst double_loop.simps) simp
    then show ?thesis using 1 less "1.prems" by (simp add: bracket_def)
  next
    case 2
    then have "double_loop cnt m rest good n = Inl (rest, cnt rest)"
      using "1.prems" by (subst double_loop.simps) simp
    then show ?thesis using 2 by simp
  next
    case 3
    then have e: "double_loop cnt m rest good n = double_loop cnt m rest ?next (cnt ?next)"
      using "1.prems" by (subst double_loop.simps) (auto simp: min_def)
    show ?thesis unfolding e
      using 3 less "1.prems" by (intro "1.IH") auto
  qed
qed

lemma halve_loop_bracket:
  "0 < bad \<Longrightarrow> bad \<le> rest \<Longrightarrow> m < cnt bad \<Longrightarrow> bracket cnt m rest (halve_loop cnt m bad)"
proof (induction cnt m bad rule: halve_loop.induct)
  case (1 cnt m bad)
  show ?case
  proof (cases "1 < bad")
    case False
    then show ?thesis using "1.prems" by (subst halve_loop.simps) (auto simp: bracket_def)
  next
    case True
    show ?thesis
    proof (cases "cnt (bad div 2) \<le> m")
      case fits: True
      then show ?thesis using True "1.prems" by (subst halve_loop.simps) (simp add: bracket_def)
    next
      case False
      then have e: "halve_loop cnt m bad = halve_loop cnt m (bad div 2)"
        using True by (subst halve_loop.simps) simp
      show ?thesis unfolding e using True False "1.prems" by (intro "1.IH") auto
    qed
  qed
qed

lemma bisect_loop_tight:
  "bracket cnt m rest (good, n, bad) \<Longrightarrow> tight cnt m rest (bisect_loop cnt m good n bad) \<and>
   (0 < good \<longrightarrow> 0 < fst (bisect_loop cnt m good n bad))"
proof (induction cnt m good n bad rule: bisect_loop.induct)
  case (1 cnt m good n bad)
  let ?mid = "(good + bad) div 2"
  show ?case
  proof (cases "1 < bad - good")
    case False
    then have e: "bisect_loop cnt m good n bad = (good, n)" by (subst bisect_loop.simps) simp
    have "bad = Suc good" using False "1.prems" by (auto simp: bracket_def)
    then show ?thesis unfolding e using "1.prems" by (auto simp: bracket_def tight_def)
  next
    case True
    then have mid: "good < ?mid" "?mid < bad" by auto
    show ?thesis
    proof (cases "cnt ?mid \<le> m")
      case fits: True
      have e: "bisect_loop cnt m good n bad = bisect_loop cnt m ?mid (cnt ?mid) bad"
        using True fits by (subst bisect_loop.simps) simp
      have "bracket cnt m rest (?mid, cnt ?mid, bad)" using "1.prems" mid fits by (auto simp: bracket_def)
      then show ?thesis unfolding e using "1.IH"(1)[OF True fits] mid by simp
    next
      case False
      have e: "bisect_loop cnt m good n bad = bisect_loop cnt m good n ?mid"
        using True False by (subst bisect_loop.simps) simp
      have "bracket cnt m rest (good, n, ?mid)" using "1.prems" mid False by (auto simp: bracket_def)
      then show ?thesis unfolding e using "1.IH"(2)[OF True False] by simp
    qed
  qed
qed

text \<open>
  A span is verified when it is a non-empty part of the text whose own encoding has the count
  it reports, within the budget, and when one more character would be over the budget.
\<close>

definition verified :: "(pystr \<Rightarrow> 't list) \<Rightarrow> pystr \<Rightarrow> nat \<Rightarrow> token_span \<Rightarrow> bool" where
  "verified enc content m sp \<longleftrightarrow>
     span_start sp < span_end sp \<and> span_end sp \<le> length content \<and>
     span_tokens sp = length (enc (slice (span_start sp) (span_end sp) content)) \<and> span_tokens sp \<le> m"

definition maximal_span :: "(pystr \<Rightarrow> 't list) \<Rightarrow> pystr \<Rightarrow> nat \<Rightarrow> token_span \<Rightarrow> bool" where
  "maximal_span enc content m sp \<longleftrightarrow>
     span_end sp = length content \<or> m < length (enc (slice (span_start sp) (Suc (span_end sp)) content))"

lemma close_span_tight:
  assumes "tight (count_at enc content start) m (length content - start) found"
  shows "(\<exists>sp. close_span enc content start m found = Inr sp \<and> span_start sp = start \<and>
            verified enc content m sp \<and> maximal_span enc content m sp) \<or>
         fst found = 0 \<and> m < count_at enc content start 1 \<and>
         close_span enc content start m found =
           Inl (TokenBudgetError m (count_at enc content start 1) (slice start (start + 80) content))"
  using assms
  by (cases found) (auto simp: tight_def close_span_def verified_def maximal_span_def mk_span_def count_at_def)

text \<open>The search: a verified span that is maximal in this sense, or a first character over budget.\<close>

lemma bounded_prefix_cases:
  assumes "start < length content"
  obtains (span) sp where "bounded_prefix_span enc content start m estimate = Inr sp" "span_start sp = start"
      "verified enc content m sp" "maximal_span enc content m sp"
    | (budget) "bounded_prefix_span enc content start m estimate =
        Inl (TokenBudgetError m (count_at enc content start 1) (slice start (start + 80) content))"
      "m < count_at enc content start 1"
proof -
  let ?rest = "length content - start" and ?cnt = "count_at enc content start"
  define seed where "seed = min ?rest (max 1 estimate)"
  have seed: "0 < seed" "seed \<le> ?rest" using assms by (auto simp: seed_def)
  note unf = bounded_prefix_span_def[of enc content start m estimate, unfolded Let_def, folded seed_def]
  consider (all) "?cnt seed \<le> m" "seed = ?rest" | (up) "?cnt seed \<le> m" "seed \<noteq> ?rest" | (down) "\<not> ?cnt seed \<le> m"
    by blast
  then show ?thesis
  proof cases
    case all
    have "bounded_prefix_span enc content start m estimate = Inr (mk_span start (start + seed) (?cnt seed))"
      unfolding unf by (simp only: if_P[OF all(1)] if_P[OF all(2)])
    then show ?thesis
      using all seed by (intro span) (auto simp: mk_span_def verified_def maximal_span_def count_at_def)
  next
    case up
    have d: "case double_loop ?cnt m ?rest seed (?cnt seed) of
        Inl (g, k) \<Rightarrow> g = ?rest \<and> k = ?cnt ?rest \<and> k \<le> m
      | Inr b \<Rightarrow> 0 < fst b \<and> bracket ?cnt m ?rest b"
      using up seed by (intro double_loop_bracket) auto
    show ?thesis
    proof (cases "double_loop ?cnt m ?rest seed (?cnt seed)")
      case (Inl gk)
      then obtain g k where gk: "double_loop ?cnt m ?rest seed (?cnt seed) = Inl (g, k)" by (cases gk) auto
      have "bounded_prefix_span enc content start m estimate = Inr (mk_span start (start + g) k)"
        unfolding unf by (simp only: up if_True if_False simp_thms gk sum.case prod.case)
      then show ?thesis
        using d gk seed by (intro span) (auto simp: mk_span_def verified_def maximal_span_def count_at_def)
    next
      case (Inr b)
      then obtain g k bad where gk: "double_loop ?cnt m ?rest seed (?cnt seed) = Inr (g, k, bad)" by (cases b) auto
      have e: "bounded_prefix_span enc content start m estimate = close_span enc content start m (bisect_loop ?cnt m g k bad)"
        unfolding unf by (simp only: up if_True if_False simp_thms gk sum.case prod.case)
      have "bracket ?cnt m ?rest (g, k, bad)" using d gk by simp
      from close_span_tight[OF conjunct1[OF bisect_loop_tight[OF this]]] show ?thesis
        unfolding e[symmetric] using span budget by blast
    qed
  next
    case down
    obtain g k bad where gk: "halve_loop ?cnt m seed = (g, k, bad)" by (cases "halve_loop ?cnt m seed")
    have e: "bounded_prefix_span enc content start m estimate = close_span enc content start m (bisect_loop ?cnt m g k bad)"
      unfolding unf by (simp only: down if_False gk prod.case)
    have "bracket ?cnt m ?rest (g, k, bad)"
      using halve_loop_bracket[of seed ?rest m ?cnt] seed down gk by simp
    from close_span_tight[OF conjunct1[OF bisect_loop_tight[OF this]]] show ?thesis
      unfolding e[symmetric] using span budget by blast
  qed
qed


text \<open>An accepted window reaches past what is covered, so the split always ends.\<close>

lemma retreat_cases:
  assumes "covered < length content"
  shows "(\<exists>sp. retreat_loop enc content m estimate lend covered target i = Inr sp \<and>
            span_start sp \<le> covered \<and> covered < span_end sp \<and> verified enc content m sp) \<or>
         (retreat_loop enc content m estimate lend covered target i =
            Inl (TokenBudgetError m (count_at enc content covered 1) (slice covered (covered + 80) content)) \<and>
          m < count_at enc content covered 1)"
  using assms
proof (induction enc content m estimate lend covered target i rule: retreat_loop.induct)
  case (1 enc content m estimate lend covered target i)
  define start where "start = covered - (if 0 < target then lend target else 0)"
  have s: "start < length content" "start \<le> covered" using "1.prems" by (auto simp: start_def)
  have s0: "start = covered" if "target = 0" using that by (simp add: start_def)
  show ?case
  proof (cases rule: bounded_prefix_cases[OF s(1), of enc m estimate, case_names fits budget])
    case (fits sp)
    show ?thesis
    proof (cases "covered < span_end sp \<or> target = 0")
      case True
      have "retreat_loop enc content m estimate lend covered target i = Inr sp"
        by (subst retreat_loop.simps) (simp only: Let_def start_def[symmetric] fits(1) sum.case if_P[OF True])
      moreover have "covered < span_end sp" using True fits s0 by (auto simp: verified_def)
      ultimately show ?thesis using fits s by auto
    next
      case False
      have e: "retreat_loop enc content m estimate lend covered target i =
          retreat_loop enc content m estimate lend covered (target - 2 ^ i) (Suc i)"
        by (subst retreat_loop.simps) (simp only: Let_def start_def[symmetric] fits(1) sum.case if_not_P[OF False])
      show ?thesis unfolding e using "1.IH"(2)[OF start_def fits(1) False "1.prems"] .
    qed
  next
    case budget
    show ?thesis
    proof (cases "target = 0")
      case True
      have "retreat_loop enc content m estimate lend covered target i =
          Inl (TokenBudgetError m (count_at enc content start 1) (slice start (start + 80) content))"
        by (subst retreat_loop.simps) (simp only: Let_def start_def[symmetric] budget(1) sum.case if_P[OF True])
      then show ?thesis using budget s0 True by simp
    next
      case False
      have e: "retreat_loop enc content m estimate lend covered target i =
          retreat_loop enc content m estimate lend covered (target - 2 ^ i) (Suc i)"
        by (subst retreat_loop.simps) (simp only: Let_def start_def[symmetric] budget(1) sum.case if_not_P[OF False])
      show ?thesis unfolding e using "1.IH"(1)[OF start_def budget(1) False "1.prems"] .
    qed
  qed
qed

lemma retreat_progress:
  "covered < length content \<Longrightarrow> retreat_loop enc content m estimate lend covered target i = Inr sp \<Longrightarrow>
   span_start sp \<le> covered \<and> covered < span_end sp \<and> span_end sp \<le> length content \<and> verified enc content m sp"
  using retreat_cases[of covered content enc m estimate lend target i] by (auto simp: verified_def)

function split_loop ::
  "(pystr \<Rightarrow> 't list) \<Rightarrow> pystr \<Rightarrow> nat \<Rightarrow> nat \<Rightarrow> (nat \<Rightarrow> nat) \<Rightarrow> nat \<Rightarrow> nat \<Rightarrow> nat \<Rightarrow> limit_error + token_span list" where
  "split_loop enc content m estimate lend overlap covered prev_tokens =
     (if covered < length content then
        (case retreat_loop enc content m estimate lend covered
                (if 0 < covered then min overlap (prev_tokens - 1) else 0) 0 of
           Inl e \<Rightarrow> Inl e
         | Inr sp \<Rightarrow>
             (case split_loop enc content m estimate lend overlap (span_end sp) (span_tokens sp) of
                Inl e \<Rightarrow> Inl e
              | Inr sps \<Rightarrow> Inr (sp # sps)))
      else Inr [])"
  by pat_completeness auto
termination
  by (relation "measure (\<lambda>(_, content, _, _, _, _, covered, _). length content - covered)")
    (auto dest: retreat_progress)

declare split_loop.simps [simp del]

definition split_by_token_limit ::
  "(nat \<Rightarrow> nat \<Rightarrow> nat \<Rightarrow> nat) \<Rightarrow> (nat \<Rightarrow> nat \<Rightarrow> nat \<Rightarrow> nat) \<Rightarrow> (pystr \<Rightarrow> 't list) \<Rightarrow> pystr \<Rightarrow> int \<Rightarrow> int \<Rightarrow> limit_error + token_span list" where
  "split_by_token_limit fl rd enc content m overlap =
     (if m \<le> 0 then Inl (NonPositiveBudget m)
      else if overlap < 0 then Inl (NegativeOverlapTokens overlap)
      else if content = [] then Inr []
      else let total = length (enc content) in
        if int total \<le> m then Inr [mk_span 0 (length content) total]
        else split_loop enc content (nat m) (fl (length content) total (nat m)) (rd (length content) total)
               (nat overlap) 0 0)"


subsection \<open>Truncating a list of rendered items\<close>

fun rendered_prefix_from :: "nat \<Rightarrow> nat \<Rightarrow> nat \<Rightarrow> nat \<Rightarrow> pystr list \<Rightarrow> nat" where
  "rendered_prefix_from sep_len safe_end i cumulative [] = i"
| "rendered_prefix_from sep_len safe_end i cumulative (x # xs) =
     (if safe_end < cumulative + (if 0 < i then sep_len else 0) + length x then i
      else rendered_prefix_from sep_len safe_end (Suc i) (cumulative + (if 0 < i then sep_len else 0) + length x) xs)"

definition rendered_prefix_item_count :: "pystr list \<Rightarrow> pystr \<Rightarrow> nat \<Rightarrow> nat" where
  "rendered_prefix_item_count rendered sep safe_end = rendered_prefix_from (length sep) safe_end 0 0 rendered"

text \<open>The final check re-encodes what is kept and gives items lend until it fits.\<close>

fun shrink_to_fit :: "(pystr \<Rightarrow> 't list) \<Rightarrow> pystr \<Rightarrow> int \<Rightarrow> pystr list \<Rightarrow> nat \<Rightarrow> nat" where
  "shrink_to_fit enc sep m rendered 0 = 0"
| "shrink_to_fit enc sep m rendered (Suc k) =
     (if int (length (enc (py_join sep (take (Suc k) rendered)))) \<le> m then Suc k
      else shrink_to_fit enc sep m rendered k)"

text \<open>\<open>trunc\<close> is the tokenizer's \<open>truncate_by_token_limit\<close>, of either class.\<close>

definition truncate_list_by_token_size ::
  "(pystr \<Rightarrow> int \<Rightarrow> limit_error + token_span) \<Rightarrow> (pystr \<Rightarrow> 't list) \<Rightarrow> 'a list \<Rightarrow> ('a \<Rightarrow> pystr) \<Rightarrow> pystr \<Rightarrow> int \<Rightarrow> 'a list" where
  "truncate_list_by_token_size trunc enc xs key sep m =
     (if m \<le> 0 \<or> xs = [] then []
      else case trunc (py_join sep (map key xs)) m of
             Inl e \<Rightarrow> []
           | Inr sp \<Rightarrow>
               take (shrink_to_fit enc sep m (map key xs)
                       (rendered_prefix_item_count (map key xs) sep (span_end sp))) xs)"


subsection \<open>Coverage\<close>

text \<open>Spans that leave no gap, each reaching further than what came before.\<close>

fun tiles :: "nat \<Rightarrow> nat \<Rightarrow> token_span list \<Rightarrow> bool" where
  "tiles covered len [] \<longleftrightarrow> covered = len"
| "tiles covered len (sp # sps) \<longleftrightarrow>
     span_start sp \<le> covered \<and> covered < span_end sp \<and> tiles (span_end sp) len sps"

text \<open>What each span adds to the text before it.\<close>

fun added_text :: "pystr \<Rightarrow> nat \<Rightarrow> token_span list \<Rightarrow> pystr" where
  "added_text content covered [] = []"
| "added_text content covered (sp # sps) =
     slice covered (span_end sp) content @ added_text content (span_end sp) sps"

lemma tiles_le: "tiles covered len sps \<Longrightarrow> covered \<le> len"
  by (induction sps arbitrary: covered) fastforce+

lemma tiles_text: "tiles covered (length content) sps \<Longrightarrow> added_text content covered sps = slice covered (length content) content"
proof (induction sps arbitrary: covered)
  case Nil
  then show ?case by simp
next
  case (Cons sp sps)
  then have "span_end sp \<le> length content" using tiles_le by auto
  with Cons show ?case using slice_append[of covered "span_end sp" "length content" content] by simp
qed

lemma split_loop_tiles:
  "covered \<le> length content \<Longrightarrow> split_loop enc content m estimate lend overlap covered prev = Inr sps \<Longrightarrow>
   tiles covered (length content) sps \<and> (\<forall>sp \<in> set sps. verified enc content m sp)"
proof (induction enc content m estimate lend overlap covered prev arbitrary: sps rule: split_loop.induct)
  case (1 enc content m estimate lend overlap covered prev)
  let ?r = "retreat_loop enc content m estimate lend covered (if 0 < covered then min overlap (prev - 1) else 0) 0"
  show ?case
  proof (cases "covered < length content")
    case False
    then show ?thesis using "1.prems" by (subst (asm) split_loop.simps) simp
  next
    case True
    with "1.prems"(2) obtain sp sps' where r: "?r = Inr sp"
      and s: "split_loop enc content m estimate lend overlap (span_end sp) (span_tokens sp) = Inr sps'"
      and sps: "sps = sp # sps'"
      by (subst (asm) split_loop.simps) (auto split: sum.splits)
    note g = retreat_progress[OF True r]
    have "tiles (span_end sp) (length content) sps' \<and> (\<forall>sp \<in> set sps'. verified enc content m sp)"
      using "1.IH"[OF True r _ s] g by blast
    then show ?thesis using g by (simp add: sps)
  qed
qed

lemma split_loop_error:
  "split_loop enc content m estimate lend overlap covered prev = Inl e \<Longrightarrow>
   \<exists>pos < length content. m < length (enc [content ! pos]) \<and>
     e = TokenBudgetError m (length (enc [content ! pos])) (slice pos (pos + 80) content)"
proof (induction enc content m estimate lend overlap covered prev rule: split_loop.induct)
  case (1 enc content m estimate lend overlap covered prev)
  let ?t = "if 0 < covered then min overlap (prev - 1) else 0"
  let ?r = "retreat_loop enc content m estimate lend covered ?t 0"
  show ?case
  proof (cases "covered < length content")
    case False
    then show ?thesis using "1.prems" by (subst (asm) split_loop.simps) simp
  next
    case True
    show ?thesis
    proof (cases ?r)
      case (Inl e')
      then have "e = e'" using "1.prems" True by (subst (asm) split_loop.simps) simp
      moreover have "slice covered (covered + 1) content = [content ! covered]" using True by (simp add: slice_Cons)
      ultimately show ?thesis
        using retreat_cases[OF True, of enc m estimate lend ?t 0] Inl True
        by (intro exI[of _ covered]) (auto simp: count_at_def)
    next
      case (Inr sp)
      then have "split_loop enc content m estimate lend overlap (span_end sp) (span_tokens sp) = Inl e"
        using "1.prems" True by (subst (asm) split_loop.simps) (auto split: sum.splits)
      then show ?thesis using "1.IH"[OF True Inr] by blast
    qed
  qed
qed

text \<open>The four outcomes of a split and of a truncation.\<close>

lemma split_cases:
  obtains (bad_budget) "m \<le> 0" "split_by_token_limit fl rd enc content m overlap = Inl (NonPositiveBudget m)"
  | (bad_overlap) "0 < m" "overlap < 0" "split_by_token_limit fl rd enc content m overlap = Inl (NegativeOverlapTokens overlap)"
  | (spans) sps where "0 < m" "0 \<le> overlap" "split_by_token_limit fl rd enc content m overlap = Inr sps"
      "tiles 0 (length content) sps" "\<forall>sp \<in> set sps. verified enc content (nat m) sp"
  | (budget) pos where "0 < m" "0 \<le> overlap" "pos < length content" "m < int (length (enc [content ! pos]))"
      "split_by_token_limit fl rd enc content m overlap =
         Inl (TokenBudgetError (nat m) (length (enc [content ! pos])) (slice pos (pos + 80) content))"
proof -
  consider "m \<le> 0" | "0 < m" "overlap < 0" | "0 < m" "0 \<le> overlap" "content = []"
    | "0 < m" "0 \<le> overlap" "content \<noteq> []" "int (length (enc content)) \<le> m"
    | "0 < m" "0 \<le> overlap" "content \<noteq> []" "m < int (length (enc content))" by linarith
  then show ?thesis
  proof cases
    case 1
    then show ?thesis using bad_budget by (simp add: split_by_token_limit_def)
  next
    case 2
    then show ?thesis using bad_overlap by (simp add: split_by_token_limit_def)
  next
    case 3
    then show ?thesis using spans by (simp add: split_by_token_limit_def)
  next
    case 4
    then show ?thesis
      by (intro spans) (auto simp: split_by_token_limit_def Let_def mk_span_def verified_def slice_whole)
  next
    case 5
    then have e: "split_by_token_limit fl rd enc content m overlap =
        split_loop enc content (nat m) (fl (length content) (length (enc content)) (nat m))
          (rd (length content) (length (enc content))) (nat overlap) 0 0"
      by (simp add: split_by_token_limit_def Let_def)
    show ?thesis
    proof (cases "split_by_token_limit fl rd enc content m overlap")
      case (Inl x)
      then obtain pos where "pos < length content" "nat m < length (enc [content ! pos])"
          "x = TokenBudgetError (nat m) (length (enc [content ! pos])) (slice pos (pos + 80) content)"
        using split_loop_error[of enc content "nat m"] e by metis
      then show ?thesis using Inl 5 by (intro budget[of pos]) auto
    next
      case (Inr sps)
      then show ?thesis using split_loop_tiles[of 0 content enc "nat m"] e 5 by (auto intro!: spans)
    qed
  qed
qed


lemma truncate_cases:
  obtains (bad_budget) "m \<le> 0" "truncate_by_token_limit fl enc content m = Inl (NonPositiveBudget m)"
  | (empty) "0 < m" "content = []" "truncate_by_token_limit fl enc content m = Inr (mk_span 0 0 0)"
  | (fits) sp where "0 < m" "content \<noteq> []" "truncate_by_token_limit fl enc content m = Inr sp" "span_start sp = 0"
      "verified enc content (nat m) sp" "maximal_span enc content (nat m) sp"
      "int (length (enc content)) \<le> m \<Longrightarrow> span_end sp = length content"
  | (budget) "0 < m" "content \<noteq> []" "m < int (length (enc content))" "m < int (length (enc [content ! 0]))"
      "truncate_by_token_limit fl enc content m =
         Inl (TokenBudgetError (nat m) (length (enc [content ! 0])) (take 80 content))"
proof -
  consider "m \<le> 0" | "0 < m" "content = []" | "0 < m" "content \<noteq> []" "int (length (enc content)) \<le> m"
    | "0 < m" "content \<noteq> []" "m < int (length (enc content))" by linarith
  then show ?thesis
  proof cases
    case 1
    then show ?thesis using bad_budget by (simp add: truncate_by_token_limit_def)
  next
    case 2
    then show ?thesis using empty by (simp add: truncate_by_token_limit_def)
  next
    case 3
    then show ?thesis
      by (intro fits) (auto simp: truncate_by_token_limit_def Let_def mk_span_def verified_def maximal_span_def slice_whole)
  next
    case 4
    then have e: "truncate_by_token_limit fl enc content m =
        bounded_prefix_span enc content 0 (nat m) (fl (length content) (length (enc content)) (nat m))"
      by (simp add: truncate_by_token_limit_def Let_def)
    have pos: "0 < length content" using 4 by simp
    have first: "count_at enc content 0 1 = length (enc [content ! 0])"
      using pos by (cases content) (simp_all add: count_at_def slice_def)
    show ?thesis
    proof (cases rule: bounded_prefix_cases[OF pos, of enc "nat m" "fl (length content) (length (enc content)) (nat m)", case_names span over])
      case (span sp)
      then show ?thesis using 4 e by (intro fits) auto
    next
      case over
      then show ?thesis using 4 e first by (intro budget) (auto simp: slice_def)
    qed
  qed
qed

lemma rendered_prefix_le:
  "rendered_prefix_from sl safe i c xs \<le> i + length xs"
  by (induction sl safe i c xs rule: rendered_prefix_from.induct) auto

lemma rendered_prefix_all:
  "0 < i \<Longrightarrow> c + (\<Sum>x \<leftarrow> xs. sl + length x) \<le> safe \<Longrightarrow> rendered_prefix_from sl safe i c xs = i + length xs"
  by (induction sl safe i c xs rule: rendered_prefix_from.induct) (auto simp: add.assoc)

lemma length_py_join: "length (py_join sep (x # xs)) = length x + (\<Sum>y \<leftarrow> xs. length sep + length y)"
  by (induction xs arbitrary: x) auto

lemma rendered_all: "rendered_prefix_item_count xs sep (length (py_join sep xs)) = length xs"
  by (cases xs) (auto simp: rendered_prefix_item_count_def length_py_join rendered_prefix_all)

lemma shrink_le: "shrink_to_fit enc sep m xs k \<le> k"
  by (induction k) auto

lemma shrink_fits:
  "shrink_to_fit enc sep m xs k \<noteq> 0 \<Longrightarrow> int (length (enc (py_join sep (take (shrink_to_fit enc sep m xs k) xs)))) \<le> m"
  by (induction k) auto

lemma shrink_id: "int (length (enc (py_join sep (take k xs)))) \<le> m \<Longrightarrow> shrink_to_fit enc sep m xs k = k"
  by (cases k) auto


lemma truncate_list_shape:
  "\<exists>k. truncate_list_by_token_size trunc enc xs key sep m = take (shrink_to_fit enc sep m (map key xs) k) xs"
proof (cases "m \<le> 0 \<or> xs = []")
  case True
  then show ?thesis by (intro exI[of _ 0]) (auto simp: truncate_list_by_token_size_def)
next
  case False
  then show ?thesis
    by (cases "trunc (py_join sep (map key xs)) m")
      (auto simp: truncate_list_by_token_size_def intro: exI[of _ 0])
qed


subsection \<open>Properties\<close>

text \<open>
  For the examples: a tokenizer that merges a doubled character into one token, so that its
  count is not the number of characters, and estimates by integer division.
\<close>

fun pair_enc :: "pystr \<Rightarrow> nat list" where
  "pair_enc (a # b # s) = (if a = b then a # pair_enc s else a # pair_enc (b # s))"
| "pair_enc s = s"

definition ratio :: "nat \<Rightarrow> nat \<Rightarrow> nat \<Rightarrow> nat" where
  "ratio n t x = x * n div t"

text \<open>
  C35: A split that succeeds covers the text: spans leave no gap and each reaches further, what
  they add in turn is the text itself, and each one's own encoding is within the budget and
  has the count it reports. This holds for every tokenizer and every rounding of the estimates.
\<close>
theorem split_covers_text:
  assumes "split_by_token_limit fl rd enc content m overlap = Inr sps"
  shows "tiles 0 (length content) sps \<and> added_text content 0 sps = content \<and>
    (\<forall>sp \<in> set sps. verified enc content (nat m) sp)"
proof -
  have "tiles 0 (length content) sps \<and> (\<forall>sp \<in> set sps. verified enc content (nat m) sp)"
    using assms by (cases rule: split_cases[of m fl rd enc content overlap]) auto
  then show ?thesis using tiles_text[of 0 content sps] by (simp add: slice_whole)
qed

lemma split_covers_text_witness:
  "\<exists>sps. split_by_token_limit ratio ratio pair_enc [1, 1, 2, 3, 3] 2 1 = Inr sps \<and>
     added_text [1, 1, 2, 3, 3] 0 sps = [1, 1, 2, 3, 3] \<and> (\<forall>sp \<in> set sps. span_tokens sp \<le> 2)"
proof -
  obtain sps where sps: "split_by_token_limit ratio ratio pair_enc [1, 1, 2, 3, 3] 2 1 = Inr sps"
    by (rule split_cases[of 2 ratio ratio pair_enc "[1, 1, 2, 3, 3]" 1]) (auto simp: less_Suc_eq numeral_eq_Suc)
  from split_covers_text[OF this] show ?thesis using sps by (auto simp: verified_def)
qed

text \<open>
  With a positive budget and an overlap that is not negative, a split returns spans for
  every text each of whose characters alone is within the budget; where it fails, it names a
  character that alone is over the budget.
\<close>
theorem split_total:
  assumes "0 < m" and "0 \<le> overlap"
  shows "((\<forall>c \<in> set content. int (length (enc [c])) \<le> m) \<longrightarrow>
      (\<exists>sps. split_by_token_limit fl rd enc content m overlap = Inr sps)) \<and>
    (\<forall>e. split_by_token_limit fl rd enc content m overlap = Inl e \<longrightarrow>
      (\<exists>pos < length content. m < int (length (enc [content ! pos])) \<and>
         e = TokenBudgetError (nat m) (length (enc [content ! pos])) (slice pos (pos + 80) content)))"
  using assms
  by (cases rule: split_cases[of m fl rd enc content overlap]) (force dest: nth_mem)+

lemma split_total_witness: "\<exists>sps. split_by_token_limit ratio ratio pair_enc [1, 1, 2, 3, 3] 1 0 = Inr sps"
  using split_total[of 1 0 "[1, 1, 2, 3, 3]" pair_enc ratio ratio] by simp

text \<open>
  A truncation starts at the beginning, fits, and is tight: one more character would be
  over the budget, unless the text ends there. It fails only where the first character alone
  is over the budget, and not at all where the whole text fits.
\<close>
theorem truncate_tight:
  assumes "0 < m" and "content \<noteq> []"
  shows "(\<exists>sp. truncate_by_token_limit fl enc content m = Inr sp \<and> span_start sp = 0 \<and>
       verified enc content (nat m) sp \<and> maximal_span enc content (nat m) sp) \<or>
     (m < int (length (enc content)) \<and> m < int (length (enc [content ! 0])) \<and>
      truncate_by_token_limit fl enc content m =
        Inl (TokenBudgetError (nat m) (length (enc [content ! 0])) (take 80 content)))"
  using assms by (cases rule: truncate_cases[of m fl enc content]) auto

lemma truncate_tight_witness:
  "\<exists>sp. truncate_by_token_limit ratio pair_enc [1, 1, 2, 3, 3] 2 = Inr sp \<and>
     maximal_span pair_enc [1, 1, 2, 3, 3] 2 sp"
  using truncate_tight[of 2 "[1, 1, 2, 3, 3]" ratio pair_enc] by auto

text \<open>
  Truncating a list keeps whole items from the front whose joined text fits the budget,
  whatever the tokenizer's truncation returned; with the generic truncation a list that fits
  is kept whole.
\<close>
theorem truncate_list_fits:
  assumes "ys = truncate_list_by_token_size trunc enc xs key sep m"
  shows "(\<exists>k. ys = take k xs) \<and> (ys = [] \<or> int (length (enc (py_join sep (map key ys)))) \<le> m) \<and>
    (trunc = truncate_by_token_limit fl enc \<and> 0 < m \<and> int (length (enc (py_join sep (map key xs)))) \<le> m \<longrightarrow> ys = xs)"
proof -
  let ?r = "map key xs"
  have a: "\<exists>k. ys = take k xs"
    unfolding assms truncate_list_by_token_size_def by (auto split: sum.splits intro: exI[of _ 0])
  have b: "ys = [] \<or> int (length (enc (py_join sep (map key ys)))) \<le> m"
  proof (cases "ys = []")
    case False
    obtain k where ys: "ys = take (shrink_to_fit enc sep m ?r k) xs"
      using truncate_list_shape[of trunc enc xs key sep m] assms by blast
    with False have "shrink_to_fit enc sep m ?r k \<noteq> 0" by auto
    from shrink_fits[OF this] show ?thesis by (simp add: ys take_map)
  qed simp
  have c: "ys = xs" if h: "trunc = truncate_by_token_limit fl enc" "0 < m" "int (length (enc (py_join sep ?r))) \<le> m"
  proof (cases "xs = []")
    case True
    then show ?thesis by (simp add: assms truncate_list_by_token_size_def)
  next
    case False
    obtain sp where sp: "truncate_by_token_limit fl enc (py_join sep ?r) m = Inr sp" "span_end sp = length (py_join sep ?r)"
      using h(2,3) by (cases rule: truncate_cases[of m fl enc "py_join sep ?r"]) (auto simp: mk_span_def)
    have "shrink_to_fit enc sep m ?r (length xs) = length xs" using h(3) by (intro shrink_id) simp
    then show ?thesis
      using False h(2) sp rendered_all[of ?r sep] by (simp add: assms truncate_list_by_token_size_def h(1))
  qed
  show ?thesis using a b c by blast
qed

lemma truncate_list_fits_witness:
  "truncate_list_by_token_size (truncate_by_token_limit ratio pair_enc) pair_enc [[1, 1], [2]] id [0] 3 = [[1, 1], [2]]"
  using truncate_list_fits[OF refl, of "truncate_by_token_limit ratio pair_enc" pair_enc "[[1, 1], [2]]" id "[0]" 3 ratio]
  by simp

end
