(* ===== verification/TiktokenLimits.thy ===== *)
theory TiktokenLimits
  imports TokenLimits
begin

section \<open>The tiktoken fast path\<close>

text \<open>
  \<open>TiktokenTokenizer\<close> (\<^verbatim>\<open>lightrag/utils.py\<close>) overrides truncate and split: it takes its
  candidates from the character offsets of the tokens of the whole text. \<open>dwo\<close> stands for
  \<open>decode_with_offsets\<close> of the library: the decoded text and the offset of each token, or
  \<open>None\<close> where it raises. A candidate is always encoded again before it is trusted.
\<close>

definition boundary :: "nat list \<Rightarrow> pystr \<Rightarrow> nat \<Rightarrow> nat" where
  "boundary offsets content k = (if k < length offsets then offsets ! k else length content)"

text \<open>
  The retreat in token space: from \<open>k\<close> tokens by 1, 2, 4, ... (the step is \<open>2 ^ i\<close>) down to one,
  skipping an end that was just tried. The result is the number of tokens that fits.
\<close>

function boundary_loop :: "(nat \<Rightarrow> nat) \<Rightarrow> (nat \<Rightarrow> nat) \<Rightarrow> nat \<Rightarrow> nat \<Rightarrow> nat \<Rightarrow> nat \<Rightarrow> nat option \<Rightarrow> nat option" where
  "boundary_loop bnd cnt m start_char k i tried =
     (if tried \<noteq> Some (bnd k) \<and> start_char < bnd k \<and> cnt (bnd k) \<le> m then Some k
      else if k \<le> 1 then None
      else boundary_loop bnd cnt m start_char (max 1 (k - 2 ^ i)) (Suc i) (Some (bnd k)))"
  by pat_completeness auto
termination by (relation "measure (\<lambda>(_, _, _, _, k, _, _). k)") (auto simp: max_def)

function advance_token :: "(nat \<Rightarrow> nat) \<Rightarrow> nat \<Rightarrow> nat \<Rightarrow> nat \<Rightarrow> nat" where
  "advance_token bnd ntoks end_char t =
     (if t < ntoks \<and> bnd t < end_char then advance_token bnd ntoks end_char (Suc t) else t)"
  by pat_completeness auto
termination by (relation "measure (\<lambda>(_, ntoks, _, t). ntoks - t)") auto

declare boundary_loop.simps [simp del] advance_token.simps [simp del]

definition prefix_span_via_boundary ::
  "(pystr \<Rightarrow> 't list) \<Rightarrow> pystr \<Rightarrow> nat \<Rightarrow> nat \<Rightarrow> nat \<Rightarrow> nat \<Rightarrow> (nat \<Rightarrow> nat) \<Rightarrow> limit_error + (token_span \<times> nat)" where
  "prefix_span_via_boundary enc content start_char start_token m ntoks bnd =
     (let cnt = (\<lambda>e. length (enc (slice start_char e content)));
          first_tokens = cnt (start_char + 1)
      in case boundary_loop (\<lambda>k. bnd (start_token + k)) cnt m start_char (min (ntoks - start_token) m) 0 None of
           Some k \<Rightarrow>
             Inr (mk_span start_char (bnd (start_token + k)) (cnt (bnd (start_token + k))), start_token + k)
         | None \<Rightarrow>
             if m < first_tokens
             then Inl (TokenBudgetError m first_tokens (slice start_char (start_char + 80) content))
             else Inr (mk_span start_char (start_char + 1) first_tokens,
                       advance_token bnd ntoks (start_char + 1) start_token))"

definition tiktoken_truncate ::
  "(nat \<Rightarrow> nat \<Rightarrow> nat \<Rightarrow> nat) \<Rightarrow> ('t list \<Rightarrow> (pystr \<times> nat list) option) \<Rightarrow> (pystr \<Rightarrow> 't list) \<Rightarrow> pystr \<Rightarrow> int \<Rightarrow> limit_error + token_span" where
  "tiktoken_truncate fl dwo enc content m =
     (if m \<le> 0 then Inl (NonPositiveBudget m)
      else if content = [] then Inr (mk_span 0 0 0)
      else let toks = enc content; ntoks = length toks in
        if int ntoks \<le> m then Inr (mk_span 0 (length content) ntoks)
        else case dwo toks of
               None \<Rightarrow> truncate_by_token_limit fl enc content m
             | Some (decoded, offsets) \<Rightarrow>
                 if decoded \<noteq> content then truncate_by_token_limit fl enc content m
                 else (case prefix_span_via_boundary enc content 0 0 (nat m) ntoks (boundary offsets content) of
                         Inl e \<Rightarrow> Inl e
                       | Inr (sp, _) \<Rightarrow> Inr sp))"

text \<open>One window of the split, with the overlap retreating in tokens.\<close>

function tiktoken_retreat ::
  "(pystr \<Rightarrow> 't list) \<Rightarrow> pystr \<Rightarrow> nat \<Rightarrow> nat \<Rightarrow> (nat \<Rightarrow> nat) \<Rightarrow> nat \<Rightarrow> nat \<Rightarrow> nat \<Rightarrow> nat \<Rightarrow> limit_error + (token_span \<times> nat)" where
  "tiktoken_retreat enc content m ntoks bnd covered covered_token target i =
     (let start_token = covered_token - target in
      case prefix_span_via_boundary enc content (bnd start_token) start_token m ntoks bnd of
        Inl e \<Rightarrow> if target = 0 then Inl e
                 else tiktoken_retreat enc content m ntoks bnd covered covered_token (target - 2 ^ i) (Suc i)
      | Inr (sp, end_token) \<Rightarrow>
          if covered < span_end sp \<or> target = 0 then Inr (sp, end_token)
          else tiktoken_retreat enc content m ntoks bnd covered covered_token (target - 2 ^ i) (Suc i))"
  by pat_completeness auto
termination by (relation "measure (\<lambda>(_, _, _, _, _, _, _, target, _). target)") auto

declare tiktoken_retreat.simps [simp del]

text \<open>
  The outer loop. Nothing in the code bounds it for offsets that jump back, so it takes fuel:
  \<open>None\<close> means that the fuel was used up.
\<close>

fun tiktoken_split_loop ::
  "nat \<Rightarrow> (pystr \<Rightarrow> 't list) \<Rightarrow> pystr \<Rightarrow> nat \<Rightarrow> nat \<Rightarrow> (nat \<Rightarrow> nat) \<Rightarrow> nat \<Rightarrow> nat \<Rightarrow> nat \<Rightarrow> nat \<Rightarrow> (limit_error + token_span list) option" where
  "tiktoken_split_loop 0 enc content m ntoks bnd overlap covered covered_token prev_tokens = None"
| "tiktoken_split_loop (Suc n) enc content m ntoks bnd overlap covered covered_token prev_tokens =
     (if covered < length content then
        (case tiktoken_retreat enc content m ntoks bnd covered covered_token
                (if 0 < covered_token then min overlap (prev_tokens - 1) else 0) 0 of
           Inl e \<Rightarrow> Some (Inl e)
         | Inr (sp, end_token) \<Rightarrow>
             (case tiktoken_split_loop n enc content m ntoks bnd overlap (span_end sp) end_token (span_tokens sp) of
                None \<Rightarrow> None
              | Some (Inl e) \<Rightarrow> Some (Inl e)
              | Some (Inr sps) \<Rightarrow> Some (Inr (sp # sps))))
      else Some (Inr []))"

definition tiktoken_split ::
  "nat \<Rightarrow> (nat \<Rightarrow> nat \<Rightarrow> nat \<Rightarrow> nat) \<Rightarrow> (nat \<Rightarrow> nat \<Rightarrow> nat \<Rightarrow> nat) \<Rightarrow> ('t list \<Rightarrow> (pystr \<times> nat list) option) \<Rightarrow>
   (pystr \<Rightarrow> 't list) \<Rightarrow> pystr \<Rightarrow> int \<Rightarrow> int \<Rightarrow> (limit_error + token_span list) option" where
  "tiktoken_split fuel fl rd dwo enc content m overlap =
     (if m \<le> 0 then Some (Inl (NonPositiveBudget m))
      else if overlap < 0 then Some (Inl (NegativeOverlapTokens overlap))
      else if content = [] then Some (Inr [])
      else let toks = enc content; ntoks = length toks in
        if int ntoks \<le> m then Some (Inr [mk_span 0 (length content) ntoks])
        else case dwo toks of
               None \<Rightarrow> Some (split_by_token_limit fl rd enc content m overlap)
             | Some (decoded, offsets) \<Rightarrow>
                 if decoded \<noteq> content then Some (split_by_token_limit fl rd enc content m overlap)
                 else tiktoken_split_loop fuel enc content (nat m) ntoks (boundary offsets content) (nat overlap) 0 0 0)"


subsection \<open>What holds for all offsets\<close>

lemma boundary_loop_hit:
  "boundary_loop bnd cnt m start_char k i tried = Some j \<Longrightarrow> start_char < bnd j \<and> cnt (bnd j) \<le> m \<and> j \<le> k \<and> (1 \<le> k \<longrightarrow> 1 \<le> j)"
proof (induction bnd cnt m start_char k i tried rule: boundary_loop.induct)
  case (1 bnd cnt m start_char k i tried)
  show ?case
  proof (cases "tried \<noteq> Some (bnd k) \<and> start_char < bnd k \<and> cnt (bnd k) \<le> m")
    case True
    then have "boundary_loop bnd cnt m start_char k i tried = Some k" by (subst boundary_loop.simps) simp
    then show ?thesis using "1.prems" True by auto
  next
    case no: False
    show ?thesis
    proof (cases "k \<le> 1")
      case True
      then have "boundary_loop bnd cnt m start_char k i tried = None"
        by (subst boundary_loop.simps) (simp only: if_not_P[OF no] if_True)
      then show ?thesis using "1.prems" by simp
    next
      case False
      have "boundary_loop bnd cnt m start_char (max 1 (k - 2 ^ i)) (Suc i) (Some (bnd k)) = Some j"
        using "1.prems" by (subst (asm) boundary_loop.simps) (simp only: if_not_P[OF no] if_not_P[OF False])
      from "1.IH"[OF no False this] show ?thesis using False by auto
    qed
  qed
qed


text \<open>Whatever the offsets, an accepted span was encoded again and is within the budget.\<close>

lemma prefix_span_counted:
  assumes "prefix_span_via_boundary enc content start_char start_token m ntoks bnd = Inr (sp, end_token)"
  shows "span_start sp = start_char \<and> start_char < span_end sp \<and> span_tokens sp \<le> m \<and>
    span_tokens sp = length (enc (slice start_char (span_end sp) content))"
  using assms boundary_loop_hit[of "\<lambda>k. bnd (start_token + k)" "\<lambda>e. length (enc (slice start_char e content))" m start_char]
  by (auto simp: prefix_span_via_boundary_def Let_def mk_span_def split: option.splits if_splits)


subsection \<open>Offsets that are aligned\<close>

text \<open>
  Every token starts at a character of its own and its text, encoded alone, is within the
  budget. This is what the library gives for text without split characters.
\<close>

definition aligned :: "(pystr \<Rightarrow> 't list) \<Rightarrow> pystr \<Rightarrow> nat \<Rightarrow> nat list \<Rightarrow> bool" where
  "aligned enc content m offsets \<longleftrightarrow>
     boundary offsets content 0 = 0 \<and>
     (\<forall>k < length offsets. boundary offsets content k < boundary offsets content (Suc k) \<and>
        length (enc (slice (boundary offsets content k) (boundary offsets content (Suc k)) content)) \<le> m)"

lemma boundary_end: "boundary offsets content (length offsets) = length content"
  by (simp add: boundary_def)

lemma aligned_step:
  assumes "aligned enc content m offsets" and "k < length offsets"
  shows "boundary offsets content k < boundary offsets content (Suc k)"
    and "length (enc (slice (boundary offsets content k) (boundary offsets content (Suc k)) content)) \<le> m"
  using assms by (auto simp: aligned_def)

lemma aligned_less:
  assumes "aligned enc content m offsets" and "j \<le> length offsets"
  shows "i < j \<Longrightarrow> boundary offsets content i < boundary offsets content j"
  using assms(2)
proof (induction j)
  case (Suc j)
  have "boundary offsets content j < boundary offsets content (Suc j)" using aligned_step(1)[OF assms(1)] Suc by simp
  then show ?case using Suc by (cases "i = j") auto
qed simp

lemma aligned_le:
  assumes "aligned enc content m offsets" and "j \<le> length offsets" and "i \<le> j"
  shows "boundary offsets content i \<le> boundary offsets content j"
  using aligned_less[OF assms(1,2)] assms(3) by (cases "i = j") (auto simp: less_imp_le)

lemma aligned_conv:
  assumes "aligned enc content m offsets" and "i \<le> length offsets" and "j \<le> length offsets"
    and "boundary offsets content i < boundary offsets content j"
  shows "i < j"
  using aligned_le[OF assms(1,2), of j] assms(4) by (meson leD leI)

lemma boundary_loop_succeeds:
  assumes "\<And>i j. i < j \<Longrightarrow> j \<le> top_k \<Longrightarrow> bnd i < bnd j" and "cnt (bnd 1) \<le> m" and "start_char < bnd 1"
  shows "1 \<le> k \<Longrightarrow> k \<le> top_k \<Longrightarrow> tried = None \<or> (\<exists>k' \<le> top_k. k < k' \<and> tried = Some (bnd k')) \<Longrightarrow>
    boundary_loop bnd cnt m start_char k i tried \<noteq> None"
proof (induction k arbitrary: i tried rule: less_induct)
  case (less k)
  show ?case
  proof (cases "tried \<noteq> Some (bnd k) \<and> start_char < bnd k \<and> cnt (bnd k) \<le> m")
    case True
    then show ?thesis by (subst boundary_loop.simps) simp
  next
    case no: False
    have fresh: "tried \<noteq> Some (bnd k)" using less.prems assms(1) by fastforce
    have "k \<noteq> 1" using no fresh assms(2,3) by auto
    then have k: "\<not> k \<le> 1" using less.prems(1) by simp
    have e: "boundary_loop bnd cnt m start_char k i tried =
        boundary_loop bnd cnt m start_char (max 1 (k - 2 ^ i)) (Suc i) (Some (bnd k))"
      by (subst boundary_loop.simps) (simp only: if_not_P[OF no] if_not_P[OF k])
    have lt: "max 1 (k - 2 ^ i) < k" using k by (auto simp: max_def)
    show ?thesis unfolding e using lt less.prems(2) by (intro less.IH[OF lt]) auto
  qed
qed

lemma aligned_prefix:
  assumes al: "aligned enc content m offsets" and st: "start_token < length offsets" and m: "0 < m"
  shows "\<exists>sp end_token. prefix_span_via_boundary enc content (boundary offsets content start_token) start_token m
      (length offsets) (boundary offsets content) = Inr (sp, end_token) \<and>
    start_token < end_token \<and> end_token \<le> length offsets \<and> span_end sp = boundary offsets content end_token"
proof -
  let ?bnd = "boundary offsets content"
  let ?cnt = "\<lambda>e. length (enc (slice (?bnd start_token) e content))"
  let ?k = "min (length offsets - start_token) m"
  have mono: "?bnd (start_token + i) < ?bnd (start_token + j)" if "i < j" "j \<le> length offsets - start_token" for i j
    using aligned_less[OF al, of "start_token + j" "start_token + i"] that by simp
  have one: "?cnt (?bnd (start_token + 1)) \<le> m" "?bnd start_token < ?bnd (start_token + 1)"
    using aligned_step[OF al st] by auto
  have "boundary_loop (\<lambda>k. ?bnd (start_token + k)) ?cnt m (?bnd start_token) ?k 0 None \<noteq> None"
    using boundary_loop_succeeds[of "length offsets - start_token" "\<lambda>k. ?bnd (start_token + k)" ?cnt m "?bnd start_token" ?k None 0]
      mono one st m by auto
  then obtain k where k: "boundary_loop (\<lambda>k. ?bnd (start_token + k)) ?cnt m (?bnd start_token) ?k 0 None = Some k" by auto
  have "1 \<le> k \<and> k \<le> ?k" using boundary_loop_hit[OF k] st m by auto
  then have "start_token < start_token + k \<and> start_token + k \<le> length offsets" using st by auto
  moreover have "prefix_span_via_boundary enc content (?bnd start_token) start_token m (length offsets) ?bnd =
      Inr (mk_span (?bnd start_token) (?bnd (start_token + k)) (?cnt (?bnd (start_token + k))), start_token + k)"
    unfolding prefix_span_via_boundary_def Let_def k by simp
  moreover have "span_end (mk_span (?bnd start_token) (?bnd (start_token + k)) (?cnt (?bnd (start_token + k)))) =
      ?bnd (start_token + k)" by (simp add: mk_span_def)
  ultimately show ?thesis by blast
qed

text \<open>A window of aligned offsets starts inside what is covered and ends at a later token.\<close>

lemma aligned_retreat:
  assumes al: "aligned enc content m offsets" and ct: "covered_token < length offsets" and m: "0 < m"
    and cov: "covered = boundary offsets content covered_token"
  shows "\<exists>sp end_token. tiktoken_retreat enc content m (length offsets) (boundary offsets content) covered covered_token target i
      = Inr (sp, end_token) \<and> covered_token < end_token \<and> end_token \<le> length offsets \<and>
    span_end sp = boundary offsets content end_token \<and> span_start sp \<le> covered \<and> covered < span_end sp \<and>
    verified enc content m sp"
proof (induction target arbitrary: i rule: less_induct)
  case (less target)
  let ?bnd = "boundary offsets content"
  define st where "st = covered_token - target"
  have st: "st < length offsets" "st \<le> covered_token" using ct by (auto simp: st_def)
  obtain sp et where p: "prefix_span_via_boundary enc content (?bnd st) st m (length offsets) ?bnd = Inr (sp, et)"
    and et: "st < et" "et \<le> length offsets" "span_end sp = ?bnd et"
    using aligned_prefix[OF al st(1) m] by blast
  note c = prefix_span_counted[OF p]
  show ?case
  proof (cases "covered < span_end sp \<or> target = 0")
    case True
    have r: "tiktoken_retreat enc content m (length offsets) ?bnd covered covered_token target i = Inr (sp, et)"
      by (subst tiktoken_retreat.simps) (simp only: Let_def st_def[symmetric] p sum.case prod.case if_P[OF True])
    have lt: "covered < span_end sp"
      using True aligned_less[OF al et(2), of covered_token] et by (auto simp: st_def cov)
    then have "covered_token < et" using aligned_conv[OF al _ et(2), of covered_token] ct et(3) cov by simp
    moreover have "span_start sp \<le> covered" using c aligned_le[OF al _ st(2)] ct cov by simp
    moreover have "span_end sp \<le> length content"
      using aligned_le[OF al order_refl et(2)] et(3) by (simp add: boundary_end)
    ultimately show ?thesis using r et lt c by (auto simp: verified_def)
  next
    case False
    have r: "tiktoken_retreat enc content m (length offsets) ?bnd covered covered_token target i =
        tiktoken_retreat enc content m (length offsets) ?bnd covered covered_token (target - 2 ^ i) (Suc i)"
      by (subst tiktoken_retreat.simps) (simp only: Let_def st_def[symmetric] p sum.case prod.case if_not_P[OF False])
    show ?thesis unfolding r using False by (intro less.IH) simp
  qed
qed

lemma aligned_split_loop:
  assumes al: "aligned enc content m offsets" and m: "0 < m"
  shows "covered = boundary offsets content covered_token \<Longrightarrow> covered_token \<le> length offsets \<Longrightarrow>
    length offsets - covered_token < n \<Longrightarrow>
    \<exists>sps. tiktoken_split_loop n enc content m (length offsets) (boundary offsets content) overlap covered covered_token prev
        = Some (Inr sps) \<and> tiles covered (length content) sps \<and> (\<forall>sp \<in> set sps. verified enc content m sp)"
proof (induction n arbitrary: covered covered_token prev)
  case (Suc n)
  let ?bnd = "boundary offsets content"
  let ?t = "if 0 < covered_token then min overlap (prev - 1) else 0"
  show ?case
  proof (cases "covered < length content")
    case False
    then show ?thesis
      using Suc.prems aligned_le[OF al order_refl Suc.prems(2)] by (auto simp: boundary_end)
  next
    case True
    then have ct: "covered_token < length offsets"
      using Suc.prems by (cases "covered_token = length offsets") (auto simp: boundary_end)
    obtain sp et where r: "tiktoken_retreat enc content m (length offsets) ?bnd covered covered_token ?t 0 = Inr (sp, et)"
      and et: "covered_token < et" "et \<le> length offsets" "span_end sp = ?bnd et"
      and sp: "span_start sp \<le> covered" "covered < span_end sp" "verified enc content m sp"
      using aligned_retreat[OF al ct m Suc.prems(1)] by blast
    have "length offsets - et < n" using et Suc.prems(3) by simp
    from Suc.IH[OF et(3) et(2) this] obtain sps where
      s: "tiktoken_split_loop n enc content m (length offsets) ?bnd overlap (span_end sp) et (span_tokens sp) = Some (Inr sps)"
      and g: "tiles (span_end sp) (length content) sps" "\<forall>sp \<in> set sps. verified enc content m sp" by blast
    have "tiktoken_split_loop (Suc n) enc content m (length offsets) ?bnd overlap covered covered_token prev = Some (Inr (sp # sps))"
      unfolding tiktoken_split_loop.simps(2) if_P[OF True] r sum.case prod.case s by simp
    then show ?thesis using g sp by auto
  qed
qed simp


subsection \<open>Properties\<close>

text \<open>
  For aligned offsets the split on tokens ends, with one unit of fuel more than tokens,
  and covers the text: no gap, progress in every span, each counted within the budget.
\<close>
theorem tiktoken_split_covers:
  assumes "dwo (enc content) = Some (content, offsets)" and "length offsets = length (enc content)"
    and "aligned enc content (nat m) offsets" and "0 < m" and "0 \<le> overlap" and "length (enc content) < fuel"
  shows "\<exists>sps. tiktoken_split fuel fl rd dwo enc content m overlap = Some (Inr sps) \<and>
    tiles 0 (length content) sps \<and> (\<forall>sp \<in> set sps. verified enc content (nat m) sp)"
proof -
  consider "content = []" | "content \<noteq> []" "int (length (enc content)) \<le> m" | "content \<noteq> []" "m < int (length (enc content))"
    by linarith
  then show ?thesis
  proof cases
    case 1
    then show ?thesis using assms(4,5) by (simp add: tiktoken_split_def)
  next
    case 2
    then show ?thesis using assms(4,5)
      by (auto simp: tiktoken_split_def Let_def mk_span_def verified_def slice_whole)
  next
    case 3
    then have e: "tiktoken_split fuel fl rd dwo enc content m overlap =
        tiktoken_split_loop fuel enc content (nat m) (length offsets) (boundary offsets content) (nat overlap) 0 0 0"
      using assms by (simp add: tiktoken_split_def Let_def)
    have "0 = boundary offsets content 0" using assms(3) by (simp add: aligned_def)
    from aligned_split_loop[OF assms(3) _ this, of fuel "nat overlap" 0] show ?thesis
      unfolding e using assms(2,4,6) by auto
  qed
qed

lemma tiktoken_split_covers_witness:
  "\<exists>sps. tiktoken_split 6 ratio ratio (\<lambda>toks. Some (toks, [0..<length toks])) id [7, 8, 9, 7, 8] 2 1 = Some (Inr sps) \<and>
     tiles 0 (length ([7, 8, 9, 7, 8] :: pystr)) sps"
proof -
  have o: "[0..<length ([7, 8, 9, 7, 8] :: pystr)] = [0, 1, 2, 3, 4]" by (simp add: upt_rec)
  have al: "aligned id [7, 8, 9, 7, 8] (nat 2) [0, 1, 2, 3, 4]"
    by (auto simp: aligned_def boundary_def slice_def less_Suc_eq numeral_eq_Suc)
  have "\<exists>sps. tiktoken_split 6 ratio ratio (\<lambda>toks. Some (toks, [0..<length toks])) id [7, 8, 9, 7, 8] 2 1 = Some (Inr sps) \<and>
      tiles 0 (length ([7, 8, 9, 7, 8] :: pystr)) sps \<and> (\<forall>sp \<in> set sps. verified id [7, 8, 9, 7, 8] (nat 2) sp)"
    by (rule tiktoken_split_covers[where offsets = "[0, 1, 2, 3, 4]"]) (use o al in simp_all)
  then show ?thesis by blast
qed

text \<open>
  The token path of the truncation keeps the contract of the generic one for any
  offsets: it starts at the beginning and its own encoding has the count it reports, within
  the budget.
\<close>
theorem tiktoken_truncate_counted:
  assumes "tiktoken_truncate fl dwo enc content m = Inr sp" and "content \<noteq> []"
  shows "span_start sp = 0 \<and> 0 < span_end sp \<and> int (span_tokens sp) \<le> m \<and>
    span_tokens sp = length (enc (take (span_end sp) content))"
proof -
  have m: "0 < m" using assms(1) by (auto simp: tiktoken_truncate_def split: if_splits)
  have generic: ?thesis if "truncate_by_token_limit fl enc content m = Inr sp"
    using that m assms(2)
    by (cases rule: truncate_cases[of m fl enc content]) (auto simp: verified_def slice_def)
  have fast: ?thesis
    if "prefix_span_via_boundary enc content 0 0 (nat m) n bnd = Inr (sp, et)" for n bnd et
    using prefix_span_counted[OF that] m by (auto simp: slice_def)
  have whole: ?thesis if "sp = mk_span 0 (length content) (length (enc content))" "int (length (enc content)) \<le> m"
    using that assms(2) by (auto simp: mk_span_def)
  show ?thesis
  proof (cases "int (length (enc content)) \<le> m")
    case True
    then show ?thesis using assms m by (intro whole) (simp_all add: tiktoken_truncate_def Let_def)
  next
    case big: False
    show ?thesis
    proof (cases "dwo (enc content)")
      case None
      then show ?thesis using assms m big by (intro generic) (simp add: tiktoken_truncate_def Let_def)
    next
      case (Some p)
      obtain decoded offsets where p: "p = (decoded, offsets)" by (cases p)
      show ?thesis
      proof (cases "decoded = content")
        case False
        then show ?thesis using assms m big Some p by (intro generic) (simp add: tiktoken_truncate_def Let_def)
      next
        case True
        then obtain et where "prefix_span_via_boundary enc content 0 0 (nat m) (length (enc content)) (boundary offsets content) = Inr (sp, et)"
          using assms m big Some p by (auto simp: tiktoken_truncate_def Let_def split: sum.splits)
        then show ?thesis by (rule fast)
      qed
    qed
  qed
qed

lemma tiktoken_truncate_counted_witness:
  "\<exists>sp. tiktoken_truncate ratio (\<lambda>toks. None) pair_enc [1, 1, 2, 3, 3] 2 = Inr sp \<and> span_tokens sp \<le> 2"
proof -
  obtain sp where sp: "tiktoken_truncate ratio (\<lambda>toks. None) pair_enc [1, 1, 2, 3, 3] 2 = Inr sp"
    using truncate_cases[of 2 ratio pair_enc "[1, 1, 2, 3, 3]"] by (simp add: tiktoken_truncate_def) blast
  from tiktoken_truncate_counted[OF this] show ?thesis using sp by auto
qed

text \<open>
  Alignment is needed: where the text of one token, encoded alone, is over the budget, the
  fallback keeps its first character and resumes at the next token, and the characters between
  are in no span.
\<close>

definition gap_enc :: "pystr \<Rightarrow> nat list" where
  "gap_enc s = (if s = [1, 2, 3, 4] then [10, 11] else s)"

lemma tiktoken_split_gap:
  "\<exists>sps. tiktoken_split 4 ratio ratio (\<lambda>_. Some ([1, 2, 3, 4], [0, 3])) gap_enc [1, 2, 3, 4] 1 0 = Some (Inr sps) \<and>
     map span_start sps = [0, 3] \<and> map span_end sps = [1, 4]"
  by (simp add: tiktoken_split_def gap_enc_def tiktoken_retreat.simps boundary_loop.simps advance_token.simps
    prefix_span_via_boundary_def boundary_def slice_def mk_span_def numeral_eq_Suc Let_def)

end
