(* ===== verification/SourceIds.thy ===== *)
theory SourceIds
  imports PyStrings "HOL-Library.Multiset"
begin

section \<open>Source-id lists and relation keys\<close>

text \<open>
  The functions of \<^verbatim>\<open>lightrag/utils.py\<close> that keep the provenance of entities and
  relations: lists of chunk ids joined by a separator in graph fields, merged, limited and
  updated incrementally, the key of a relation's chunk-tracking row, and the polling that
  picks chunks for a query.
\<close>

definition graph_field_sep :: pystr where
  "graph_field_sep = lit ''<SEP>''"

text \<open>
  \<open>re.split\<close> on the alternation of the escaped markers: at each position the first marker in
  the list that occurs there is cut out. Markers are not empty.
\<close>

function split_markers_acc :: "pystr list \<Rightarrow> pystr \<Rightarrow> pystr \<Rightarrow> pystr list" where
  "split_markers_acc markers acc [] = [acc]"
| "split_markers_acc markers acc (c # s) =
     (case find (\<lambda>m. m \<noteq> [] \<and> starts_with m (c # s)) markers of
        Some m \<Rightarrow> acc # split_markers_acc markers [] (drop (max 1 (length m)) (c # s))
      | None \<Rightarrow> split_markers_acc markers (acc @ [c]) s)"
  by pat_completeness auto
termination by (relation "measure (\<lambda>(_, _, s). length s)") (auto simp: max_def)

declare split_markers_acc.simps(2) [simp del]

definition split_string_by_multi_markers :: "pystr \<Rightarrow> pystr list \<Rightarrow> pystr list" where
  "split_string_by_multi_markers content markers =
     (if markers = [] then [content]
      else filter (\<lambda>r. r \<noteq> []) (map strip (split_markers_acc markers [] content)))"

text \<open>
  An element of an id list: a false value (\<open>None\<close>, the empty string, zero), a text, or a
  value of another type, which counts by its \<open>str\<close>.
\<close>

datatype source_ref = NoRef | TextRef pystr | OtherRef pystr

definition ref_fragments :: "source_ref \<Rightarrow> pystr list" where
  "ref_fragments r = (case r of
     NoRef \<Rightarrow> []
   | TextRef s \<Rightarrow> if s = [] then [] else split_string_by_multi_markers s [graph_field_sep]
   | OtherRef s \<Rightarrow> split_string_by_multi_markers s [graph_field_sep])"

text \<open>Appending what was not seen; \<open>seen\<close> and \<open>merged\<close> always hold the same ids.\<close>

fun add_unseen :: "pystr list \<Rightarrow> pystr list \<Rightarrow> pystr list" where
  "add_unseen merged [] = merged"
| "add_unseen merged (sid # sids) = add_unseen (if sid \<in> set merged then merged else merged @ [sid]) sids"

definition merge_sequence :: "pystr list \<Rightarrow> source_ref list option \<Rightarrow> pystr list" where
  "merge_sequence merged ids = (case ids of
     None \<Rightarrow> merged
   | Some refs \<Rightarrow> add_unseen merged (concat (map ref_fragments refs)))"

definition merge_source_ids :: "source_ref list option \<Rightarrow> source_ref list option \<Rightarrow> pystr list" where
  "merge_source_ids existing new = merge_sequence (merge_sequence [] existing) new"


subsection \<open>Limits\<close>

datatype limit_method = Keep | Fifo

text \<open>
  \<open>str.upper\<close> as far as the comparison with the two names can see: the code points whose upper
  case is ASCII. Every other one stays outside ASCII.
\<close>

definition upper_cp :: "nat \<Rightarrow> pystr" where
  "upper_cp c =
     (if 97 \<le> c \<and> c \<le> 122 then [c - 32]
      else if c = 0xDF then lit ''SS'' else if c = 0x131 then lit ''I'' else if c = 0x17F then lit ''S''
      else if c = 0xFB00 then lit ''FF'' else if c = 0xFB01 then lit ''FI'' else if c = 0xFB02 then lit ''FL''
      else if c = 0xFB03 then lit ''FFI'' else if c = 0xFB04 then lit ''FFL''
      else if c = 0xFB05 \<or> c = 0xFB06 then lit ''ST'' else [c])"

definition normalize_source_ids_limit_method :: "pystr option \<Rightarrow> limit_method" where
  "normalize_source_ids_limit_method meth = (case meth of
     None \<Rightarrow> Keep
   | Some s \<Rightarrow> if s = [] then Keep
       else if concat (map upper_cp s) = lit ''FIFO'' then Fifo else Keep)"

definition apply_source_ids_limit :: "'a list \<Rightarrow> int \<Rightarrow> pystr option \<Rightarrow> 'a list" where
  "apply_source_ids_limit ids cap meth =
     (if cap \<le> 0 then []
      else if int (length ids) \<le> cap then ids
      else case normalize_source_ids_limit_method meth of
             Fifo \<Rightarrow> drop (length ids - nat cap) ids
           | Keep \<Rightarrow> take (nat cap) ids)"


subsection \<open>Incremental updates\<close>

fun append_additions :: "(pystr \<Rightarrow> bool) \<Rightarrow> pystr set \<Rightarrow> pystr list \<Rightarrow> pystr list \<Rightarrow> pystr list" where
  "append_additions to_add seen updated [] = updated"
| "append_additions to_add seen updated (cid # cids) =
     (if cid \<noteq> [] \<and> to_add cid \<and> cid \<notin> seen
      then append_additions to_add (insert cid seen) (updated @ [cid]) cids
      else append_additions to_add seen updated cids)"

definition compute_incremental_chunk_ids :: "pystr list \<Rightarrow> pystr list \<Rightarrow> pystr list \<Rightarrow> pystr list" where
  "compute_incremental_chunk_ids existing old new =
     (let updated = filter (\<lambda>c. c \<noteq> [] \<and> \<not> (c \<in> set old \<and> c \<notin> set new)) existing
      in append_additions (\<lambda>c. c \<in> set new \<and> c \<notin> set old) (set updated) updated new)"

definition subtract_source_ids :: "pystr list \<Rightarrow> pystr list \<Rightarrow> pystr list" where
  "subtract_source_ids ids removed =
     (if removed = [] then filter (\<lambda>c. c \<noteq> []) ids
      else filter (\<lambda>c. c \<noteq> [] \<and> c \<notin> set removed) ids)"

text \<open>What a chunk-tracking store can hold under a key, as far as the test looks at it.\<close>

datatype stored_value = NotADict | DictWithoutChunkIds | ChunkIdsNotList | ChunkIdsList "pystr list"

fun has_chunk_tracking_row :: "stored_value \<Rightarrow> bool" where
  "has_chunk_tracking_row (ChunkIdsList ids) = True"
| "has_chunk_tracking_row v = False"


subsection \<open>Relation keys\<close>

text \<open>Texts are compared by code points, which is the lexicographic order of their lists.\<close>

definition sort_pair :: "pystr \<Rightarrow> pystr \<Rightarrow> pystr \<times> pystr" where
  "sort_pair s t = (if s \<le> t then (s, t) else (t, s))"

definition make_relation_chunk_key :: "pystr \<Rightarrow> pystr \<Rightarrow> pystr" where
  "make_relation_chunk_key s t = py_join graph_field_sep [fst (sort_pair s t), snd (sort_pair s t)]"

text \<open>\<open>None\<close> is the \<open>ValueError\<close> of an invalid key.\<close>

definition parse_relation_chunk_key :: "pystr \<Rightarrow> (pystr \<times> pystr) option" where
  "parse_relation_chunk_key key =
     (case py_split graph_field_sep key of [s, t] \<Rightarrow> Some (s, t) | _ \<Rightarrow> None)"


subsection \<open>Weighted polling\<close>

text \<open>
  The two rounds of \<open>pick_by_weighted_polling\<close> for the expected counts, which the code
  interpolates in floating point and which are not negative for bounds that are not; entities are their lists of sorted chunks. The first round
  takes up to the expected number from each and adds up what was not used; each scan of the
  second round takes one chunk from the first entity that has one left.
\<close>

fun poll_first :: "nat list \<Rightarrow> 'a list list \<Rightarrow> 'a list \<times> nat list \<times> nat" where
  "poll_first (e # es) (cs # css) =
     (let (sel, used, rem) = poll_first es css; actual = min e (length cs)
      in (take actual cs @ sel, actual # used, (e - actual) + rem))"
| "poll_first es css = ([], [], 0)"

fun poll_scan :: "nat list \<Rightarrow> 'a list list \<Rightarrow> ('a \<times> nat list) option" where
  "poll_scan (u # us) (cs # css) =
     (if u < length cs then Some (cs ! u, Suc u # us)
      else map_option (\<lambda>(x, us'). (x, u # us')) (poll_scan us css))"
| "poll_scan us css = None"

fun poll_rest :: "nat \<Rightarrow> nat list \<Rightarrow> 'a list list \<Rightarrow> 'a list" where
  "poll_rest 0 used css = []"
| "poll_rest (Suc n) used css =
     (case poll_scan used css of None \<Rightarrow> [] | Some (x, used') \<Rightarrow> x # poll_rest n used' css)"

definition pick_by_weighted_polling :: "'a list list \<Rightarrow> int \<Rightarrow> nat list \<Rightarrow> 'a list" where
  "pick_by_weighted_polling css max_related expected =
     (if css = [] \<or> max_related \<le> 0 then []
      else case css of
             [cs] \<Rightarrow> take (nat max_related) cs
           | _ \<Rightarrow> (let (sel, used, rem) = poll_first expected css in sel @ poll_rest rem used css))"


subsection \<open>Lemmas on merging\<close>

text \<open>The list without later repetitions.\<close>

definition first_seen :: "'a list \<Rightarrow> 'a list" where
  "first_seen xs = rev (remdups (rev xs))"

lemma set_first_seen [simp]: "set (first_seen xs) = set xs"
  and distinct_first_seen [simp]: "distinct (first_seen xs)"
  by (simp_all add: first_seen_def)

lemma first_seen_id: "distinct xs \<Longrightarrow> first_seen xs = xs"
  by (simp add: first_seen_def distinct_remdups_id)

lemma remdups_skip: "x \<in> set zs \<Longrightarrow> remdups (ys @ x # zs) = remdups (ys @ zs)"
  by (induction ys) auto

lemma add_unseen_first_seen: "distinct m \<Longrightarrow> add_unseen m xs = first_seen (m @ xs)"
proof (induction xs arbitrary: m)
  case Nil
  then show ?case by (simp add: first_seen_id)
next
  case (Cons x xs)
  show ?case
  proof (cases "x \<in> set m")
    case True
    then show ?thesis using Cons by (simp add: first_seen_def remdups_skip)
  next
    case False
    then show ?thesis using Cons.IH[of "m @ [x]"] Cons.prems by simp
  qed
qed

definition all_fragments :: "source_ref list option \<Rightarrow> pystr list" where
  "all_fragments ids = (case ids of None \<Rightarrow> [] | Some refs \<Rightarrow> concat (map ref_fragments refs))"

lemma merge_first_seen: "merge_source_ids a b = first_seen (all_fragments a @ all_fragments b)"
proof -
  have s: "merge_sequence m ids = first_seen (m @ all_fragments ids)" if "distinct m" for m ids
    using that by (cases ids) (auto simp: merge_sequence_def all_fragments_def add_unseen_first_seen first_seen_id)
  have "merge_source_ids a b = first_seen (first_seen (all_fragments a) @ all_fragments b)"
    using s[of "[]"] s[of "first_seen (all_fragments a)"] by (simp add: merge_source_ids_def)
  also have "\<dots> = add_unseen (first_seen (all_fragments a)) (all_fragments b)"
    by (simp add: add_unseen_first_seen)
  also have "\<dots> = add_unseen (add_unseen [] (all_fragments a)) (all_fragments b)"
    by (simp add: add_unseen_first_seen)
  also have "\<dots> = add_unseen [] (all_fragments a @ all_fragments b)"
  proof -
    have "add_unseen (add_unseen m xs) ys = add_unseen m (xs @ ys)" for m and xs ys :: "pystr list"
      by (induction xs arbitrary: m) auto
    then show ?thesis by simp
  qed
  finally show ?thesis by (simp add: add_unseen_first_seen)
qed

lemma sep_nonempty [simp]: "graph_field_sep \<noteq> []"
  by (simp add: graph_field_sep_def lit_def)

lemma sep_borderless: "borderless graph_field_sep"
  by (auto simp: borderless_def graph_field_sep_def lit_def numeral_eq_Suc less_Suc_eq le_Suc_eq)

lemma split_markers_single: "m \<noteq> [] \<Longrightarrow> split_markers_acc [m] acc s = split_acc m acc s"
proof (induction m acc s rule: split_acc.induct)
  case (1 sep acc)
  then show ?case by simp
next
  case (2 sep acc c s)
  show ?case
  proof (cases "starts_with sep (c # s)")
    case True
    have d: "max 1 (length sep) = length sep" using 2(3) by (cases sep) auto
    show ?thesis using 2 True by (simp add: split_markers_acc.simps(2) d del: One_nat_def)
  next
    case False
    then show ?thesis using 2 by (simp add: split_markers_acc.simps(2))
  qed
qed

lemma split_by_sep:
  "split_string_by_multi_markers s [graph_field_sep] = filter (\<lambda>r. r \<noteq> []) (map strip (py_split graph_field_sep s))"
  by (simp add: split_string_by_multi_markers_def split_markers_single py_split_def)

text \<open>An id as the graph fields keep it: stripped, not empty, without the separator.\<close>

definition clean_id :: "pystr \<Rightarrow> bool" where
  "clean_id s \<longleftrightarrow> s \<noteq> [] \<and> strip s = s \<and> \<not> contains graph_field_sep s"

lemma split_clean: "s \<in> set (split_string_by_multi_markers r [graph_field_sep]) \<Longrightarrow> clean_id s"
  unfolding split_by_sep clean_id_def
  using py_split_free[OF sep_nonempty] contains_strip[OF sep_nonempty] by auto

lemma fragments_clean: "s \<in> set (ref_fragments r) \<Longrightarrow> clean_id s"
  using split_clean by (auto simp: ref_fragments_def split: source_ref.splits if_splits)

lemma clean_fragment: "clean_id s \<Longrightarrow> ref_fragments (TextRef s) = [s]"
  by (simp add: ref_fragments_def split_by_sep clean_id_def py_split_def split_acc_single)

lemma clean_fragments: "\<forall>s \<in> set ids. clean_id s \<Longrightarrow> concat (map ref_fragments (map TextRef ids)) = ids"
  by (induction ids) (simp_all add: clean_fragment)


subsection \<open>Lemmas on updates and polling\<close>

lemma append_additions_spec:
  "append_additions P (set m) m xs = first_seen (m @ filter (\<lambda>c. c \<noteq> [] \<and> P c) xs)" if "distinct m"
  using that
proof (induction xs arbitrary: m)
  case Nil
  then show ?case by (simp add: first_seen_id)
next
  case (Cons x xs)
  show ?case
  proof (cases "x \<noteq> [] \<and> P x \<and> x \<notin> set m")
    case True
    have "append_additions P (set (m @ [x])) (m @ [x]) xs = first_seen ((m @ [x]) @ filter (\<lambda>c. c \<noteq> [] \<and> P c) xs)"
      using True Cons.prems by (intro Cons.IH) simp
    then show ?thesis using True by simp
  next
    case False
    then show ?thesis
      using Cons.IH[OF Cons.prems] by (auto simp: first_seen_def remdups_skip)
  qed
qed

lemma append_additions_prefix:
  "\<exists>ys. append_additions P seen m xs = m @ ys \<and> distinct ys \<and>
     set ys = {c \<in> set xs. c \<noteq> [] \<and> P c \<and> c \<notin> seen}"
proof (induction xs arbitrary: seen m)
  case Nil
  then show ?case by simp
next
  case (Cons x xs)
  show ?case
  proof (cases "x \<noteq> [] \<and> P x \<and> x \<notin> seen")
    case True
    obtain ys where "append_additions P (insert x seen) (m @ [x]) xs = (m @ [x]) @ ys" "distinct ys"
        "set ys = {c \<in> set xs. c \<noteq> [] \<and> P c \<and> c \<notin> insert x seen}"
      using Cons.IH[of "insert x seen" "m @ [x]"] by blast
    then show ?thesis using True by (intro exI[of _ "x # ys"]) auto
  next
    case False
    obtain ys where "append_additions P seen m xs = m @ ys" "distinct ys"
        "set ys = {c \<in> set xs. c \<noteq> [] \<and> P c \<and> c \<notin> seen}"
      using Cons.IH[of seen m] by blast
    then show ?thesis using False by (intro exI[of _ ys]) auto
  qed
qed

text \<open>The chunks that the used counts stand for.\<close>

definition used_chunks :: "nat list \<Rightarrow> 'a list list \<Rightarrow> 'a multiset" where
  "used_chunks used css = mset (concat (map2 take used css))"

definition used_ok :: "nat list \<Rightarrow> 'a list list \<Rightarrow> bool" where
  "used_ok used css \<longleftrightarrow> list_all2 (\<lambda>u cs. u \<le> length cs) used css"

lemma used_simps [simp]:
  "used_chunks [] css = {#}" "used_chunks (u # us) (cs # css) = mset (take u cs) + used_chunks us css"
  "used_ok (u # us) (cs # css) \<longleftrightarrow> u \<le> length cs \<and> used_ok us css" "used_ok [] css \<longleftrightarrow> css = []"
  "used_ok us [] \<longleftrightarrow> us = []"
  by (simp_all add: used_chunks_def used_ok_def)

lemma used_size: "used_ok used css \<Longrightarrow> size (used_chunks used css) = sum_list used"
proof (induction used arbitrary: css)
  case (Cons u us)
  then show ?case by (cases css) auto
qed simp

lemma used_le: "used_ok used css \<Longrightarrow> sum_list used \<le> sum_list (map length css)"
proof (induction used arbitrary: css)
  case (Cons u us)
  then show ?case by (cases css) (auto intro: add_mono)
qed simp

lemma poll_scan_Some:
  "used_ok used css \<Longrightarrow> poll_scan used css = Some (x, used') \<Longrightarrow>
   used_ok used' css \<and> used_chunks used' css = add_mset x (used_chunks used css) \<and> sum_list used' = Suc (sum_list used)"
proof (induction used css arbitrary: used' rule: poll_scan.induct)
  case (1 u us cs css)
  then show ?case by (auto split: if_splits simp: take_Suc_conv_app_nth)
qed simp_all

lemma poll_scan_None: "used_ok used css \<Longrightarrow> poll_scan used css = None \<Longrightarrow> sum_list used = sum_list (map length css)"
  by (induction used css rule: poll_scan.induct) (auto split: if_splits)

lemma poll_rest_spec:
  "used_ok used css \<Longrightarrow> \<exists>used'. used_ok used' css \<and>
     mset (poll_rest n used css) + used_chunks used css = used_chunks used' css \<and>
     sum_list used' = min (sum_list used + n) (sum_list (map length css))"
proof (induction n arbitrary: used)
  case 0
  then show ?case using used_le by (intro exI[of _ used]) (auto simp: min_def)
next
  case (Suc n)
  show ?case
  proof (cases "poll_scan used css")
    case None
    then show ?thesis using Suc.prems poll_scan_None[OF Suc.prems None] by (intro exI[of _ used]) auto
  next
    case (Some p)
    obtain x u where p: "poll_scan used css = Some (x, u)" using Some by (cases p) auto
    note s = poll_scan_Some[OF Suc.prems p]
    obtain v where "used_ok v css" "mset (poll_rest n u css) + used_chunks u css = used_chunks v css"
        "sum_list v = min (sum_list u + n) (sum_list (map length css))"
      using Suc.IH[of u] s by blast
    then show ?thesis using p s by (intro exI[of _ v]) auto
  qed
qed

lemma poll_first_spec:
  "length es = length css \<Longrightarrow> poll_first es css = (sel, used, rem) \<Longrightarrow>
   used_ok used css \<and> mset sel = used_chunks used css \<and> sum_list used + rem = sum_list es"
proof (induction es css arbitrary: sel used rem rule: poll_first.induct)
  case (1 e es cs css)
  obtain s u r where p: "poll_first es css = (s, u, r)" by (cases "poll_first es css")
  from 1(1)[OF _ p] 1(2) have "used_ok u css \<and> mset s = used_chunks u css \<and> sum_list u + r = sum_list es" by simp
  then show ?case using 1(3) p by (auto simp: Let_def)
qed auto


subsection \<open>Properties\<close>

text \<open>
  C36: Merging two id lists gives the fragments of all their elements in the order first seen,
  each once, and each stripped, not empty and free of the separator; merging what a merge gave
  changes nothing.
\<close>
theorem merge_normal_form:
  "set (merge_source_ids a b) = set (all_fragments a) \<union> set (all_fragments b) \<and>
   distinct (merge_source_ids a b) \<and> merge_source_ids a b = first_seen (all_fragments a @ all_fragments b) \<and>
   list_all clean_id (merge_source_ids a b) \<and>
   merge_source_ids (Some (map TextRef (merge_source_ids a b))) None = merge_source_ids a b"
proof -
  have c: "\<forall>s \<in> set (merge_source_ids a b). clean_id s"
    by (auto simp: merge_first_seen all_fragments_def fragments_clean split: option.splits)
  have "merge_source_ids (Some (map TextRef (merge_source_ids a b))) None = first_seen (merge_source_ids a b)"
    using clean_fragments[OF c] by (simp add: merge_first_seen[of "Some _"] all_fragments_def)
  also have "\<dots> = merge_source_ids a b" by (intro first_seen_id) (simp add: merge_first_seen)
  finally show ?thesis using c by (simp add: merge_first_seen list_all_iff)
qed

text \<open>
  The key of a relation does not depend on the direction, and for two names without the
  separator it is parsed back to the two names in order. An unordered pair has one key.
\<close>
theorem relation_key_roundtrip:
  assumes "\<not> contains graph_field_sep s" and "\<not> contains graph_field_sep t"
  shows "parse_relation_chunk_key (make_relation_chunk_key s t) = Some (min s t, max s t) \<and>
    make_relation_chunk_key s t = make_relation_chunk_key t s"
proof -
  have p: "py_split graph_field_sep (a @ graph_field_sep @ b) = [a, b]"
    if "\<not> contains graph_field_sep a" "\<not> contains graph_field_sep b" for a b
    using that by (intro split_join2 sep_borderless) simp_all
  show ?thesis
    using assms by (auto simp: make_relation_chunk_key_def parse_relation_chunk_key_def sort_pair_def p min_def max_def)
qed

lemma relation_key_roundtrip_witness:
  "parse_relation_chunk_key (make_relation_chunk_key (lit ''b'') (lit ''a'')) = Some (lit ''a'', lit ''b'')"
proof -
  have c: "\<not> contains graph_field_sep (lit ''b'')" "\<not> contains graph_field_sep (lit ''a'')"
    by (simp_all add: graph_field_sep_def lit_def starts_with_def)
  have "min (lit ''b'') (lit ''a'') = lit ''a''" "max (lit ''b'') (lit ''a'') = lit ''b''"
    by (simp_all add: lit_def min_def max_def)
  then show ?thesis using conjunct1[OF relation_key_roundtrip[OF c]] by (simp only:)
qed

text \<open>
  An incremental update keeps, in order, the tracked ids that were not replaced and puts
  the genuine additions after them, each once. An id that is in both the old and the new list
  but no longer tracked is not brought back, and an id the tracking row repeats stays repeated.
\<close>
theorem incremental_update_exact:
  "\<exists>added. compute_incremental_chunk_ids existing old new =
       filter (\<lambda>c. c \<noteq> [] \<and> \<not> (c \<in> set old \<and> c \<notin> set new)) existing @ added \<and>
     distinct added \<and> set added = {c \<in> set new. c \<noteq> [] \<and> c \<notin> set old \<and> c \<notin> set existing} \<and>
     (distinct (compute_incremental_chunk_ids existing old new) =
        distinct (filter (\<lambda>c. c \<noteq> [] \<and> \<not> (c \<in> set old \<and> c \<notin> set new)) existing))"
proof -
  let ?kept = "filter (\<lambda>c. c \<noteq> [] \<and> \<not> (c \<in> set old \<and> c \<notin> set new)) existing"
  define P where "P c \<longleftrightarrow> c \<in> set new \<and> c \<notin> set old" for c
  define kept where "kept = ?kept"
  have e: "compute_incremental_chunk_ids existing old new = append_additions P (set kept) kept new"
    by (simp only: compute_incremental_chunk_ids_def Let_def kept_def P_def[abs_def])
  obtain ys where ys: "compute_incremental_chunk_ids existing old new = kept @ ys" "distinct ys"
      "set ys = {c \<in> set new. c \<noteq> [] \<and> P c \<and> c \<notin> set kept}"
    unfolding e using append_additions_prefix[of P "set kept" kept new] by blast
  have s: "set ys = {c \<in> set new. c \<noteq> [] \<and> c \<notin> set old \<and> c \<notin> set existing}" unfolding ys(3) kept_def P_def by auto
  have "distinct (kept @ ys) = distinct kept" using ys(2) s by (auto simp: kept_def)
  then show ?thesis unfolding kept_def[symmetric] using ys(1,2) s by auto
qed

text \<open>
  The limit keeps at most so many ids, in order: all of them while they are within it, the
  newest under FIFO and the oldest otherwise, and none for a limit that is not positive.
\<close>
theorem source_ids_limited:
  "int (length (apply_source_ids_limit ids cap meth)) = min (int (length ids)) (max 0 cap) \<and>
   (\<exists>dropped. if normalize_source_ids_limit_method meth = Fifo \<and> 0 < cap
              then ids = dropped @ apply_source_ids_limit ids cap meth
              else ids = apply_source_ids_limit ids cap meth @ dropped)"
proof -
  have "\<exists>dropped. ids = dropped @ drop k ids" "\<exists>dropped. ids = take k ids @ dropped" for k
    by (metis append_take_drop_id)+
  then show ?thesis
    by (cases "normalize_source_ids_limit_method meth") (auto simp: apply_source_ids_limit_def min_def max_def)
qed

text \<open>
  Polling hands out each chunk position at most once, from the front of each entity's
  list, and uses the quota up: the number of chunks is the sum of the expected counts or, if
  that is less, the number of chunks there are.
\<close>
theorem polling_uses_quota:
  assumes "2 \<le> length css" and "length expected = length css" and "0 < max_related"
  shows "\<exists>used. list_all2 (\<lambda>u cs. u \<le> length cs) used css \<and>
    mset (pick_by_weighted_polling css max_related expected) = mset (concat (map2 take used css)) \<and>
    length (pick_by_weighted_polling css max_related expected) = min (sum_list expected) (sum_list (map length css))"
proof -
  obtain sel used rem where p: "poll_first expected css = (sel, used, rem)" by (cases "poll_first expected css")
  have e: "pick_by_weighted_polling css max_related expected = sel @ poll_rest rem used css"
    using assms p by (auto simp: pick_by_weighted_polling_def split: list.splits)
  from poll_first_spec[OF assms(2) p] have f: "used_ok used css" "mset sel = used_chunks used css" "sum_list used + rem = sum_list expected"
    by auto
  from poll_rest_spec[OF f(1)] obtain v where v: "used_ok v css"
      "mset (poll_rest rem used css) + used_chunks used css = used_chunks v css"
      "sum_list v = min (sum_list used + rem) (sum_list (map length css))" by blast
  have m: "mset (pick_by_weighted_polling css max_related expected) = used_chunks v css"
    using v(2) f(2) by (simp add: e add.commute)
  have "length (pick_by_weighted_polling css max_related expected) = sum_list v"
    using used_size[OF v(1)] unfolding m[symmetric] size_mset .
  then show ?thesis using m v f(3) by (intro exI[of _ v]) (auto simp: used_ok_def used_chunks_def)
qed

lemma polling_uses_quota_witness:
  "length (pick_by_weighted_polling [[1, 2, 3], [4 :: nat]] 2 [2, 2]) = 4"
  using polling_uses_quota[of "[[1, 2, 3], [4 :: nat]]" "[2, 2]" 2] by auto

end
