(* ===== verification/RecursiveChunker.thy ===== *)
theory RecursiveChunker
  imports TokenChunker
begin

section \<open>Recursive character chunking\<close>

text \<open>
  \<^verbatim>\<open>lightrag/chunker/recursive_character.py\<close>. Every fragment carries where it lies in
  the document, so a piece is a text with two offsets. The splitter of LangChain is not part of the
  repository: what the code reads from the object it constructs is the record \<open>splitter\<close>, and
  the constructor is a parameter. The count of tokens of a text is a parameter as well, and so is
  the search of a regular expression; the search of a literal separator is \<open>literal_matches\<close>.

  An index out of range is the value \<open>None\<close> of a splitting function.
\<close>

type_synonym piece = "pystr \<times> nat \<times> nat"

datatype keep = KeepNo | KeepStart | KeepEnd

record splitter =
  sp_chunk_size :: int
  sp_overlap :: int
  sp_separators :: "pystr list"
  sp_keep :: keep
  sp_regex :: bool
  sp_strip :: bool

text \<open>What the recursion passes down unchanged: the splitter's settings and the two parameters.\<close>

record r_config =
  rc_length :: "pystr \<Rightarrow> nat"
  rc_search :: "pystr \<Rightarrow> pystr \<Rightarrow> (nat \<times> nat) list"
  rc_size :: int
  rc_overlap :: int
  rc_keep :: keep
  rc_regex :: bool
  rc_strip :: bool


subsection \<open>Bounding the separators\<close>

record separator_normalization =
  sn_separators :: "pystr list option"
  sn_dropped :: nat
  sn_truncated_from :: "nat option"

definition max_r_separators :: nat where "max_r_separators = 64"

definition max_r_separator_chars :: nat where "max_r_separator_chars = 256"

definition sn_changed :: "separator_normalization \<Rightarrow> bool" where
  "sn_changed r \<longleftrightarrow> sn_dropped r > 0 \<or> sn_truncated_from r \<noteq> None"

text \<open>Truncation keeps the empty separator, which splits anything, at the end.\<close>

definition truncate_separators :: "pystr list \<Rightarrow> pystr list" where
  "truncate_separators bounded =
     (let sentinel = list_ex (\<lambda>c. c = []) bounded;
          keep = max_r_separators - (if sentinel then 1 else 0)
      in filter (\<lambda>c. c \<noteq> []) (take keep bounded) @ (if sentinel then [[]] else []))"

definition inspect_r_separators :: "pystr list option \<Rightarrow> separator_normalization" where
  "inspect_r_separators separators =
     (case separators of
        None \<Rightarrow> \<lparr> sn_separators = None, sn_dropped = 0, sn_truncated_from = None \<rparr>
      | Some cs \<Rightarrow>
          (let bounded = filter (\<lambda>c. length c \<le> max_r_separator_chars) cs;
               dropped = length (filter (\<lambda>c. max_r_separator_chars < length c) cs)
           in if max_r_separators < length bounded
              then \<lparr> sn_separators = Some (truncate_separators bounded), sn_dropped = dropped,
                     sn_truncated_from = Some (length bounded) \<rparr>
              else \<lparr> sn_separators = Some bounded, sn_dropped = dropped, sn_truncated_from = None \<rparr>))"

definition normalize_r_separators :: "pystr list option \<Rightarrow> pystr list option" where
  "normalize_r_separators separators = sn_separators (inspect_r_separators separators)"


subsection \<open>Cutting at a separator\<close>

text \<open>The occurrences of a literal, from the left and without overlap, as \<open>re.finditer\<close> finds them.\<close>

function literal_matches :: "pystr \<Rightarrow> pystr \<Rightarrow> nat \<Rightarrow> (nat \<times> nat) list" where
  "literal_matches sep text i =
     (if sep = [] \<or> length text < i + length sep then []
      else if slice i (i + length sep) text = sep
      then (i, i + length sep) # literal_matches sep text (i + length sep)
      else literal_matches sep text (Suc i))"
  by pat_completeness auto
termination
proof (relation "measure (\<lambda>(_, text, i). Suc (length text) - i)", goal_cases)
  case (2 sep doc i)
  then have "0 < length sep" "i + length sep \<le> length doc" by auto
  then show ?case by (simp del: length_greater_0_conv)
qed auto

declare literal_matches.simps [simp del]

definition matches :: "r_config \<Rightarrow> pystr \<Rightarrow> pystr \<Rightarrow> (nat \<times> nat) list" where
  "matches c sep text = (if rc_regex c then rc_search c sep text else literal_matches sep text 0)"

definition cut_piece :: "pystr \<Rightarrow> nat \<Rightarrow> nat \<Rightarrow> nat \<Rightarrow> piece" where
  "cut_piece text base a b = (slice a b text, base + a, base + b)"

text \<open>A separator at the end of the fragment before it, at the start of the one after it, or in neither.\<close>

fun pieces_end :: "pystr \<Rightarrow> nat \<Rightarrow> nat \<Rightarrow> (nat \<times> nat) list \<Rightarrow> piece list" where
  "pieces_end text base cursor [] =
     (if cursor < length text then [cut_piece text base cursor (length text)] else [])"
| "pieces_end text base cursor ((a, b) # ms) =
     (if cursor < b then [cut_piece text base cursor b] else []) @ pieces_end text base b ms"

fun pieces_start :: "pystr \<Rightarrow> nat \<Rightarrow> (nat \<times> nat) list \<Rightarrow> piece list" where
  "pieces_start text base [] = []"
| "pieces_start text base ((a, b) # ms) =
     (let fin = (case ms of [] \<Rightarrow> length text | m # _ \<Rightarrow> fst m)
      in (if a < fin then [cut_piece text base a fin] else []) @ pieces_start text base ms)"

fun pieces_between :: "pystr \<Rightarrow> nat \<Rightarrow> nat \<Rightarrow> (nat \<times> nat) list \<Rightarrow> piece list" where
  "pieces_between text base cursor [] =
     (if cursor < length text then [cut_piece text base cursor (length text)] else [])"
| "pieces_between text base cursor ((a, b) # ms) =
     (if cursor < a then [cut_piece text base cursor a] else []) @ pieces_between text base b ms"

definition char_pieces :: "pystr \<Rightarrow> nat \<Rightarrow> piece list" where
  "char_pieces text base = map (\<lambda>i. cut_piece text base i (Suc i)) [0..<length text]"

definition split_text_with_regex_spans :: "r_config \<Rightarrow> pystr \<Rightarrow> pystr \<Rightarrow> nat \<Rightarrow> piece list" where
  "split_text_with_regex_spans c text sep base =
     (if sep = [] then char_pieces text base
      else case matches c sep text of
             [] \<Rightarrow> (if text = [] then [] else [cut_piece text base 0 (length text)])
           | m # ms \<Rightarrow>
               filter (\<lambda>p. fst p \<noteq> [])
                 (case rc_keep c of
                    KeepEnd \<Rightarrow> pieces_end text base 0 (m # ms)
                  | KeepStart \<Rightarrow>
                      (if 0 < fst m then [cut_piece text base 0 (fst m)] else []) @ pieces_start text base (m # ms)
                  | KeepNo \<Rightarrow> pieces_between text base 0 (m # ms)))"


subsection \<open>Joining and merging fragments\<close>

text \<open>The characters of the joined text and, beside them, their offsets in the document.\<close>

fun joined_chars :: "pystr \<Rightarrow> piece list \<Rightarrow> pystr" where
  "joined_chars sep [] = []"
| "joined_chars sep [p] = fst p"
| "joined_chars sep (p # q # ps) = fst p @ sep @ joined_chars sep (q # ps)"

fun joined_offsets :: "pystr \<Rightarrow> piece list \<Rightarrow> nat list" where
  "joined_offsets sep [] = []"
| "joined_offsets sep [p] = [fst (snd p)..<snd (snd p)]"
| "joined_offsets sep (p # q # ps) =
     [fst (snd p)..<snd (snd p)] @ [snd (snd p)..<snd (snd p) + length sep] @ joined_offsets sep (q # ps)"

definition join_span_pieces :: "bool \<Rightarrow> pystr \<Rightarrow> piece list \<Rightarrow> piece option option" where
  "join_span_pieces strp sep ps =
     (let text = joined_chars sep ps;
          offsets = joined_offsets sep ps;
          left = (if strp then trim_left text 0 (length text) else 0);
          right = (if strp then trim_right text left (length text) else length text)
      in if ps = [] \<or> right \<le> left then Some None
         else if length offsets < right then None
         else Some (Some (slice left right text, offsets ! left, Suc (offsets ! (right - 1)))))"

text \<open>
  \<open>pop_pieces\<close> is the inner loop that drops fragments from the front until what is left is short
  enough to be the overlap and to take the next fragment; \<open>weight\<close>, the \<^verbatim>\<open>total\<close> of the code, is the number of tokens it
  accounts for.
\<close>

definition must_pop :: "r_config \<Rightarrow> nat \<Rightarrow> nat \<Rightarrow> int \<Rightarrow> piece list \<Rightarrow> bool" where
  "must_pop c sep_len split_len weight current \<longleftrightarrow>
     weight > rc_overlap c \<or>
     (weight + int split_len + (if current \<noteq> [] then int sep_len else 0) > rc_size c \<and> weight > 0)"

fun pop_pieces :: "r_config \<Rightarrow> nat \<Rightarrow> nat \<Rightarrow> int \<Rightarrow> piece list \<Rightarrow> (int \<times> piece list) option" where
  "pop_pieces c sep_len split_len weight [] =
     (if must_pop c sep_len split_len weight [] then None else Some (weight, []))"
| "pop_pieces c sep_len split_len weight (p # ps) =
     (if must_pop c sep_len split_len weight (p # ps)
      then pop_pieces c sep_len split_len
             (weight - (int (rc_length c (fst p)) + (if ps \<noteq> [] then int sep_len else 0))) ps
      else Some (weight, p # ps))"

definition overfull :: "r_config \<Rightarrow> nat \<Rightarrow> nat \<Rightarrow> int \<Rightarrow> piece list \<Rightarrow> bool" where
  "overfull c sep_len split_len weight current \<longleftrightarrow>
     weight + int split_len + (if current \<noteq> [] then int sep_len else 0) > rc_size c"

definition list_of_option :: "'a option \<Rightarrow> 'a list" where
  "list_of_option x = (case x of None \<Rightarrow> [] | Some a \<Rightarrow> [a])"

fun merge_loop :: "r_config \<Rightarrow> pystr \<Rightarrow> piece list \<Rightarrow> int \<Rightarrow> piece list \<Rightarrow> piece list option" where
  "merge_loop c sep current weight [] = map_option list_of_option (join_span_pieces (rc_strip c) sep current)"
| "merge_loop c sep current weight (p # ps) =
     (let sep_len = rc_length c sep;
          split_len = rc_length c (fst p);
          grown = (\<lambda>cur tot. tot + int split_len + (if cur \<noteq> [] then int sep_len else 0))
      in if overfull c sep_len split_len weight current \<and> current \<noteq> []
         then (case join_span_pieces (rc_strip c) sep current of
                 None \<Rightarrow> None
               | Some doc \<Rightarrow>
                   (case pop_pieces c sep_len split_len weight current of
                      None \<Rightarrow> None
                    | Some (tot, cur) \<Rightarrow>
                        map_option ((@) (list_of_option doc)) (merge_loop c sep (cur @ [p]) (grown cur tot) ps)))
         else merge_loop c sep (current @ [p]) (grown current weight) ps)"

definition merge_splits_with_spans :: "r_config \<Rightarrow> pystr \<Rightarrow> piece list \<Rightarrow> piece list option" where
  "merge_splits_with_spans c sep splits = merge_loop c sep [] 0 splits"


subsection \<open>The recursion over the separators\<close>

text \<open>The first separator that is empty or occurs, with those after it; an empty one leaves none.\<close>

fun first_usable :: "r_config \<Rightarrow> pystr \<Rightarrow> pystr list \<Rightarrow> (pystr \<times> pystr list) option" where
  "first_usable c text [] = None"
| "first_usable c text (s # ss) =
     (if s = [] then Some (s, [])
      else if matches c s text \<noteq> [] then Some (s, ss)
      else first_usable c text ss)"

definition choose_separator :: "r_config \<Rightarrow> pystr \<Rightarrow> pystr list \<Rightarrow> (pystr \<times> pystr list) option" where
  "choose_separator c text remaining =
     (if remaining = [] then None
      else Some (case first_usable c text remaining of None \<Rightarrow> (last remaining, []) | Some r \<Rightarrow> r))"

definition no_op_split :: "pystr \<Rightarrow> nat \<Rightarrow> piece list \<Rightarrow> bool" where
  "no_op_split text base splits \<longleftrightarrow>
     (case splits of [p] \<Rightarrow> fst p = text \<and> fst (snd p) = base | _ \<Rightarrow> False)"

lemma first_usable_shorter: "first_usable c text ss = Some (s, new) \<Longrightarrow> length new < length ss"
  by (induction ss) (auto split: if_splits)

lemma choose_separator_shorter: "choose_separator c text ss = Some (s, new) \<Longrightarrow> length new < length ss"
  by (auto simp: choose_separator_def first_usable_shorter split: if_splits option.splits)

text \<open>The loop at the head of the function: separators that do not divide the text are passed over.\<close>

function advance :: "r_config \<Rightarrow> pystr \<Rightarrow> nat \<Rightarrow> pystr list \<Rightarrow> (pystr \<times> pystr list \<times> piece list) option" where
  "advance c text base remaining =
     (case choose_separator c text remaining of
        None \<Rightarrow> None
      | Some (s, new) \<Rightarrow>
          (let splits = split_text_with_regex_spans c text s base
           in if new \<noteq> [] \<and> no_op_split text base splits then advance c text base new
              else Some (s, new, splits)))"
  by pat_completeness auto
termination
  by (relation "measure (\<lambda>(_, _, _, ss). length ss)") (auto dest: choose_separator_shorter)

declare advance.simps [simp del]

lemma advance_shorter: "advance c text base ss = Some (s, new, splits) \<Longrightarrow> length new < length ss"
proof (induction c "text" base ss rule: advance.induct)
  case (1 c doc base ss)
  show ?case
    using "1.prems" 1(1)
    by (subst (asm) advance.simps)
       (fastforce simp: Let_def dest: choose_separator_shorter split: option.splits if_splits)
qed

definition merge_separator :: "r_config \<Rightarrow> pystr \<Rightarrow> pystr" where
  "merge_separator c s = (if rc_keep c = KeepNo then s else [])"

definition flush :: "r_config \<Rightarrow> pystr \<Rightarrow> piece list \<Rightarrow> piece list option" where
  "flush c sep good = (if good = [] then Some [] else merge_splits_with_spans c sep good)"

definition append_ok :: "'a list option \<Rightarrow> 'a list option \<Rightarrow> 'a list option" where
  "append_ok x y = (case x of None \<Rightarrow> None | Some xs \<Rightarrow> map_option ((@) xs) y)"

text \<open>
  \<open>split_text\<close> is the function itself and \<open>split_pieces\<close> its loop over the fragments, with the
  fragments collected so far in \<open>good\<close>.
\<close>

function (sequential) split_text :: "r_config \<Rightarrow> pystr \<Rightarrow> nat \<Rightarrow> pystr list \<Rightarrow> piece list option"
  and split_pieces :: "r_config \<Rightarrow> pystr \<Rightarrow> pystr list \<Rightarrow> piece list \<Rightarrow> piece list \<Rightarrow> piece list option"
where
  "split_text c text base separators =
     (case advance c text base separators of
        None \<Rightarrow> None
      | Some (s, new, splits) \<Rightarrow> split_pieces c (merge_separator c s) new [] splits)"
| "split_pieces c sep new good [] = flush c sep good"
| "split_pieces c sep new good (p # ps) =
     (if int (rc_length c (fst p)) < rc_size c then split_pieces c sep new (good @ [p]) ps
      else append_ok (flush c sep good)
             (append_ok (if new = [] then Some [p] else split_text c (fst p) (fst (snd p)) new)
                (split_pieces c sep new [] ps)))"
  by pat_completeness auto
termination
  by (relation "inv_image (less_than <*lex*> less_than)
       (\<lambda>x. case x of Inl (_, _, _, ss) \<Rightarrow> (length ss, 0) | Inr (_, _, new, _, ps) \<Rightarrow> (length new, Suc (length ps)))")
     (auto dest: advance_shorter)

declare split_text.simps [simp del]

definition split_text_with_spans :: "r_config \<Rightarrow> pystr \<Rightarrow> nat \<Rightarrow> pystr list \<Rightarrow> piece list option" where
  "split_text_with_spans c text base separators = split_text c text base separators"


subsection \<open>Chunks\<close>

datatype r_error = SplitterMissing | SplitterRefused pystr | SplitIndexError

text \<open>One row for each piece that is not white space, numbered in order.\<close>

fun collect_rows :: "(pystr \<Rightarrow> nat) \<Rightarrow> nat \<Rightarrow> piece list \<Rightarrow> chunk list" where
  "collect_rows len n [] = []"
| "collect_rows len n ((raw, a, b) # ps) =
     (let left = trim_left raw 0 (length raw);
          right = trim_right raw left (length raw);
          body = slice left right raw
      in if body = [] then collect_rows len n ps
         else \<lparr> chunk_tokens = len body, chunk_content = body, chunk_order_index = n,
                chunk_span = Some (a + left, b - (length raw - right)) \<rparr> # collect_rows len (Suc n) ps)"

definition fallback_rows :: "(pystr \<Rightarrow> nat) \<Rightarrow> pystr \<Rightarrow> chunk list" where
  "fallback_rows len content =
     (let body = strip content
      in if body = [] then []
         else [\<lparr> chunk_tokens = len body, chunk_content = body, chunk_order_index = 0,
                 chunk_span = map_option (\<lambda>a. (a, a + length body)) (py_find content body 0 (length content)) \<rparr>])"

definition splitter_config ::
  "(pystr \<Rightarrow> nat) \<Rightarrow> (pystr \<Rightarrow> pystr \<Rightarrow> (nat \<times> nat) list) \<Rightarrow> splitter \<Rightarrow> r_config" where
  "splitter_config len search sp =
     \<lparr> rc_length = len, rc_search = search, rc_size = sp_chunk_size sp, rc_overlap = sp_overlap sp,
       rc_keep = sp_keep sp, rc_regex = sp_regex sp, rc_strip = sp_strip sp \<rparr>"

text \<open>
  The separators handed to the constructor, where nothing that survives the bounding counts as
  no argument at all.
\<close>

definition r_separators_argument :: "pystr list option \<Rightarrow> pystr list option" where
  "r_separators_argument separators =
     (case normalize_r_separators separators of Some [] \<Rightarrow> None | r \<Rightarrow> r)"

definition chunking_by_recursive_character ::
  "bool \<Rightarrow> (int \<Rightarrow> int \<Rightarrow> pystr list option \<Rightarrow> pystr + splitter) \<Rightarrow> (pystr \<Rightarrow> pystr \<Rightarrow> (nat \<times> nat) list) \<Rightarrow>
   (pystr \<Rightarrow> 't list) \<Rightarrow> pystr \<Rightarrow> int \<Rightarrow> int \<Rightarrow> pystr list option \<Rightarrow> r_error + chunk list" where
  "chunking_by_recursive_character available make_splitter search enc content chunk_size overlap separators =
     (if \<not> available then Inl SplitterMissing
      else if blank content then Inr []
      else
        let len = (\<lambda>t. length (enc t))
        in case make_splitter (max chunk_size 1) (max overlap 0) (r_separators_argument separators) of
             Inl e \<Rightarrow> Inl (SplitterRefused e)
           | Inr sp \<Rightarrow>
               (case split_text_with_spans (splitter_config len search sp) content 0 (sp_separators sp) of
                  None \<Rightarrow> Inl SplitIndexError
                | Some ps \<Rightarrow>
                    (let rows = collect_rows len 0 ps
                     in Inr (if rows = [] then fallback_rows len content else rows))))"

end
