(* ===== verification/RecursiveSpans.thy ===== *)
theory RecursiveSpans
  imports RecursiveChunker
begin

section \<open>Recursive chunking: spans, coverage, outcomes\<close>

text \<open>
  The lemmas about \<open>RecursiveChunker\<close>. A fragment is \<open>piece_in\<close> the document when its offsets
  say where its text lies; fragments are \<open>adjacent\<close> when each starts where the one before it
  ends; \<open>weight_of\<close> is what the running total of the merge loop counts. From these follow, for
  every length function, that no index is out of range, that spans are exact and that nothing but
  white space is left out; the loop over separators is compared with the recursion it replaces.
\<close>

subsection \<open>Matches\<close>

fun ordered_matches :: "nat \<Rightarrow> nat \<Rightarrow> (nat \<times> nat) list \<Rightarrow> bool" where
  "ordered_matches n i [] = True"
| "ordered_matches n i ((a, b) # ms) = (i \<le> a \<and> a \<le> b \<and> b \<le> n \<and> ordered_matches n b ms)"

definition search_ok :: "r_config \<Rightarrow> bool" where
  "search_ok c \<longleftrightarrow> (rc_regex c \<longrightarrow> (\<forall>sep t. ordered_matches (length t) 0 (rc_search c sep t)))"

lemma ordered_matches_earlier: "ordered_matches n j ms \<Longrightarrow> i \<le> j \<Longrightarrow> ordered_matches n i ms"
  by (cases ms) auto

lemma literal_matches_ordered: "ordered_matches (length t) i (literal_matches sep t i)"
proof (induction sep t i rule: literal_matches.induct)
  case (1 sep t i)
  show ?case
  proof (cases "sep = [] \<or> length t < i + length sep")
    case True
    then show ?thesis by (subst literal_matches.simps) simp
  next
    case False
    then show ?thesis
      using 1 ordered_matches_earlier[of "length t" "Suc i" _ i]
      by (subst literal_matches.simps) (auto simp: not_less)
  qed
qed

lemma matches_ordered: "search_ok c \<Longrightarrow> ordered_matches (length t) 0 (matches c sep t)"
  by (auto simp: matches_def search_ok_def literal_matches_ordered)


subsection \<open>Fragments of a text\<close>

definition sized :: "piece \<Rightarrow> bool" where
  "sized p \<longleftrightarrow> snd (snd p) = fst (snd p) + length (fst p)"

definition piece_in :: "pystr \<Rightarrow> piece \<Rightarrow> bool" where
  "piece_in D p \<longleftrightarrow> fst (snd p) \<le> snd (snd p) \<and> snd (snd p) \<le> length D \<and>
     fst p = slice (fst (snd p)) (snd (snd p)) D"

fun adjacent :: "nat \<Rightarrow> nat \<Rightarrow> piece list \<Rightarrow> bool" where
  "adjacent a b [] = (a = b)"
| "adjacent a b (p # ps) = (fst (snd p) = a \<and> a \<le> snd (snd p) \<and> adjacent (snd (snd p)) b ps)"

lemma piece_in_sized: "piece_in D p \<Longrightarrow> sized p"
  by (auto simp: piece_in_def sized_def length_slice min_def)

lemma adjacent_le: "adjacent a b ps \<Longrightarrow> a \<le> b"
  by (induction a b ps rule: adjacent.induct) auto

lemma adjacent_append: "adjacent a b ps \<Longrightarrow> adjacent b e qs \<Longrightarrow> adjacent a e (ps @ qs)"
  by (induction a b ps rule: adjacent.induct) auto

lemma cut_sized: "a \<le> b \<Longrightarrow> b \<le> length t \<Longrightarrow> sized (cut_piece t base a b)"
  by (simp add: cut_piece_def sized_def length_slice)

lemma cut_nonempty: "a < b \<Longrightarrow> b \<le> length t \<Longrightarrow> fst (cut_piece t base a b) \<noteq> []"
  using length_slice[of a b t] by (auto simp: cut_piece_def)

lemma cut_in:
  assumes "piece_in D (t, base, base + length t)" and "a \<le> b" and "b \<le> length t"
  shows "piece_in D (cut_piece t base a b)"
proof -
  have "t = slice base (base + length t) D" "base + length t \<le> length D"
    using assms(1) by (simp_all add: piece_in_def)
  moreover from this(1) have "slice a b t = slice (base + a) (base + b) D"
    using slice_slice[of base b "base + length t" a D] assms(3) by simp
  ultimately show ?thesis using assms(2,3) by (simp add: piece_in_def cut_piece_def)
qed

text \<open>What every cut of a text into fragments gives: good fragments, and with the separators kept a tiling.\<close>

definition fragments :: "pystr \<Rightarrow> nat \<Rightarrow> piece list \<Rightarrow> bool" where
  "fragments t base ps \<longleftrightarrow>
     (\<forall>p \<in> set ps. \<exists>a b. a < b \<and> b \<le> length t \<and> p = cut_piece t base a b)"

lemma fragments_simps [simp]:
  "fragments t base []"
  "fragments t base (ps @ qs) \<longleftrightarrow> fragments t base ps \<and> fragments t base qs"
  by (auto simp: fragments_def)

lemma fragments_cut: "a < b \<Longrightarrow> b \<le> length t \<Longrightarrow> fragments t base [cut_piece t base a b]"
  by (auto simp: fragments_def)

lemma fragments_cut_Cons [simp]:
  "a < b \<Longrightarrow> b \<le> length t \<Longrightarrow> fragments t base (cut_piece t base a b # ps) \<longleftrightarrow> fragments t base ps"
  by (auto simp: fragments_def)

lemma fragments_memE:
  assumes "fragments t base ps" and "p \<in> set ps"
  obtains a b where "a < b" "b \<le> length t" "p = cut_piece t base a b"
  using assms unfolding fragments_def by blast

lemma fragments_nonempty: "fragments t base ps \<Longrightarrow> p \<in> set ps \<Longrightarrow> fst p \<noteq> []"
  by (erule fragments_memE) (auto dest: cut_nonempty)

lemma fragments_sized: "fragments t base ps \<Longrightarrow> p \<in> set ps \<Longrightarrow> sized p"
  by (erule fragments_memE) (auto intro: cut_sized)

lemma fragments_in:
  "fragments t base ps \<Longrightarrow> piece_in D (t, base, base + length t) \<Longrightarrow> p \<in> set ps \<Longrightarrow> piece_in D p"
  by (erule fragments_memE) (auto intro: cut_in)

lemma fragments_filter: "fragments t base ps \<Longrightarrow> filter (\<lambda>p. fst p \<noteq> []) ps = ps"
  by (simp add: filter_id_conv fragments_nonempty)

lemma cut_ends [simp]: "fst (snd (cut_piece t base a b)) = base + a" "snd (snd (cut_piece t base a b)) = base + b"
  by (simp_all add: cut_piece_def)

lemma pieces_end_tile:
  "ordered_matches (length t) cursor ms \<Longrightarrow> cursor \<le> length t \<Longrightarrow>
     fragments t base (pieces_end t base cursor ms) \<and>
     adjacent (base + cursor) (base + length t) (pieces_end t base cursor ms)"
proof (induction t base cursor ms rule: pieces_end.induct)
  case (1 t base cursor)
  then show ?case by (auto simp: fragments_cut)
next
  case (2 t base cursor a b ms)
  then consider "cursor < b" | "cursor = b" by fastforce
  then show ?case using 2 by cases auto
qed

lemma pieces_start_tile:
  "ordered_matches (length t) i ms \<Longrightarrow> ms \<noteq> [] \<Longrightarrow>
     fragments t base (pieces_start t base ms) \<and>
     adjacent (base + fst (hd ms)) (base + length t) (pieces_start t base ms)"
proof (induction t base ms arbitrary: i rule: pieces_start.induct)
  case (1 t base)
  then show ?case by simp
next
  case (2 t base a b ms)
  have ab: "a \<le> b" "b \<le> length t" "ordered_matches (length t) b ms" using "2.prems"(1) by simp_all
  show ?case
  proof (cases ms)
    case Nil
    with ab show ?thesis by (auto simp: Let_def)
  next
    case (Cons m ms')
    obtain x y where m: "m = (x, y)" by (cases m)
    have x: "a \<le> x" "x \<le> length t" using ab(1,3) by (auto simp: Cons m)
    have IH: "fragments t base (pieces_start t base ms)" "adjacent (base + x) (base + length t) (pieces_start t base ms)"
      using "2.IH"[OF refl ab(3)] by (simp_all add: Cons m del: pieces_start.simps)
    have e: "pieces_start t base ((a, b) # ms) = (if a < x then [cut_piece t base a x] else []) @ pieces_start t base ms"
      by (simp add: Cons m)
    from x(1) consider "a < x" | "a = x" by linarith
    then show ?thesis unfolding e using IH x(2) by cases simp_all
  qed
qed

lemma pieces_between_fragments:
  "ordered_matches (length t) cursor ms \<Longrightarrow> fragments t base (pieces_between t base cursor ms)"
proof (induction t base cursor ms rule: pieces_between.induct)
  case (1 t base cursor)
  then show ?case by (auto simp: fragments_cut)
next
  case (2 t base cursor a b ms)
  then show ?case by (auto simp: fragments_cut)
qed

lemma char_pieces_fragments: "fragments t base (char_pieces t base)"
proof -
  have "\<exists>a b. a < b \<and> b \<le> length t \<and> cut_piece t base i (Suc i) = cut_piece t base a b" if "i < length t" for i
    using that by (intro exI[of _ i] exI[of _ "Suc i"]) simp
  then show ?thesis by (auto simp: fragments_def char_pieces_def)
qed

lemma adjacent_chars:
  "i \<le> n \<Longrightarrow> adjacent (base + i) (base + n) (map (\<lambda>i. cut_piece t base i (Suc i)) [i..<n])"
proof (induction "n - i" arbitrary: i)
  case 0
  then show ?case by simp
next
  case (Suc k)
  then have "i < n" "k = n - Suc i" by auto
  with Suc(1)[of "Suc i"] show ?case by (simp add: upt_conv_Cons)
qed

lemma pieces_start_fragments:
  assumes "ordered_matches (length t) i ((a, b) # ms)"
  shows "fragments t base ((if 0 < a then [cut_piece t base 0 a] else []) @ pieces_start t base ((a, b) # ms))"
    and "adjacent base (base + length t)
      ((if 0 < a then [cut_piece t base 0 a] else []) @ pieces_start t base ((a, b) # ms))"
proof -
  have a: "a \<le> length t" using assms by simp
  have rest: "fragments t base (pieces_start t base ((a, b) # ms))"
      "adjacent (base + a) (base + length t) (pieces_start t base ((a, b) # ms))"
    using pieces_start_tile[OF assms, of base] by (simp_all del: pieces_start.simps)
  show "fragments t base ((if 0 < a then [cut_piece t base 0 a] else []) @ pieces_start t base ((a, b) # ms))"
    using a rest(1) by (simp add: fragments_cut del: pieces_start.simps)
  have "adjacent base (base + a) (if 0 < a then [cut_piece t base 0 a] else [])" by simp
  from adjacent_append[OF this rest(2)]
  show "adjacent base (base + length t)
      ((if 0 < a then [cut_piece t base 0 a] else []) @ pieces_start t base ((a, b) # ms))" .
qed

lemma split_at_matches:
  assumes "search_ok c" and "sep \<noteq> []" and "matches c sep t = m # ms"
  shows "fragments t base (split_text_with_regex_spans c t sep base)"
    and "rc_keep c \<noteq> KeepNo \<Longrightarrow> adjacent base (base + length t) (split_text_with_regex_spans c t sep base)"
proof -
  obtain a b where m: "m = (a, b)" by (cases m)
  have o: "ordered_matches (length t) 0 ((a, b) # ms)" using matches_ordered[OF assms(1)] assms(3) m by metis
  note eq = split_text_with_regex_spans_def assms(2,3) m
  have fin: "fragments t base (pieces_end t base 0 ((a, b) # ms))"
      "adjacent base (base + length t) (pieces_end t base 0 ((a, b) # ms))"
    using pieces_end_tile[OF o, of base] by (simp_all del: pieces_end.simps)
  note start = pieces_start_fragments[OF o, of base]
  note between = pieces_between_fragments[OF o, of base]
  show "fragments t base (split_text_with_regex_spans c t sep base)"
    using fin(1) start(1) between
    by (cases "rc_keep c") (simp_all only: eq list.case keep.case if_False fst_conv fragments_filter)
  show "adjacent base (base + length t) (split_text_with_regex_spans c t sep base)" if "rc_keep c \<noteq> KeepNo"
    using that fin(2) start(2)
    by (cases "rc_keep c")
       (simp_all only: eq list.case keep.case if_False fst_conv fragments_filter[OF fin(1)] fragments_filter[OF start(1)]
          not_True_eq_False simp_thms)
qed

lemma split_fragments:
  assumes "search_ok c"
  shows "fragments t base (split_text_with_regex_spans c t sep base)"
    and "rc_keep c \<noteq> KeepNo \<Longrightarrow> adjacent base (base + length t) (split_text_with_regex_spans c t sep base)"
proof (atomize (full), cases "sep = []")
  case True
  then show "fragments t base (split_text_with_regex_spans c t sep base) \<and>
     (rc_keep c \<noteq> KeepNo \<longrightarrow> adjacent base (base + length t) (split_text_with_regex_spans c t sep base))"
    using adjacent_chars[of 0 "length t" base t] char_pieces_fragments[of t base]
    by (simp add: split_text_with_regex_spans_def char_pieces_def)
next
  case False
  then show "fragments t base (split_text_with_regex_spans c t sep base) \<and>
     (rc_keep c \<noteq> KeepNo \<longrightarrow> adjacent base (base + length t) (split_text_with_regex_spans c t sep base))"
    using split_at_matches[OF assms False]
    by (cases "matches c sep t") (auto simp: split_text_with_regex_spans_def fragments_cut)
qed


subsection \<open>Merging never runs out of fragments\<close>

definition weight_of :: "r_config \<Rightarrow> nat \<Rightarrow> piece list \<Rightarrow> int" where
  "weight_of c sep_len ps =
     (\<Sum>p \<leftarrow> ps. int (rc_length c (fst p))) + int (length ps - 1) * int sep_len"

lemma weight_of_Nil [simp]: "weight_of c n [] = 0"
  by (simp add: weight_of_def)

lemma weight_of_Cons:
  "weight_of c n (p # ps) = int (rc_length c (fst p)) + (if ps \<noteq> [] then int n else 0) + weight_of c n ps"
  by (cases ps) (simp_all add: weight_of_def algebra_simps)

lemma weight_of_snoc:
  "weight_of c n (ps @ [p]) = weight_of c n ps + int (rc_length c (fst p)) + (if ps \<noteq> [] then int n else 0)"
  by (induction ps) (auto simp: weight_of_Cons)

lemma pop_pieces_suffix:
  "rc_overlap c \<ge> 0 \<Longrightarrow> w = weight_of c n ps \<Longrightarrow>
     \<exists>k. pop_pieces c n m w ps = Some (weight_of c n (drop k ps), drop k ps)"
proof (induction c n m w ps rule: pop_pieces.induct)
  case (1 c n m w)
  then show ?case by (simp add: must_pop_def)
next
  case (2 c n m w p ps)
  show ?case
  proof (cases "must_pop c n m w (p # ps)")
    case True
    from 2(1)[OF True 2(2)] 2(3) obtain k where
      "pop_pieces c n m (w - (int (rc_length c (fst p)) + (if ps \<noteq> [] then int n else 0))) ps =
        Some (weight_of c n (drop k ps), drop k ps)" by (auto simp: weight_of_Cons)
    with True show ?thesis by (intro exI[of _ "Suc k"]) simp
  next
    case False
    with 2(3) show ?thesis by (intro exI[of _ 0]) simp
  qed
qed

lemma length_joined:
  "(\<And>p. p \<in> set ps \<Longrightarrow> sized p) \<Longrightarrow> length (joined_offsets sep ps) = length (joined_chars sep ps)"
  by (induction sep ps rule: joined_chars.induct) (auto simp: sized_def)

lemma join_returns:
  assumes "\<And>p. p \<in> set ps \<Longrightarrow> sized p"
  shows "join_span_pieces strp sep ps \<noteq> None"
proof -
  have "\<not> length t < trim_right t (trim_left t 0 (length t)) (length t)" for t
    using trim_left_bounds[of 0 "length t" t] trim_right_bounds leD by blast
  then show ?thesis
    using length_joined[where sep = sep and ps = ps, OF assms] by (simp add: join_span_pieces_def Let_def)
qed

lemma set_drop_sized: "(\<And>p. p \<in> set ps \<Longrightarrow> P p) \<Longrightarrow> q \<in> set (drop k ps) \<Longrightarrow> P q"
  by (auto dest: in_set_dropD)

lemma merge_returns:
  "rc_overlap c \<ge> 0 \<Longrightarrow> (\<And>p. p \<in> set current \<union> set ps \<Longrightarrow> sized p) \<Longrightarrow>
     w = weight_of c (rc_length c sep) current \<Longrightarrow> merge_loop c sep current w ps \<noteq> None"
proof (induction ps arbitrary: current w)
  case Nil
  then show ?case using join_returns[of current] by simp
next
  case (Cons p ps)
  let ?n = "rc_length c sep"
  have cur: "\<And>q. q \<in> set current \<Longrightarrow> sized q" using Cons.prems(2) by simp
  obtain doc where doc: "join_span_pieces (rc_strip c) sep current = Some doc"
    using join_returns[OF cur] by blast
  obtain k where pop: "pop_pieces c ?n (rc_length c (fst p)) (weight_of c ?n current) current =
      Some (weight_of c ?n (drop k current), drop k current)"
    using pop_pieces_suffix[OF Cons.prems(1) refl] by blast
  have IH: "merge_loop c sep (drop j current @ [p]) (weight_of c ?n (drop j current @ [p])) ps \<noteq> None" for j
    using Cons.prems(1,2) by (intro Cons.IH) (auto dest: in_set_dropD)
  show ?case
    using IH[of k] IH[of 0]
    by (simp add: Let_def doc pop Cons.prems(3) weight_of_snoc[symmetric] option.map_disc_iff del: drop_eq_Nil drop_eq_Nil2)
qed

lemma flush_returns:
  "rc_overlap c \<ge> 0 \<Longrightarrow> (\<And>p. p \<in> set good \<Longrightarrow> sized p) \<Longrightarrow> flush c sep good \<noteq> None"
  using merge_returns[where current = "[]" and ps = good and w = 0] by (auto simp: flush_def merge_splits_with_spans_def)

lemma advance_fragments:
  "search_ok c \<Longrightarrow> advance c t base ss = Some (s, new, splits) \<Longrightarrow>
     splits = split_text_with_regex_spans c t s base"
proof (induction c t base ss rule: advance.induct)
  case (1 c t base ss)
  show ?case
    using "1.prems"(2)[unfolded advance.simps[of c t base ss]] "1.prems"(1) 1(1)
    by (fastforce simp: Let_def split: option.splits if_splits)
qed

lemma advance_returns: "ss \<noteq> [] \<Longrightarrow> advance c t base ss \<noteq> None"
proof (induction c t base ss rule: advance.induct)
  case (1 c t base ss)
  then show ?case
    by (subst advance.simps) (auto simp: Let_def choose_separator_def split: option.splits)
qed

lemma append_ok_None [simp]: "append_ok x y = None \<longleftrightarrow> x = None \<or> y = None"
  by (auto simp: append_ok_def split: option.splits)

lemma split_returns:
  "rc_overlap c \<ge> 0 \<Longrightarrow> search_ok c \<Longrightarrow> ss \<noteq> [] \<Longrightarrow> split_text c t base ss \<noteq> None"
  "rc_overlap c \<ge> 0 \<Longrightarrow> search_ok c \<Longrightarrow> (\<And>p. p \<in> set good \<union> set ps \<Longrightarrow> sized p) \<Longrightarrow>
     split_pieces c sep new good ps \<noteq> None"
proof (induction c t base ss and c sep new good ps rule: split_text_split_pieces.induct)
  case (1 c t base ss)
  obtain s new splits where a: "advance c t base ss = Some (s, new, splits)"
    using advance_returns[OF "1.prems"(3)] by (metis not_Some_eq prod_cases3)
  have "p \<in> set splits \<Longrightarrow> sized p" for p
    using advance_fragments[OF "1.prems"(2) a] fragments_sized split_fragments(1)[OF "1.prems"(2)] by blast
  with 1(1)[OF a refl refl "1.prems"(1,2)] show ?case by (subst split_text.simps) (simp add: a)
next
  case (2 c sep new good)
  then show ?case using flush_returns by simp
next
  case (3 c sep new good p ps)
  have "flush c sep good \<noteq> None" using 3(4,6) by (intro flush_returns) auto
  moreover have "new \<noteq> [] \<Longrightarrow> \<not> int (rc_length c (fst p)) < rc_size c \<Longrightarrow> split_text c (fst p) (fst (snd p)) new \<noteq> None"
    using 3(2,4,5) by blast
  moreover have "int (rc_length c (fst p)) < rc_size c \<Longrightarrow> split_pieces c sep new (good @ [p]) ps \<noteq> None"
    using 3(4,5,6) by (intro 3(1)) auto
  moreover have "\<not> int (rc_length c (fst p)) < rc_size c \<Longrightarrow> split_pieces c sep new [] ps \<noteq> None"
    using 3(4,5,6) by (intro 3(3)) auto
  ultimately show ?case by (cases "int (rc_length c (fst p)) < rc_size c") (auto simp del: not_None_eq)
qed


subsection \<open>Spans and coverage\<close>

definition covered :: "pystr \<Rightarrow> nat \<Rightarrow> nat \<Rightarrow> piece list \<Rightarrow> bool" where
  "covered D a b qs \<longleftrightarrow>
     (\<forall>i. a \<le> i \<longrightarrow> i < b \<longrightarrow> \<not> py_space (D ! i) \<longrightarrow> (\<exists>q \<in> set qs. fst (snd q) \<le> i \<and> i < snd (snd q)))"

definition exact_cover :: "pystr \<Rightarrow> nat \<Rightarrow> nat \<Rightarrow> piece list \<Rightarrow> bool" where
  "exact_cover D a b qs \<longleftrightarrow> (\<forall>q \<in> set qs. piece_in D q) \<and> covered D a b qs"

lemma exact_cover_Nil [simp]: "exact_cover D a a []"
  by (simp add: exact_cover_def covered_def)

lemma exact_cover_append:
  "exact_cover D a b ps \<Longrightarrow> exact_cover D a' e qs \<Longrightarrow> a' \<le> b \<Longrightarrow> exact_cover D a e (ps @ qs)"
  unfolding exact_cover_def covered_def
  by (intro conjI allI impI) (force, metis Un_iff linorder_not_less order_trans set_append)

lemma exact_cover_piece: "piece_in D p \<Longrightarrow> exact_cover D (fst (snd p)) (snd (snd p)) [p]"
  by (auto simp: exact_cover_def covered_def)

lemma trim_left_spaces: "a \<le> i \<Longrightarrow> i < trim_left t a b \<Longrightarrow> py_space (t ! i)"
proof (induction t a b rule: trim_left.induct)
  case (1 t a b)
  show ?case
  proof (cases "a < b \<and> py_space (t ! a)")
    case True
    then show ?thesis using 1(1)[OF True] 1(2,3) trim_left_step[of a b t] by (cases "a = i") auto
  next
    case False
    then show ?thesis using 1(2,3) trim_left_stop[of a b t] by simp
  qed
qed

lemma trim_right_spaces: "trim_right t a b \<le> i \<Longrightarrow> i < b \<Longrightarrow> py_space (t ! i)"
  by (induction b) (auto simp: less_Suc_eq split: if_splits)

lemma joined_exact:
  "adjacent a b ps \<Longrightarrow> (\<And>p. p \<in> set ps \<Longrightarrow> piece_in D p) \<Longrightarrow>
     joined_chars [] ps = slice a b D \<and> joined_offsets [] ps = [a..<b]"
proof (induction "[] :: pystr" ps arbitrary: a rule: joined_chars.induct)
  case 1
  then show ?case by simp
next
  case (2 p)
  then show ?case by (auto simp: piece_in_def)
next
  case (3 p q ps)
  let ?m = "snd (snd p)"
  have m: "fst (snd p) = a" "a \<le> ?m" "adjacent ?m b (q # ps)" using "3.prems"(1) by auto
  have "joined_chars [] (q # ps) = slice ?m b D \<and> joined_offsets [] (q # ps) = [?m..<b]"
    using 3(1)[OF m(3)] "3.prems"(2) by simp
  moreover have "fst p = slice a ?m D" using "3.prems"(2)[of p] m(1) by (simp add: piece_in_def)
  ultimately show ?case
    using m(1,2) adjacent_le[OF m(3)] slice_append[of a ?m b D] upt_add_eq_append[of a ?m "b - ?m"] by simp
qed

lemma join_exact:
  assumes "adjacent a b ps" and "\<And>p. p \<in> set ps \<Longrightarrow> piece_in D p" and "b \<le> length D"
    and "join_span_pieces strp [] ps = Some doc"
  shows "exact_cover D a b (list_of_option doc)"
proof -
  define t where "t = slice a b D"
  define l where "l = (if strp then trim_left t 0 (length t) else 0)"
  define r where "r = (if strp then trim_right t l (length t) else length t)"
  have ab: "a \<le> b" by (rule adjacent_le[OF assms(1)])
  then have len: "length t = b - a" using assms(3) by (simp add: t_def length_slice)
  have l: "l \<le> length t" using trim_left_bounds[of 0 "length t" t] by (simp add: l_def)
  have r: "l \<le> r" "r \<le> length t" using l trim_right_bounds[of l "length t" t] by (simp_all add: r_def)
  have nth: "t ! j = D ! (a + j)" if "j < b - a" for j
    using that assms(3) by (simp add: t_def slice_def)
  have outside: "py_space (t ! j)" if "j < length t" "\<not> (l \<le> j \<and> j < r)" for j
    using that trim_left_spaces[of 0 j t "length t"] trim_right_spaces[of t l "length t" j]
    by (auto simp: l_def r_def not_le not_less split: if_splits)
  note js = joined_exact[OF assms(1,2)]
  have eq: "join_span_pieces strp [] ps =
      (if ps = [] \<or> r \<le> l then Some None else Some (Some (slice l r t, a + l, a + r)))"
  proof (cases "r \<le> l")
    case False
    then have "[a..<b] ! l = a + l" "Suc ([a..<b] ! (r - 1)) = a + r" "\<not> length [a..<b] < r" using r len by auto
    then show ?thesis
      by (simp only: join_span_pieces_def Let_def js t_def[symmetric] l_def[symmetric] r_def[symmetric] if_False)
  qed (simp only: join_span_pieces_def Let_def js t_def[symmetric] l_def[symmetric] r_def[symmetric] simp_thms if_True)
  show ?thesis
  proof (cases "ps = [] \<or> r \<le> l")
    case True
    then have doc: "doc = None" using assms(4) eq by simp
    have "py_space (D ! i)" if "a \<le> i" "i < b" for i
      using True that assms(1) outside[of "i - a"] nth[of "i - a"] len by auto
    then show ?thesis by (auto simp: doc list_of_option_def exact_cover_def covered_def)
  next
    case False
    then have doc: "doc = Some (slice l r t, a + l, a + r)" using assms(4) eq by simp
    have "piece_in D (slice l r t, a + l, a + r)"
      using r len ab assms(3) slice_slice[of a r b l D] by (simp add: piece_in_def t_def)
    moreover have "a + l \<le> i \<and> i < a + r" if "a \<le> i" "i < b" "\<not> py_space (D ! i)" for i
    proof -
      have "i - a < length t" "t ! (i - a) = D ! i" using that nth[of "i - a"] len by auto
      with that outside[of "i - a"] have "l \<le> i - a \<and> i - a < r" by metis
      with that show ?thesis by linarith
    qed
    ultimately show ?thesis by (auto simp: doc list_of_option_def exact_cover_def covered_def)
  qed
qed

lemma adjacent_drop:
  assumes "adjacent a b ps"
  obtains a' where "a \<le> a'" "a' \<le> b" "adjacent a' b (drop k ps)"
proof -
  have "\<exists>a'. a \<le> a' \<and> adjacent a' b (drop k ps)"
    using assms
  proof (induction a b ps arbitrary: k rule: adjacent.induct)
    case (2 a b p ps)
    then show ?case by (cases k) (auto, meson order_trans)
  qed auto
  with that adjacent_le show ?thesis by blast
qed

lemma merge_exact:
  "merge_loop c [] current w ps = Some docs \<Longrightarrow> rc_overlap c \<ge> 0 \<Longrightarrow> w = weight_of c (rc_length c []) current \<Longrightarrow>
     adjacent a b current \<Longrightarrow> adjacent b e ps \<Longrightarrow> e \<le> length D \<Longrightarrow>
     (\<And>p. p \<in> set current \<union> set ps \<Longrightarrow> piece_in D p) \<Longrightarrow> exact_cover D a e docs"
proof (induction ps arbitrary: current w a b docs)
  case Nil
  then show ?case using join_exact[of a b current D] by auto
next
  case (Cons p ps)
  let ?n = "rc_length c []"
  let ?m = "snd (snd p)"
  have p: "fst (snd p) = b" "b \<le> ?m" "adjacent ?m e ps" using Cons.prems(5) by auto
  have in_: "piece_in D q" if "q \<in> set (drop j current @ [p]) \<union> set ps" for q j
    using that Cons.prems(7)[of q] by (auto dest: in_set_dropD)
  have cover: "exact_cover D x e docs'"
    if "merge_loop c [] (drop j current @ [p]) (weight_of c ?n (drop j current @ [p])) ps = Some docs'"
      and "adjacent x b (drop j current)" for j x docs'
    using that(1) Cons.prems(2) refl adjacent_append[OF that(2), of ?m "[p]"] p Cons.prems(6) in_
    by (intro Cons.IH[of "drop j current @ [p]" _ docs' x ?m]) auto
  obtain k where pop: "pop_pieces c ?n (rc_length c (fst p)) (weight_of c ?n current) current =
      Some (weight_of c ?n (drop k current), drop k current)"
    using pop_pieces_suffix[OF Cons.prems(2) refl] by blast
  note run = Cons.prems(1)[unfolded merge_loop.simps Let_def Cons.prems(3) pop]
  show ?case
  proof (cases "overfull c ?n (rc_length c (fst p)) (weight_of c ?n current) current \<and> current \<noteq> []")
    case True
    with run obtain doc rest where doc: "join_span_pieces (rc_strip c) [] current = Some doc"
      and rest: "merge_loop c [] (drop k current @ [p]) (weight_of c ?n (drop k current @ [p])) ps = Some rest"
      and docs: "docs = list_of_option doc @ rest"
      by (auto simp: weight_of_snoc[symmetric] simp del: drop_eq_Nil drop_eq_Nil2 split: option.splits)
    obtain a' where a': "a \<le> a'" "a' \<le> b" "adjacent a' b (drop k current)" by (rule adjacent_drop[OF Cons.prems(4)])
    have "b \<le> length D" using adjacent_le[OF Cons.prems(5)] Cons.prems(6) by simp
    then have "exact_cover D a b (list_of_option doc)"
      using join_exact[OF Cons.prems(4) _ _ doc] Cons.prems(7) by simp
    then show ?thesis unfolding docs by (rule exact_cover_append[OF _ cover[OF rest a'(3)] a'(2)])
  next
    case False
    then have "merge_loop c [] (drop 0 current @ [p]) (weight_of c ?n (drop 0 current @ [p])) ps = Some docs"
      using run by (simp only: if_False weight_of_snoc drop_0)
    then show ?thesis by (rule cover) (simp add: Cons.prems(4))
  qed
qed

lemma flush_exact:
  assumes "flush c [] good = Some docs" and "rc_overlap c \<ge> 0" and "adjacent a b good" and "b \<le> length D"
    and "\<And>p. p \<in> set good \<Longrightarrow> piece_in D p"
  shows "exact_cover D a b docs"
  using assms merge_exact[of c "[]" 0 good docs a a b D]
  by (auto simp: flush_def merge_splits_with_spans_def split: if_splits)

lemma append_ok_SomeE:
  assumes "append_ok x y = Some zs"
  obtains xs ys where "x = Some xs" "y = Some ys" "zs = xs @ ys"
  using assms by (auto simp: append_ok_def split: option.splits)

lemma split_exact:
  "split_text c t base ss = Some out \<Longrightarrow> rc_overlap c \<ge> 0 \<Longrightarrow> search_ok c \<Longrightarrow> rc_keep c \<noteq> KeepNo \<Longrightarrow>
     piece_in D (t, base, base + length t) \<Longrightarrow> exact_cover D base (base + length t) out"
  "split_pieces c sep new good ps = Some out \<Longrightarrow> rc_overlap c \<ge> 0 \<Longrightarrow> search_ok c \<Longrightarrow> rc_keep c \<noteq> KeepNo \<Longrightarrow>
     sep = [] \<Longrightarrow> adjacent a b good \<Longrightarrow> adjacent b e ps \<Longrightarrow> e \<le> length D \<Longrightarrow>
     (\<And>p. p \<in> set good \<union> set ps \<Longrightarrow> piece_in D p) \<Longrightarrow> exact_cover D a e out"
proof (induction c t base ss and c sep new good ps arbitrary: out and out a b e rule: split_text_split_pieces.induct)
  case (1 c t base ss)
  obtain s new splits where adv: "advance c t base ss = Some (s, new, splits)"
    using "1.prems"(1) by (subst (asm) split_text.simps) (auto split: option.splits)
  then have run: "split_pieces c (merge_separator c s) new [] splits = Some out"
    using "1.prems"(1) by (subst (asm) split_text.simps) simp
  have sp: "splits = split_text_with_regex_spans c t s base" by (rule advance_fragments[OF "1.prems"(3) adv])
  have "base + length t \<le> length D" using "1.prems"(5) by (simp add: piece_in_def)
  moreover have "adjacent base (base + length t) splits" unfolding sp by (rule split_fragments(2)[OF "1.prems"(3,4)])
  moreover have "p \<in> set splits \<Longrightarrow> piece_in D p" for p
    unfolding sp by (rule fragments_in[OF split_fragments(1)[OF "1.prems"(3)] "1.prems"(5)])
  ultimately show ?case
    using 1(1)[OF adv refl refl run "1.prems"(2,3,4)] "1.prems"(4) by (simp add: merge_separator_def)
next
  case (2 c sep new good)
  then show ?case using flush_exact[of c good out a b D] by auto
next
  case (3 c sep new good p ps)
  let ?m = "snd (snd p)"
  have p: "fst (snd p) = b" "b \<le> ?m" "adjacent ?m e ps" using "3.prems"(7) by auto
  have le: "b \<le> length D" using adjacent_le[OF "3.prems"(7)] "3.prems"(8) by simp
  have pin: "piece_in D p" using "3.prems"(9) by simp
  note case_eq = split_pieces.simps(2)[of c sep new good p ps]
  show ?case
  proof (cases "int (rc_length c (fst p)) < rc_size c")
    case True
    then have "split_pieces c sep new (good @ [p]) ps = Some out" using "3.prems"(1) case_eq by simp
    moreover have "adjacent a ?m (good @ [p])" using adjacent_append[OF "3.prems"(6), of ?m "[p]"] p by simp
    ultimately show ?thesis using 3(1)[OF True _ "3.prems"(2-5)] p(3) "3.prems"(8,9) by auto
  next
    case False
    then have "append_ok (flush c sep good) (append_ok (if new = [] then Some [p] else split_text c (fst p) (fst (snd p)) new)
        (split_pieces c sep new [] ps)) = Some out" using "3.prems"(1) case_eq by simp
    then obtain xs ys zs where xs: "flush c sep good = Some xs"
      and ys: "(if new = [] then Some [p] else split_text c (fst p) (fst (snd p)) new) = Some ys"
      and zs: "split_pieces c sep new [] ps = Some zs" and out: "out = xs @ ys @ zs"
      by (elim append_ok_SomeE) blast
    have "exact_cover D a b xs" using flush_exact[of c good xs a b D] xs "3.prems"(2,5,6,9) le by simp
    moreover have "exact_cover D b ?m ys"
    proof (cases "new = []")
      case True
      with ys exact_cover_piece[OF pin] p(1) show ?thesis by simp
    next
      case new: False
      have "?m = fst (snd p) + length (fst p)" using piece_in_sized[OF pin] by (simp add: sized_def)
      then show ?thesis using 3(2)[OF False new _ "3.prems"(2-4), of ys] new ys pin p(1) by (cases p) auto
    qed
    moreover have "exact_cover D ?m e zs"
      using 3(3)[OF False zs "3.prems"(2-5), of ?m ?m e] p(3) "3.prems"(8,9) by simp
    ultimately show ?thesis unfolding out using exact_cover_append by blast
  qed
qed


subsection \<open>Rows\<close>

lemma trimmed_body:
  "slice (trim_left t 0 (length t)) (trim_right t (trim_left t 0 (length t)) (length t)) t = strip t"
proof -
  let ?l = "trim_left t 0 (length t)"
  have l: "?l \<le> length t" using trim_left_bounds[of 0 "length t" t] by simp
  have "slice ?l (trim_right t ?l (length t)) t = rstrip (slice ?l (length t) t)" using l by (intro trim_right_slice) simp_all
  also have "slice ?l (length t) t = lstrip t"
    using trim_left_slice[of 0 "length t" t] by (simp add: lstrip_def slice_whole)
  finally show ?thesis by (simp add: strip_def)
qed

text \<open>A row of the document: its span is not empty and holds exactly its trimmed content.\<close>

definition row_ok :: "(pystr \<Rightarrow> nat) \<Rightarrow> pystr \<Rightarrow> chunk \<Rightarrow> bool" where
  "row_ok len D r \<longleftrightarrow>
     (case chunk_span r of
        None \<Rightarrow> False
      | Some (a, b) \<Rightarrow> a < b \<and> b \<le> length D \<and> slice a b D = chunk_content r \<and>
          strip (chunk_content r) = chunk_content r \<and> chunk_tokens r = len (chunk_content r))"

lemma trim_offsets:
  assumes "piece_in D (raw, a, b)"
  defines "l \<equiv> trim_left raw 0 (length raw)" and "r \<equiv> trim_right raw (trim_left raw 0 (length raw)) (length raw)"
  shows "b - (length raw - r) = a + r" "slice (a + l) (a + r) D = strip raw" "a + r \<le> length D" "l \<le> r"
    "\<And>i. a \<le> i \<Longrightarrow> i < b \<Longrightarrow> \<not> py_space (D ! i) \<Longrightarrow> a + l \<le> i \<and> i < a + r"
proof -
  have b: "b = a + length raw" using piece_in_sized[OF assms(1)] by (simp add: sized_def)
  have raw: "raw = slice a b D" "b \<le> length D" using assms(1) by (simp_all add: piece_in_def)
  have l: "l \<le> length raw" using trim_left_bounds[of 0 "length raw" raw] by (simp add: l_def)
  then show lr: "l \<le> r" using trim_right_bounds[of l "length raw" raw] by (simp add: l_def r_def)
  have r: "r \<le> length raw" using l trim_right_bounds[of l "length raw" raw] by (simp add: l_def r_def)
  show "b - (length raw - r) = a + r" "a + r \<le> length D" using b r raw(2) by simp_all
  have "slice l r raw = strip raw" unfolding l_def r_def by (rule trimmed_body)
  moreover have "slice l r raw = slice (a + l) (a + r) D"
  proof -
    have "a + r \<le> b" using r b by simp
    then show ?thesis using slice_slice[of a r b l D] unfolding raw(1)[symmetric] by blast
  qed
  ultimately show "slice (a + l) (a + r) D = strip raw" by simp
  fix i assume i: "a \<le> i" "i < b" "\<not> py_space (D ! i)"
  have lt: "i - a < length raw" using i(1,2) b by linarith
  have "raw ! (i - a) = slice a b D ! (i - a)" by (rule arg_cong[OF raw(1), of "\<lambda>x. x ! (i - a)"])
  also have "\<dots> = D ! i" using i(1,2) raw(2) by (simp add: slice_def)
  finally have "i - a < length raw" "raw ! (i - a) = D ! i" using lt by simp_all
  with i(3) have n: "\<not> py_space (raw ! (i - a))" "i - a < length raw" by simp_all
  then have "\<not> i - a < l" using trim_left_spaces[of 0 "i - a" raw "length raw"] unfolding l_def by blast
  moreover have "\<not> r \<le> i - a" using n trim_right_spaces[of raw l "length raw" "i - a"] unfolding l_def r_def by blast
  ultimately show "a + l \<le> i \<and> i < a + r" using i(1) by linarith
qed

end
