(* ===== verification/RecursiveProperties.thy ===== *)
theory RecursiveProperties
  imports RecursiveSpans
begin

section \<open>Recursive chunking: properties\<close>

text \<open>
  The rows the chunker returns, the recursion its loop over separators stands for, and the bounds
  of the separators, with the properties of the component.
\<close>

subsection \<open>Rows\<close>

definition row_covers :: "chunk \<Rightarrow> nat \<Rightarrow> bool" where
  "row_covers r i \<longleftrightarrow> (case chunk_span r of None \<Rightarrow> False | Some (a, b) \<Rightarrow> a \<le> i \<and> i < b)"

lemma collect_rows_Cons:
  assumes "piece_in D (raw, a, b)"
  defines "l \<equiv> trim_left raw 0 (length raw)" and "r \<equiv> trim_right raw (trim_left raw 0 (length raw)) (length raw)"
  shows "collect_rows len n ((raw, a, b) # ps) =
    (if strip raw = [] then collect_rows len n ps
     else \<lparr> chunk_tokens = len (strip raw), chunk_content = strip raw, chunk_order_index = n,
            chunk_span = Some (a + l, a + r) \<rparr> # collect_rows len (Suc n) ps)"
  using trim_offsets(1)[OF assms(1)] by (simp add: Let_def trimmed_body l_def r_def)

lemma collect_rows_spec:
  "(\<And>p. p \<in> set ps \<Longrightarrow> piece_in D p) \<Longrightarrow>
     (\<forall>r \<in> set (collect_rows len n ps). row_ok len D r) \<and>
     (\<forall>p \<in> set ps. \<forall>i. fst (snd p) \<le> i \<longrightarrow> i < snd (snd p) \<longrightarrow> \<not> py_space (D ! i) \<longrightarrow>
        (\<exists>r \<in> set (collect_rows len n ps). row_covers r i))"
proof (induction len n ps rule: collect_rows.induct)
  case (1 len n)
  then show ?case by simp
next
  case (2 len n raw a b ps)
  let ?l = "trim_left raw 0 (length raw)"
  let ?r = "trim_right raw ?l (length raw)"
  have pin: "piece_in D (raw, a, b)" and rest: "\<And>p. p \<in> set ps \<Longrightarrow> piece_in D p" using "2.prems" by simp_all
  note eq = collect_rows_Cons[OF pin, of len n ps]
  note off = trim_offsets[OF pin]
  have body: "slice ?l ?r raw = strip raw" by (rule trimmed_body)
  show ?case
  proof (cases "strip raw = []")
    case True
    have "?r \<le> ?l" using True off(2,3) length_slice[of "a + ?l" "a + ?r" D] by simp
    then have "\<not> (a \<le> i \<and> i < b \<and> \<not> py_space (D ! i))" for i using off(5)[of i] by force
    then show ?thesis using 2(1)[OF refl refl refl _ rest] True by (simp add: eq body del: collect_rows.simps)
  next
    case False
    let ?row = "\<lparr> chunk_tokens = len (strip raw), chunk_content = strip raw, chunk_order_index = n,
            chunk_span = Some (a + ?l, a + ?r) \<rparr>"
    have "?l < ?r" using False off(2) by (cases "?l < ?r") auto
    then have "row_ok len D ?row" using off(2,3) by (simp add: row_ok_def)
    moreover have "row_covers ?row i" if "a \<le> i" "i < b" "\<not> py_space (D ! i)" for i
      using off(5)[OF that] by (simp add: row_covers_def)
    ultimately show ?thesis using 2(2)[OF refl refl refl _ rest] False by (simp add: eq body del: collect_rows.simps)
  qed
qed

lemma collect_rows_order: "map chunk_order_index (collect_rows len n ps) = [n..<n + length (collect_rows len n ps)]"
proof (induction len n ps rule: collect_rows.induct)
  case (2 len n raw a b ps)
  then show ?case by (auto simp: Let_def upt_conv_Cons simp del: upt_Suc)
qed simp

lemma rows_cover:
  assumes "exact_cover D 0 (length D) ps"
  shows "(\<forall>r \<in> set (collect_rows len n ps). row_ok len D r) \<and>
     (\<forall>i < length D. \<not> py_space (D ! i) \<longrightarrow> (\<exists>r \<in> set (collect_rows len n ps). row_covers r i))"
proof -
  have "\<And>p. p \<in> set ps \<Longrightarrow> piece_in D p" using assms by (simp add: exact_cover_def)
  note spec = collect_rows_spec[OF this, of _ len n]
  moreover have "\<exists>p \<in> set ps. fst (snd p) \<le> i \<and> i < snd (snd p)" if "i < length D" "\<not> py_space (D ! i)" for i
    using assms that by (auto simp: exact_cover_def covered_def)
  ultimately show ?thesis by (meson)
qed


subsection \<open>The splitter of the library\<close>

definition default_r_separators :: "pystr list" where
  "default_r_separators = [[10, 10], [10], [32], []]"

text \<open>What the code relies on: the splitter keeps its arguments, and the defaults are the documented ones.\<close>

definition documented_splitter :: "(int \<Rightarrow> int \<Rightarrow> pystr list option \<Rightarrow> pystr + splitter) \<Rightarrow> bool" where
  "documented_splitter mk \<longleftrightarrow>
     (\<forall>n ov seps sp. mk n ov seps = Inr sp \<longrightarrow>
        sp = \<lparr> sp_chunk_size = n, sp_overlap = ov,
               sp_separators = (case seps of None \<Rightarrow> default_r_separators | Some ss \<Rightarrow> ss),
               sp_keep = KeepStart, sp_regex = False, sp_strip = True \<rparr>)"

definition demo_splitter :: "int \<Rightarrow> int \<Rightarrow> pystr list option \<Rightarrow> pystr + splitter" where
  "demo_splitter n ov seps =
     (if n < ov then Inl [111]
      else Inr \<lparr> sp_chunk_size = n, sp_overlap = ov,
               sp_separators = (case seps of None \<Rightarrow> default_r_separators | Some ss \<Rightarrow> ss),
               sp_keep = KeepStart, sp_regex = False, sp_strip = True \<rparr>)"

lemma demo_splitter_documented: "documented_splitter demo_splitter"
  by (simp add: documented_splitter_def demo_splitter_def)

lemma r_separators_argument_nonempty: "r_separators_argument seps \<noteq> Some []"
  by (auto simp: r_separators_argument_def split: option.splits list.splits)

lemma chunking_pieces:
  fixes enc :: "pystr \<Rightarrow> 't list"
  assumes "documented_splitter mk" and "mk (max n 1) (max ov 0) (r_separators_argument seps) = Inr sp"
    and "\<not> blank content"
  defines "len \<equiv> \<lambda>t. length (enc t)"
  obtains ps where
    "chunking_by_recursive_character True mk search enc content n ov seps = Inr (collect_rows len 0 ps)"
    "exact_cover content 0 (length content) ps"
proof -
  let ?c = "splitter_config len search sp"
  have sp: "sp = \<lparr> sp_chunk_size = max n 1, sp_overlap = max ov 0,
      sp_separators = (case r_separators_argument seps of None \<Rightarrow> default_r_separators | Some ss \<Rightarrow> ss),
      sp_keep = KeepStart, sp_regex = False, sp_strip = True \<rparr>"
    using assms(1,2) unfolding documented_splitter_def by blast
  have ok: "rc_overlap ?c \<ge> 0" "search_ok ?c" "rc_keep ?c \<noteq> KeepNo" "sp_separators sp \<noteq> []"
    using r_separators_argument_nonempty[of seps]
    by (auto simp: sp splitter_config_def search_ok_def default_r_separators_def split: option.splits)
  obtain ps where ps: "split_text ?c content 0 (sp_separators sp) = Some ps"
    using split_returns(1)[OF ok(1,2,4)] by blast
  have whole: "piece_in content (content, 0, 0 + length content)" by (simp add: piece_in_def slice_whole)
  have cover: "exact_cover content 0 (length content) ps"
    using split_exact(1)[OF ps ok(1-3) whole] by simp
  obtain i where "i < length content" "\<not> py_space (content ! i)"
    using assms(3) by (auto simp: blank_def list_all_length)
  then have "collect_rows len 0 ps \<noteq> []" using rows_cover[OF cover, of len 0] by force
  then have "chunking_by_recursive_character True mk search enc content n ov seps = Inr (collect_rows len 0 ps)"
    using assms(2,3) ps by (simp add: chunking_by_recursive_character_def split_text_with_spans_def len_def)
  with that cover show ?thesis by blast
qed


subsection \<open>The recursion the loop stands for\<close>

text \<open>
  The function without its loop: a separator that divides nothing is passed by a call of itself,
  after the length of the piece has been compared with the size.
\<close>

function (sequential) mirror_text :: "r_config \<Rightarrow> pystr \<Rightarrow> nat \<Rightarrow> pystr list \<Rightarrow> piece list option"
  and mirror_pieces :: "r_config \<Rightarrow> pystr \<Rightarrow> pystr list \<Rightarrow> piece list \<Rightarrow> piece list \<Rightarrow> piece list option"
where
  "mirror_text c t base separators =
     (case choose_separator c t separators of
        None \<Rightarrow> None
      | Some (s, new) \<Rightarrow>
          mirror_pieces c (merge_separator c s) new [] (split_text_with_regex_spans c t s base))"
| "mirror_pieces c sep new good [] = flush c sep good"
| "mirror_pieces c sep new good (p # ps) =
     (if int (rc_length c (fst p)) < rc_size c then mirror_pieces c sep new (good @ [p]) ps
      else append_ok (flush c sep good)
             (append_ok (if new = [] then Some [p] else mirror_text c (fst p) (fst (snd p)) new)
                (mirror_pieces c sep new [] ps)))"
  by pat_completeness auto
termination
  by (relation "inv_image (less_than <*lex*> less_than)
       (\<lambda>x. case x of Inl (_, _, _, ss) \<Rightarrow> (length ss, 0) | Inr (_, _, new, _, ps) \<Rightarrow> (length new, Suc (length ps)))")
     (auto dest: choose_separator_shorter)

declare mirror_text.simps [simp del]

lemma append_ok_Nil [simp]: "append_ok (Some []) y = y" "append_ok y (Some []) = y"
  by (cases y; simp add: append_ok_def)+

lemma mirror_advance:
  "rc_size c \<le> int (rc_length c t) \<Longrightarrow>
     mirror_text c t base ss =
       (case advance c t base ss of
          None \<Rightarrow> None
        | Some (s, new, splits) \<Rightarrow> mirror_pieces c (merge_separator c s) new [] splits)"
proof (induction c t base ss rule: advance.induct)
  case (1 c t base ss)
  show ?case
  proof (cases "choose_separator c t ss")
    case None
    then show ?thesis by (simp add: mirror_text.simps[of c t base ss] advance.simps[of c t base ss])
  next
    case (Some r)
    obtain s new where r: "r = (s, new)" by (cases r)
    let ?splits = "split_text_with_regex_spans c t s base"
    have adv: "advance c t base ss =
        (if new \<noteq> [] \<and> no_op_split t base ?splits then advance c t base new else Some (s, new, ?splits))"
      by (simp add: advance.simps[of c t base ss] Some r)
    have mir: "mirror_text c t base ss = mirror_pieces c (merge_separator c s) new [] ?splits"
      by (simp add: mirror_text.simps[of c t base ss] Some r)
    show ?thesis
    proof (cases "new \<noteq> [] \<and> no_op_split t base ?splits")
      case True
      then obtain p where p: "?splits = [p]" "fst p = t" "fst (snd p) = base"
        by (auto simp: no_op_split_def split: list.splits)
      have "mirror_text c t base ss = mirror_text c t base new"
        using True "1.prems" by (simp add: mir p flush_def)
      then show ?thesis using 1(1)[OF Some r[symmetric] refl True "1.prems"] adv True by (simp add: r)
    next
      case False
      then have "advance c t base ss = Some (s, new, ?splits)" unfolding adv by (rule if_not_P)
      then show ?thesis by (simp add: mir)
    qed
  qed
qed

lemma mirror_eq:
  "rc_size c \<le> int (rc_length c t) \<Longrightarrow> split_text c t base ss = mirror_text c t base ss"
  "split_pieces c sep new good ps = mirror_pieces c sep new good ps"
proof (induction c t base ss and c sep new good ps rule: split_text_split_pieces.induct)
  case (1 c t base ss)
  show ?case
    using 1(1) by (simp add: mirror_advance[OF "1.prems"] split_text.simps[of c t base ss] split: option.split)
next
  case (2 c sep new good)
  show ?case by simp
next
  case (3 c sep new good p ps)
  then show ?case by simp
qed


subsection \<open>Bounds of the separators\<close>

lemma truncate_separators_spec:
  assumes "max_r_separators < length bounded"
  shows "length (truncate_separators bounded) \<le> max_r_separators"
    and "set (truncate_separators bounded) \<subseteq> set bounded"
    and "[] \<in> set (truncate_separators bounded) \<longleftrightarrow> [] \<in> set bounded"
proof -
  let ?f = "\<lambda>k. filter (\<lambda>c. c \<noteq> []) (take k bounded)"
  have "length (?f k) \<le> k" for k
    using length_filter_le[of "\<lambda>c. c \<noteq> []" "take k bounded"] by simp
  note le = this[of 63] this[of 64]
  show "length (truncate_separators bounded) \<le> max_r_separators"
    using le by (cases "list_ex (\<lambda>c. c = []) bounded") (simp_all add: truncate_separators_def max_r_separators_def)
  show "set (truncate_separators bounded) \<subseteq> set bounded"
    by (auto simp: truncate_separators_def list_ex_iff Let_def dest: in_set_takeD)
  show "[] \<in> set (truncate_separators bounded) \<longleftrightarrow> [] \<in> set bounded"
    by (auto simp: truncate_separators_def list_ex_iff Let_def)
qed

lemma inspect_Some_cases:
  fixes cs :: "pystr list"
  defines "bounded \<equiv> filter (\<lambda>c. length c \<le> max_r_separator_chars) cs"
  obtains (kept) "length bounded \<le> max_r_separators" "sn_separators (inspect_r_separators (Some cs)) = Some bounded"
      "sn_truncated_from (inspect_r_separators (Some cs)) = None"
      "sn_dropped (inspect_r_separators (Some cs)) = length cs - length bounded"
  | (cut_down) "max_r_separators < length bounded"
      "sn_separators (inspect_r_separators (Some cs)) = Some (truncate_separators bounded)"
      "sn_truncated_from (inspect_r_separators (Some cs)) = Some (length bounded)"
proof -
  have "length cs = length bounded + length (filter (\<lambda>c. max_r_separator_chars < length c) cs)"
    using sum_length_filter_compl[of "\<lambda>c. length c \<le> max_r_separator_chars" cs] by (simp add: bounded_def not_le)
  then show thesis
    using kept cut_down by (cases "length bounded \<le> max_r_separators") (simp_all add: inspect_r_separators_def bounded_def Let_def)
qed

lemma inspect_idempotent:
  assumes "length cs \<le> max_r_separators" and "\<forall>c \<in> set cs. length c \<le> max_r_separator_chars"
  shows "inspect_r_separators (Some cs) = \<lparr> sn_separators = Some cs, sn_dropped = 0, sn_truncated_from = None \<rparr>"
proof -
  have "filter (\<lambda>c. length c \<le> max_r_separator_chars) cs = cs" using assms(2) by (simp add: filter_id_conv)
  moreover have "filter (\<lambda>c. max_r_separator_chars < length c) cs = []" using assms(2) by (auto simp: filter_empty_conv)
  ultimately show ?thesis using assms(1) by (simp add: inspect_r_separators_def)
qed


subsection \<open>Properties\<close>

text \<open>
  C31: whatever the tokenizer counts, once the splitter has been constructed a document that is not
  blank is cut into rows: the call returns, no index is ever out of range, the rows are numbered
  from zero, and every character that is not white space lies in the span of some row.
\<close>

theorem recursive_chunks_cover:
  fixes enc :: "pystr \<Rightarrow> 't list"
  assumes "documented_splitter mk" and "mk (max n 1) (max ov 0) (r_separators_argument seps) = Inr sp"
    and "\<not> blank content"
  shows "\<exists>rows. chunking_by_recursive_character True mk search enc content n ov seps = Inr rows \<and>
    rows \<noteq> [] \<and> map chunk_order_index rows = [0..<length rows] \<and>
    (\<forall>i < length content. \<not> py_space (content ! i) \<longrightarrow> (\<exists>r \<in> set rows. row_covers r i))"
proof -
  obtain ps where run: "chunking_by_recursive_character True mk search enc content n ov seps =
      Inr (collect_rows (\<lambda>t. length (enc t)) 0 ps)" and cover: "exact_cover content 0 (length content) ps"
    using chunking_pieces[OF assms, of search enc] by blast
  note rows = rows_cover[OF cover, of "\<lambda>t. length (enc t)" 0]
  obtain i where "i < length content" "\<not> py_space (content ! i)"
    using assms(3) by (auto simp: blank_def list_all_length)
  with rows have "collect_rows (\<lambda>t. length (enc t)) 0 ps \<noteq> []" by force
  with run rows collect_rows_order[of "\<lambda>t. length (enc t)" 0 ps] show ?thesis by (intro exI[of _ "collect_rows (\<lambda>t. length (enc t)) 0 ps"]) simp
qed

lemma recursive_chunks_cover_witness:
  "\<exists>rows. chunking_by_recursive_character True demo_splitter (\<lambda>_ _. []) (\<lambda>t. t) [97, 32, 98] 2 0 None = Inr rows \<and>
    rows \<noteq> [] \<and> (\<exists>r \<in> set rows. row_covers r 2)"
proof -
  have "demo_splitter (max 2 1) (max 0 0) (r_separators_argument None) =
      Inr \<lparr> sp_chunk_size = 2, sp_overlap = 0, sp_separators = default_r_separators, sp_keep = KeepStart,
        sp_regex = False, sp_strip = True \<rparr>"
    by (simp add: demo_splitter_def r_separators_argument_def normalize_r_separators_def inspect_r_separators_def)
  moreover have "\<not> blank [97, 32, 98]" by (simp add: blank_def py_space_def)
  ultimately obtain rows where
    "chunking_by_recursive_character True demo_splitter (\<lambda>_ _. []) (\<lambda>t. t) [97, 32, 98] 2 0 None = Inr rows" "rows \<noteq> []"
    and cover: "\<forall>i < length [97, 32, 98 :: nat]. \<not> py_space ([97, 32, 98] ! i) \<longrightarrow> (\<exists>r \<in> set rows. row_covers r i)"
    using recursive_chunks_cover[OF demo_splitter_documented, of 2 0 None _ "[97, 32, 98]" "\<lambda>_ _. []" "\<lambda>t. t"] by blast
  moreover have "\<exists>r \<in> set rows. row_covers r 2" using cover[rule_format, of 2] by (simp add: py_space_def)
  ultimately show ?thesis by blast
qed

text \<open>
  C32: the span of every row is not empty, lies in the document and holds exactly the row's text,
  which has no white space at its ends and the number of tokens the tokenizer counts.
\<close>

theorem recursive_spans_exact:
  fixes enc :: "pystr \<Rightarrow> 't list"
  assumes "documented_splitter mk"
    and "chunking_by_recursive_character available mk search enc content n ov seps = Inr rows"
  shows "\<forall>r \<in> set rows. row_ok (\<lambda>t. length (enc t)) content r"
proof (cases "blank content")
  case True
  with assms(2) show ?thesis by (auto simp: chunking_by_recursive_character_def split: if_splits)
next
  case False
  then obtain sp where av: "available" and sp: "mk (max n 1) (max ov 0) (r_separators_argument seps) = Inr sp"
    using assms(2) by (auto simp: chunking_by_recursive_character_def Let_def split: if_splits sum.splits)
  obtain ps where "rows = collect_rows (\<lambda>t. length (enc t)) 0 ps" "exact_cover content 0 (length content) ps"
    using chunking_pieces[OF assms(1) sp False, of search enc] assms(2) av by auto
  then show ?thesis using rows_cover by blast
qed

text \<open>The equations that run the chunker on a concrete text; its numbers stay numerals.\<close>

lemmas recursive_run =
  chunking_by_recursive_character_def blank_def py_space_def demo_splitter_def splitter_config_def
  r_separators_argument_def normalize_r_separators_def inspect_r_separators_def default_r_separators_def
  split_text_with_spans_def split_text.simps advance.simps choose_separator_def
  split_text_with_regex_spans_def matches_def literal_matches.simps cut_piece_def slice_def
  no_op_split_def char_pieces_def merge_separator_def flush_def merge_splits_with_spans_def overfull_def
  must_pop_def join_span_pieces_def list_of_option_def append_ok_def upt_rec
  trim_left.simps trim_right_numeral

lemma recursive_spans_demo:
  "chunking_by_recursive_character True demo_splitter (\<lambda>_ _. []) (\<lambda>t. t) [97, 32, 98] 2 0 None =
    Inr [\<lparr> chunk_tokens = 1, chunk_content = [97], chunk_order_index = 0, chunk_span = Some (0, 1) \<rparr>,
         \<lparr> chunk_tokens = 1, chunk_content = [98], chunk_order_index = 1, chunk_span = Some (2, 3) \<rparr>]"
  by (simp add: recursive_run)

lemma recursive_spans_exact_witness:
  "row_ok length [97, 32, 98] \<lparr> chunk_tokens = 1, chunk_content = [97], chunk_order_index = 0, chunk_span = Some (0, 1) \<rparr> \<and>
   row_ok length [97, 32, 98] \<lparr> chunk_tokens = 1, chunk_content = [98], chunk_order_index = 1, chunk_span = Some (2, 3) \<rparr>"
  using recursive_spans_exact[OF demo_splitter_documented recursive_spans_demo] by simp

text \<open>
  passing over separators that divide nothing in a loop gives what the recursion it replaces
  gives, for every piece that does not fit the chunk size, whatever the length function.
\<close>

theorem recursive_loop_is_recursion:
  assumes "rc_size c \<le> int (rc_length c t)"
  shows "split_text_with_spans c t base separators = mirror_text c t base separators"
  unfolding split_text_with_spans_def by (rule mirror_eq(1)[OF assms])

lemma recursive_loop_is_recursion_witness:
  "split_text_with_spans (splitter_config length (\<lambda>_ _. [])
       \<lparr> sp_chunk_size = 2, sp_overlap = 0, sp_separators = [], sp_keep = KeepStart, sp_regex = False, sp_strip = True \<rparr>)
     [10, 10, 97, 32, 98] 0 default_r_separators =
   mirror_text (splitter_config length (\<lambda>_ _. [])
       \<lparr> sp_chunk_size = 2, sp_overlap = 0, sp_separators = [], sp_keep = KeepStart, sp_regex = False, sp_strip = True \<rparr>)
     [10, 10, 97, 32, 98] 0 default_r_separators"
  by (rule recursive_loop_is_recursion) (simp add: splitter_config_def)

text \<open>
  For a text that fits it does not: a tokenizer that merges a separator with its neighbour counts
  more tokens for the pieces than for the text, so going on to the next separator cuts a text the
  recursion keeps whole.
\<close>

fun pair_tokens :: "pystr \<Rightarrow> pystr list" where
  "pair_tokens (a # b # s) = (if b = 10 then [a, b] # pair_tokens s else [a] # pair_tokens (b # s))"
| "pair_tokens s = map (\<lambda>c. [c]) s"

definition pair_config :: r_config where
  "pair_config = \<lparr> rc_length = \<lambda>t. length (pair_tokens t), rc_search = \<lambda>_ _. [], rc_size = 5, rc_overlap = 0,
     rc_keep = KeepStart, rc_regex = False, rc_strip = True \<rparr>"

theorem recursive_small_text_cut:
  "length (pair_tokens [10, 10, 97, 59, 10, 98]) < 5"
  "mirror_text pair_config [10, 10, 97, 59, 10, 98] 0 default_r_separators = Some [([97, 59, 10, 98], 2, 6)]"
  "chunking_by_recursive_character True demo_splitter (\<lambda>_ _. []) pair_tokens [10, 10, 97, 59, 10, 98] 5 0 None =
    Inr [\<lparr> chunk_tokens = 2, chunk_content = [97, 59], chunk_order_index = 0, chunk_span = Some (2, 4) \<rparr>,
         \<lparr> chunk_tokens = 1, chunk_content = [98], chunk_order_index = 1, chunk_span = Some (5, 6) \<rparr>]"
  by (simp_all add: recursive_run mirror_text.simps pair_config_def)

text \<open>
  a cascade of separators comes back bounded in number and in length, from the separators
  given, with the empty separator at hand exactly when it was; the report says that something was
  changed exactly when something was; and bounding twice changes nothing more.
\<close>

theorem recursive_separators_bounded:
  assumes "normalize_r_separators (Some cs) = Some ds"
  shows "length ds \<le> 64 \<and> (\<forall>d \<in> set ds. length d \<le> 256 \<and> d \<in> set cs) \<and> ([] \<in> set ds \<longleftrightarrow> [] \<in> set cs) \<and>
    (sn_changed (inspect_r_separators (Some cs)) \<longleftrightarrow> ds \<noteq> cs) \<and>
    inspect_r_separators (Some ds) = \<lparr> sn_separators = Some ds, sn_dropped = 0, sn_truncated_from = None \<rparr>"
proof -
  let ?b = "filter (\<lambda>c. length c \<le> max_r_separator_chars) cs"
  have le: "length ?b \<le> length cs" by simp
  have same: "?b = cs \<longleftrightarrow> length cs - length ?b = 0"
    using le by (metis diff_is_0_eq filter_True length_filter_less linorder_not_less)
  have main: "length ds \<le> max_r_separators \<and> set ds \<subseteq> set ?b \<and> ([] \<in> set ds \<longleftrightarrow> [] \<in> set cs) \<and>
      (sn_changed (inspect_r_separators (Some cs)) \<longleftrightarrow> ds \<noteq> cs)"
  proof (cases cs rule: inspect_Some_cases)
    case kept
    then show ?thesis using assms same by (auto simp: normalize_r_separators_def sn_changed_def)
  next
    case cut_down
    note spec = truncate_separators_spec[OF cut_down(1)]
    have "ds = truncate_separators ?b" using assms cut_down(2) by (simp add: normalize_r_separators_def)
    moreover have "length ds < length cs"
      unfolding \<open>ds = truncate_separators ?b\<close> using spec(1) cut_down(1) le by (meson le_less_trans less_le_trans)
    moreover from this have "ds \<noteq> cs" by auto
    ultimately show ?thesis using spec cut_down(3) by (auto simp: sn_changed_def)
  qed
  then show ?thesis
    using inspect_idempotent[of ds] by (auto simp: max_r_separators_def max_r_separator_chars_def)
qed

lemma recursive_separators_bounded_witness:
  "length (replicate 63 [44] @ [[] :: pystr]) \<le> 64 \<and>
   sn_changed (inspect_r_separators (Some (replicate 70 [44] @ [[]])))"
  using recursive_separators_bounded[of "replicate 70 [44] @ [[]]" "replicate 63 [44] @ [[]]"]
  by (simp add: normalize_r_separators_def inspect_r_separators_def truncate_separators_def
      max_r_separators_def max_r_separator_chars_def Let_def list_ex_iff)

end
