(* ===== verification/UploadSessions.thy ===== *)
theory UploadSessions
  imports PyStrings
begin

section \<open>Upload sessions\<close>

text \<open>
  \<^verbatim>\<open>lightrag/object_storage/sessions.py\<close>: sessions of presigned uploads, their record form
  and the stores that keep it, and the operations of the manager. A call of the manager reads the
  session first and writes it later, with the store's awaits in between; so an operation is a
  decision on the session that was read, and \<open>upload_event\<close> lets the reads and writes of any calls
  interleave.

  A time is a number of microseconds. \<open>RIso t\<close> is the text \<open>isoformat\<close> gives for \<open>t\<close>, which
  \<open>fromisoformat\<close> reads back; other text is no time. \<open>str.lower\<close> and the canonical name of a document
  are functions of the manager record. A status is the datatype \<open>upload_status\<close>, its text in a
  record \<open>status_text\<close>.
\<close>

datatype upload_status = Issued | Completed | Expired | Aborted

record upload_session =
  us_upload_id :: pystr
  us_workspace :: pystr
  us_bucket :: pystr
  us_object_key :: pystr
  us_filename :: pystr
  us_canonical_file_path :: pystr
  us_content_type :: pystr
  us_declared_size :: int
  us_checksum :: "pystr option"
  us_status :: upload_status
  us_created_at :: int
  us_expires_at :: int
  us_completed_at :: "int option"
  us_object_etag :: "pystr option"
  us_object_size :: "int option"
  us_object_content_type :: "pystr option"
  us_track_id :: "pystr option"
  us_enqueued_at :: "int option"

datatype upload_mismatch = NegativeSize | BadFilename | OtherWorkspace | OtherKey | OtherSize | OtherType | OtherChecksum

datatype upload_conflict = StatusIs upload_status | CompletedNotAborted | NotCompletedYet | OnAnotherTrack

datatype upload_error =
  SessionNotFound pystr
| SessionExpired pystr
| SessionMismatch upload_mismatch
| SessionConflict upload_conflict
| InvalidWorkspace pystr
| RecordTypeError
| RecordValueError


subsection \<open>Records\<close>

datatype rvalue = RStr pystr | RInt int | RIso int | RTime int | RNone

type_synonym urecord = "(pystr, rvalue) dict"

definition status_text :: "upload_status \<Rightarrow> pystr" where
  "status_text st = (case st of Issued \<Rightarrow> lit ''issued'' | Completed \<Rightarrow> lit ''completed'' |
     Expired \<Rightarrow> lit ''expired'' | Aborted \<Rightarrow> lit ''aborted'')"

definition status_of_text :: "pystr \<Rightarrow> upload_status option" where
  "status_of_text s =
     (if s = lit ''issued'' then Some Issued else if s = lit ''completed'' then Some Completed
      else if s = lit ''expired'' then Some Expired else if s = lit ''aborted'' then Some Aborted else None)"

definition rv_opt :: "('a \<Rightarrow> rvalue) \<Rightarrow> 'a option \<Rightarrow> rvalue" where
  "rv_opt f x = (case x of None \<Rightarrow> RNone | Some a \<Rightarrow> f a)"

definition to_record :: "upload_session \<Rightarrow> urecord" where
  "to_record s =
     [(lit ''upload_id'', RStr (us_upload_id s)), (lit ''workspace'', RStr (us_workspace s)),
      (lit ''bucket'', RStr (us_bucket s)), (lit ''object_key'', RStr (us_object_key s)),
      (lit ''filename'', RStr (us_filename s)), (lit ''canonical_file_path'', RStr (us_canonical_file_path s)),
      (lit ''content_type'', RStr (us_content_type s)), (lit ''declared_size'', RInt (us_declared_size s)),
      (lit ''checksum_sha256'', rv_opt RStr (us_checksum s)), (lit ''status'', RStr (status_text (us_status s))),
      (lit ''created_at'', RIso (us_created_at s)), (lit ''expires_at'', RIso (us_expires_at s)),
      (lit ''completed_at'', rv_opt RIso (us_completed_at s)), (lit ''object_etag'', rv_opt RStr (us_object_etag s)),
      (lit ''object_size'', rv_opt RInt (us_object_size s)),
      (lit ''object_content_type'', rv_opt RStr (us_object_content_type s)),
      (lit ''track_id'', rv_opt RStr (us_track_id s)), (lit ''enqueued_at'', rv_opt RIso (us_enqueued_at s))]"

definition time_keys :: "pystr list" where
  "time_keys = [lit ''created_at'', lit ''expires_at'', lit ''completed_at'', lit ''enqueued_at'']"

definition required_keys :: "pystr list" where
  "required_keys = map lit [''upload_id'', ''workspace'', ''bucket'', ''object_key'', ''filename'',
     ''canonical_file_path'', ''content_type'', ''declared_size'', ''checksum_sha256'', ''status'',
     ''created_at'', ''expires_at'']"

definition defaulted_keys :: "pystr list" where
  "defaulted_keys = map lit [''completed_at'', ''object_etag'', ''object_size'', ''object_content_type'',
     ''track_id'', ''enqueued_at'']"

text \<open>The times of a record that are text: a text that is no time is a \<open>ValueError\<close>.\<close>

fun parse_times :: "pystr list \<Rightarrow> urecord \<Rightarrow> upload_error + urecord" where
  "parse_times [] d = Inr d"
| "parse_times (k # ks) d =
     (case map_of d k of
        Some (RIso t) \<Rightarrow> parse_times ks (AList.update k (RTime t) d)
      | Some (RStr s) \<Rightarrow> if s \<noteq> [] then Inl RecordValueError else parse_times ks d
      | _ \<Rightarrow> parse_times ks d)"

definition as_str :: "rvalue option \<Rightarrow> pystr option" where
  "as_str v = (case v of Some (RStr s) \<Rightarrow> Some s | _ \<Rightarrow> None)"

definition as_int :: "rvalue option \<Rightarrow> int option" where
  "as_int v = (case v of Some (RInt i) \<Rightarrow> Some i | _ \<Rightarrow> None)"

definition as_time :: "rvalue option \<Rightarrow> int option" where
  "as_time v = (case v of Some (RTime t) \<Rightarrow> Some t | _ \<Rightarrow> None)"

text \<open>
  \<open>cls(**data)\<close>: a key the class does not have, or a field without default that is missing, is a
  \<open>TypeError\<close>. A required value of another type than the field's, which Python would accept here, is
  outside the model and counts as a \<open>TypeError\<close> too.
\<close>

definition construct_session :: "urecord \<Rightarrow> upload_error + upload_session" where
  "construct_session d =
     (let str = (\<lambda>k. as_str (map_of d (lit k)))
      in if (\<exists>k \<in> set (map fst d). k \<notin> set (required_keys @ defaulted_keys)) \<or>
            (\<exists>k \<in> set required_keys. map_of d k = None) then Inl RecordTypeError
      else case (str ''upload_id'', str ''workspace'', str ''bucket'', str ''object_key'', str ''filename'',
             str ''canonical_file_path'', str ''content_type'', as_int (map_of d (lit ''declared_size'')),
             Option.bind (str ''status'') status_of_text,
             as_time (map_of d (lit ''created_at'')), as_time (map_of d (lit ''expires_at''))) of
        (Some i, Some w, Some b, Some k, Some f, Some c, Some ty, Some n, Some st, Some cr, Some ex) \<Rightarrow>
          Inr \<lparr> us_upload_id = i, us_workspace = w, us_bucket = b, us_object_key = k, us_filename = f,
                us_canonical_file_path = c, us_content_type = ty, us_declared_size = n,
                us_checksum = str ''checksum_sha256'', us_status = st, us_created_at = cr, us_expires_at = ex,
                us_completed_at = as_time (map_of d (lit ''completed_at'')), us_object_etag = str ''object_etag'',
                us_object_size = as_int (map_of d (lit ''object_size'')),
                us_object_content_type = str ''object_content_type'', us_track_id = str ''track_id'',
                us_enqueued_at = as_time (map_of d (lit ''enqueued_at'')) \<rparr>
      | _ \<Rightarrow> Inl RecordTypeError)"

definition from_record :: "urecord \<Rightarrow> upload_error + upload_session" where
  "from_record record =
     (case parse_times time_keys (AList.delete (lit ''id'') (AList.delete (lit ''_id'') record)) of
        Inl e \<Rightarrow> Inl e
      | Inr d \<Rightarrow> construct_session d)"


subsection \<open>Stores\<close>

text \<open>The store in memory keeps the sessions themselves.\<close>

type_synonym memory_store = "(pystr, upload_session) dict"

definition memory_get :: "memory_store \<Rightarrow> pystr \<Rightarrow> upload_error + upload_session option" where
  "memory_get st i = Inr (map_of st i)"

definition memory_put :: "memory_store \<Rightarrow> upload_session \<Rightarrow> memory_store" where
  "memory_put st s = AList.update (us_upload_id s) s st"

text \<open>
  The store over a key-value namespace keeps records. What comes back depends on the backend:
  PostgreSQL returns the stored record with \<open>id\<close> added, the JSON backend stamps every record with
  \<open>create_time\<close> and \<open>update_time\<close> when it stores it and returns them with it.
\<close>

type_synonym kv_rows = "(pystr, urecord) dict"

definition kv_session_get :: "('s \<Rightarrow> pystr \<Rightarrow> urecord option) \<Rightarrow> 's \<Rightarrow> pystr \<Rightarrow> upload_error + upload_session option" where
  "kv_session_get get_by_id st i =
     (case get_by_id st i of
        None \<Rightarrow> Inr None
      | Some d \<Rightarrow>
          if d = [] then Inr None
          else (case from_record d of Inl e \<Rightarrow> Inl e | Inr s \<Rightarrow> Inr (Some s)))"

definition kv_session_put :: "('s \<Rightarrow> pystr \<Rightarrow> urecord \<Rightarrow> 's) \<Rightarrow> 's \<Rightarrow> upload_session \<Rightarrow> 's" where
  "kv_session_put upsert st s = upsert st (us_upload_id s) (to_record s)"

definition pg_get_by_id :: "kv_rows \<Rightarrow> pystr \<Rightarrow> urecord option" where
  "pg_get_by_id st i = map_option (AList.update (lit ''id'') (RStr i)) (map_of st i)"

definition pg_upsert :: "kv_rows \<Rightarrow> pystr \<Rightarrow> urecord \<Rightarrow> kv_rows" where
  "pg_upsert st i d = AList.update i d st"

definition set_default :: "pystr \<Rightarrow> rvalue \<Rightarrow> urecord \<Rightarrow> urecord" where
  "set_default k v d = (if map_of d k = None then AList.update k v d else d)"

definition json_get_by_id :: "kv_rows \<Rightarrow> pystr \<Rightarrow> urecord option" where
  "json_get_by_id st i =
     map_option
       (\<lambda>d. if d = [] then d
            else AList.update (lit ''_id'') (RStr i)
                   (set_default (lit ''update_time'') (RInt 0) (set_default (lit ''create_time'') (RInt 0) d)))
       (map_of st i)"

text \<open>\<open>coerce\<close> is \<open>normalize_kv_create_time\<close>, which makes an integer of any stored value.\<close>

definition json_upsert :: "(rvalue option \<Rightarrow> int) \<Rightarrow> int \<Rightarrow> kv_rows \<Rightarrow> pystr \<Rightarrow> urecord \<Rightarrow> kv_rows" where
  "json_upsert coerce now st i d =
     (let stamped =
        (case map_of st i of
           Some old \<Rightarrow> AList.update (lit ''create_time'')
                        (RInt (coerce (map_of old (lit ''create_time''))))
                        (AList.update (lit ''update_time'') (RInt now) d)
         | None \<Rightarrow> AList.update (lit ''update_time'') (RInt now) (AList.update (lit ''create_time'') (RInt now) d))
      in AList.update i (AList.update (lit ''_id'') (RStr i) stamped) st)"


subsection \<open>The manager's operations\<close>

record object_metadata =
  om_key :: pystr
  om_size :: int
  om_content_type :: "pystr option"
  om_etag :: "pystr option"
  om_checksum :: "pystr option"

record upload_manager =
  mg_bucket :: pystr
  mg_prefix :: pystr
  mg_canonical :: "pystr \<Rightarrow> pystr"
  mg_lower :: "pystr \<Rightarrow> pystr"

definition slash :: nat where "slash = 47"

definition strip_slashes :: "pystr \<Rightarrow> pystr" where
  "strip_slashes s = rev (dropWhile (\<lambda>c. c = slash) (rev (dropWhile (\<lambda>c. c = slash) s)))"

definition new_manager :: "pystr \<Rightarrow> pystr \<Rightarrow> (pystr \<Rightarrow> pystr) \<Rightarrow> (pystr \<Rightarrow> pystr) \<Rightarrow> upload_manager" where
  "new_manager bucket pre canonical lower =
     \<lparr> mg_bucket = bucket, mg_prefix = strip_slashes (strip pre), mg_canonical = canonical, mg_lower = lower \<rparr>"

definition valid_workspace :: "pystr \<Rightarrow> bool" where
  "valid_workspace w \<longleftrightarrow> slash \<notin> set w \<and> 92 \<notin> set w \<and> w \<noteq> lit ''.'' \<and> w \<noteq> lit ''..''"

text \<open>\<open>Path(filename).name\<close> on POSIX: the last component that is neither empty nor a dot.\<close>

definition path_name :: "pystr \<Rightarrow> pystr" where
  "path_name f =
     (case rev (filter (\<lambda>p. p \<noteq> [] \<and> p \<noteq> lit ''.'') (py_split [slash] f)) of [] \<Rightarrow> [] | p # _ \<Rightarrow> p)"

definition object_key_of :: "upload_manager \<Rightarrow> pystr \<Rightarrow> pystr \<Rightarrow> pystr \<Rightarrow> pystr" where
  "object_key_of m workspace upload_id filename =
     py_join [slash] (filter (\<lambda>p. p \<noteq> [])
       [mg_prefix m, lit ''uploads'', (if workspace = [] then lit ''default'' else workspace), upload_id, filename])"

definition create_session ::
  "upload_manager \<Rightarrow> pystr \<Rightarrow> int \<Rightarrow> pystr \<Rightarrow> pystr \<Rightarrow> pystr \<Rightarrow> int \<Rightarrow> pystr option \<Rightarrow> int \<Rightarrow> upload_error + upload_session" where
  "create_session m upload_id now workspace filename content_type declared checksum ttl_seconds =
     (if \<not> valid_workspace workspace then Inl (InvalidWorkspace workspace)
      else if declared < 0 then Inl (SessionMismatch NegativeSize)
      else if path_name filename \<noteq> filename \<or> filename = [] then Inl (SessionMismatch BadFilename)
      else Inr \<lparr> us_upload_id = upload_id, us_workspace = workspace, us_bucket = mg_bucket m,
             us_object_key = object_key_of m workspace upload_id filename, us_filename = filename,
             us_canonical_file_path = mg_canonical m filename, us_content_type = content_type,
             us_declared_size = declared, us_checksum = checksum, us_status = Issued, us_created_at = now,
             us_expires_at = now + 1000000 * ttl_seconds, us_completed_at = None, us_object_etag = None,
             us_object_size = None, us_object_content_type = None, us_track_id = None, us_enqueued_at = None \<rparr>)"

definition get_session :: "upload_session option \<Rightarrow> pystr \<Rightarrow> upload_error + upload_session" where
  "get_session found upload_id = (case found of None \<Rightarrow> Inl (SessionNotFound upload_id) | Some s \<Rightarrow> Inr s)"

definition given :: "pystr option \<Rightarrow> bool" where
  "given x \<longleftrightarrow> x \<noteq> None \<and> x \<noteq> Some []"

definition validate_completion ::
  "upload_manager \<Rightarrow> upload_session \<Rightarrow> pystr \<Rightarrow> pystr \<Rightarrow> object_metadata \<Rightarrow> upload_mismatch option" where
  "validate_completion m s workspace key md =
     (if us_workspace s \<noteq> workspace then Some OtherWorkspace
      else if key \<noteq> us_object_key s \<or> om_key md \<noteq> us_object_key s then Some OtherKey
      else if om_size md \<noteq> us_declared_size s then Some OtherSize
      else if given (om_content_type md) \<and> om_content_type md \<noteq> Some (us_content_type s) then Some OtherType
      else if given (us_checksum s) \<and>
              (\<not> given (om_checksum md) \<or> mg_lower m (the (om_checksum md)) \<noteq> mg_lower m (the (us_checksum s)))
           then Some OtherChecksum
      else None)"

text \<open>
  An operation on the session that was read: the session it writes, if any, and its answer. \<open>held\<close>
  is the answer of \<open>accepted_before_expiry\<close>, false without a release; the two clock readings of a
  completion are the check of the expiry and the time of completion.
\<close>

type_synonym decision = "upload_session option \<times> (upload_error + upload_session)"

definition complete_decision ::
  "upload_manager \<Rightarrow> int \<Rightarrow> int \<Rightarrow> bool \<Rightarrow> pystr \<Rightarrow> pystr \<Rightarrow> object_metadata \<Rightarrow> upload_session \<Rightarrow> decision" where
  "complete_decision m now ended held workspace key md s =
     (let invalid = validate_completion m s workspace key md
      in if us_status s = Completed then
           (None, case invalid of Some e \<Rightarrow> Inl (SessionMismatch e) | None \<Rightarrow> Inr s)
         else if us_status s \<noteq> Issued then (None, Inl (SessionConflict (StatusIs (us_status s))))
         else if us_expires_at s < now \<and> \<not> held then
           (Some (s\<lparr>us_status := Expired\<rparr>), Inl (SessionExpired (us_upload_id s)))
         else case invalid of
                Some e \<Rightarrow> (None, Inl (SessionMismatch e))
              | None \<Rightarrow>
                  (let c = s\<lparr>us_status := Completed, us_completed_at := Some ended, us_object_etag := om_etag md,
                            us_object_size := Some (om_size md), us_object_content_type := om_content_type md\<rparr>
                   in (Some c, Inr c)))"

definition abort_decision :: "pystr \<Rightarrow> upload_session \<Rightarrow> decision" where
  "abort_decision workspace s =
     (if us_workspace s \<noteq> workspace then (None, Inl (SessionMismatch OtherWorkspace))
      else if us_status s = Completed then (None, Inl (SessionConflict CompletedNotAborted))
      else let a = s\<lparr>us_status := Aborted\<rparr> in (Some a, Inr a))"

definition mark_decision :: "int \<Rightarrow> pystr \<Rightarrow> pystr \<Rightarrow> upload_session \<Rightarrow> decision" where
  "mark_decision now workspace track s =
     (if us_workspace s \<noteq> workspace then (None, Inl (SessionMismatch OtherWorkspace))
      else if us_status s \<noteq> Completed then (None, Inl (SessionConflict NotCompletedYet))
      else if given (us_track_id s) then
        (None, if us_track_id s \<noteq> Some track then Inl (SessionConflict OnAnotherTrack) else Inr s)
      else let e = s\<lparr>us_track_id := Some track, us_enqueued_at := Some now\<rparr> in (Some e, Inr e))"

definition expired_unfinished :: "int \<Rightarrow> upload_session list \<Rightarrow> upload_session list" where
  "expired_unfinished limit ss = filter (\<lambda>s. us_status s = Issued \<and> us_expires_at s < limit) ss"

text \<open>\<open>object_key.rsplit("/", 1)[0] + "/"\<close>.\<close>

definition rsplit_head :: "pystr \<Rightarrow> pystr" where
  "rsplit_head s = (if slash \<in> set s then butlast (rev (dropWhile (\<lambda>c. c \<noteq> slash) (rev s))) else s)"

definition cleanup_prefix :: "upload_session \<Rightarrow> pystr" where
  "cleanup_prefix s = rsplit_head (us_object_key s) @ [slash]"


subsection \<open>Calls that interleave\<close>

text \<open>
  What a call still has to do: decide on the session it read, write what it decided, or, for a
  clean-up of abandoned uploads, go through the sessions it listed, each claimed, its objects
  deleted, and marked as expired. The answers of finished calls are kept in order.
\<close>

datatype upload_request =
  CompleteReq pystr pystr object_metadata
| AbortReq pystr
| MarkReq pystr pystr

datatype upload_call =
  Deciding upload_request upload_session
| Writing upload_session "upload_error + upload_session"
| Sweeping "upload_session list"
| Deleting upload_session "upload_session list"
| Expiring upload_session "upload_session list"

record upload_system =
  sy_sessions :: memory_store
  sy_objects :: "(pystr, object_metadata) dict"
  sy_calls :: "(nat, upload_call) dict"
  sy_answers :: "(nat \<times> (upload_error + upload_session)) list"

datatype upload_event =
  EvUpload pystr object_metadata
| EvCreate pystr int pystr pystr pystr int "pystr option" int
| EvBegin nat upload_request pystr
| EvDecide nat int int bool
| EvWrite nat
| EvSweep nat int
| EvClaim nat bool
| EvDelete nat
| EvExpire nat
| EvCrash nat

definition request_decision ::
  "upload_manager \<Rightarrow> upload_request \<Rightarrow> int \<Rightarrow> int \<Rightarrow> bool \<Rightarrow> upload_session \<Rightarrow> decision" where
  "request_decision m r now ended held s =
     (case r of
        CompleteReq w k md \<Rightarrow> complete_decision m now ended held w k md s
      | AbortReq w \<Rightarrow> abort_decision w s
      | MarkReq w t \<Rightarrow> mark_decision now w t s)"

definition put_session :: "upload_session \<Rightarrow> upload_system \<Rightarrow> upload_system" where
  "put_session s y = y\<lparr>sy_sessions := memory_put (sy_sessions y) s\<rparr>"

definition set_call :: "nat \<Rightarrow> upload_call \<Rightarrow> upload_system \<Rightarrow> upload_system" where
  "set_call c k y = y\<lparr>sy_calls := AList.update c k (sy_calls y)\<rparr>"

definition end_call :: "nat \<Rightarrow> upload_system \<Rightarrow> upload_system" where
  "end_call c y = y\<lparr>sy_calls := AList.delete c (sy_calls y)\<rparr>"

definition answer :: "nat \<Rightarrow> upload_error + upload_session \<Rightarrow> upload_system \<Rightarrow> upload_system" where
  "answer c a y = end_call c (y\<lparr>sy_answers := sy_answers y @ [(c, a)]\<rparr>)"

definition delete_prefix :: "pystr \<Rightarrow> upload_system \<Rightarrow> upload_system" where
  "delete_prefix p y = y\<lparr>sy_objects := filter (\<lambda>(k, _). \<not> starts_with p k) (sy_objects y)\<rparr>"

text \<open>
  An event whose call is in another state does nothing. The identifier of a new session is random,
  so one that is taken already is not given out.
\<close>

definition upload_step :: "upload_manager \<Rightarrow> upload_system \<Rightarrow> upload_event \<Rightarrow> upload_system" where
  "upload_step m y e =
     (case e of
        EvUpload k md \<Rightarrow> y\<lparr>sy_objects := AList.update k md (sy_objects y)\<rparr>
      | EvCreate i now w f ty n ck ttl \<Rightarrow>
          (if map_of (sy_sessions y) i \<noteq> None then y
           else case create_session m i now w f ty n ck ttl of Inl _ \<Rightarrow> y | Inr s \<Rightarrow> put_session s y)
      | EvBegin c r i \<Rightarrow>
          (if map_of (sy_calls y) c \<noteq> None then y
           else case get_session (map_of (sy_sessions y) i) i of
                  Inl err \<Rightarrow> answer c (Inl err) y
                | Inr s \<Rightarrow> set_call c (Deciding r s) y)
      | EvDecide c now ended held \<Rightarrow>
          (case map_of (sy_calls y) c of
             Some (Deciding r s) \<Rightarrow>
               (case request_decision m r now ended held s of
                  (None, a) \<Rightarrow> answer c a y
                | (Some w, a) \<Rightarrow> set_call c (Writing w a) y)
           | _ \<Rightarrow> y)
      | EvWrite c \<Rightarrow>
          (case map_of (sy_calls y) c of Some (Writing w a) \<Rightarrow> answer c a (put_session w y) | _ \<Rightarrow> y)
      | EvSweep c limit \<Rightarrow>
          (if map_of (sy_calls y) c \<noteq> None then y
           else set_call c (Sweeping (expired_unfinished limit (map snd (sy_sessions y)))) y)
      | EvClaim c allowed \<Rightarrow>
          (case map_of (sy_calls y) c of
             Some (Sweeping []) \<Rightarrow> end_call c y
           | Some (Sweeping (s # ss)) \<Rightarrow> set_call c (if allowed then Deleting s ss else Sweeping ss) y
           | _ \<Rightarrow> y)
      | EvDelete c \<Rightarrow>
          (case map_of (sy_calls y) c of
             Some (Deleting s ss) \<Rightarrow> set_call c (Expiring s ss) (delete_prefix (cleanup_prefix s) y)
           | _ \<Rightarrow> y)
      | EvExpire c \<Rightarrow>
          (case map_of (sy_calls y) c of
             Some (Expiring s ss) \<Rightarrow> set_call c (Sweeping ss) (put_session (s\<lparr>us_status := Expired\<rparr>) y)
           | _ \<Rightarrow> y)
      | EvCrash c \<Rightarrow> end_call c y)"

definition empty_uploads :: upload_system where
  "empty_uploads = \<lparr> sy_sessions = [], sy_objects = [], sy_calls = [], sy_answers = [] \<rparr>"


subsection \<open>Calls without interruption\<close>

text \<open>
  With the store in memory no await of a call suspends it, so a call is one step. A clean-up is a
  step for each session, because the deletion of its objects does suspend.
\<close>

datatype whole_call =
  WholeCreate pystr int pystr pystr pystr int "pystr option" int
| WholeRequest upload_request pystr int int bool
| WholeExpire pystr int

definition whole_step :: "upload_manager \<Rightarrow> memory_store \<Rightarrow> whole_call \<Rightarrow> memory_store" where
  "whole_step m st w =
     (case w of
        WholeCreate i now ws f ty n ck ttl \<Rightarrow>
          (if map_of st i \<noteq> None then st
           else case create_session m i now ws f ty n ck ttl of Inl _ \<Rightarrow> st | Inr s \<Rightarrow> memory_put st s)
      | WholeRequest r i now ended held \<Rightarrow>
          (case get_session (map_of st i) i of
             Inl _ \<Rightarrow> st
           | Inr s \<Rightarrow> (case request_decision m r now ended held s of (None, _) \<Rightarrow> st | (Some w, _) \<Rightarrow> memory_put st w))
      | WholeExpire i limit \<Rightarrow>
          (case map_of st i of
             None \<Rightarrow> st
           | Some s \<Rightarrow> if expired_unfinished limit [s] = [] then st else memory_put st (s\<lparr>us_status := Expired\<rparr>)))"

end
