(* ===== verification/UploadRecords.thy ===== *)
theory UploadRecords
  imports UploadSessions
begin

section \<open>Upload sessions: records and stores\<close>

text \<open>
  A record reads back as the session it was made of. \<open>session_store\<close> is the protocol
  \<^verbatim>\<open>UploadSessionStore\<close> as the manager relies on it; the store in memory and the store over
  PostgreSQL keep it, the store over the JSON backend does not.
\<close>

lemma lit_inject [simp]: "lit a = lit b \<longleftrightarrow> a = b"
  unfolding lit_def by (rule inj_map_eq_map) (simp add: inj_def)

lemma status_of_text_inverse [simp]: "status_of_text (status_text st) = Some st"
  by (cases st) (simp_all add: status_of_text_def status_text_def)

lemma rv_opt_simps [simp]:
  "rv_opt f None = RNone" "rv_opt f (Some a) = f a"
  by (simp_all add: rv_opt_def)

lemma as_value_simps [simp]:
  "as_str (Some (RStr x)) = Some x" "as_str (Some (rv_opt RStr y)) = y"
  "as_int (Some (RInt n)) = Some n" "as_int (Some (rv_opt RInt z)) = z"
  "as_time (Some (RTime t)) = Some t" "as_time (Some RNone) = None"
  by (simp_all add: as_str_def as_int_def as_time_def rv_opt_def split: option.split)

lemma delete_absent: "map_of d k = None \<Longrightarrow> AList.delete k d = d"
  by (induction d) (auto split: if_splits)

lemma to_record_no_id [simp]:
  "AList.delete (lit ''id'') (AList.delete (lit ''_id'') (to_record s)) = to_record s"
  by (simp add: delete_absent to_record_def)

lemma parse_to_record:
  "parse_times time_keys (to_record s) =
    Inr (AList.update (lit ''enqueued_at'') (rv_opt RTime (us_enqueued_at s))
          (AList.update (lit ''completed_at'') (rv_opt RTime (us_completed_at s))
            (AList.update (lit ''expires_at'') (RTime (us_expires_at s))
              (AList.update (lit ''created_at'') (RTime (us_created_at s)) (to_record s)))))"
  by (cases "us_completed_at s"; cases "us_enqueued_at s") (simp_all add: time_keys_def to_record_def)

lemma as_time_opt [simp]: "as_time (Some (rv_opt RTime x)) = x"
  by (cases x) simp_all

lemma from_to_record: "from_record (to_record s) = Inr s"
proof -
  have "from_record (to_record s) = construct_session
      (AList.update (lit ''enqueued_at'') (rv_opt RTime (us_enqueued_at s))
        (AList.update (lit ''completed_at'') (rv_opt RTime (us_completed_at s))
          (AList.update (lit ''expires_at'') (RTime (us_expires_at s))
            (AList.update (lit ''created_at'') (RTime (us_created_at s)) (to_record s)))))"
    by (simp add: from_record_def parse_to_record)
  also have "\<dots> = Inr s"
    by (simp add: construct_session_def to_record_def required_keys_def defaulted_keys_def)
  finally show ?thesis .
qed


subsection \<open>The interface of a store\<close>

locale session_store =
  fixes get :: "'s \<Rightarrow> pystr \<Rightarrow> upload_error + upload_session option"
    and put :: "'s \<Rightarrow> upload_session \<Rightarrow> 's"
  assumes get_put_same: "get (put st s) (us_upload_id s) = Inr (Some s)"
    and get_put_other: "i \<noteq> us_upload_id s \<Longrightarrow> get (put st s) i = get st i"
begin

lemma get_puts:
  "get (foldl put st ss) i =
     (case find (\<lambda>s. us_upload_id s = i) (rev ss) of None \<Rightarrow> get st i | Some s \<Rightarrow> Inr (Some s))"
proof (induction ss rule: rev_induct)
  case Nil
  show ?case by simp
next
  case (snoc s ss)
  then show ?case using get_put_same get_put_other by (cases "us_upload_id s = i") auto
qed

end

interpretation memory: session_store memory_get memory_put
  by unfold_locales (simp_all add: memory_get_def memory_put_def)

lemma from_record_id: "from_record (AList.update (lit ''id'') v d) = from_record d"
proof -
  have "AList.delete (lit ''id'') (AList.delete (lit ''_id'') (AList.update (lit ''id'') v d)) =
      AList.delete (lit ''_id'') (AList.delete (lit ''id'') (AList.update (lit ''id'') v d))"
    by (rule AList.delete_twist)
  also have "\<dots> = AList.delete (lit ''id'') (AList.delete (lit ''_id'') d)"
    by (simp add: AList.delete_update_same AList.delete_twist)
  finally show ?thesis by (simp add: from_record_def)
qed

interpretation pg: session_store "kv_session_get pg_get_by_id" "kv_session_put pg_upsert"
proof
  fix st :: kv_rows and s i
  have "AList.update (lit ''id'') v (to_record s) \<noteq> []" for v by (simp add: to_record_def)
  then show "kv_session_get pg_get_by_id (kv_session_put pg_upsert st s) (us_upload_id s) = Inr (Some s)"
    by (simp add: kv_session_get_def kv_session_put_def pg_get_by_id_def pg_upsert_def from_record_id from_to_record)
  show "i \<noteq> us_upload_id s \<Longrightarrow>
      kv_session_get pg_get_by_id (kv_session_put pg_upsert st s) i = kv_session_get pg_get_by_id st i"
    by (simp add: kv_session_get_def kv_session_put_def pg_get_by_id_def pg_upsert_def)
qed


subsection \<open>Records with a key the class does not have\<close>

lemma parse_times_keys:
  "(\<And>k. k \<in> set ks \<Longrightarrow> \<exists>t. map_of d k = Some (RIso t) \<or> map_of d k = Some RNone \<or> map_of d k = Some (RTime t)) \<Longrightarrow>
     \<exists>d'. parse_times ks d = Inr d' \<and> set (map fst d) \<subseteq> set (map fst d')"
proof (induction ks d rule: parse_times.induct)
  case (1 d)
  then show ?case by simp
next
  case (2 k ks d)
  obtain t where t: "map_of d k = Some (RIso t) \<or> map_of d k = Some RNone \<or> map_of d k = Some (RTime t)"
    using "2.prems"[of k] by auto
  have rest: "\<exists>t. map_of d j = Some (RIso t) \<or> map_of d j = Some RNone \<or> map_of d j = Some (RTime t)" if "j \<in> set ks" for j
    using "2.prems" that by simp
  from t consider "map_of d k = Some (RIso t)" | "map_of d k = Some RNone" | "map_of d k = Some (RTime t)" by blast
  then show ?case
  proof cases
    case 1
    have "\<exists>d'. parse_times ks (AList.update k (RTime t) d) = Inr d' \<and>
        set (map fst (AList.update k (RTime t) d)) \<subseteq> set (map fst d')"
      by (rule "2.IH") (use 1 rest in auto)
    then show ?thesis using 1 by (auto simp: map_fst_dict_update)
  next
    case 2
    then show ?thesis using "2.IH" rest by simp
  next
    case 3
    then show ?thesis using "2.IH" rest by simp
  qed
qed

lemma from_record_unknown_key:
  assumes "map_of d k \<noteq> None" and "k \<notin> set (required_keys @ defaulted_keys)" and "k \<noteq> lit ''id''" and "k \<noteq> lit ''_id''"
    and "\<And>j. j \<in> set time_keys \<Longrightarrow> \<exists>t. map_of d j = Some (RIso t) \<or> map_of d j = Some RNone"
  shows "from_record d = Inl RecordTypeError"
proof -
  let ?d = "AList.delete (lit ''id'') (AList.delete (lit ''_id'') d)"
  have same: "map_of ?d j = map_of d j" if "j \<noteq> lit ''id''" "j \<noteq> lit ''_id''" for j
    using that by (simp add: dict_lookup_delete)
  have "lit ''id'' \<notin> set time_keys" "lit ''_id'' \<notin> set time_keys" by (simp_all add: time_keys_def)
  then have "\<exists>t. map_of ?d j = Some (RIso t) \<or> map_of ?d j = Some RNone \<or> map_of ?d j = Some (RTime t)" if "j \<in> set time_keys" for j
    using assms(5)[OF that] same[of j] that by metis
  from parse_times_keys[OF this] obtain d' where d': "parse_times time_keys ?d = Inr d'"
    and sub: "set (map fst ?d) \<subseteq> set (map fst d')" by blast
  have "map_of ?d k \<noteq> None" using same[OF assms(3,4)] assms(1) by simp
  then have "k \<in> set (map fst d')" using sub by (auto simp: map_of_eq_None_iff)
  then show ?thesis using assms(2) by (simp add: from_record_def d' construct_session_def) blast
qed


lemma record_times:
  "j \<in> set time_keys \<Longrightarrow> \<exists>t. map_of (to_record s) j = Some (RIso t) \<or> map_of (to_record s) j = Some RNone"
proof -
  have "map_of (to_record s) (lit ''created_at'') = Some (RIso (us_created_at s))"
    "map_of (to_record s) (lit ''expires_at'') = Some (RIso (us_expires_at s))"
    "map_of (to_record s) (lit ''completed_at'') = Some (rv_opt RIso (us_completed_at s))"
    "map_of (to_record s) (lit ''enqueued_at'') = Some (rv_opt RIso (us_enqueued_at s))"
    by (simp_all add: to_record_def)
  note at = this
  have opt: "\<exists>t. Some (rv_opt RIso x) = Some (RIso t) \<or> Some (rv_opt RIso x) = Some RNone" for x by (cases x) simp_all
  assume "j \<in> set time_keys"
  then consider "j = lit ''created_at''" | "j = lit ''expires_at''" | "j = lit ''completed_at''" | "j = lit ''enqueued_at''"
    unfolding time_keys_def by auto
  then show ?thesis by cases (metis at opt)+
qed

lemma lookup_set_default:
  "map_of (set_default k v d) j = (if j = k \<and> map_of d k = None then Some v else map_of d j)"
  by (simp add: set_default_def)

text \<open>What the JSON backend returns for a record it has stored: the record with three keys more.\<close>

lemma json_returns:
  assumes "d \<noteq> []"
  obtains d' where "json_get_by_id (json_upsert coerce now st i d) i = Some d'" "d' \<noteq> []"
    "map_of d' (lit ''create_time'') \<noteq> None"
    "\<And>j. j \<notin> {lit ''create_time'', lit ''update_time'', lit ''_id''} \<Longrightarrow> map_of d' j = map_of d j"
proof -
  define stamped where "stamped = (case map_of st i of
      Some old \<Rightarrow> AList.update (lit ''create_time'') (RInt (coerce (map_of old (lit ''create_time''))))
                   (AList.update (lit ''update_time'') (RInt now) d)
    | None \<Rightarrow> AList.update (lit ''update_time'') (RInt now) (AList.update (lit ''create_time'') (RInt now) d))"
  have st: "map_of stamped (lit ''create_time'') \<noteq> None" "map_of stamped (lit ''update_time'') \<noteq> None"
      "\<And>j. j \<notin> {lit ''create_time'', lit ''update_time''} \<Longrightarrow> map_of stamped j = map_of d j"
    by (auto simp: stamped_def split: option.split)
  let ?d = "AList.update (lit ''_id'') (RStr i) stamped"
  have "?d \<noteq> []" by (cases stamped) auto
  then have "json_get_by_id (json_upsert coerce now st i d) i =
      Some (AList.update (lit ''_id'') (RStr i) (set_default (lit ''update_time'') (RInt 0) (set_default (lit ''create_time'') (RInt 0) ?d)))"
    by (simp add: json_get_by_id_def json_upsert_def stamped_def[symmetric] Let_def)
  moreover have "set_default (lit ''update_time'') (RInt 0) (set_default (lit ''create_time'') (RInt 0) ?d) = ?d"
    using st(1,2) by (auto simp: set_default_def)
  moreover have "AList.update (lit ''_id'') (RStr i) ?d \<noteq> []" by (cases ?d) auto
  ultimately show thesis using that st(1,3) by simp
qed


subsection \<open>Properties\<close>

text \<open>
  C27: a record made of a session reads back as the session, and the store over PostgreSQL answers
  every read after any writes as the store in memory does.
\<close>

theorem upload_stores_agree:
  "from_record (to_record s) = Inr s \<and>
   kv_session_get pg_get_by_id (foldl (kv_session_put pg_upsert) [] ss) i = memory_get (foldl memory_put [] ss) i"
proof
  show "from_record (to_record s) = Inr s" by (rule from_to_record)
  show "kv_session_get pg_get_by_id (foldl (kv_session_put pg_upsert) [] ss) i = memory_get (foldl memory_put [] ss) i"
  proof -
    have e: "kv_session_get pg_get_by_id [] i = memory_get [] i"
      by (simp add: kv_session_get_def pg_get_by_id_def memory_get_def)
    show ?thesis unfolding pg.get_puts memory.get_puts e ..
  qed
qed

text \<open>
  C28: over the JSON backend no session that was written can be read: the backend returns the record
  with its own time stamps, which the class does not accept.
\<close>

theorem upload_json_unreadable:
  "kv_session_get json_get_by_id (kv_session_put (json_upsert coerce now) st s) (us_upload_id s) = Inl RecordTypeError"
proof -
  have "to_record s \<noteq> []" by (simp add: to_record_def)
  then obtain d where d: "json_get_by_id (json_upsert coerce now st (us_upload_id s) (to_record s)) (us_upload_id s) = Some d"
      "d \<noteq> []" "map_of d (lit ''create_time'') \<noteq> None"
    and lookup: "\<And>j. j \<notin> {lit ''create_time'', lit ''update_time'', lit ''_id''} \<Longrightarrow> map_of d j = map_of (to_record s) j"
    by (rule json_returns) blast
  have "\<exists>t. map_of d j = Some (RIso t) \<or> map_of d j = Some RNone" if "j \<in> set time_keys" for j
  proof -
    have "map_of d j = map_of (to_record s) j" using that by (intro lookup) (auto simp: time_keys_def)
    then show ?thesis using record_times[OF that, of s] by simp
  qed
  then have "from_record d = Inl RecordTypeError"
    using d(3) by (intro from_record_unknown_key[where k = "lit ''create_time''"])
      (auto simp: required_keys_def defaulted_keys_def)
  then show ?thesis using d(1,2) by (simp add: kv_session_get_def kv_session_put_def)
qed

end
