(* ===== verification/UploadProperties.thy ===== *)
theory UploadProperties
  imports UploadRecords
begin

section \<open>Upload sessions: invariants and properties\<close>

text \<open>
  What holds however reads, writes, clean-ups and crashes interleave (\<open>upload_inv\<close>, by
  preservation under \<open>upload_step\<close>), what holds for calls that are not interrupted, the record
  round trip over the two kinds of backend, and what an interleaving can break.
\<close>

subsection \<open>Sessions\<close>

definition same_upload :: "upload_session \<Rightarrow> upload_session \<Rightarrow> bool" where
  "same_upload s t \<longleftrightarrow>
     us_upload_id s = us_upload_id t \<and> us_workspace s = us_workspace t \<and> us_bucket s = us_bucket t \<and>
     us_object_key s = us_object_key t \<and> us_filename s = us_filename t \<and>
     us_canonical_file_path s = us_canonical_file_path t \<and> us_content_type s = us_content_type t \<and>
     us_declared_size s = us_declared_size t \<and> us_checksum s = us_checksum t \<and>
     us_created_at s = us_created_at t \<and> us_expires_at s = us_expires_at t"

definition session_ok :: "upload_manager \<Rightarrow> upload_session \<Rightarrow> bool" where
  "session_ok m s \<longleftrightarrow>
     valid_workspace (us_workspace s) \<and> us_filename s \<noteq> [] \<and> slash \<notin> set (us_filename s) \<and>
     0 \<le> us_declared_size s \<and> us_bucket s = mg_bucket m \<and>
     us_object_key s = object_key_of m (us_workspace s) (us_upload_id s) (us_filename s) \<and>
     (us_status s = Completed \<longrightarrow> us_object_size s = Some (us_declared_size s) \<and> us_completed_at s \<noteq> None) \<and>
     (us_status s = Issued \<longrightarrow> us_completed_at s = None \<and> us_object_size s = None \<and> us_track_id s = None) \<and>
     (us_track_id s \<noteq> None \<longrightarrow> us_completed_at s \<noteq> None \<and> us_enqueued_at s \<noteq> None)"

lemma same_upload_refl [simp]: "same_upload s s"
  and same_upload_sym: "same_upload s t \<Longrightarrow> same_upload t s"
  and same_upload_trans: "same_upload s t \<Longrightarrow> same_upload t u \<Longrightarrow> same_upload s u"
  by (auto simp: same_upload_def)

text \<open>A name that is its own last path component holds no slash.\<close>

lemma contains_slash: "contains [slash] p \<longleftrightarrow> slash \<in> set p"
  by (simp add: contains_iff in_set_conv_decomp)

lemma path_name_slash: "path_name f = f \<Longrightarrow> f \<noteq> [] \<Longrightarrow> slash \<notin> set f"
proof
  assume f: "path_name f = f" "f \<noteq> []"
  then have "f \<in> set (filter (\<lambda>p. p \<noteq> [] \<and> p \<noteq> lit ''.'') (py_split [slash] f))"
    unfolding path_name_def by (metis (no_types, lifting) list.exhaust list.set_intros(1) list.simps(4,5) set_rev)
  then have "f \<in> set (py_split [slash] f)" by simp
  then have "\<not> contains [slash] f" by (rule py_split_free[rotated]) simp
  moreover assume "slash \<in> set f"
  ultimately show False by (simp add: contains_slash)
qed

lemma create_session_ok:
  "create_session m i now w f ty n ck ttl = Inr s \<Longrightarrow> session_ok m s \<and> us_upload_id s = i"
  by (auto simp: create_session_def session_ok_def path_name_slash split: if_splits)

lemma validate_size: "validate_completion m s w k md = None \<Longrightarrow> om_size md = us_declared_size s"
  by (simp add: validate_completion_def split: if_splits)

lemma complete_ok:
  "complete_decision m now ended held w k md s = (Some t, a) \<Longrightarrow> session_ok m s \<Longrightarrow> session_ok m t \<and> same_upload s t"
  by (auto simp: complete_decision_def session_ok_def same_upload_def Let_def dest: validate_size
      split: if_splits option.splits)

lemma decision_ok:
  "request_decision m r now ended held s = (Some t, a) \<Longrightarrow> session_ok m s \<Longrightarrow> session_ok m t \<and> same_upload s t"
proof (cases r)
  case (CompleteReq w k md)
  then show "request_decision m r now ended held s = (Some t, a) \<Longrightarrow> session_ok m s \<Longrightarrow> session_ok m t \<and> same_upload s t"
    by (simp add: request_decision_def complete_ok)
next
  case (AbortReq w)
  then show "request_decision m r now ended held s = (Some t, a) \<Longrightarrow> session_ok m s \<Longrightarrow> session_ok m t \<and> same_upload s t"
    by (auto simp: request_decision_def abort_decision_def session_ok_def same_upload_def Let_def split: if_splits)
next
  case (MarkReq w t')
  then show "request_decision m r now ended held s = (Some t, a) \<Longrightarrow> session_ok m s \<Longrightarrow> session_ok m t \<and> same_upload s t"
    by (auto simp: request_decision_def mark_decision_def session_ok_def same_upload_def Let_def split: if_splits)
qed

lemma expired_ok: "session_ok m s \<Longrightarrow> us_status s = Issued \<Longrightarrow> session_ok m (s\<lparr>us_status := Expired\<rparr>)"
  and expired_same: "same_upload s (s\<lparr>us_status := Expired\<rparr>)"
  by (simp_all add: session_ok_def same_upload_def)


subsection \<open>The invariant of interleaved calls\<close>

fun call_sessions :: "upload_call \<Rightarrow> upload_session list" where
  "call_sessions (Deciding r s) = [s]"
| "call_sessions (Writing w a) = [w]"
| "call_sessions (Sweeping ss) = ss"
| "call_sessions (Deleting s ss) = s # ss"
| "call_sessions (Expiring s ss) = s # ss"

fun sweeps_issued :: "upload_call \<Rightarrow> bool" where
  "sweeps_issued (Deciding r s) = True"
| "sweeps_issued (Writing w a) = True"
| "sweeps_issued k = (\<forall>s \<in> set (call_sessions k). us_status s = Issued)"

text \<open>A session in hand is that of a stored one, at some time.\<close>

definition known_upload :: "upload_manager \<Rightarrow> memory_store \<Rightarrow> upload_session \<Rightarrow> bool" where
  "known_upload m st s \<longleftrightarrow> session_ok m s \<and> (\<exists>t. map_of st (us_upload_id s) = Some t \<and> same_upload t s)"

definition store_ok :: "upload_manager \<Rightarrow> memory_store \<Rightarrow> bool" where
  "store_ok m st \<longleftrightarrow> (\<forall>i s. map_of st i = Some s \<longrightarrow> us_upload_id s = i \<and> session_ok m s)"

definition upload_inv :: "upload_manager \<Rightarrow> upload_system \<Rightarrow> bool" where
  "upload_inv m y \<longleftrightarrow> store_ok m (sy_sessions y) \<and> keys_distinct (sy_sessions y) \<and>
     (\<forall>c k. map_of (sy_calls y) c = Some k \<longrightarrow>
        sweeps_issued k \<and> (\<forall>s \<in> set (call_sessions k). known_upload m (sy_sessions y) s))"

definition store_le :: "memory_store \<Rightarrow> memory_store \<Rightarrow> bool" where
  "store_le st st' \<longleftrightarrow> (\<forall>i s. map_of st i = Some s \<longrightarrow> (\<exists>t. map_of st' i = Some t \<and> same_upload s t))"

definition upload_le :: "upload_system \<Rightarrow> upload_system \<Rightarrow> bool" where
  "upload_le y y' \<longleftrightarrow> store_le (sy_sessions y) (sy_sessions y')"

lemma store_le_refl [simp]: "store_le st st"
  by (auto simp: store_le_def)

lemma store_le_trans: "store_le a b \<Longrightarrow> store_le b c \<Longrightarrow> store_le a c"
  unfolding store_le_def by (meson same_upload_trans)

lemma known_upload_le: "known_upload m st s \<Longrightarrow> store_le st st' \<Longrightarrow> known_upload m st' s"
  unfolding known_upload_def store_le_def by (meson same_upload_sym same_upload_trans)

text \<open>Writing a session that is known keeps the store in order.\<close>

lemma put_known:
  assumes "store_ok m st" and "known_upload m st s"
  shows "store_ok m (memory_put st s)" "store_le st (memory_put st s)"
proof -
  from assms(2) obtain t where s: "session_ok m s" "map_of st (us_upload_id s) = Some t" "same_upload t s"
    by (auto simp: known_upload_def)
  show "store_ok m (memory_put st s)" using assms(1) s(1) by (auto simp: store_ok_def memory_put_def)
  show "store_le st (memory_put st s)" using s(2,3) by (auto simp: store_le_def memory_put_def)
qed

lemma put_fresh:
  assumes "store_ok m st" and "session_ok m s" and "map_of st (us_upload_id s) = None"
  shows "store_ok m (memory_put st s)" "store_le st (memory_put st s)"
  using assms by (auto simp: store_ok_def store_le_def memory_put_def)

lemma keys_distinct_put [simp]: "keys_distinct st \<Longrightarrow> keys_distinct (memory_put st s)"
  by (simp add: memory_put_def)

lemmas upload_state_simps =
  put_session_def set_call_def end_call_def answer_def delete_prefix_def

text \<open>
  Every step writes at most one session, a fresh or a known one, and changes at most one call,
  whose sessions are known.
\<close>

lemma inv_frame:
  assumes "upload_inv m y" and "store_ok m (sy_sessions y')" and "keys_distinct (sy_sessions y')"
    and "store_le (sy_sessions y) (sy_sessions y')"
    and "\<And>c k. map_of (sy_calls y') c = Some k \<Longrightarrow>
       map_of (sy_calls y) c = Some k \<or>
       sweeps_issued k \<and> (\<forall>s \<in> set (call_sessions k). known_upload m (sy_sessions y) s)"
  shows "upload_inv m y' \<and> upload_le y y'"
  using assms known_upload_le[OF _ assms(4)] unfolding upload_inv_def upload_le_def by blast

lemma begin_inv:
  assumes "upload_inv m y" and "map_of (sy_sessions y) i = Some s"
  shows "upload_inv m (set_call c (Deciding r s) y) \<and> upload_le y (set_call c (Deciding r s) y)"
proof (rule inv_frame[OF assms(1)])
  have "session_ok m s" "us_upload_id s = i" using assms by (auto simp: upload_inv_def store_ok_def)
  then have "known_upload m (sy_sessions y) s" using assms(2) by (auto simp: known_upload_def)
  then show "map_of (sy_calls y) d = Some k \<or> sweeps_issued k \<and> (\<forall>s \<in> set (call_sessions k). known_upload m (sy_sessions y) s)"
    if "map_of (sy_calls (set_call c (Deciding r s) y)) d = Some k" for d k
    using that by (auto simp: upload_state_simps split: if_splits)
qed (use assms(1) in \<open>auto simp: upload_inv_def upload_state_simps\<close>)

lemma answer_inv: "upload_inv m y \<Longrightarrow> upload_inv m (answer c a y) \<and> upload_le y (answer c a y)"
  by (rule inv_frame) (auto simp: upload_inv_def upload_state_simps dict_lookup_delete split: if_splits)

lemma end_inv: "upload_inv m y \<Longrightarrow> upload_inv m (end_call c y) \<and> upload_le y (end_call c y)"
  by (rule inv_frame) (auto simp: upload_inv_def upload_state_simps dict_lookup_delete split: if_splits)

lemma set_call_inv:
  assumes "upload_inv m y" and "sweeps_issued k" and "\<forall>s \<in> set (call_sessions k). known_upload m (sy_sessions y) s"
  shows "upload_inv m (set_call c k y) \<and> upload_le y (set_call c k y)"
  using assms by (intro inv_frame[OF assms(1)]) (auto simp: upload_inv_def upload_state_simps split: if_splits)

lemma put_inv:
  assumes "upload_inv m y" and "known_upload m (sy_sessions y) s"
  shows "upload_inv m (put_session s y) \<and> upload_le y (put_session s y)"
  using put_known[of m "sy_sessions y" s] assms
  by (intro inv_frame[OF assms(1)]) (auto simp: upload_inv_def upload_state_simps)

lemma call_known:
  assumes "upload_inv m y" and "map_of (sy_calls y) c = Some k"
  shows "sweeps_issued k" "\<forall>s \<in> set (call_sessions k). known_upload m (sy_sessions y) s"
  using assms by (auto simp: upload_inv_def)

lemma known_decision:
  "known_upload m st s \<Longrightarrow> request_decision m r now ended held s = (Some t, a) \<Longrightarrow> known_upload m st t"
  unfolding known_upload_def using decision_ok same_upload_trans by (metis same_upload_def)

lemma known_expired:
  "known_upload m st s \<Longrightarrow> us_status s = Issued \<Longrightarrow> known_upload m st (s\<lparr>us_status := Expired\<rparr>)"
  unfolding known_upload_def using expired_ok expired_same same_upload_trans by (metis same_upload_def)

lemma upload_le_trans: "upload_le x y \<Longrightarrow> upload_le y z \<Longrightarrow> upload_le x z"
  unfolding upload_le_def by (rule store_le_trans)

lemma both_inv:
  assumes "upload_inv m y \<and> upload_le x y" and "upload_inv m y \<Longrightarrow> upload_inv m z \<and> upload_le y z"
  shows "upload_inv m z \<and> upload_le x z"
  using assms upload_le_trans by blast

lemma create_inv:
  assumes "upload_inv m y"
  shows "upload_inv m (upload_step m y (EvCreate i now w f ty n ck ttl)) \<and> upload_le y (upload_step m y (EvCreate i now w f ty n ck ttl))"
proof (cases "map_of (sy_sessions y) i")
  case None
  show ?thesis
  proof (cases "create_session m i now w f ty n ck ttl")
    case (Inr s)
    note ok = create_session_ok[OF Inr]
    then show ?thesis
      using put_fresh[of m "sy_sessions y" s] assms None Inr inv_frame[OF assms, of "put_session s y"]
      by (auto simp: upload_step_def upload_inv_def upload_state_simps)
  qed (use None assms in \<open>simp add: upload_step_def upload_le_def\<close>)
qed (use assms in \<open>simp add: upload_step_def upload_le_def\<close>)

lemma decide_inv:
  assumes "upload_inv m y"
  shows "upload_inv m (upload_step m y (EvDecide c now ended held)) \<and> upload_le y (upload_step m y (EvDecide c now ended held))"
proof (cases "map_of (sy_calls y) c")
  case (Some k)
  show ?thesis
  proof (cases k)
    case (Deciding r s)
    obtain t a where d: "request_decision m r now ended held s = (t, a)" by (cases "request_decision m r now ended held s")
    have "known_upload m (sy_sessions y) s" using call_known(2)[OF assms Some] Deciding by simp
    then have "t = Some w \<Longrightarrow> known_upload m (sy_sessions y) w" for w using known_decision d by blast
    then show ?thesis
      using Some Deciding d answer_inv[OF assms] set_call_inv[OF assms, of "Writing _ a"]
      by (cases t) (simp_all add: upload_step_def)
  qed (use Some assms in \<open>simp_all add: upload_step_def upload_le_def\<close>)
qed (use assms in \<open>simp add: upload_step_def upload_le_def\<close>)

lemma write_inv:
  assumes "upload_inv m y"
  shows "upload_inv m (upload_step m y (EvWrite c)) \<and> upload_le y (upload_step m y (EvWrite c))"
proof (cases "map_of (sy_calls y) c")
  case (Some k)
  show ?thesis
  proof (cases k)
    case (Writing w a)
    have "known_upload m (sy_sessions y) w" using call_known(2)[OF assms Some] Writing by simp
    from both_inv[OF put_inv[OF assms this] answer_inv] show ?thesis
      using Some Writing by (simp add: upload_step_def)
  qed (use Some assms in \<open>simp_all add: upload_step_def upload_le_def\<close>)
qed (use assms in \<open>simp add: upload_step_def upload_le_def\<close>)

lemma sweep_inv:
  assumes "upload_inv m y"
  shows "upload_inv m (upload_step m y (EvSweep c limit)) \<and> upload_le y (upload_step m y (EvSweep c limit))"
proof -
  have "known_upload m (sy_sessions y) s" if "(i, s) \<in> set (sy_sessions y)" for i s
  proof -
    have "map_of (sy_sessions y) i = Some s" using assms that by (simp add: upload_inv_def)
    moreover from this have "session_ok m s" "us_upload_id s = i" using assms by (auto simp: upload_inv_def store_ok_def)
    ultimately show ?thesis by (auto simp: known_upload_def)
  qed
  then have "\<forall>s \<in> set (expired_unfinished limit (map snd (sy_sessions y))). known_upload m (sy_sessions y) s \<and> us_status s = Issued"
    by (auto simp: expired_unfinished_def)
  then show ?thesis
    using assms set_call_inv[OF assms, of "Sweeping (expired_unfinished limit (map snd (sy_sessions y)))"]
    by (simp add: upload_step_def upload_le_def)
qed

lemma claim_inv:
  assumes "upload_inv m y"
  shows "upload_inv m (upload_step m y (EvClaim c allowed)) \<and> upload_le y (upload_step m y (EvClaim c allowed))"
proof (cases "map_of (sy_calls y) c")
  case (Some k)
  note known = call_known[OF assms Some]
  show ?thesis
  proof (cases k)
    case (Sweeping ss)
    then show ?thesis
      using Some known end_inv[OF assms] set_call_inv[OF assms]
      by (cases ss) (simp_all add: upload_step_def)
  qed (use Some assms in \<open>simp_all add: upload_step_def upload_le_def\<close>)
qed (use assms in \<open>simp add: upload_step_def upload_le_def\<close>)

lemma delete_inv:
  assumes "upload_inv m y"
  shows "upload_inv m (upload_step m y (EvDelete c)) \<and> upload_le y (upload_step m y (EvDelete c))"
proof (cases "map_of (sy_calls y) c")
  case (Some k)
  note known = call_known[OF assms Some]
  show ?thesis
  proof (cases k)
    case (Deleting s ss)
    have "upload_inv m (delete_prefix (cleanup_prefix s) y) \<and> upload_le y (delete_prefix (cleanup_prefix s) y)"
      using assms by (intro inv_frame[OF assms]) (auto simp: upload_inv_def upload_state_simps)
    moreover have "sy_sessions (delete_prefix (cleanup_prefix s) y) = sy_sessions y" by (simp add: delete_prefix_def)
    ultimately show ?thesis
      using both_inv[of m "delete_prefix (cleanup_prefix s) y" y, OF _ set_call_inv[of m _ "Expiring s ss" c]]
        Some known Deleting
      by (simp add: upload_step_def)
  qed (use Some assms in \<open>simp_all add: upload_step_def upload_le_def\<close>)
qed (use assms in \<open>simp add: upload_step_def upload_le_def\<close>)

lemma expire_inv:
  assumes "upload_inv m y"
  shows "upload_inv m (upload_step m y (EvExpire c)) \<and> upload_le y (upload_step m y (EvExpire c))"
proof (cases "map_of (sy_calls y) c")
  case (Some k)
  note known = call_known[OF assms Some]
  show ?thesis
  proof (cases k)
    case (Expiring s ss)
    let ?z = "put_session (s\<lparr>us_status := Expired\<rparr>) y"
    have put: "upload_inv m ?z \<and> upload_le y ?z"
      using known Expiring by (intro put_inv[OF assms] known_expired) simp_all
    then have "\<forall>s \<in> set ss. known_upload m (sy_sessions ?z) s"
      using known(2) Expiring known_upload_le unfolding upload_le_def by auto
    then show ?thesis
      using both_inv[OF put set_call_inv[of m ?z "Sweeping ss" c]] Some known(1) Expiring
      by (simp add: upload_step_def)
  qed (use Some assms in \<open>simp_all add: upload_step_def upload_le_def\<close>)
qed (use assms in \<open>simp add: upload_step_def upload_le_def\<close>)

lemma upload_step_inv:
  assumes "upload_inv m y"
  shows "upload_inv m (upload_step m y e) \<and> upload_le y (upload_step m y e)"
proof (cases e)
  case (EvUpload k md)
  then show ?thesis using inv_frame[OF assms, of "upload_step m y e"] assms
    by (auto simp: upload_step_def upload_inv_def)
next
  case (EvBegin c r i)
  then show ?thesis
    using begin_inv[OF assms] answer_inv[OF assms] assms
    by (auto simp: upload_step_def get_session_def upload_le_def split: option.split)
next
  case (EvCrash c)
  then show ?thesis using end_inv[OF assms] by (simp add: upload_step_def)
qed (simp_all add: create_inv decide_inv write_inv sweep_inv claim_inv delete_inv expire_inv assms)

interpretation uploads: monotone_component "upload_step m" "upload_inv m" upload_le for m :: upload_manager
proof
  fix s t u e
  show "upload_inv m s \<Longrightarrow> upload_inv m (upload_step m s e)" using upload_step_inv by blast
  show "upload_le s s" by (simp add: upload_le_def)
  show "upload_le s t \<Longrightarrow> upload_le t u \<Longrightarrow> upload_le s u" by (rule upload_le_trans)
  show "upload_inv m s \<Longrightarrow> upload_le s (upload_step m s e)" using upload_step_inv by blast
qed

lemma empty_uploads_inv: "upload_inv m empty_uploads"
  by (simp add: upload_inv_def empty_uploads_def store_ok_def)


subsection \<open>Prefixes\<close>

lemma split_at_sep:
  assumes "u @ x # a = v @ x # b" and "x \<notin> set u" and "x \<notin> set v"
  shows "u = v \<and> a = b"
  using assms by (induction u arbitrary: v) (auto simp: Cons_eq_append_conv append_eq_Cons_conv)

definition key_base :: "upload_manager \<Rightarrow> pystr" where
  "key_base m = (if mg_prefix m = [] then [] else mg_prefix m @ [slash]) @ lit ''uploads'' @ [slash]"

definition key_workspace :: "pystr \<Rightarrow> pystr" where
  "key_workspace w = (if w = [] then lit ''default'' else w)"

lemma lit_Cons: "lit (c # cs) = of_char c # lit cs"
  by (simp add: lit_def)

lemma lit_nonempty [simp]: "lit s = [] \<longleftrightarrow> s = []"
  by (simp add: lit_def)

lemma object_key_shape:
  "i \<noteq> [] \<Longrightarrow> f \<noteq> [] \<Longrightarrow>
     object_key_of m w i f = key_base m @ key_workspace w @ slash # i @ slash # f"
  by (simp add: object_key_of_def key_base_def key_workspace_def)

lemma rsplit_head_append: "slash \<notin> set f \<Longrightarrow> rsplit_head (u @ slash # f) = u"
proof -
  assume "slash \<notin> set f"
  then have "dropWhile (\<lambda>c. c \<noteq> slash) (rev f @ slash # rev u) = slash # rev u"
    by (subst dropWhile_append2) auto
  then show ?thesis by (simp add: rsplit_head_def)
qed

lemma cleanup_prefix_shape:
  assumes "session_ok m s" and "us_upload_id s \<noteq> []"
  shows "cleanup_prefix s = key_base m @ key_workspace (us_workspace s) @ slash # us_upload_id s @ [slash]"
proof -
  have key: "us_object_key s = (key_base m @ key_workspace (us_workspace s) @ slash # us_upload_id s) @ slash # us_filename s"
    using assms by (simp add: session_ok_def object_key_shape)
  have "slash \<notin> set (us_filename s)" using assms(1) by (simp add: session_ok_def)
  show ?thesis unfolding cleanup_prefix_def key rsplit_head_append[OF \<open>slash \<notin> set (us_filename s)\<close>] by simp
qed

lemma default_no_slash: "valid_workspace w \<Longrightarrow> slash \<notin> set (key_workspace w)"
  by (auto simp: key_workspace_def valid_workspace_def slash_def lit_def)

lemma cleanup_prefix_own:
  assumes "session_ok m s" and "session_ok m t" and "us_upload_id s \<noteq> []" and "us_upload_id t \<noteq> []"
    and "slash \<notin> set (us_upload_id s)" and "slash \<notin> set (us_upload_id t)"
    and "starts_with (cleanup_prefix s) (us_object_key t)"
  shows "us_upload_id s = us_upload_id t"
proof -
  obtain r where "us_object_key t = cleanup_prefix s @ r" using starts_withD[OF assms(7)] by metis
  moreover have "us_object_key t = key_base m @ key_workspace (us_workspace t) @ slash # us_upload_id t @ slash # us_filename t"
    using assms(2,4) by (simp add: session_ok_def object_key_shape)
  ultimately have "key_workspace (us_workspace t) @ slash # us_upload_id t @ slash # us_filename t =
      key_workspace (us_workspace s) @ slash # us_upload_id s @ slash # r"
    using cleanup_prefix_shape[OF assms(1,3)] by simp
  moreover have "slash \<notin> set (key_workspace (us_workspace t))" "slash \<notin> set (key_workspace (us_workspace s))"
    using assms(1,2) by (simp_all add: session_ok_def default_no_slash)
  ultimately have "us_upload_id t @ slash # us_filename t = us_upload_id s @ slash # r"
    using split_at_sep[of "key_workspace (us_workspace t)" slash _ "key_workspace (us_workspace s)"] by blast
  then show ?thesis using split_at_sep[of "us_upload_id t" slash _ "us_upload_id s"] assms(5,6) by metis
qed


subsection \<open>Calls without interruption\<close>

definition settled :: "upload_session \<Rightarrow> upload_session \<Rightarrow> bool" where
  "settled s t \<longleftrightarrow> same_upload s t \<and>
     (us_status s = Completed \<longrightarrow> us_status t = Completed \<and> us_completed_at t = us_completed_at s \<and>
        us_object_etag t = us_object_etag s \<and> us_object_size t = us_object_size s \<and>
        us_object_content_type t = us_object_content_type s) \<and>
     (given (us_track_id s) \<longrightarrow> us_track_id t = us_track_id s \<and> us_enqueued_at t = us_enqueued_at s) \<and>
     (us_status t = Issued \<longrightarrow> us_status s = Issued)"

definition store_settled :: "memory_store \<Rightarrow> memory_store \<Rightarrow> bool" where
  "store_settled st st' \<longleftrightarrow> (\<forall>i s. map_of st i = Some s \<longrightarrow> (\<exists>t. map_of st' i = Some t \<and> settled s t))"

lemma settled_refl [simp]: "settled s s"
  by (simp add: settled_def)

lemma settledD:
  assumes "settled s t"
  shows "same_upload s t"
    and "us_status s = Completed \<Longrightarrow> us_status t = Completed \<and> us_completed_at t = us_completed_at s \<and>
        us_object_etag t = us_object_etag s \<and> us_object_size t = us_object_size s \<and>
        us_object_content_type t = us_object_content_type s"
    and "given (us_track_id s) \<Longrightarrow> us_track_id t = us_track_id s \<and> us_enqueued_at t = us_enqueued_at s"
    and "us_status t = Issued \<Longrightarrow> us_status s = Issued"
  using assms unfolding settled_def by blast+

lemma settled_trans:
  assumes st: "settled s t" and tu: "settled t u"
  shows "settled s u"
  unfolding settled_def
proof (intro conjI impI)
  show "same_upload s u" using settledD(1)[OF st] settledD(1)[OF tu] by (rule same_upload_trans)
  show "us_status s = Issued" if "us_status u = Issued" using settledD(4)[OF st] settledD(4)[OF tu that] by blast
  assume g: "given (us_track_id s)"
  note t = settledD(3)[OF st g]
  then have "given (us_track_id t)" using g by simp
  from settledD(3)[OF tu this] t show "us_track_id u = us_track_id s" "us_enqueued_at u = us_enqueued_at s" by simp_all
next
  assume c: "us_status s = Completed"
  note t = settledD(2)[OF st c]
  then have "us_status t = Completed" by blast
  from settledD(2)[OF tu this] t
  show "us_status u = Completed" "us_completed_at u = us_completed_at s" "us_object_etag u = us_object_etag s"
    "us_object_size u = us_object_size s" "us_object_content_type u = us_object_content_type s" by simp_all
qed

lemma store_settled_put:
  assumes "store_ok m st" and "map_of st i = Some s" and "settled s t" and "session_ok m t"
  shows "store_ok m (memory_put st t) \<and> store_settled st (memory_put st t)"
proof -
  have "us_upload_id t = i" using assms(1,2,3) by (auto simp: store_ok_def settled_def same_upload_def)
  then show ?thesis using assms by (auto simp: store_ok_def store_settled_def memory_put_def)
qed

lemma complete_writes:
  assumes "complete_decision m now ended held w k md s = (Some t, a)"
  obtains (too_late) "us_status s = Issued" "us_expires_at s < now" "t = s\<lparr>us_status := Expired\<rparr>"
  | (accepted) "us_status s = Issued" "validate_completion m s w k md = None"
      "t = s\<lparr>us_status := Completed, us_completed_at := Some ended, us_object_etag := om_etag md,
         us_object_size := Some (om_size md), us_object_content_type := om_content_type md\<rparr>" "a = Inr t"
  using assms by (auto simp: complete_decision_def Let_def split: if_splits option.splits)

lemma complete_settled:
  assumes "complete_decision m now ended held w k md s = (Some t, a)" and "session_ok m s"
  shows "settled s t"
proof -
  have track: "us_track_id s = None" if "us_status s = Issued" using assms(2) that by (simp add: session_ok_def)
  from assms(1) show ?thesis
    by (cases rule: complete_writes) (use track in \<open>simp_all add: settled_def same_upload_def given_def\<close>)
qed

lemma abort_settled: "abort_decision w s = (Some t, a) \<Longrightarrow> settled s t"
  by (auto simp: abort_decision_def settled_def same_upload_def Let_def split: if_splits)

lemma mark_settled: "mark_decision now w tr s = (Some t, a) \<Longrightarrow> settled s t"
  by (auto simp: mark_decision_def settled_def same_upload_def Let_def split: if_splits)

lemma decision_settled:
  "request_decision m r now ended held s = (Some t, a) \<Longrightarrow> session_ok m s \<Longrightarrow> settled s t"
  by (cases r) (auto simp: request_decision_def intro: complete_settled abort_settled mark_settled)

lemma expired_settled: "session_ok m s \<Longrightarrow> us_status s = Issued \<Longrightarrow> settled s (s\<lparr>us_status := Expired\<rparr>)"
  by (simp add: settled_def expired_same)

lemma whole_step_inv:
  assumes "store_ok m st"
  shows "store_ok m (whole_step m st e) \<and> store_settled st (whole_step m st e)"
proof -
  have stay: "store_ok m st \<and> store_settled st st" using assms by (auto simp: store_settled_def)
  show ?thesis
  proof (cases e)
    case (WholeCreate i now w f ty n ck ttl)
    have "store_ok m (memory_put st s) \<and> store_settled st (memory_put st s)"
      if "create_session m i now w f ty n ck ttl = Inr s" "map_of st i = None" for s
      using create_session_ok[OF that(1)] that(2) put_fresh(1)[OF assms]
      by (auto simp: store_settled_def memory_put_def)
    then show ?thesis using stay by (simp add: whole_step_def WholeCreate split: sum.split)
  next
    case (WholeRequest r i now ended held)
    have "store_ok m (memory_put st t) \<and> store_settled st (memory_put st t)"
      if "map_of st i = Some s" "request_decision m r now ended held s = (Some t, a)" for s t a
    proof -
      have "session_ok m s" using assms that(1) by (simp add: store_ok_def)
      then show ?thesis using store_settled_put[OF assms that(1)] decision_settled[OF that(2)] decision_ok[OF that(2)] by blast
    qed
    then show ?thesis using stay
      by (auto simp: whole_step_def WholeRequest get_session_def split: option.split prod.split)
  next
    case (WholeExpire i limit)
    have "store_ok m (memory_put st (s\<lparr>us_status := Expired\<rparr>)) \<and> store_settled st (memory_put st (s\<lparr>us_status := Expired\<rparr>))"
      if "map_of st i = Some s" "us_status s = Issued" for s
    proof -
      have "session_ok m s" using assms that(1) by (simp add: store_ok_def)
      then show ?thesis using store_settled_put[OF assms that(1)] expired_settled expired_ok that(2) by blast
    qed
    then show ?thesis using stay
      by (auto simp: whole_step_def WholeExpire expired_unfinished_def split: option.split)
  qed
qed

interpretation whole_uploads: monotone_component "whole_step m" "store_ok m" store_settled for m :: upload_manager
proof
  fix s t u e
  show "store_ok m s \<Longrightarrow> store_ok m (whole_step m s e)" using whole_step_inv by blast
  show "store_settled s s" by (auto simp: store_settled_def)
  show "store_settled s t \<Longrightarrow> store_settled t u \<Longrightarrow> store_settled s u"
    unfolding store_settled_def by (meson settled_trans)
  show "store_ok m s \<Longrightarrow> store_settled s (whole_step m s e)" using whole_step_inv by blast
qed


subsection \<open>Properties\<close>

text \<open>
  C23: however calls, clean-ups and crashes interleave, a stored session stays consistent (the key of
  its object is made of its workspace, identifier and file name; once completed the object has the
  declared size; a track implies a completion) and what was issued never changes.
\<close>

theorem upload_sessions_consistent:
  assumes "map_of (sy_sessions (run (upload_step m) empty_uploads es)) i = Some s"
  shows "us_upload_id s = i \<and> session_ok m s \<and>
    (\<exists>t. map_of (sy_sessions (run (upload_step m) empty_uploads (es @ fs))) i = Some t \<and> same_upload s t)"
proof -
  have inv: "upload_inv m (run (upload_step m) empty_uploads es)" by (rule uploads.run_inv[OF empty_uploads_inv])
  then have "us_upload_id s = i \<and> session_ok m s" using assms by (simp add: upload_inv_def store_ok_def)
  moreover have "store_le (sy_sessions (run (upload_step m) empty_uploads es))
      (sy_sessions (run (upload_step m) empty_uploads (es @ fs)))"
    using uploads.run_le[OF inv, of fs] by (simp add: upload_le_def)
  ultimately show ?thesis using assms by (simp add: store_le_def)
qed

definition demo_manager :: upload_manager where
  "demo_manager = new_manager [98] [] (\<lambda>f. f) (\<lambda>s. s)"

definition demo_events :: "upload_event list" where
  "demo_events = [EvCreate [117] 0 [119] [102] [116] 3 None 1]"

lemma demo_created:
  "map_of (sy_sessions (run (upload_step demo_manager) empty_uploads demo_events)) [117] =
    Some \<lparr> us_upload_id = [117], us_workspace = [119], us_bucket = [98],
      us_object_key = lit ''uploads/w/u/f'', us_filename = [102], us_canonical_file_path = [102],
      us_content_type = [116], us_declared_size = 3, us_checksum = None, us_status = Issued, us_created_at = 0,
      us_expires_at = 1000000, us_completed_at = None, us_object_etag = None, us_object_size = None,
      us_object_content_type = None, us_track_id = None, us_enqueued_at = None \<rparr>"
  by (simp add: demo_events_def demo_manager_def empty_uploads_def upload_step_def create_session_def new_manager_def
      valid_workspace_def path_name_def py_split_def starts_with_def slash_def lit_def object_key_of_def put_session_def
      memory_put_def strip_def lstrip_def rstrip_def strip_slashes_def)

lemma upload_sessions_consistent_witness:
  "\<exists>t. map_of (sy_sessions (run (upload_step demo_manager) empty_uploads (demo_events @ [EvCrash 1]))) [117] = Some t \<and>
     us_object_key t = lit ''uploads/w/u/f''"
  using upload_sessions_consistent[OF demo_created, of "[EvCrash 1]"] by (auto simp: same_upload_def)

text \<open>
  C24: when calls are not interrupted, a completed session stays completed with the object it was
  completed with, a track once given stays, and no session is issued again.
\<close>

theorem upload_completed_stays:
  assumes "map_of (run (whole_step m) [] es) i = Some s"
  shows "\<exists>t. map_of (run (whole_step m) [] (es @ fs)) i = Some t \<and> settled s t"
proof -
  have "store_ok m []" by (simp add: store_ok_def)
  then have "store_ok m (run (whole_step m) [] es)" by (rule whole_uploads.run_inv)
  from whole_uploads.run_le[OF this, of fs] show ?thesis using assms by (simp add: store_settled_def)
qed

lemma upload_completed_stays_witness:
  "\<exists>t. map_of (run (whole_step demo_manager) [] ([WholeCreate [117] 0 [119] [102] [116] 3 None 1] @ [WholeExpire [117] 5])) [117] = Some t"
proof -
  have "map_of (run (whole_step demo_manager) [] [WholeCreate [117] 0 [119] [102] [116] 3 None 1]) [117] \<noteq> None"
    by (simp add: demo_manager_def whole_step_def create_session_def new_manager_def valid_workspace_def path_name_def
        py_split_def starts_with_def slash_def lit_def memory_put_def)
  then show ?thesis using upload_completed_stays by blast
qed

text \<open>
  C25: in any state that interleaved calls can reach, the prefix a clean-up deletes for one session
  holds no object key of another, whatever their workspaces, for identifiers without a slash.
\<close>

theorem upload_cleanup_own_prefix:
  assumes "map_of (sy_sessions (run (upload_step m) empty_uploads es)) i = Some s"
    and "map_of (sy_sessions (run (upload_step m) empty_uploads es)) j = Some t"
    and "i \<noteq> j" and "i \<noteq> []" and "j \<noteq> []" and "slash \<notin> set i" and "slash \<notin> set j"
  shows "\<not> starts_with (cleanup_prefix s) (us_object_key t)"
proof
  assume sw: "starts_with (cleanup_prefix s) (us_object_key t)"
  have "upload_inv m (run (upload_step m) empty_uploads es)" by (rule uploads.run_inv[OF empty_uploads_inv])
  then have "store_ok m (sy_sessions (run (upload_step m) empty_uploads es))" by (simp add: upload_inv_def)
  then have "us_upload_id s = i" "us_upload_id t = j" "session_ok m s" "session_ok m t"
    using assms(1,2) by (auto simp: store_ok_def)
  with cleanup_prefix_own[OF this(3,4) _ _ _ _ sw] assms(3-7) show False by simp
qed

definition demo_pair :: "upload_event list" where
  "demo_pair = [EvCreate [117] 0 [] [102] [116] 3 None 1, EvCreate [118] 0 (lit ''default'') [102] [116] 3 None 1]"

lemma demo_pair_created:
  "\<exists>s t. map_of (sy_sessions (run (upload_step demo_manager) empty_uploads demo_pair)) [117] = Some s \<and>
     map_of (sy_sessions (run (upload_step demo_manager) empty_uploads demo_pair)) [118] = Some t \<and>
     us_object_key s = lit ''uploads/default/u/f'' \<and> us_object_key t = lit ''uploads/default/v/f''"
  by (simp add: demo_pair_def demo_manager_def empty_uploads_def upload_step_def create_session_def new_manager_def
      valid_workspace_def path_name_def py_split_def starts_with_def slash_def lit_def object_key_of_def put_session_def
      memory_put_def strip_def lstrip_def rstrip_def strip_slashes_def)

lemma upload_cleanup_own_prefix_witness:
  "case (map_of (sy_sessions (run (upload_step demo_manager) empty_uploads demo_pair)) [117],
         map_of (sy_sessions (run (upload_step demo_manager) empty_uploads demo_pair)) [118]) of
     (Some s, Some t) \<Rightarrow> \<not> starts_with (cleanup_prefix s) (us_object_key t)
   | _ \<Rightarrow> False"
proof -
  obtain s t where st: "map_of (sy_sessions (run (upload_step demo_manager) empty_uploads demo_pair)) [117] = Some s"
    "map_of (sy_sessions (run (upload_step demo_manager) empty_uploads demo_pair)) [118] = Some t"
    using demo_pair_created by blast
  have "\<not> starts_with (cleanup_prefix s) (us_object_key t)"
    by (rule upload_cleanup_own_prefix[OF st]) (simp_all add: slash_def)
  then show ?thesis by (simp add: st)
qed


text \<open>
  The read of one call and its write are not one step: an abort that has read an issued session
  overwrites a completion that was granted meanwhile, and a clean-up that has listed a session
  deletes the object of a completion granted in time.
\<close>

definition demo_metadata :: object_metadata where
  "demo_metadata = \<lparr> om_key = lit ''uploads/w/u/f'', om_size = 3, om_content_type = None, om_etag = None, om_checksum = None \<rparr>"

definition abort_race :: "upload_event list" where
  "abort_race = demo_events @
     [EvBegin 1 (AbortReq [119]) [117], EvBegin 2 (CompleteReq [119] (lit ''uploads/w/u/f'') demo_metadata) [117],
      EvDecide 2 5 6 False, EvWrite 2, EvDecide 1 7 7 False, EvWrite 1]"

definition cleanup_race :: "upload_event list" where
  "cleanup_race = demo_events @
     [EvUpload (lit ''uploads/w/u/f'') demo_metadata,
      EvBegin 2 (CompleteReq [119] (lit ''uploads/w/u/f'') demo_metadata) [117], EvDecide 2 1000000 1000000 False,
      EvSweep 3 1000001, EvWrite 2, EvClaim 3 True, EvDelete 3, EvExpire 3]"

definition granted :: "nat \<Rightarrow> upload_system \<Rightarrow> bool" where
  "granted c y =
     list_ex (\<lambda>(d, a). d = c \<and> (case a of Inl _ \<Rightarrow> False | Inr s \<Rightarrow> us_status s = Completed)) (sy_answers y)"

theorem upload_abort_overwrites_completion:
  "map_option us_status (map_of (sy_sessions (run (upload_step demo_manager) empty_uploads abort_race)) [117]) = Some Aborted"
  "granted 2 (run (upload_step demo_manager) empty_uploads abort_race)"
  by code_simp+

theorem upload_cleanup_deletes_completed:
  "map_option us_status (map_of (sy_sessions (run (upload_step demo_manager) empty_uploads cleanup_race)) [117]) = Some Expired"
  "sy_objects (run (upload_step demo_manager) empty_uploads cleanup_race) = []"
  "granted 2 (run (upload_step demo_manager) empty_uploads cleanup_race)"
  by code_simp+

end
