(* ===== verification/ReleaseState.thy ===== *)
theory ReleaseState
  imports Coordinator PyStrings
begin

section \<open>Release control: identities, tables and drain evidence\<close>

text \<open>
  \<^verbatim>\<open>lightrag/distributed/release/\<close>: two slots serve one scope, and a release moves the right to
  write from one to the other. This theory holds the values and tables
  (\<^verbatim>\<open>models.py\<close>, \<^verbatim>\<open>migrations/001_release.sql\<close>), the credential approval of a first release
  (\<^verbatim>\<open>lightrag_delivery/credentials.py\<close>) and the evidence that no writer is left
  (\<^verbatim>\<open>evidence.py\<close>), which reads the coordinator's tables. A \<open>release_db\<close> holds the rows of one
  scope; its clock is the \<^verbatim>\<open>clock_timestamp()\<close> of the statement at hand.
\<close>

datatype release_error =
    RelError
  | RelConflict
  | RelBudgetExceeded
  | RelDraining
  | RelUnavailable
  | RelQueueFull
  | RelValueError
  | RelTypeError
  | RelDatabaseError

text \<open>The wrappers around one row of a query that must be there.\<close>

definition bind_result :: "'e + 'a \<Rightarrow> ('a \<Rightarrow> 'e + 'b) \<Rightarrow> 'e + 'b" where
  "bind_result r f = (case r of Inl e \<Rightarrow> Inl e | Inr x \<Rightarrow> f x)"

lemma bind_result_simps [simp]: "bind_result (Inl e) f = Inl e" "bind_result (Inr x) f = f x"
  by (simp_all add: bind_result_def)

lemma bind_result_Inr: "bind_result r f = Inr y \<longleftrightarrow> (\<exists>x. r = Inr x \<and> f x = Inr y)"
  by (cases r) auto


subsection \<open>Patterns\<close>

text \<open>The character classes of the patterns, as ranges of code points.\<close>

definition in_class :: "(nat \<times> nat) list \<Rightarrow> nat \<Rightarrow> bool" where
  "in_class rs c = list_ex (\<lambda>(a, b). a \<le> c \<and> c \<le> b) rs"

definition name_char :: "nat \<Rightarrow> bool" where
  "name_char = in_class [(65, 90), (97, 122), (48, 57), (95, 95), (46, 46), (45, 45)]"

definition hex_char :: "nat \<Rightarrow> bool" where
  "hex_char = in_class [(97, 102), (48, 57)]"

definition digit_char :: "nat \<Rightarrow> bool" where
  "digit_char = in_class [(48, 57)]"

definition some_of :: "(nat \<Rightarrow> bool) \<Rightarrow> pystr \<Rightarrow> bool" where
  "some_of p s \<longleftrightarrow> s \<noteq> [] \<and> list_all p s"

text \<open>
  \<^verbatim>\<open>X/Y\<close> over name characters (which exclude the slash), at most \<open>n\<close> of them on a side where
  the pattern says so; \<^verbatim>\<open>vA.B.C\<close> over digits; and a digest.
\<close>

definition scope_pattern :: "nat option \<Rightarrow> pystr \<Rightarrow> bool" where
  "scope_pattern n s \<longleftrightarrow>
     (case py_split [47] s of
        [a, b] \<Rightarrow> some_of name_char a \<and> some_of name_char b \<and>
          (case n of None \<Rightarrow> True | Some k \<Rightarrow> length a \<le> k \<and> length b \<le> k)
      | _ \<Rightarrow> False)"

definition tag_pattern :: "pystr \<Rightarrow> bool" where
  "tag_pattern s \<longleftrightarrow>
     (case s of [] \<Rightarrow> False
      | c # r \<Rightarrow> c = 118 \<and> length (py_split [46] r) = 3 \<and> list_all (some_of digit_char) (py_split [46] r))"

definition hex_pattern :: "nat \<Rightarrow> pystr \<Rightarrow> bool" where
  "hex_pattern n s \<longleftrightarrow> length s = n \<and> list_all hex_char s"

definition name_pattern :: "pystr \<Rightarrow> bool" where
  "name_pattern s \<longleftrightarrow> some_of name_char s \<and> length s \<le> 128"

definition digest_pattern :: "pystr \<Rightarrow> bool" where
  "digest_pattern s \<longleftrightarrow> starts_with (lit ''sha256:'') s \<and> hex_pattern 64 (drop 7 s)"


subsection \<open>Release identities and phases\<close>

record release_identity =
  ri_scope :: pystr
  ri_release :: pystr
  ri_tag :: pystr
  ri_commit :: pystr
  ri_digest :: pystr
  ri_config :: pystr
  ri_protocol :: int

definition valid_identity :: "release_identity \<Rightarrow> bool" where
  "valid_identity idn \<longleftrightarrow>
     scope_pattern None (ri_scope idn) \<and> name_pattern (ri_release idn) \<and> tag_pattern (ri_tag idn) \<and>
     hex_pattern 40 (ri_commit idn) \<and> digest_pattern (ri_digest idn) \<and> hex_pattern 64 (ri_config idn) \<and>
     ri_protocol idn = 1"

datatype slot = Blue | Green

definition other_slot :: "slot \<Rightarrow> slot" where
  "other_slot s = (case s of Blue \<Rightarrow> Green | Green \<Rightarrow> Blue)"

datatype release_phase =
    PhIdle
  | PhPrepared
  | PhDraining
  | PhReadSwitched
  | PhWriterSwitched
  | PhRetiring
  | PhCompleted
  | PhAborting
  | PhAborted
  | PhRollbackDraining
  | PhRollbackWriterSwitched
  | PhRollbackRetiring
  | PhRolledBack

definition PHASES :: "release_phase list" where
  "PHASES = [PhPrepared, PhDraining, PhReadSwitched, PhWriterSwitched, PhRetiring, PhCompleted]"

fun next_in :: "'a list \<Rightarrow> 'a \<Rightarrow> 'a option" where
  "next_in (x # y # zs) p = (if p = x then Some y else next_in (y # zs) p)"
| "next_in _ p = None"

text \<open>The version that a tag names: \<^verbatim>\<open>tuple(int(part) for part in tag[1:].split("."))\<close>.\<close>

definition decimal :: "pystr \<Rightarrow> nat" where
  "decimal s = fold (\<lambda>c n. 10 * n + (c - 48)) s 0"

definition tag_version :: "pystr \<Rightarrow> nat list" where
  "tag_version tag = map decimal (py_split [46] (drop 1 tag))"


subsection \<open>Policies and the first-release credential approval\<close>

text \<open>
  What a JSON document may hold where the code expects a scalar. Python's \<open>isinstance(x, int)\<close>
  accepts a Boolean, \<open>type(x) is int\<close> does not.
\<close>

datatype jval = JStr pystr | JInt int | JBool bool | JOther

text \<open>The approval: any value that is not an object with exactly these keys is \<open>BadApproval\<close>.\<close>

record approval_fields =
  af_version :: jval
  af_approval_id :: jval
  af_scope :: jval
  af_profile_hash :: jval
  af_release_tag :: jval
  af_postgres_user :: jval
  af_postgres_database :: jval
  af_hugegraph_user :: jval
  af_accepted_risk :: jval

datatype approval_value = BadApproval | Approval approval_fields

record policy =
  po_queue_capacity :: "jval option"
  po_byte_limit :: "int option"
  po_drain_seconds :: "real option"
  po_writers :: "pystr list"
  po_exception :: "approval_value option"
  po_other :: pystr

definition str_matches :: "(pystr \<Rightarrow> bool) \<Rightarrow> jval \<Rightarrow> bool" where
  "str_matches p v = (case v of JStr s \<Rightarrow> p s | _ \<Rightarrow> False)"

definition user_pattern :: "pystr \<Rightarrow> bool" where
  "user_pattern s \<longleftrightarrow>
     (case s of [] \<Rightarrow> False
      | c # r \<Rightarrow> in_class [(97, 122)] c \<and> list_all (in_class [(97, 122), (48, 57), (95, 95)]) r \<and> length r \<le> 62)"

text \<open>
  \<^verbatim>\<open>re.search(r"(^|[/_.-])test([/_.-]|$)", scope, re.I)\<close>: the word, in any case, between the
  ends of the text or separators.
\<close>

definition lower :: "nat \<Rightarrow> nat" where
  "lower c = (if 65 \<le> c \<and> c \<le> 90 then c + 32 else c)"

definition separator :: "nat \<Rightarrow> bool" where
  "separator = in_class [(47, 47), (95, 95), (46, 46), (45, 45)]"

definition names_test :: "pystr \<Rightarrow> bool" where
  "names_test s = list_ex (\<lambda>i.
     slice i (i + 4) (map lower s) = lit ''test'' \<and> (i = 0 \<or> separator (s ! (i - 1))) \<and>
     (i + 4 = length s \<or> separator (s ! (i + 4)))) [0..<length s]"

definition plain_text :: "pystr \<Rightarrow> bool" where
  "plain_text s \<longleftrightarrow> s \<noteq> [] \<and> length s \<le> 128 \<and> list_all (\<lambda>c. \<not> c < 32 \<and> c \<noteq> 127) s"

definition parse_approval :: "approval_value \<Rightarrow> pystr \<Rightarrow> pystr \<Rightarrow> release_error + approval_fields" where
  "parse_approval v scope profile =
     (case v of BadApproval \<Rightarrow> Inl RelValueError
      | Approval f \<Rightarrow>
          if af_version f \<noteq> JInt 1 \<or> af_accepted_risk f \<noteq> JBool True \<or> af_scope f \<noteq> JStr scope \<or>
             af_profile_hash f \<noteq> JStr profile
          then Inl RelValueError
          else if \<not> (str_matches name_pattern (af_approval_id f) \<and> str_matches (scope_pattern (Some 128)) (af_scope f) \<and>
                     str_matches (hex_pattern 64) (af_profile_hash f) \<and> str_matches tag_pattern (af_release_tag f) \<and>
                     str_matches user_pattern (af_postgres_user f))
          then Inl RelValueError
          else if str_matches names_test (af_scope f) then Inl RelValueError
          else if \<not> (str_matches plain_text (af_postgres_database f) \<and> str_matches plain_text (af_hugegraph_user f))
          then Inl RelValueError
          else Inr f)"


subsection \<open>The tables of a scope\<close>

record release_scope =
  rs_name :: pystr
  rs_profile :: pystr
  rs_config :: pystr
  rs_active :: slot
  rs_candidate :: "slot option"
  rs_epoch :: int
  rs_owner :: "pystr option"
  rs_phase :: release_phase
  rs_gate :: bool
  rs_policy :: policy
  rs_identity :: "release_identity option"
  rs_deadline :: "real option"

text \<open>
  What a release remembers of the scope it began in, and the approval of its rollback. The
  evidence is one JSON object that reports are merged into: a proof of the route, and a
  snapshot, whose keys are always the same.
\<close>

record previous =
  pv_epoch :: int
  pv_active :: slot
  pv_config :: pystr
  pv_digest :: "pystr option"

record rollback_approval =
  ra_from_digest :: pystr
  ra_to_config :: pystr
  ra_to_digest :: "pystr option"
  ra_profile :: pystr
  ra_compatible :: bool
  ra_evidence :: pystr

datatype command_state = CmQueued | CmExecuting | CmSucceeded | CmFailed | CmUncertain

record snapshot_report =
  sn_scope :: pystr
  sn_owner :: "pystr option"
  sn_epoch :: int
  sn_phase :: release_phase
  sn_active :: slot
  sn_candidate :: "slot option"
  sn_gate :: bool
  sn_config :: pystr
  sn_profile :: pystr
  sn_identity :: "release_identity option"
  sn_commands :: "(command_state \<times> nat) list"
  sn_tickets :: nat

record release_evidence =
  re_route :: "pystr option"
  re_snapshot :: "snapshot_report option"

record release_row =
  rr_id :: pystr
  rr_identity :: release_identity
  rr_phase :: release_phase
  rr_evidence :: release_evidence
  rr_previous :: previous
  rr_approval :: "rollback_approval option"
  rr_updated :: real

record lifetime_counts =
  lc_http :: int
  lc_queries :: int
  lc_writers :: int
  lc_waiters :: int
  lc_backend :: int
  lc_background :: int

record instance_row =
  ins_id :: pystr
  ins_slot :: slot
  ins_config :: pystr
  ins_profile :: pystr
  ins_owner :: uuid
  ins_retiring :: bool
  ins_closed :: bool
  ins_status :: "lifetime_counts option"

text \<open>A command's envelope; \<open>en_principal\<close> is the canonical text of the principal without its id.\<close>

record envelope =
  en_operation :: pystr
  en_version :: int
  en_scope :: pystr
  en_principal_id :: pystr
  en_principal :: pystr
  en_key :: pystr
  en_hash :: pystr
  en_payload :: pystr
  en_refs :: "pystr list"

record command_row =
  cm_id :: uuid
  cm_principal :: pystr
  cm_key :: pystr
  cm_hash :: pystr
  cm_envelope :: envelope
  cm_state :: command_state
  cm_executor :: "pystr option"
  cm_epoch :: "int option"
  cm_ticket :: "uuid option"
  cm_result :: "pystr option"
  cm_created :: real

datatype cleanup_state = Cleaning | Cleaned

record cleanup_row =
  cu_ref :: pystr
  cu_instance :: pystr
  cu_ticket :: uuid
  cu_state :: cleanup_state

datatype ticket_state = TkActive | TkCompleted | TkUncertain

record ticket_row =
  tk_id :: uuid
  tk_instance :: pystr
  tk_slot :: slot
  tk_epoch :: int
  tk_command :: "uuid option"
  tk_kind :: pystr
  tk_state :: ticket_state
  tk_operation :: "uuid option"

text \<open>\<open>rd_commands\<close> is in the order of the \<open>sequence\<close> column.\<close>

record release_db =
  rd_scope :: "release_scope option"
  rd_releases :: "release_row list"
  rd_instances :: "instance_row list"
  rd_commands :: "command_row list"
  rd_tickets :: "ticket_row list"
  rd_cleanup :: "cleanup_row list"
  rd_coord :: coord_db
  rd_now :: real

definition empty_release_db :: release_db where
  "empty_release_db = \<lparr>rd_scope = None, rd_releases = [], rd_instances = [], rd_commands = [], rd_tickets = [],
     rd_cleanup = [], rd_coord = empty_db, rd_now = 0\<rparr>"

definition unfinished_command :: "command_row \<Rightarrow> bool" where
  "unfinished_command c \<longleftrightarrow> cm_state c \<in> {CmQueued, CmExecuting, CmUncertain}"

definition unfinished_ticket :: "ticket_row \<Rightarrow> bool" where
  "unfinished_ticket t \<longleftrightarrow> tk_state t \<noteq> TkCompleted"


subsection \<open>Drain evidence\<close>

record drain_evidence =
  de_tickets :: nat
  de_uncertain_tickets :: nat
  de_writers :: nat
  de_unknown_owners :: nat
  de_orphans :: nat
  de_pending :: nat
  de_claims :: nat
  de_locks :: nat
  de_uncertain_commands :: nat
  de_cleaning :: nat

definition READ_KINDS :: "pystr list" where
  "READ_KINDS = [lit ''aquery'', lit ''aquery_data'', lit ''aquery_llm'', lit ''release_read'', lit ''initialize'',
     lit ''initialize_upload_sessions'']"

definition evidence_empty :: "drain_evidence \<Rightarrow> bool" where
  "evidence_empty e \<longleftrightarrow> de_tickets e = 0 \<and> de_uncertain_tickets e = 0 \<and> de_writers e = 0 \<and> de_unknown_owners e = 0 \<and>
     de_orphans e = 0 \<and> de_pending e = 0 \<and> de_claims e = 0 \<and> de_locks e = 0 \<and> de_uncertain_commands e = 0 \<and>
     de_cleaning e = 0"

definition require_empty :: "drain_evidence \<Rightarrow> release_error + unit" where
  "require_empty e =
     (if 0 < de_unknown_owners e \<or> 0 < de_orphans e \<or> 0 < de_uncertain_commands e \<or> 0 < de_uncertain_tickets e
      then Inl RelUnavailable
      else if \<not> evidence_empty e then Inl RelDraining
      else Inr ())"

definition count_rows :: "('a \<Rightarrow> bool) \<Rightarrow> 'a list \<Rightarrow> nat" where
  "count_rows p xs = length (filter p xs)"

definition active_operations :: "coord_db \<Rightarrow> op_row list" where
  "active_operations cd = filter (\<lambda>o'. or_state o' = OpActive) (cd_operations cd)"

definition known_owner :: "release_db \<Rightarrow> uuid \<Rightarrow> bool" where
  "known_owner db w = list_ex (\<lambda>i. ins_owner i = w \<and> \<not> ins_closed i) (rd_instances db)"

definition pending_of :: "coord_db \<Rightarrow> uuid \<Rightarrow> nat" where
  "pending_of cd i = count_rows (\<lambda>m. mu_op m = i \<and> mu_state m = MutPending) (cd_mutations cd)"

definition collect_drain_evidence :: "release_db \<Rightarrow> release_error + drain_evidence" where
  "collect_drain_evidence db =
     (let cd = rd_coord db; active = active_operations cd in
      case cd_workspace cd of
        None \<Rightarrow> Inl RelUnavailable
      | Some row \<Rightarrow>
          if ws_fenced row then Inl RelUnavailable
          else Inr \<lparr>de_tickets = count_rows unfinished_ticket (rd_tickets db),
                    de_uncertain_tickets = count_rows (\<lambda>t. tk_state t = TkUncertain) (rd_tickets db),
                    de_writers = count_rows (\<lambda>o'. or_kind o' \<notin> set READ_KINDS) active,
                    de_unknown_owners = count_rows (\<lambda>o'. \<not> known_owner db (or_owner o')) active,
                    de_orphans = count_rows (\<lambda>o'. \<not> witness_held cd (or_witness o')) active,
                    de_pending = sum_list (map (\<lambda>o'. pending_of cd (or_id o')) active),
                    de_claims = length (cd_claims cd),
                    de_locks = length (cd_locks cd),
                    de_uncertain_commands = count_rows (\<lambda>c. cm_state c = CmUncertain) (rd_commands db),
                    de_cleaning = count_rows (\<lambda>u. cu_state u = Cleaning) (rd_cleanup db)\<rparr>)"

end
