(* ===== verification/ReleaseStore.thy ===== *)
theory ReleaseStore
  imports ReleaseState
begin

section \<open>Release control: the operator's transactions\<close>

text \<open>
  \<^verbatim>\<open>ReleaseStore\<close> of \<^verbatim>\<open>lightrag/distributed/release/store.py\<close>. Every method is one transaction
  that locks the scope row first and rolls back when it raises, so a method is a function from
  the tables to an error or to a result and the tables it commits. Methods are addressed to the
  scope whose rows the tables are.
\<close>

type_synonym 'a release_txn = "release_db \<Rightarrow> release_error + ('a \<times> release_db)"

definition find_scope :: "release_db \<Rightarrow> release_error + release_scope" where
  "find_scope db = (case rd_scope db of None \<Rightarrow> Inl RelUnavailable | Some s \<Rightarrow> Inr s)"

definition find_release :: "release_db \<Rightarrow> pystr \<Rightarrow> release_row option" where
  "find_release db rid = find (\<lambda>r. rr_id r = rid) (rd_releases db)"

definition update_scope :: "(release_scope \<Rightarrow> release_scope) \<Rightarrow> release_db \<Rightarrow> release_db" where
  "update_scope f db = db\<lparr>rd_scope := map_option f (rd_scope db)\<rparr>"

definition update_release :: "pystr \<Rightarrow> (release_row \<Rightarrow> release_row) \<Rightarrow> release_db \<Rightarrow> release_db" where
  "update_release rid f db = db\<lparr>rd_releases := map (\<lambda>r. if rr_id r = rid then f r else r) (rd_releases db)\<rparr>"

text \<open>A transaction's last step: the scope row is read again and returned.\<close>

definition return_scope :: "release_db \<Rightarrow> release_error + (release_scope \<times> release_db)" where
  "return_scope db = bind_result (find_scope db) (\<lambda>s. Inr (s, db))"

definition holds :: "release_scope \<Rightarrow> release_identity \<Rightarrow> int \<Rightarrow> bool" where
  "holds s idn ep \<longleftrightarrow> rs_owner s = Some (ri_release idn) \<and> rs_epoch s = ep \<and> rs_identity s = Some idn"

definition validate_transition :: "release_scope \<Rightarrow> release_identity \<Rightarrow> int \<Rightarrow> release_phase \<Rightarrow> release_error + release_phase" where
  "validate_transition s idn ep nxt =
     (if \<not> holds s idn ep then Inl RelConflict
      else if rs_phase s \<notin> set PHASES \<or> rs_phase s = PhCompleted \<or> next_in PHASES (rs_phase s) \<noteq> Some nxt
      then Inl RelConflict
      else Inr nxt)"


subsection \<open>Enrollment\<close>

text \<open>\<^verbatim>\<open>isinstance(policy.get("queue_capacity"), int)\<close> and not below 1; a Boolean is an \<open>int\<close>.\<close>

definition capacity_accepted :: "jval option \<Rightarrow> bool" where
  "capacity_accepted v = (case v of Some (JInt n) \<Rightarrow> \<not> n < 1 | Some (JBool b) \<Rightarrow> b | _ \<Rightarrow> False)"

definition verify_scope_state :: "approval_fields \<Rightarrow> release_scope \<Rightarrow> bool" where
  "verify_scope_state f s \<longleftrightarrow>
     po_exception (rs_policy s) = Some (Approval f) \<and> af_scope f = JStr (rs_name s) \<and>
     af_profile_hash f = JStr (rs_profile s) \<and> rs_active s = Blue \<and> rs_epoch s = 1 \<and> rs_phase s = PhIdle \<and>
     rs_owner s = None \<and> rs_gate s"

definition new_release_scope :: "pystr \<Rightarrow> slot \<Rightarrow> pystr \<Rightarrow> pystr \<Rightarrow> policy \<Rightarrow> release_scope" where
  "new_release_scope name active profile config p =
     \<lparr>rs_name = name, rs_profile = profile, rs_config = config, rs_active = active, rs_candidate = None,
      rs_epoch = 1, rs_owner = None, rs_phase = PhIdle, rs_gate = True, rs_policy = p, rs_identity = None,
      rs_deadline = None\<rparr>"

definition approval_for :: "policy \<Rightarrow> pystr \<Rightarrow> slot \<Rightarrow> pystr \<Rightarrow> release_error + approval_fields option" where
  "approval_for p scope active profile =
     (case po_exception p of None \<Rightarrow> Inr None
      | Some v \<Rightarrow> bind_result (parse_approval v scope profile)
          (\<lambda>f. if active \<noteq> Blue then Inl RelConflict else Inr (Some f)))"

definition onboard :: "pystr \<Rightarrow> slot \<Rightarrow> pystr \<Rightarrow> pystr \<Rightarrow> policy \<Rightarrow> unit release_txn" where
  "onboard scope active profile config p db =
     bind_result (approval_for p scope active profile) (\<lambda>exception.
       if \<not> capacity_accepted (po_queue_capacity p) then Inl RelValueError
       else let s = (case rd_scope db of None \<Rightarrow> new_release_scope scope active profile config p | Some s \<Rightarrow> s)
            in if rs_profile s \<noteq> profile \<or> rs_config s \<noteq> config \<or> rs_active s \<noteq> active \<or> rs_policy s \<noteq> p
               then Inl RelConflict
               else case exception of
                 Some f \<Rightarrow> if verify_scope_state f s then Inr ((), db\<lparr>rd_scope := Some s\<rparr>) else Inl RelValueError
               | None \<Rightarrow> Inr ((), db\<lparr>rd_scope := Some s\<rparr>))"


subsection \<open>Beginning a release\<close>

text \<open>What \<^verbatim>\<open>begin\<close> returns: the bare record of a finished release, or the scope row.\<close>

datatype begun = Finished release_phase | Running release_scope

definition latest_tag :: "release_db \<Rightarrow> pystr option" where
  "latest_tag db =
     (case rev (sort_key rr_updated (filter (\<lambda>r. rr_phase r = PhCompleted) (rd_releases db))) of
        [] \<Rightarrow> None | r # _ \<Rightarrow> Some (ri_tag (rr_identity r)))"

definition version_advances :: "release_db \<Rightarrow> release_identity \<Rightarrow> bool" where
  "version_advances db idn =
     (case latest_tag db of None \<Rightarrow> True | Some t \<Rightarrow> \<not> tag_version (ri_tag idn) \<le> tag_version t)"

definition new_release :: "release_identity \<Rightarrow> release_scope \<Rightarrow> real \<Rightarrow> release_row" where
  "new_release idn s now =
     \<lparr>rr_id = ri_release idn, rr_identity = idn, rr_phase = PhPrepared,
      rr_evidence = \<lparr>re_route = None, re_snapshot = None\<rparr>,
      rr_previous = \<lparr>pv_epoch = rs_epoch s, pv_active = rs_active s, pv_config = rs_config s, pv_digest = None\<rparr>,
      rr_approval = None, rr_updated = now\<rparr>"

definition start_release :: "release_identity \<Rightarrow> release_scope \<Rightarrow> begun release_txn" where
  "start_release idn s db =
     (if \<not> rs_gate s \<or> rs_phase s \<notin> {PhIdle, PhCompleted, PhAborted, PhRolledBack} then Inl RelConflict
      else if \<not> version_advances db idn then Inl RelConflict
      else if find_release db (ri_release idn) \<noteq> None then Inl RelDatabaseError
      else let db1 = db\<lparr>rd_releases := rd_releases db @ [new_release idn s (rd_now db)]\<rparr>;
               db2 = update_scope (\<lambda>s. s\<lparr>rs_owner := Some (ri_release idn), rs_phase := PhPrepared,
                 rs_candidate := Some (other_slot (rs_active s)), rs_identity := Some idn\<rparr>) db1
           in bind_result (find_scope db2) (\<lambda>s2. Inr (Running s2, db2)))"

text \<open>Re-entry by the owner needs the identity and the epoch that the release began with.\<close>

definition resume_release :: "release_identity \<Rightarrow> int \<Rightarrow> release_scope \<Rightarrow> release_row option \<Rightarrow> begun release_txn" where
  "resume_release idn ep s existing db =
     (if rs_identity s \<noteq> Some idn then Inl RelConflict
      else case existing of
        None \<Rightarrow> Inl RelTypeError
      | Some r \<Rightarrow> if pv_epoch (rr_previous r) \<noteq> ep then Inl RelConflict else Inr (Running s, db))"

definition begin_release :: "release_identity \<Rightarrow> int \<Rightarrow> begun release_txn" where
  "begin_release idn ep db = bind_result (find_scope db) (\<lambda>s.
     let existing = find_release db (ri_release idn) in
     if po_exception (rs_policy s) \<noteq> None then Inl RelConflict
     else if (case existing of None \<Rightarrow> False | Some r \<Rightarrow> rr_identity r \<noteq> idn) then Inl RelConflict
     else case map_option rr_phase existing of
       Some PhCompleted \<Rightarrow> Inr (Finished PhCompleted, db)
     | Some PhAborted \<Rightarrow> Inr (Finished PhAborted, db)
     | Some PhRolledBack \<Rightarrow> Inr (Finished PhRolledBack, db)
     | _ \<Rightarrow>
         if rs_owner s = Some (ri_release idn) then resume_release idn ep s existing db
         else if rs_epoch s \<noteq> ep \<or> rs_owner s \<noteq> None then Inl RelConflict
         else start_release idn s db)"


subsection \<open>Phase transitions\<close>

definition drain_until :: "release_scope \<Rightarrow> real \<Rightarrow> real" where
  "drain_until s now = now + (case po_drain_seconds (rs_policy s) of None \<Rightarrow> 30 | Some x \<Rightarrow> x)"

definition enter_phase :: "release_phase \<Rightarrow> real \<Rightarrow> release_scope \<Rightarrow> release_scope" where
  "enter_phase nxt now s = s\<lparr>
     rs_phase := nxt,
     rs_deadline := (if nxt = PhDraining then Some (drain_until s now) else rs_deadline s),
     rs_gate := (if nxt = PhDraining then False else rs_gate s),
     rs_owner := (if nxt = PhCompleted then None else rs_owner s)\<rparr>"

definition mark_release :: "release_phase \<Rightarrow> real \<Rightarrow> release_row \<Rightarrow> release_row" where
  "mark_release nxt now r = r\<lparr>rr_phase := nxt, rr_updated := now\<rparr>"

definition open_in_other_slot :: "release_db \<Rightarrow> slot \<Rightarrow> bool" where
  "open_in_other_slot db active = list_ex (\<lambda>i. ins_slot i \<noteq> active \<and> \<not> ins_closed i) (rd_instances db)"

definition transition :: "release_identity \<Rightarrow> int \<Rightarrow> release_phase \<Rightarrow> release_phase \<Rightarrow> release_scope release_txn" where
  "transition idn ep expected nxt db = bind_result (find_scope db) (\<lambda>s.
     if rs_phase s \<noteq> expected then Inl RelConflict
     else bind_result (validate_transition s idn ep nxt) (\<lambda>_.
       if nxt = PhWriterSwitched then Inl RelConflict
       else if nxt = PhCompleted \<and> open_in_other_slot db (rs_active s) then Inl RelConflict
       else return_scope (update_release (ri_release idn) (mark_release nxt (rd_now db))
              (update_scope (enter_phase nxt (rd_now db)) db))))"

definition capture_baseline :: "release_identity \<Rightarrow> int \<Rightarrow> pystr \<Rightarrow> unit release_txn" where
  "capture_baseline idn ep digest db =
     (if \<not> digest_pattern digest then Inl RelConflict
      else bind_result (find_scope db) (\<lambda>s.
        if \<not> holds s idn ep \<or> rs_phase s \<noteq> PhPrepared then Inl RelConflict
        else case find_release db (ri_release idn) of
          None \<Rightarrow> Inl RelTypeError
        | Some r \<Rightarrow>
            if pv_digest (rr_previous r) \<notin> {None, Some digest} then Inl RelConflict
            else Inr ((), update_release (ri_release idn)
                   (\<lambda>x. x\<lparr>rr_previous := (rr_previous r)\<lparr>pv_digest := Some digest\<rparr>\<rparr>) db)))"


subsection \<open>Draining and the transfer of the writer\<close>

definition deadline_passed :: "release_db \<Rightarrow> release_scope \<Rightarrow> bool" where
  "deadline_passed db s = (case rs_deadline s of None \<Rightarrow> False | Some d \<Rightarrow> d < rd_now db)"

text \<open>One round of \<^verbatim>\<open>wait_for_drain\<close>: \<open>None\<close> when known work is still finishing.\<close>

definition drain_poll :: "release_identity \<Rightarrow> int \<Rightarrow> release_db \<Rightarrow> release_error + drain_evidence option" where
  "drain_poll idn ep db = bind_result (find_scope db) (\<lambda>s.
     if \<not> holds s idn ep \<or> rs_gate s then Inl RelConflict
     else if deadline_passed db s then Inl RelBudgetExceeded
     else bind_result (collect_drain_evidence db) (\<lambda>e.
       case require_empty e of
         Inr _ \<Rightarrow> Inr (Some e)
       | Inl RelDraining \<Rightarrow> Inr None
       | Inl x \<Rightarrow> Inl x))"

text \<open>The open instances of a slot that are not retiring, and the check of the expected set.\<close>

definition candidates :: "release_db \<Rightarrow> slot \<Rightarrow> instance_row list" where
  "candidates db sl = filter (\<lambda>i. ins_slot i = sl \<and> \<not> ins_closed i \<and> \<not> ins_retiring i) (rd_instances db)"

definition candidates_as :: "release_db \<Rightarrow> slot \<Rightarrow> pystr list \<Rightarrow> pystr \<Rightarrow> bool" where
  "candidates_as db sl expected config \<longleftrightarrow>
     ins_id ` set (candidates db sl) = set expected \<and> list_all (\<lambda>i. ins_config i = config) (candidates db sl)"

definition drained :: "release_db \<Rightarrow> release_error + unit" where
  "drained db = bind_result (collect_drain_evidence db) require_empty"

definition transfer_writer :: "release_identity \<Rightarrow> int \<Rightarrow> pystr list \<Rightarrow> release_scope release_txn" where
  "transfer_writer idn ep expected db = bind_result (find_scope db) (\<lambda>s.
     bind_result (validate_transition s idn ep PhWriterSwitched) (\<lambda>_.
       if rs_gate s \<or> expected = [] then Inl RelConflict
       else if deadline_passed db s then Inl RelBudgetExceeded
       else case rs_candidate s of
         None \<Rightarrow> Inl RelConflict
       | Some c \<Rightarrow>
           if \<not> candidates_as db c expected (ri_config idn) then Inl RelConflict
           else bind_result (drained db) (\<lambda>_.
             return_scope (update_release (ri_release idn) (mark_release PhWriterSwitched (rd_now db))
               (update_scope (\<lambda>s. s\<lparr>rs_active := c, rs_candidate := Some (rs_active s), rs_epoch := rs_epoch s + 1,
                  rs_config := ri_config idn, rs_gate := True, rs_phase := PhWriterSwitched\<rparr>) db)))))"


subsection \<open>Rolling back after the transfer\<close>

text \<open>
  The approval must name this release and its baseline; \<open>None\<close> stands for any value that is not
  an object with exactly the required keys and types. A baseline digest that was never captured
  reads as \<open>None\<close>, and so does a null in the approval.
\<close>

definition approval_matches :: "rollback_approval \<Rightarrow> release_identity \<Rightarrow> release_scope \<Rightarrow> previous \<Rightarrow> bool" where
  "approval_matches a idn s pv \<longleftrightarrow>
     ra_from_digest a = ri_digest idn \<and> ra_to_config a = pv_config pv \<and> ra_to_digest a = pv_digest pv \<and>
     ra_profile a = rs_profile s \<and> ra_compatible a \<and> strip (ra_evidence a) \<noteq> []"

definition rollback_started :: "release_phase \<Rightarrow> bool" where
  "rollback_started ph \<longleftrightarrow> ph \<in> {PhRollbackDraining, PhRollbackWriterSwitched, PhRollbackRetiring, PhRolledBack}"

definition begin_rollback :: "release_identity \<Rightarrow> int \<Rightarrow> rollback_approval option \<Rightarrow> release_scope release_txn" where
  "begin_rollback idn ep approval db = bind_result (find_scope db) (\<lambda>s.
     case find_release db (ri_release idn) of
       None \<Rightarrow> Inl RelConflict
     | Some r \<Rightarrow>
         if rs_identity s \<noteq> Some idn then Inl RelConflict
         else case approval of
           None \<Rightarrow> Inl RelConflict
         | Some a \<Rightarrow>
             if \<not> approval_matches a idn s (rr_previous r) \<or> ep \<noteq> pv_epoch (rr_previous r) + 1 then Inl RelConflict
             else if rollback_started (rs_phase s)
             then (if rr_approval r \<noteq> Some a then Inl RelConflict else Inr (s, db))
             else if \<not> holds s idn ep \<or> rs_phase s \<noteq> PhWriterSwitched then Inl RelConflict
             else if candidates db (pv_active (rr_previous r)) = [] then Inl RelConflict
             else return_scope (update_release (ri_release idn) (\<lambda>x. x\<lparr>rr_phase := PhRollbackDraining, rr_approval := Some a\<rparr>)
                    (update_scope (\<lambda>s. s\<lparr>rs_phase := PhRollbackDraining, rs_gate := False,
                       rs_deadline := Some (drain_until s (rd_now db))\<rparr>) db)))"

definition reverse_transfer :: "release_identity \<Rightarrow> int \<Rightarrow> pystr list \<Rightarrow> release_scope release_txn" where
  "reverse_transfer idn ep expected db = bind_result (find_scope db) (\<lambda>s.
     if rs_phase s \<noteq> PhRollbackDraining \<or> \<not> holds s idn ep \<or> rs_gate s then Inl RelConflict
     else case find_release db (ri_release idn) of
       None \<Rightarrow> Inl RelTypeError
     | Some r \<Rightarrow>
         let pv = rr_previous r in
         if rr_approval r = None \<or> deadline_passed db s then Inl RelConflict
         else if expected = [] \<or> \<not> candidates_as db (pv_active pv) expected (pv_config pv) then Inl RelConflict
         else bind_result (drained db) (\<lambda>_.
           return_scope (update_release (ri_release idn) (\<lambda>x. x\<lparr>rr_phase := PhRollbackWriterSwitched\<rparr>)
             (update_scope (\<lambda>s. s\<lparr>rs_active := pv_active pv, rs_candidate := Some (rs_active s),
                rs_epoch := rs_epoch s + 1, rs_config := pv_config pv, rs_gate := True,
                rs_phase := PhRollbackWriterSwitched\<rparr>) db))))"

definition finish_rollback :: "release_identity \<Rightarrow> int \<Rightarrow> release_scope release_txn" where
  "finish_rollback idn ep db = bind_result (find_scope db) (\<lambda>s.
     if \<not> holds s idn ep \<or> rs_phase s \<notin> {PhRollbackWriterSwitched, PhRollbackRetiring} then Inl RelConflict
     else let nxt = (if rs_phase s = PhRollbackWriterSwitched then PhRollbackRetiring else PhRolledBack) in
       if nxt = PhRolledBack \<and> open_in_other_slot db (rs_active s) then Inl RelConflict
       else return_scope (update_release (ri_release idn) (mark_release nxt (rd_now db))
              (update_scope (\<lambda>s. s\<lparr>rs_phase := nxt, rs_owner := (if nxt = PhRolledBack then None else rs_owner s)\<rparr>) db)))"


subsection \<open>Retirement and abort\<close>

definition retire_instance :: "slot \<Rightarrow> instance_row \<Rightarrow> instance_row" where
  "retire_instance active i = (if ins_slot i \<noteq> active \<and> \<not> ins_closed i then i\<lparr>ins_retiring := True\<rparr> else i)"

definition retire_old_instances :: "release_identity \<Rightarrow> int \<Rightarrow> unit release_txn" where
  "retire_old_instances idn ep db = bind_result (find_scope db) (\<lambda>s.
     if \<not> holds s idn ep \<or> rs_phase s \<notin> {PhRetiring, PhRollbackRetiring, PhAborting} then Inl RelConflict
     else Inr ((), db\<lparr>rd_instances := map (retire_instance (rs_active s)) (rd_instances db)\<rparr>))"

definition uncertain_work :: "release_db \<Rightarrow> bool" where
  "uncertain_work db \<longleftrightarrow> list_ex (\<lambda>t. tk_state t = TkUncertain) (rd_tickets db) \<or>
     list_ex (\<lambda>c. cm_state c = CmUncertain) (rd_commands db)"

definition abort_before_transfer :: "release_identity \<Rightarrow> int \<Rightarrow> release_scope release_txn" where
  "abort_before_transfer idn ep db = bind_result (find_scope db) (\<lambda>s.
     if \<not> holds s idn ep \<or> rs_phase s \<notin> {PhPrepared, PhDraining, PhReadSwitched} then Inl RelConflict
     else if uncertain_work db then Inl RelConflict
     else bind_result (collect_drain_evidence db) (\<lambda>e.
       if 0 < de_unknown_owners e \<or> 0 < de_orphans e then Inl RelConflict
       else return_scope (update_release (ri_release idn) (mark_release PhAborting (rd_now db))
              (update_scope (\<lambda>s. s\<lparr>rs_phase := PhAborting, rs_gate := True\<rparr>) db))))"

definition finish_abort :: "release_identity \<Rightarrow> int \<Rightarrow> release_scope release_txn" where
  "finish_abort idn ep db = bind_result (find_scope db) (\<lambda>s.
     if \<not> holds s idn ep \<or> rs_phase s \<noteq> PhAborting \<or> \<not> rs_gate s then Inl RelConflict
     else if open_in_other_slot db (rs_active s) then Inl RelConflict
     else bind_result (collect_drain_evidence db) (\<lambda>e.
       if 0 < de_unknown_owners e \<or> 0 < de_orphans e \<or> 0 < de_uncertain_tickets e \<or> 0 < de_uncertain_commands e
       then Inl RelUnavailable
       else return_scope (update_release (ri_release idn) (mark_release PhAborted (rd_now db))
              (update_scope (\<lambda>s. s\<lparr>rs_phase := PhAborted, rs_owner := None\<rparr>) db))))"


subsection \<open>Evidence and snapshots\<close>

definition merge_evidence :: "release_evidence \<Rightarrow> release_evidence \<Rightarrow> release_evidence" where
  "merge_evidence old new =
     \<lparr>re_route = (case re_route new of None \<Rightarrow> re_route old | Some x \<Rightarrow> Some x),
      re_snapshot = (case re_snapshot new of None \<Rightarrow> re_snapshot old | Some x \<Rightarrow> Some x)\<rparr>"

definition record_evidence :: "release_identity \<Rightarrow> release_evidence \<Rightarrow> unit release_txn" where
  "record_evidence idn report db = bind_result (find_scope db) (\<lambda>s.
     if rs_identity s \<noteq> Some idn then Inl RelConflict
     else Inr ((), update_release (ri_release idn) (\<lambda>r. r\<lparr>rr_evidence := merge_evidence (rr_evidence r) report\<rparr>) db))"

definition command_counts :: "release_db \<Rightarrow> (command_state \<times> nat) list" where
  "command_counts db = filter (\<lambda>p. 0 < snd p)
     (map (\<lambda>st. (st, count_rows (\<lambda>c. cm_state c = st) (rd_commands db))) [CmQueued, CmExecuting, CmUncertain])"

definition release_snapshot :: "release_db \<Rightarrow> release_error + snapshot_report" where
  "release_snapshot db = bind_result (find_scope db) (\<lambda>s. Inr
     \<lparr>sn_scope = rs_name s, sn_owner = rs_owner s, sn_epoch = rs_epoch s, sn_phase = rs_phase s, sn_active = rs_active s,
      sn_candidate = rs_candidate s, sn_gate = rs_gate s, sn_config = rs_config s, sn_profile = rs_profile s,
      sn_identity = rs_identity s, sn_commands = command_counts db,
      sn_tickets = count_rows unfinished_ticket (rd_tickets db)\<rparr>)"

end
