(* ===== verification/ReleaseAdmission.thy ===== *)
theory ReleaseAdmission
  imports ReleaseStore
begin

section \<open>Release control: what a running instance may do\<close>

text \<open>
  The functions of \<^verbatim>\<open>migrations/001_release.sql\<close>, which are all that a runtime role may call, and
  \<^verbatim>\<open>RuntimeStore\<close> of \<^verbatim>\<open>admission.py\<close> that calls them. A function is one transaction that locks
  the scope row; it raises a SQLSTATE and rolls back, or commits. \<open>SELECT INTO STRICT\<close> raises
  \<^verbatim>\<open>no_data_found\<close>, whose SQLSTATE is \<^verbatim>\<open>P0002\<close>, when there is no row.
\<close>

datatype sql_error = P0001 | P0002 | OtherState

type_synonym 'a sql = "release_db \<Rightarrow> sql_error + ('a \<times> release_db)"

definition strict :: "'a option \<Rightarrow> sql_error + 'a" where
  "strict x = (case x of None \<Rightarrow> Inl P0002 | Some y \<Rightarrow> Inr y)"

definition find_instance :: "release_db \<Rightarrow> pystr \<Rightarrow> instance_row option" where
  "find_instance db i = find (\<lambda>x. ins_id x = i) (rd_instances db)"

definition find_ticket :: "release_db \<Rightarrow> uuid \<Rightarrow> ticket_row option" where
  "find_ticket db t = find (\<lambda>x. tk_id x = t) (rd_tickets db)"

definition find_command :: "release_db \<Rightarrow> uuid \<Rightarrow> command_row option" where
  "find_command db i = find (\<lambda>x. cm_id x = i) (rd_commands db)"

definition update_ticket :: "uuid \<Rightarrow> (ticket_row \<Rightarrow> ticket_row) \<Rightarrow> release_db \<Rightarrow> release_db" where
  "update_ticket t f db = db\<lparr>rd_tickets := map (\<lambda>x. if tk_id x = t then f x else x) (rd_tickets db)\<rparr>"

definition update_command :: "uuid \<Rightarrow> (command_row \<Rightarrow> command_row) \<Rightarrow> release_db \<Rightarrow> release_db" where
  "update_command i f db = db\<lparr>rd_commands := map (\<lambda>x. if cm_id x = i then f x else x) (rd_commands db)\<rparr>"


subsection \<open>Instances\<close>

definition expected_config :: "release_scope \<Rightarrow> slot \<Rightarrow> pystr" where
  "expected_config s sl =
     (if sl = rs_active s then rs_config s else case rs_identity s of None \<Rightarrow> [] | Some idn \<Rightarrow> ri_config idn)"

definition register_instance :: "pystr \<Rightarrow> slot \<Rightarrow> pystr \<Rightarrow> pystr \<Rightarrow> uuid \<Rightarrow> unit sql" where
  "register_instance inst sl config profile owner db = bind_result (strict (rd_scope db)) (\<lambda>s.
     if profile \<noteq> rs_profile s \<or> config \<noteq> expected_config s sl then Inl P0001
     else case find_instance db inst of
       None \<Rightarrow> Inr ((), db\<lparr>rd_instances := rd_instances db @
         [\<lparr>ins_id = inst, ins_slot = sl, ins_config = config, ins_profile = profile, ins_owner = owner,
           ins_retiring = False, ins_closed = False, ins_status = None\<rparr>]\<rparr>)
     | Some i \<Rightarrow>
         if ins_slot i \<noteq> sl \<or> ins_config i \<noteq> config \<or> ins_owner i \<noteq> owner \<or> ins_closed i then Inl P0001
         else Inr ((), db))"


subsection \<open>Writer tickets\<close>

definition may_write :: "release_scope \<Rightarrow> instance_row \<Rightarrow> int \<Rightarrow> bool" where
  "may_write s i ep \<longleftrightarrow> \<not> (ins_closed i \<or> ins_retiring i \<or> ins_slot i \<noteq> rs_active s \<or> ep \<noteq> rs_epoch s)"

definition parent_valid :: "release_db \<Rightarrow> pystr \<Rightarrow> int \<Rightarrow> uuid option \<Rightarrow> bool" where
  "parent_valid db inst ep parent =
     list_ex (\<lambda>t. Some (tk_id t) = parent \<and> tk_instance t = inst \<and> tk_epoch t = ep \<and> tk_state t = TkActive) (rd_tickets db)"

text \<open>A ticket whose id is taken, or whose command is unknown, violates a constraint.\<close>

definition insert_ticket :: "uuid \<Rightarrow> instance_row \<Rightarrow> int \<Rightarrow> uuid option \<Rightarrow> pystr \<Rightarrow> uuid option sql" where
  "insert_ticket t i ep command kind db =
     (if find_ticket db t \<noteq> None \<or> (case command of None \<Rightarrow> False | Some c \<Rightarrow> find_command db c = None) then Inl OtherState
      else Inr (Some t, db\<lparr>rd_tickets := rd_tickets db @
        [\<lparr>tk_id = t, tk_instance = ins_id i, tk_slot = ins_slot i, tk_epoch = ep, tk_command = command, tk_kind = kind,
          tk_state = TkActive, tk_operation = None\<rparr>]\<rparr>))"

definition admit_writer :: "pystr \<Rightarrow> int \<Rightarrow> uuid \<Rightarrow> pystr \<Rightarrow> uuid option \<Rightarrow> uuid option \<Rightarrow> uuid option sql" where
  "admit_writer inst ep t kind command parent db = bind_result (strict (rd_scope db)) (\<lambda>s.
     bind_result (strict (find_instance db inst)) (\<lambda>i.
       if \<not> may_write s i ep then Inr (None, db)
       else if \<not> parent_valid db inst ep parent \<and> (\<not> rs_gate s \<or> uncertain_work db) then Inr (None, db)
       else insert_ticket t i ep command kind db))"

definition attachable :: "ticket_row \<Rightarrow> pystr \<Rightarrow> uuid \<Rightarrow> uuid \<Rightarrow> bool" where
  "attachable x inst t op \<longleftrightarrow> tk_id x = t \<and> tk_instance x = inst \<and> tk_state x = TkActive \<and> tk_operation x \<in> {None, Some op}"

definition attach_ticket :: "pystr \<Rightarrow> uuid \<Rightarrow> uuid \<Rightarrow> unit sql" where
  "attach_ticket inst t op db =
     (if list_ex (\<lambda>x. attachable x inst t op) (rd_tickets db)
      then Inr ((), db\<lparr>rd_tickets := map (\<lambda>x. if attachable x inst t op then x\<lparr>tk_operation := Some op\<rparr> else x) (rd_tickets db)\<rparr>)
      else Inl P0001)"

definition ticket_end :: "bool \<Rightarrow> ticket_state" where
  "ticket_end uncertain = (if uncertain then TkUncertain else TkCompleted)"

definition finish_ticket :: "pystr \<Rightarrow> uuid \<Rightarrow> bool \<Rightarrow> unit sql" where
  "finish_ticket inst t uncertain db =
     (let live = (\<lambda>x. tk_id x = t \<and> tk_instance x = inst \<and> tk_state x = TkActive) in
      if list_ex live (rd_tickets db)
      then Inr ((), db\<lparr>rd_tickets := map (\<lambda>x. if live x then x\<lparr>tk_state := ticket_end uncertain\<rparr> else x) (rd_tickets db)\<rparr>)
      else if list_ex (\<lambda>x. tk_id x = t \<and> tk_instance x = inst \<and> tk_state x = ticket_end uncertain) (rd_tickets db)
      then Inr ((), db)
      else Inl P0001)"

definition ticket_live :: "release_db \<Rightarrow> pystr \<Rightarrow> uuid \<Rightarrow> bool" where
  "ticket_live db inst t \<longleftrightarrow>
     (case (rd_scope db, find_ticket db t, find_instance db inst) of
        (Some s, Some x, Some i) \<Rightarrow> tk_instance x = inst \<and> tk_state x = TkActive \<and> tk_epoch x = rs_epoch s \<and> \<not> ins_closed i
      | _ \<Rightarrow> False)"

definition assert_ticket :: "pystr \<Rightarrow> uuid \<Rightarrow> unit sql" where
  "assert_ticket inst t db = (if ticket_live db inst t then Inr ((), db) else Inl P0001)"


subsection \<open>The command queue\<close>

text \<open>
  The cast \<^verbatim>\<open>(policy->>'queue_capacity')::bigint\<close>: a number in range, or an error of the cast, which
  the text of a Boolean is; a key that is missing gives a null, and no comparison with it holds.
\<close>

definition capacity_of :: "policy \<Rightarrow> sql_error + int option" where
  "capacity_of p =
     (case po_queue_capacity p of
        None \<Rightarrow> Inr None
      | Some (JInt n) \<Rightarrow> if - (2 ^ 63) \<le> n \<and> n < 2 ^ 63 then Inr (Some n) else Inl OtherState
      | Some _ \<Rightarrow> Inl OtherState)"

definition queue_full :: "(envelope \<Rightarrow> int) \<Rightarrow> release_db \<Rightarrow> policy \<Rightarrow> int option \<Rightarrow> envelope \<Rightarrow> bool" where
  "queue_full bytes db p capacity e \<longleftrightarrow>
     (case capacity of None \<Rightarrow> False | Some n \<Rightarrow> n \<le> int (count_rows unfinished_command (rd_commands db))) \<or>
     (case po_byte_limit p of None \<Rightarrow> 1048576 | Some n \<Rightarrow> n) < bytes e"

definition new_command :: "uuid \<Rightarrow> envelope \<Rightarrow> real \<Rightarrow> command_row" where
  "new_command i e now =
     \<lparr>cm_id = i, cm_principal = en_principal_id e, cm_key = en_key e, cm_hash = en_hash e, cm_envelope = e,
      cm_state = CmQueued, cm_executor = None, cm_epoch = None, cm_ticket = None, cm_result = None, cm_created = now\<rparr>"

definition same_request :: "envelope \<Rightarrow> command_row \<Rightarrow> bool" where
  "same_request e c \<longleftrightarrow> cm_principal c = en_principal_id e \<and> cm_key c = en_key e"

text \<open>
  The principal, key and hash arguments of the function are those of the envelope: the wrapper
  passes them from it. \<open>bytes\<close> is the length of the envelope's text in the database.
\<close>

definition enqueue_command :: "(envelope \<Rightarrow> int) \<Rightarrow> pystr \<Rightarrow> uuid \<Rightarrow> envelope \<Rightarrow> command_row sql" where
  "enqueue_command bytes inst i e db = bind_result (strict (rd_scope db)) (\<lambda>s.
     if \<not> list_ex (\<lambda>x. ins_id x = inst \<and> \<not> ins_closed x) (rd_instances db) then Inl P0001
     else case find (same_request e) (rd_commands db) of
       Some c \<Rightarrow> if cm_hash c \<noteq> en_hash e then Inl P0001 else Inr (c, db)
     | None \<Rightarrow>
         if list_ex (\<lambda>u. cu_ref u \<in> set (en_refs e)) (rd_cleanup db) then Inl P0001
         else bind_result (capacity_of (rs_policy s)) (\<lambda>n.
           if queue_full bytes db (rs_policy s) n e then Inl P0002
           else if find_command db i \<noteq> None then Inl OtherState
           else let c = new_command i e (rd_now db) in Inr (c, db\<lparr>rd_commands := rd_commands db @ [c]\<rparr>)))"

definition next_queued :: "release_db \<Rightarrow> command_row option" where
  "next_queued db = find (\<lambda>c. cm_state c = CmQueued) (rd_commands db)"

definition claimed_row :: "pystr \<Rightarrow> int \<Rightarrow> uuid \<Rightarrow> command_row \<Rightarrow> command_row" where
  "claimed_row inst ep t c =
     c\<lparr>cm_state := CmExecuting, cm_executor := Some inst, cm_epoch := Some ep, cm_ticket := Some t\<rparr>"

definition claim_command :: "pystr \<Rightarrow> int \<Rightarrow> uuid \<Rightarrow> command_row option sql" where
  "claim_command inst ep t db = bind_result (strict (rd_scope db)) (\<lambda>s.
     if \<not> rs_gate s \<or> ep \<noteq> rs_epoch s then Inr (None, db)
     else case next_queued db of
       None \<Rightarrow> Inr (None, db)
     | Some c \<Rightarrow>
         bind_result (admit_writer inst ep t (en_operation (cm_envelope c)) (Some (cm_id c)) None db) (\<lambda>(got, db1).
           case got of
             None \<Rightarrow> Inr (None, db1)
           | Some t' \<Rightarrow> Inr (Some (claimed_row inst ep t' c), update_command (cm_id c) (claimed_row inst ep t') db1)))"

definition terminal_status :: "command_state \<Rightarrow> bool" where
  "terminal_status st \<longleftrightarrow> st \<in> {CmSucceeded, CmFailed, CmUncertain}"

text \<open>\<^verbatim>\<open>c.executor<>p_instance\<close> is null, not true, for a command that nobody has claimed.\<close>

definition finish_command :: "pystr \<Rightarrow> uuid \<Rightarrow> command_state \<Rightarrow> pystr \<Rightarrow> unit sql" where
  "finish_command inst i st result db =
     (if \<not> terminal_status st then Inl P0001
      else bind_result (strict (find_command db i)) (\<lambda>c.
        if (case cm_executor c of None \<Rightarrow> False | Some x \<Rightarrow> x \<noteq> inst) \<or> cm_state c \<noteq> CmExecuting then Inl P0001
        else case cm_ticket c of
          None \<Rightarrow> Inl P0001
        | Some t \<Rightarrow> finish_ticket inst t (st = CmUncertain)
                     (update_command i (\<lambda>c. c\<lparr>cm_state := st, cm_result := Some result\<rparr>) db)))"


subsection \<open>Retirement of an instance and source cleanup\<close>

definition no_lifetimes :: lifetime_counts where
  "no_lifetimes = \<lparr>lc_http = 0, lc_queries = 0, lc_writers = 0, lc_waiters = 0, lc_backend = 0, lc_background = 0\<rparr>"

definition quiescent :: "release_db \<Rightarrow> pystr \<Rightarrow> lifetime_counts \<Rightarrow> bool" where
  "quiescent db inst status \<longleftrightarrow>
     \<not> list_ex (\<lambda>t. tk_instance t = inst \<and> unfinished_ticket t) (rd_tickets db) \<and>
     \<not> list_ex (\<lambda>o'. list_ex (\<lambda>i. ins_id i = inst \<and> ins_owner i = or_owner o') (rd_instances db))
         (active_operations (rd_coord db)) \<and>
     status = no_lifetimes"

definition assert_instance_quiescent :: "pystr \<Rightarrow> lifetime_counts \<Rightarrow> unit sql" where
  "assert_instance_quiescent inst status db = (if quiescent db inst status then Inr ((), db) else Inl P0001)"

definition close_instance :: "pystr \<Rightarrow> lifetime_counts \<Rightarrow> unit sql" where
  "close_instance inst status db =
     (if \<not> quiescent db inst status then Inl P0001
      else if find_instance db inst = None then Inl P0001
      else Inr ((), db\<lparr>rd_instances := map (\<lambda>i. if ins_id i = inst
        then i\<lparr>ins_closed := True, ins_retiring := True, ins_status := Some status\<rparr> else i) (rd_instances db)\<rparr>))"

definition claim_source_cleanup :: "pystr \<Rightarrow> uuid \<Rightarrow> pystr \<Rightarrow> bool sql" where
  "claim_source_cleanup inst t ref db =
     (if \<not> ticket_live db inst t then Inl P0001
      else if list_ex (\<lambda>c. unfinished_command c \<and> ref \<in> set (en_refs (cm_envelope c))) (rd_commands db) then Inr (False, db)
      else if list_ex (\<lambda>u. cu_ref u = ref) (rd_cleanup db) then Inr (False, db)
      else Inr (True, db\<lparr>rd_cleanup := rd_cleanup db @
        [\<lparr>cu_ref = ref, cu_instance = inst, cu_ticket = t, cu_state = Cleaning\<rparr>]\<rparr>))"

definition finish_source_cleanup :: "pystr \<Rightarrow> uuid \<Rightarrow> pystr \<Rightarrow> unit sql" where
  "finish_source_cleanup inst t ref db =
     (let mine = (\<lambda>u. cu_ref u = ref \<and> cu_instance u = inst \<and> cu_ticket u = t) in
      if \<not> ticket_live db inst t then Inl P0001
      else if list_ex mine (rd_cleanup db)
      then Inr ((), db\<lparr>rd_cleanup := map (\<lambda>u. if mine u then u\<lparr>cu_state := Cleaned\<rparr> else u) (rd_cleanup db)\<rparr>)
      else Inl P0001)"


subsection \<open>The runtime's store\<close>

text \<open>\<open>RuntimeStore._call\<close> maps SQLSTATEs to the errors of the release.\<close>

definition state_error :: "sql_error \<Rightarrow> release_error" where
  "state_error e = (case e of P0002 \<Rightarrow> RelQueueFull | P0001 \<Rightarrow> RelConflict | OtherState \<Rightarrow> RelUnavailable)"

definition runtime_call :: "'a sql \<Rightarrow> 'a release_txn" where
  "runtime_call f db = (case f db of Inl e \<Rightarrow> Inl (state_error e) | Inr r \<Rightarrow> Inr r)"

record runtime_store =
  rn_scope :: pystr
  rn_instance :: pystr

definition runtime_register :: "runtime_store \<Rightarrow> slot \<Rightarrow> pystr \<Rightarrow> pystr \<Rightarrow> uuid \<Rightarrow> unit release_txn" where
  "runtime_register rt sl config profile owner = runtime_call (register_instance (rn_instance rt) sl config profile owner)"

definition runtime_admit :: "runtime_store \<Rightarrow> int \<Rightarrow> uuid \<Rightarrow> pystr \<Rightarrow> uuid option \<Rightarrow> uuid option \<Rightarrow> uuid option release_txn" where
  "runtime_admit rt ep fresh kind command parent = runtime_call (admit_writer (rn_instance rt) ep fresh kind command parent)"

definition runtime_finish_ticket :: "runtime_store \<Rightarrow> uuid \<Rightarrow> bool \<Rightarrow> unit release_txn" where
  "runtime_finish_ticket rt t uncertain = runtime_call (finish_ticket (rn_instance rt) t uncertain)"

definition runtime_attach :: "runtime_store \<Rightarrow> uuid \<Rightarrow> uuid \<Rightarrow> unit release_txn" where
  "runtime_attach rt t op = runtime_call (attach_ticket (rn_instance rt) t op)"

definition runtime_enqueue :: "(envelope \<Rightarrow> int) \<Rightarrow> runtime_store \<Rightarrow> uuid \<Rightarrow> envelope \<Rightarrow> command_row release_txn" where
  "runtime_enqueue bytes rt fresh e db =
     (if en_scope e \<noteq> rn_scope rt then Inl RelConflict
      else runtime_call (enqueue_command bytes (rn_instance rt) fresh e) db)"

text \<open>What a principal may read of a command: its own only.\<close>

definition runtime_command :: "uuid \<Rightarrow> pystr \<Rightarrow> release_db \<Rightarrow> (command_state \<times> pystr option) option" where
  "runtime_command i who db =
     map_option (\<lambda>c. (cm_state c, cm_result c)) (find (\<lambda>c. cm_id c = i \<and> cm_principal c = who) (rd_commands db))"

definition runtime_claim_next :: "runtime_store \<Rightarrow> int \<Rightarrow> uuid \<Rightarrow> command_row option release_txn" where
  "runtime_claim_next rt ep fresh = runtime_call (claim_command (rn_instance rt) ep fresh)"

definition runtime_finish_command :: "runtime_store \<Rightarrow> uuid \<Rightarrow> command_state \<Rightarrow> pystr \<Rightarrow> unit release_txn" where
  "runtime_finish_command rt i st result = runtime_call (finish_command (rn_instance rt) i st result)"

text \<open>
  \<open>wait_result\<close>: the reads of the command and the clock are those of the list, one per round; it
  is still waiting when the list ends. The last component is \<open>None\<close> at the deadline.
\<close>

fun wait_result :: "real \<Rightarrow> ((command_state \<times> pystr option) option \<times> real) list \<Rightarrow>
    (release_error + command_state \<times> pystr option) option" where
  "wait_result deadline [] = None"
| "wait_result deadline ((row, now) # rest) =
     (case row of
        None \<Rightarrow> Some (Inl RelUnavailable)
      | Some (st, result) \<Rightarrow>
          if terminal_status st then Some (Inr (st, result))
          else if deadline \<le> now then Some (Inr (st, None))
          else wait_result deadline rest)"

end
