(* ===== verification/ReleaseSystem.thy ===== *)
theory ReleaseSystem
  imports ReleaseAdmission
begin

section \<open>Release control as a system\<close>

text \<open>
  The events of a scope: every transaction of the operator and of the instances, in any order and
  with any arguments, and whatever else changes the coordinator's tables or lets time pass. A
  transaction that fails leaves the tables. The invariant has three parts, for the phase machine,
  for the writer tickets and for the command queue; what only goes forward is the order
  \<open>release_le\<close>.
\<close>

datatype release_event =
    EvOnboard pystr slot pystr pystr policy
  | EvBegin release_identity int
  | EvTransition release_identity int release_phase release_phase
  | EvBaseline release_identity int pystr
  | EvTransfer release_identity int "pystr list"
  | EvBeginRollback release_identity int "rollback_approval option"
  | EvReverse release_identity int "pystr list"
  | EvFinishRollback release_identity int
  | EvRetire release_identity int
  | EvAbort release_identity int
  | EvFinishAbort release_identity int
  | EvEvidence release_identity release_evidence
  | EvRegister pystr slot pystr pystr uuid
  | EvAdmit pystr int uuid pystr "uuid option" "uuid option"
  | EvAttach pystr uuid uuid
  | EvFinishTicket pystr uuid bool
  | EvEnqueue pystr uuid envelope
  | EvClaim pystr int uuid
  | EvFinishCommand pystr uuid command_state pystr
  | EvClose pystr lifetime_counts
  | EvClaimCleanup pystr uuid pystr
  | EvFinishCleanup pystr uuid pystr
  | EvElsewhere coord_db real

definition settle_txn :: "release_db \<Rightarrow> 'e + ('a \<times> release_db) \<Rightarrow> release_db" where
  "settle_txn db r = (case r of Inl _ \<Rightarrow> db | Inr (_, db1) \<Rightarrow> db1)"

lemma settle_txn_simps [simp]: "settle_txn db (Inl e) = db" "settle_txn db (Inr (x, db1)) = db1"
  by (simp_all add: settle_txn_def)

fun release_step :: "(envelope \<Rightarrow> int) \<Rightarrow> release_db \<Rightarrow> release_event \<Rightarrow> release_db" where
  "release_step bytes db (EvOnboard n sl p c po) = settle_txn db (onboard n sl p c po db)"
| "release_step bytes db (EvBegin idn ep) = settle_txn db (begin_release idn ep db)"
| "release_step bytes db (EvTransition idn ep cur nxt) = settle_txn db (transition idn ep cur nxt db)"
| "release_step bytes db (EvBaseline idn ep d) = settle_txn db (capture_baseline idn ep d db)"
| "release_step bytes db (EvTransfer idn ep is) = settle_txn db (transfer_writer idn ep is db)"
| "release_step bytes db (EvBeginRollback idn ep a) = settle_txn db (begin_rollback idn ep a db)"
| "release_step bytes db (EvReverse idn ep is) = settle_txn db (reverse_transfer idn ep is db)"
| "release_step bytes db (EvFinishRollback idn ep) = settle_txn db (finish_rollback idn ep db)"
| "release_step bytes db (EvRetire idn ep) = settle_txn db (retire_old_instances idn ep db)"
| "release_step bytes db (EvAbort idn ep) = settle_txn db (abort_before_transfer idn ep db)"
| "release_step bytes db (EvFinishAbort idn ep) = settle_txn db (finish_abort idn ep db)"
| "release_step bytes db (EvEvidence idn e) = settle_txn db (record_evidence idn e db)"
| "release_step bytes db (EvRegister i sl c p w) = settle_txn db (register_instance i sl c p w db)"
| "release_step bytes db (EvAdmit i ep t k c q) = settle_txn db (admit_writer i ep t k c q db)"
| "release_step bytes db (EvAttach i t op) = settle_txn db (attach_ticket i t op db)"
| "release_step bytes db (EvFinishTicket i t u) = settle_txn db (finish_ticket i t u db)"
| "release_step bytes db (EvEnqueue i c e) = settle_txn db (enqueue_command bytes i c e db)"
| "release_step bytes db (EvClaim i ep t) = settle_txn db (claim_command i ep t db)"
| "release_step bytes db (EvFinishCommand i c st r) = settle_txn db (finish_command i c st r db)"
| "release_step bytes db (EvClose i st) = settle_txn db (close_instance i st db)"
| "release_step bytes db (EvClaimCleanup i t r) = settle_txn db (claim_source_cleanup i t r db)"
| "release_step bytes db (EvFinishCleanup i t r) = settle_txn db (finish_source_cleanup i t r db)"
| "release_step bytes db (EvElsewhere cd dt) = db\<lparr>rd_coord := cd, rd_now := rd_now db + dt\<rparr>"


subsection \<open>The invariant\<close>

definition closed_phase :: "release_phase \<Rightarrow> bool" where
  "closed_phase ph \<longleftrightarrow> ph \<in> {PhDraining, PhReadSwitched, PhRollbackDraining}"

definition resting :: "release_phase \<Rightarrow> bool" where
  "resting ph \<longleftrightarrow> ph \<in> {PhIdle, PhCompleted, PhAborted, PhRolledBack}"

definition finished_phase :: "release_phase \<Rightarrow> bool" where
  "finished_phase ph \<longleftrightarrow> ph \<in> {PhCompleted, PhAborted, PhRolledBack}"

text \<open>How many transfers lie behind a release in a phase.\<close>

definition transfers :: "release_phase \<Rightarrow> int" where
  "transfers ph = (if ph \<in> {PhWriterSwitched, PhRetiring, PhRollbackDraining} then 1
     else if ph \<in> {PhRollbackWriterSwitched, PhRollbackRetiring} then 2 else 0)"

definition release_scope_ok :: "release_scope \<Rightarrow> bool" where
  "release_scope_ok s \<longleftrightarrow> 1 \<le> rs_epoch s \<and> rs_gate s = (\<not> closed_phase (rs_phase s)) \<and>
     (rs_owner s = None \<longleftrightarrow> resting (rs_phase s)) \<and>
     (if rs_phase s = PhIdle then rs_candidate s = None \<and> rs_identity s = None
      else rs_candidate s = Some (other_slot (rs_active s)) \<and> rs_identity s \<noteq> None) \<and>
     (closed_phase (rs_phase s) \<longrightarrow> rs_deadline s \<noteq> None)"

text \<open>The row of the release that owns the scope, against the scope.\<close>

definition row_fits :: "release_scope \<Rightarrow> release_row \<Rightarrow> bool" where
  "row_fits s r \<longleftrightarrow> rr_phase r = rs_phase s \<and> rs_identity s = Some (rr_identity r) \<and>
     pv_epoch (rr_previous r) + transfers (rs_phase s) = rs_epoch s \<and>
     pv_active (rr_previous r) = (if transfers (rs_phase s) = 1 then other_slot (rs_active s) else rs_active s) \<and>
     rs_config s = (if transfers (rs_phase s) = 1 then ri_config (rr_identity r) else pv_config (rr_previous r))"

definition row_ok :: "release_scope \<Rightarrow> release_row \<Rightarrow> bool" where
  "row_ok s r \<longleftrightarrow> rr_id r = ri_release (rr_identity r) \<and> pv_epoch (rr_previous r) \<le> rs_epoch s \<and>
     (if rs_owner s = Some (rr_id r) then row_fits s r else finished_phase (rr_phase r))"

definition control_inv :: "release_scope \<Rightarrow> release_row list \<Rightarrow> bool" where
  "control_inv s rels \<longleftrightarrow> release_scope_ok s \<and> distinct (map rr_id rels) \<and> (\<forall>r \<in> set rels. row_ok s r) \<and>
     (\<forall>rid. rs_owner s = Some rid \<longrightarrow> rid \<in> rr_id ` set rels)"

text \<open>An unfinished ticket is of the current epoch and of an open instance of the active slot.\<close>

definition ticket_ok :: "release_scope \<Rightarrow> instance_row list \<Rightarrow> ticket_row \<Rightarrow> bool" where
  "ticket_ok s insts t \<longleftrightarrow> tk_epoch t \<le> rs_epoch s \<and>
     (unfinished_ticket t \<longrightarrow> tk_epoch t = rs_epoch s \<and> tk_slot t = rs_active s \<and>
        (\<exists>i \<in> set insts. ins_id i = tk_instance t \<and> ins_slot i = rs_active s \<and> \<not> ins_closed i))"

definition tickets_inv :: "release_scope \<Rightarrow> instance_row list \<Rightarrow> ticket_row list \<Rightarrow> bool" where
  "tickets_inv s insts ts \<longleftrightarrow> distinct (map ins_id insts) \<and> distinct (map tk_id ts) \<and> (\<forall>t \<in> set ts. ticket_ok s insts t)"

definition policy_capacity :: "policy \<Rightarrow> int" where
  "policy_capacity p = (case po_queue_capacity p of Some (JInt n) \<Rightarrow> n | _ \<Rightarrow> 0)"

text \<open>A command is bound to an executor, an epoch and a ticket exactly when it has been claimed.\<close>

definition command_ok :: "command_row \<Rightarrow> bool" where
  "command_ok c \<longleftrightarrow> cm_principal c = en_principal_id (cm_envelope c) \<and> cm_key c = en_key (cm_envelope c) \<and>
     cm_hash c = en_hash (cm_envelope c) \<and>
     (if cm_state c = CmQueued then cm_executor c = None \<and> cm_epoch c = None \<and> cm_ticket c = None \<and> cm_result c = None
      else cm_executor c \<noteq> None \<and> cm_epoch c \<noteq> None \<and> cm_ticket c \<noteq> None \<and>
        (cm_result c = None \<longleftrightarrow> cm_state c = CmExecuting))"

definition commands_inv :: "release_scope \<Rightarrow> command_row list \<Rightarrow> bool" where
  "commands_inv s cs \<longleftrightarrow> capacity_accepted (po_queue_capacity (rs_policy s)) \<and>
     distinct (map cm_id cs) \<and> distinct (map (\<lambda>c. (cm_principal c, cm_key c)) cs) \<and> (\<forall>c \<in> set cs. command_ok c) \<and>
     (cs \<noteq> [] \<longrightarrow> int (count_rows unfinished_command cs) \<le> policy_capacity (rs_policy s))"

definition release_inv :: "release_db \<Rightarrow> bool" where
  "release_inv db \<longleftrightarrow>
     (case rd_scope db of
        None \<Rightarrow> rd_releases db = [] \<and> rd_instances db = [] \<and> rd_commands db = [] \<and> rd_tickets db = []
      | Some s \<Rightarrow> control_inv s (rd_releases db) \<and> tickets_inv s (rd_instances db) (rd_tickets db) \<and>
          commands_inv s (rd_commands db))"

lemma release_inv_Some:
  "rd_scope db = Some s \<Longrightarrow> release_inv db \<longleftrightarrow> control_inv s (rd_releases db) \<and>
     tickets_inv s (rd_instances db) (rd_tickets db) \<and> commands_inv s (rd_commands db)"
  by (simp add: release_inv_def)

lemma release_inv_empty: "release_inv empty_release_db"
  by (simp add: release_inv_def empty_release_db_def)


subsection \<open>What the invariant says\<close>

lemma other_slot_simps [simp]: "other_slot (other_slot s) = s" "other_slot s \<noteq> s" "s \<noteq> other_slot s"
  by (simp_all add: other_slot_def split: slot.splits)

lemma other_slot_iff: "a \<noteq> b \<longleftrightarrow> a = other_slot b"
  by (cases a; cases b) (simp_all add: other_slot_def)

lemma control_invD:
  assumes "control_inv s rels"
  shows "release_scope_ok s" and "distinct (map rr_id rels)" and "r \<in> set rels \<Longrightarrow> row_ok s r"
    and "rs_owner s = Some rid \<Longrightarrow> \<exists>r \<in> set rels. rr_id r = rid \<and> row_fits s r"
  using assms by (auto simp: control_inv_def row_ok_def)

lemma distinct_row:
  "distinct (map f xs) \<Longrightarrow> x \<in> set xs \<Longrightarrow> y \<in> set xs \<Longrightarrow> f x = f y \<Longrightarrow> x = y"
  by (auto simp: distinct_map inj_on_def)

lemma find_release_Some: "find_release db rid = Some r \<Longrightarrow> r \<in> set (rd_releases db) \<and> rr_id r = rid"
  using find_Some_mem[of "\<lambda>r. rr_id r = rid" "rd_releases db" r] find_Some_holds[of "\<lambda>r. rr_id r = rid" "rd_releases db" r]
  by (simp add: find_release_def)

lemma find_release_None: "find_release db rid = None \<longleftrightarrow> rid \<notin> rr_id ` set (rd_releases db)"
  by (auto simp: find_release_def find_None_iff)

text \<open>
  One lemma for every step of the phase machine: the owner's row and the scope move together.
\<close>

lemma control_inv_move:
  assumes inv: "control_inv s rels" and own: "rs_owner s = Some rid" and ok: "release_scope_ok s'"
    and own': "rs_owner s' \<in> {None, Some rid}" and ep: "rs_epoch s \<le> rs_epoch s'"
    and f: "\<And>r. r \<in> set rels \<Longrightarrow> rr_id r = rid \<Longrightarrow> row_fits s r \<Longrightarrow>
        rr_id (f r) = rr_id r \<and> rr_identity (f r) = rr_identity r \<and> pv_epoch (rr_previous (f r)) = pv_epoch (rr_previous r) \<and>
        (if rs_owner s' = Some rid then row_fits s' (f r) else finished_phase (rr_phase (f r)))"
  shows "control_inv s' (map (\<lambda>r. if rr_id r = rid then f r else r) rels)"
proof -
  let ?g = "\<lambda>r. if rr_id r = rid then f r else r"
  have g: "rr_id (?g r) = rr_id r \<and> row_ok s' (?g r)" if r: "r \<in> set rels" for r
  proof (cases "rr_id r = rid")
    case True
    have k: "row_ok s r" by (rule control_invD(3)[OF inv r])
    with True own have fit: "row_fits s r" by (simp add: row_ok_def)
    from f[OF r True fit] k ep True show ?thesis by (auto simp: row_ok_def)
  next
    case False
    have k: "row_ok s r" by (rule control_invD(3)[OF inv r])
    with False own own' ep show ?thesis by (auto simp: row_ok_def)
  qed
  have ids: "map rr_id (map ?g rels) = map rr_id rels" using g by simp
  have "row_ok s' x" if "x \<in> set (map ?g rels)" for x
    using that g unfolding set_map by blast
  then have rows: "\<forall>r \<in> set (map ?g rels). row_ok s' r" by blast
  have mem: "rr_id ` set (map ?g rels) = rr_id ` set rels"
    using arg_cong[OF ids, of set] by (simp only: set_map)
  have dis: "distinct (map rr_id (map ?g rels))" unfolding ids by (rule control_invD(2)[OF inv])
  have own_mem: "\<forall>i. rs_owner s' = Some i \<longrightarrow> i \<in> rr_id ` set (map ?g rels)"
    unfolding mem using own' control_invD(4)[OF inv own] by auto
  show ?thesis unfolding control_inv_def using ok dis rows own_mem by blast
qed

end
