(* ===== verification/ReleaseInvariant.thy ===== *)
theory ReleaseInvariant
  imports ReleaseSystem
begin

section \<open>Release control: the invariant is kept\<close>

text \<open>
  What a transaction that succeeds has found and written, one lemma for each of the operator's;
  then one lemma for each event that the invariant is kept. The events of the phase machine share
  \<open>release_inv_move\<close>, those of the instances are lemmas about one table.
\<close>

lemmas txn_defs = bind_result_Inr return_scope_def find_scope_def validate_transition_def

lemma find_scope_Inr: "find_scope db = Inr s \<longleftrightarrow> rd_scope db = Some s"
  by (simp add: find_scope_def split: option.splits)

lemma require_empty_Inr: "require_empty e = Inr u \<longleftrightarrow> evidence_empty e"
  by (auto simp: require_empty_def evidence_empty_def)

lemma count_rows_0: "count_rows p xs = 0 \<longleftrightarrow> (\<forall>x \<in> set xs. \<not> p x)"
  by (simp add: count_rows_def filter_empty_conv)

lemma drained_no_tickets: "drained db = Inr u \<Longrightarrow> t \<in> set (rd_tickets db) \<Longrightarrow> \<not> unfinished_ticket t"
  by (auto simp: drained_def bind_result_Inr require_empty_Inr collect_drain_evidence_def Let_def evidence_empty_def
      count_rows_0 split: option.splits if_splits)

lemma tables_update_release [simp]:
  "rd_scope (update_release rid f db) = rd_scope db" "rd_instances (update_release rid f db) = rd_instances db"
  "rd_commands (update_release rid f db) = rd_commands db" "rd_tickets (update_release rid f db) = rd_tickets db"
  "rd_cleanup (update_release rid f db) = rd_cleanup db" "rd_coord (update_release rid f db) = rd_coord db"
  "rd_now (update_release rid f db) = rd_now db"
  "rd_releases (update_release rid f db) = map (\<lambda>r. if rr_id r = rid then f r else r) (rd_releases db)"
  by (simp_all add: update_release_def)

lemma tables_update_scope [simp]:
  "rd_scope (update_scope g db) = map_option g (rd_scope db)" "rd_instances (update_scope g db) = rd_instances db"
  "rd_commands (update_scope g db) = rd_commands db" "rd_tickets (update_scope g db) = rd_tickets db"
  "rd_cleanup (update_scope g db) = rd_cleanup db" "rd_coord (update_scope g db) = rd_coord db"
  "rd_now (update_scope g db) = rd_now db" "rd_releases (update_scope g db) = rd_releases db"
  by (simp_all add: update_scope_def)


subsection \<open>What a successful transaction has done\<close>

lemma transition_done:
  assumes "transition idn ep cur nxt db = Inr (s', db')"
  obtains s where "rd_scope db = Some s" "rs_phase s = cur" "holds s idn ep" "next_in PHASES cur = Some nxt"
    "nxt \<noteq> PhWriterSwitched" "nxt = PhCompleted \<Longrightarrow> \<not> open_in_other_slot db (rs_active s)"
    "db' = update_release (ri_release idn) (mark_release nxt (rd_now db)) (update_scope (enter_phase nxt (rd_now db)) db)"
  using assms by (auto simp: transition_def txn_defs split: if_splits option.splits)

lemma baseline_done:
  assumes "capture_baseline idn ep digest db = Inr (u, db')"
  obtains s r where "rd_scope db = Some s" "holds s idn ep" "rs_phase s = PhPrepared" "digest_pattern digest"
    "find_release db (ri_release idn) = Some r" "pv_digest (rr_previous r) \<in> {None, Some digest}"
    "db' = update_release (ri_release idn) (\<lambda>x. x\<lparr>rr_previous := (rr_previous r)\<lparr>pv_digest := Some digest\<rparr>\<rparr>) db"
  using assms by (auto simp: capture_baseline_def txn_defs split: if_splits option.splits)

definition hand_over :: "slot \<Rightarrow> pystr \<Rightarrow> release_phase \<Rightarrow> release_scope \<Rightarrow> release_scope" where
  "hand_over c config ph s = s\<lparr>rs_active := c, rs_candidate := Some (rs_active s), rs_epoch := rs_epoch s + 1,
     rs_config := config, rs_gate := True, rs_phase := ph\<rparr>"

lemma transfer_done:
  assumes "transfer_writer idn ep expected db = Inr (s', db')"
  obtains s c where "rd_scope db = Some s" "holds s idn ep" "rs_phase s = PhReadSwitched" "\<not> rs_gate s" "expected \<noteq> []"
    "\<not> deadline_passed db s" "rs_candidate s = Some c" "candidates_as db c expected (ri_config idn)" "drained db = Inr ()"
    "db' = update_release (ri_release idn) (mark_release PhWriterSwitched (rd_now db))
       (update_scope (hand_over c (ri_config idn) PhWriterSwitched) db)"
proof -
  from assms obtain s c where *: "rd_scope db = Some s" "holds s idn ep" "next_in PHASES (rs_phase s) = Some PhWriterSwitched"
    "\<not> rs_gate s" "expected \<noteq> []" "\<not> deadline_passed db s" "rs_candidate s = Some c"
    "candidates_as db c expected (ri_config idn)" "drained db = Inr ()"
    "db' = update_release (ri_release idn) (mark_release PhWriterSwitched (rd_now db))
       (update_scope (hand_over c (ri_config idn) PhWriterSwitched) db)"
    by (auto simp: transfer_writer_def txn_defs hand_over_def[abs_def] split: if_splits option.splits)
  moreover from *(3) have "rs_phase s = PhReadSwitched" by (simp add: PHASES_def split: if_splits)
  ultimately show ?thesis using that by blast
qed

lemma reverse_done:
  assumes "reverse_transfer idn ep expected db = Inr (s', db')"
  obtains s r where "rd_scope db = Some s" "holds s idn ep" "rs_phase s = PhRollbackDraining" "\<not> rs_gate s"
    "find_release db (ri_release idn) = Some r" "rr_approval r \<noteq> None" "\<not> deadline_passed db s" "expected \<noteq> []"
    "candidates_as db (pv_active (rr_previous r)) expected (pv_config (rr_previous r))" "drained db = Inr ()"
    "db' = update_release (ri_release idn) (\<lambda>x. x\<lparr>rr_phase := PhRollbackWriterSwitched\<rparr>)
       (update_scope (hand_over (pv_active (rr_previous r)) (pv_config (rr_previous r)) PhRollbackWriterSwitched) db)"
  using assms by (auto simp: reverse_transfer_def txn_defs hand_over_def[abs_def] Let_def split: if_splits option.splits)

lemma rollback_done:
  assumes "begin_rollback idn ep approval db = Inr (s', db')"
  obtains (again) "db' = db"
  | (began) s r a where "rd_scope db = Some s" "holds s idn ep" "rs_phase s = PhWriterSwitched" "approval = Some a"
    "find_release db (ri_release idn) = Some r" "approval_matches a idn s (rr_previous r)" "ep = pv_epoch (rr_previous r) + 1"
    "candidates db (pv_active (rr_previous r)) \<noteq> []"
    "db' = update_release (ri_release idn) (\<lambda>x. x\<lparr>rr_phase := PhRollbackDraining, rr_approval := Some a\<rparr>)
       (update_scope (\<lambda>s. s\<lparr>rs_phase := PhRollbackDraining, rs_gate := False, rs_deadline := Some (drain_until s (rd_now db))\<rparr>) db)"
proof -
  note step = assms[unfolded begin_rollback_def bind_result_Inr find_scope_Inr]
  obtain s where s: "rd_scope db = Some s" using step by blast
  obtain r a where ra: "find_release db (ri_release idn) = Some r" "approval = Some a"
    using step s by (cases "find_release db (ri_release idn)"; cases approval) (auto split: if_splits)
  have cond: "rs_identity s = Some idn" "approval_matches a idn s (rr_previous r)" "ep = pv_epoch (rr_previous r) + 1"
    using step s ra by (auto split: if_splits)
  show ?thesis
  proof (cases "rollback_started (rs_phase s)")
    case True
    then have "db' = db" using step s ra cond by (auto split: if_splits)
    then show ?thesis by (rule again)
  next
    case False
    have "holds s idn ep \<and> rs_phase s = PhWriterSwitched \<and> candidates db (pv_active (rr_previous r)) \<noteq> []"
      using step s ra cond False by (auto split: if_splits)
    moreover from this have "db' = update_release (ri_release idn) (\<lambda>x. x\<lparr>rr_phase := PhRollbackDraining, rr_approval := Some a\<rparr>)
       (update_scope (\<lambda>s. s\<lparr>rs_phase := PhRollbackDraining, rs_gate := False, rs_deadline := Some (drain_until s (rd_now db))\<rparr>) db)"
      using step s ra cond False by (simp add: return_scope_def bind_result_Inr)
    ultimately show ?thesis using began s ra cond by blast
  qed
qed

lemma finish_rollback_done:
  assumes "finish_rollback idn ep db = Inr (s', db')"
  obtains s nxt where "rd_scope db = Some s" "holds s idn ep"
    "rs_phase s = PhRollbackWriterSwitched \<and> nxt = PhRollbackRetiring \<or>
     rs_phase s = PhRollbackRetiring \<and> nxt = PhRolledBack \<and> \<not> open_in_other_slot db (rs_active s)"
    "db' = update_release (ri_release idn) (mark_release nxt (rd_now db))
       (update_scope (\<lambda>s. s\<lparr>rs_phase := nxt, rs_owner := (if nxt = PhRolledBack then None else rs_owner s)\<rparr>) db)"
proof -
  from assms obtain s where s: "rd_scope db = Some s" "holds s idn ep"
    "rs_phase s \<in> {PhRollbackWriterSwitched, PhRollbackRetiring}"
    by (auto simp: finish_rollback_def bind_result_Inr find_scope_Inr split: if_splits)
  from s(3) consider "rs_phase s = PhRollbackWriterSwitched" | "rs_phase s = PhRollbackRetiring" by blast
  then show ?thesis
  proof cases
    case 1
    show ?thesis
      by (rule that[OF s(1,2), of PhRollbackRetiring])
        (use assms s 1 in \<open>simp_all add: finish_rollback_def txn_defs\<close>)
  next
    case 2
    show ?thesis
      by (rule that[OF s(1,2), of PhRolledBack])
        (use assms s 2 in \<open>simp_all add: finish_rollback_def txn_defs split: if_splits\<close>)
  qed
qed

lemma abort_done:
  assumes "abort_before_transfer idn ep db = Inr (s', db')"
  obtains s where "rd_scope db = Some s" "holds s idn ep" "rs_phase s \<in> {PhPrepared, PhDraining, PhReadSwitched}"
    "\<not> uncertain_work db"
    "db' = update_release (ri_release idn) (mark_release PhAborting (rd_now db))
       (update_scope (\<lambda>s. s\<lparr>rs_phase := PhAborting, rs_gate := True\<rparr>) db)"
  using assms by (auto simp: abort_before_transfer_def txn_defs split: if_splits option.splits)

lemma finish_abort_done:
  assumes "finish_abort idn ep db = Inr (s', db')"
  obtains s where "rd_scope db = Some s" "holds s idn ep" "rs_phase s = PhAborting" "rs_gate s"
    "\<not> open_in_other_slot db (rs_active s)"
    "db' = update_release (ri_release idn) (mark_release PhAborted (rd_now db))
       (update_scope (\<lambda>s. s\<lparr>rs_phase := PhAborted, rs_owner := None\<rparr>) db)"
  using assms by (auto simp: finish_abort_def txn_defs split: if_splits option.splits)

lemma evidence_done:
  assumes "record_evidence idn report db = Inr (u, db')"
  obtains s where "rd_scope db = Some s" "rs_identity s = Some idn"
    "db' = update_release (ri_release idn) (\<lambda>r. r\<lparr>rr_evidence := merge_evidence (rr_evidence r) report\<rparr>) db"
  using assms by (auto simp: record_evidence_def txn_defs split: if_splits option.splits)

lemma retire_done:
  assumes "retire_old_instances idn ep db = Inr (u, db')"
  obtains s where "rd_scope db = Some s" "holds s idn ep" "rs_phase s \<in> {PhRetiring, PhRollbackRetiring, PhAborting}"
    "db' = db\<lparr>rd_instances := map (retire_instance (rs_active s)) (rd_instances db)\<rparr>"
  using assms by (auto simp: retire_old_instances_def txn_defs split: if_splits option.splits)

lemma onboard_done:
  assumes "onboard n sl p c po db = Inr (u, db')"
  obtains (again) s where "rd_scope db = Some s" "db' = db"
  | (enrolled) "rd_scope db = None" "capacity_accepted (po_queue_capacity po)" "db' = db\<lparr>rd_scope := Some (new_release_scope n sl p c po)\<rparr>"
  using assms by (auto simp: onboard_def bind_result_Inr Let_def split: if_splits option.splits)

lemma begin_done:
  assumes "begin_release idn ep db = Inr (b, db')"
  obtains (again) "db' = db"
  | (began) s where "rd_scope db = Some s" "po_exception (rs_policy s) = None" "rs_epoch s = ep" "rs_owner s = None" "rs_gate s"
    "resting (rs_phase s)" "version_advances db idn" "find_release db (ri_release idn) = None"
    "db' = update_scope (\<lambda>s. s\<lparr>rs_owner := Some (ri_release idn), rs_phase := PhPrepared,
             rs_candidate := Some (other_slot (rs_active s)), rs_identity := Some idn\<rparr>)
           (db\<lparr>rd_releases := rd_releases db @ [new_release idn s (rd_now db)]\<rparr>)"
proof -
  from assms obtain s where s: "rd_scope db = Some s" "po_exception (rs_policy s) = None"
    by (auto simp: begin_release_def txn_defs Let_def split: if_splits option.splits)
  consider "db' = db" | "rs_epoch s = ep" "rs_owner s = None" "start_release idn s db = Inr (b, db')"
    using assms s
    by (auto simp: begin_release_def find_scope_def resume_release_def Let_def
        split: if_splits option.splits release_phase.splits)
  then show ?thesis
  proof cases
    case 1
    then show ?thesis by (rule again)
  next
    case 2
    from 2(3) have "rs_gate s" "resting (rs_phase s)" "version_advances db idn" "find_release db (ri_release idn) = None"
      "db' = update_scope (\<lambda>s. s\<lparr>rs_owner := Some (ri_release idn), rs_phase := PhPrepared,
             rs_candidate := Some (other_slot (rs_active s)), rs_identity := Some idn\<rparr>)
           (db\<lparr>rd_releases := rd_releases db @ [new_release idn s (rd_now db)]\<rparr>)"
      by (auto simp: start_release_def Let_def bind_result_Inr resting_def split: if_splits)
    with s 2 show ?thesis by (intro began) auto
  qed
qed


subsection \<open>The events of the phase machine\<close>

lemma tickets_inv_same:
  "tickets_inv s insts ts \<Longrightarrow> rs_epoch s' = rs_epoch s \<Longrightarrow> rs_active s' = rs_active s \<Longrightarrow> tickets_inv s' insts ts"
  by (simp add: tickets_inv_def ticket_ok_def)

lemma tickets_inv_drained:
  assumes "tickets_inv s insts ts" and "rs_epoch s \<le> rs_epoch s'" and "\<forall>t \<in> set ts. \<not> unfinished_ticket t"
  shows "tickets_inv s' insts ts"
  using assms by (force simp: tickets_inv_def ticket_ok_def)

lemma commands_inv_same: "commands_inv s cs \<Longrightarrow> rs_policy s' = rs_policy s \<Longrightarrow> commands_inv s' cs"
  by (simp add: commands_inv_def)

lemma release_inv_move:
  assumes inv: "release_inv db" and s: "rd_scope db = Some s" "rs_owner s = Some rid"
    and ok: "release_scope_ok s \<Longrightarrow> release_scope_ok (g s)" and own: "rs_owner (g s) \<in> {None, Some rid}"
    and po: "rs_policy (g s) = rs_policy s"
    and ep: "rs_epoch (g s) = rs_epoch s \<and> rs_active (g s) = rs_active s \<or>
        rs_epoch s \<le> rs_epoch (g s) \<and> (\<forall>t \<in> set (rd_tickets db). \<not> unfinished_ticket t)"
    and f: "\<And>r. r \<in> set (rd_releases db) \<Longrightarrow> rr_id r = rid \<Longrightarrow> row_fits s r \<Longrightarrow>
        rr_id (f r) = rr_id r \<and> rr_identity (f r) = rr_identity r \<and> pv_epoch (rr_previous (f r)) = pv_epoch (rr_previous r) \<and>
        (if rs_owner (g s) = Some rid then row_fits (g s) (f r) else finished_phase (rr_phase (f r)))"
  shows "release_inv (update_release rid f (update_scope g db))"
proof -
  note parts = inv[unfolded release_inv_Some[OF s(1)]]
  have c: "control_inv (g s) (map (\<lambda>r. if rr_id r = rid then f r else r) (rd_releases db))"
    by (rule control_inv_move[OF _ s(2)]) (use parts ok own ep f control_invD(1) in auto)
  have t: "tickets_inv (g s) (rd_instances db) (rd_tickets db)"
    using parts ep tickets_inv_same tickets_inv_drained by blast
  have "commands_inv (g s) (rd_commands db)" using parts po commands_inv_same by blast
  with c t s(1) show ?thesis by (simp add: release_inv_def)
qed

lemma release_inv_row:
  assumes inv: "release_inv db" and s: "rd_scope db = Some s"
    and f: "\<And>r. r \<in> set (rd_releases db) \<Longrightarrow> rr_id r = rid \<Longrightarrow> rr_id (f r) = rr_id r \<and> rr_identity (f r) = rr_identity r \<and>
        rr_phase (f r) = rr_phase r \<and> pv_epoch (rr_previous (f r)) = pv_epoch (rr_previous r) \<and>
        pv_active (rr_previous (f r)) = pv_active (rr_previous r) \<and> pv_config (rr_previous (f r)) = pv_config (rr_previous r)"
  shows "release_inv (update_release rid f db)"
proof -
  let ?g = "\<lambda>r. if rr_id r = rid then f r else r"
  have c: "control_inv s (rd_releases db)" using inv s by (simp add: release_inv_Some)
  have ids: "map rr_id (map ?g (rd_releases db)) = map rr_id (rd_releases db)" using f by simp
  have rows: "row_ok s (?g r)" if "r \<in> set (rd_releases db)" for r
    using control_invD(3)[OF c that] f[OF that] by (auto simp: row_ok_def row_fits_def)
  have mem: "rr_id ` set (map ?g (rd_releases db)) = rr_id ` set (rd_releases db)"
    using arg_cong[OF ids, of set] by (simp only: set_map)
  have "row_ok s x" if "x \<in> set (map ?g (rd_releases db))" for x
    using that rows unfolding set_map by blast
  moreover have "release_scope_ok s \<and> distinct (map rr_id (rd_releases db)) \<and>
      (\<forall>rid. rs_owner s = Some rid \<longrightarrow> rid \<in> rr_id ` set (rd_releases db))"
    using c by (simp add: control_inv_def)
  ultimately have "control_inv s (map ?g (rd_releases db))"
    unfolding control_inv_def mem ids by blast
  then show ?thesis using inv s by (simp add: release_inv_def)
qed

lemmas phase_defs = release_scope_ok_def closed_phase_def resting_def finished_phase_def transfers_def row_fits_def mark_release_def

lemma holds_owner: "holds s idn ep \<Longrightarrow> rs_owner s = Some (ri_release idn)"
  by (simp add: holds_def)

text \<open>The scope keeps its invariant when it enters the next phase, and the owner's row follows.\<close>

lemma enter_phase_ok:
  assumes nxt: "next_in PHASES (rs_phase s) = Some nxt" "nxt \<noteq> PhWriterSwitched"
  shows "release_scope_ok s \<Longrightarrow> release_scope_ok (enter_phase nxt now s)"
    and "row_fits s r \<Longrightarrow> if nxt = PhCompleted then finished_phase (rr_phase (mark_release nxt now r))
                         else row_fits (enter_phase nxt now s) (mark_release nxt now r)"
  using nxt by (auto simp: phase_defs enter_phase_def PHASES_def split: if_splits)

lemma inv_transition:
  assumes inv: "release_inv db" and step: "transition idn ep cur nxt db = Inr (s', db')"
  shows "release_inv db'"
proof (rule transition_done[OF step])
  fix s
  assume s: "rd_scope db = Some s" "rs_phase s = cur" "holds s idn ep" "next_in PHASES cur = Some nxt"
    "nxt \<noteq> PhWriterSwitched"
  assume db': "db' = update_release (ri_release idn) (mark_release nxt (rd_now db)) (update_scope (enter_phase nxt (rd_now db)) db)"
  note own = holds_owner[OF s(3)]
  note next_ok = enter_phase_ok[of s nxt, unfolded s(2), OF s(4,5)]
  show ?thesis
    unfolding db'
  proof (rule release_inv_move[OF inv s(1) own])
    show "release_scope_ok (enter_phase nxt (rd_now db) s)" if "release_scope_ok s" by (rule next_ok(1)[OF that])
  next
    fix r
    assume "row_fits s r"
    from next_ok(2)[OF this, of "rd_now db"] own
    show "rr_id (mark_release nxt (rd_now db) r) = rr_id r \<and>
        rr_identity (mark_release nxt (rd_now db) r) = rr_identity r \<and>
        pv_epoch (rr_previous (mark_release nxt (rd_now db) r)) = pv_epoch (rr_previous r) \<and>
        (if rs_owner (enter_phase nxt (rd_now db) s) = Some (ri_release idn)
         then row_fits (enter_phase nxt (rd_now db) s) (mark_release nxt (rd_now db) r)
         else finished_phase (rr_phase (mark_release nxt (rd_now db) r)))"
      by (auto simp: mark_release_def enter_phase_def split: if_splits)
  qed (use own in \<open>simp_all add: enter_phase_def\<close>)
qed

lemma inv_transfer:
  assumes inv: "release_inv db" and step: "transfer_writer idn ep expected db = Inr (s', db')"
  shows "release_inv db'"
proof (rule transfer_done[OF step])
  fix s c
  assume s: "rd_scope db = Some s" "holds s idn ep" "rs_phase s = PhReadSwitched" "rs_candidate s = Some c" "drained db = Inr ()"
  assume db': "db' = update_release (ri_release idn) (mark_release PhWriterSwitched (rd_now db))
       (update_scope (hand_over c (ri_config idn) PhWriterSwitched) db)"
  have ok: "release_scope_ok s" using inv s(1) by (simp add: release_inv_Some control_inv_def)
  then have c: "c = other_slot (rs_active s)" using s(3,4) by (simp add: release_scope_ok_def)
  note s' = holds_owner[OF s(2)] s(2,3)
  show ?thesis
    unfolding db'
    by (rule release_inv_move[OF inv s(1) s'(1)])
      (use s' c drained_no_tickets[OF s(5)] in \<open>auto simp: phase_defs hand_over_def holds_def\<close>)
qed

lemma inv_rollback:
  assumes inv: "release_inv db" and step: "begin_rollback idn ep approval db = Inr (s', db')"
  shows "release_inv db'"
proof (rule rollback_done[OF step])
  assume "db' = db"
  with inv show ?thesis by simp
next
  fix s r a
  assume s: "rd_scope db = Some s" "holds s idn ep" "rs_phase s = PhWriterSwitched"
  assume db': "db' = update_release (ri_release idn) (\<lambda>x. x\<lparr>rr_phase := PhRollbackDraining, rr_approval := Some a\<rparr>)
       (update_scope (\<lambda>s. s\<lparr>rs_phase := PhRollbackDraining, rs_gate := False, rs_deadline := Some (drain_until s (rd_now db))\<rparr>) db)"
  note own = holds_owner[OF s(2)]
  show ?thesis
    unfolding db' by (rule release_inv_move[OF inv s(1) own]) (use s own in \<open>auto simp: phase_defs\<close>)
qed

lemma inv_reverse:
  assumes inv: "release_inv db" and step: "reverse_transfer idn ep expected db = Inr (s', db')"
  shows "release_inv db'"
proof (rule reverse_done[OF step])
  fix s r
  assume s: "rd_scope db = Some s" "holds s idn ep" "rs_phase s = PhRollbackDraining" "drained db = Inr ()"
    and r: "find_release db (ri_release idn) = Some r"
  assume db': "db' = update_release (ri_release idn) (\<lambda>x. x\<lparr>rr_phase := PhRollbackWriterSwitched\<rparr>)
       (update_scope (hand_over (pv_active (rr_previous r)) (pv_config (rr_previous r)) PhRollbackWriterSwitched) db)"
  have c: "control_inv s (rd_releases db)" using inv s(1) by (simp add: release_inv_Some)
  note own = holds_owner[OF s(2)]
  have r': "r \<in> set (rd_releases db)" "rr_id r = ri_release idn" using find_release_Some[OF r] by auto
  have fit: "row_fits s r" using control_invD(3)[OF c r'(1)] own r'(2) by (simp add: row_ok_def)
  then have act: "pv_active (rr_previous r) = other_slot (rs_active s)" using s(3) by (simp add: row_fits_def transfers_def)
  have same: "x = r" if "x \<in> set (rd_releases db)" "rr_id x = ri_release idn" for x
    using distinct_row[OF control_invD(2)[OF c] that(1) r'(1)] that(2) r'(2) by simp
  show ?thesis
    unfolding db'
    by (rule release_inv_move[OF inv s(1) own])
      (use s own act same drained_no_tickets[OF s(4)] in \<open>auto simp: phase_defs hand_over_def\<close>)
qed

lemma inv_finish_rollback:
  assumes inv: "release_inv db" and step: "finish_rollback idn ep db = Inr (s', db')"
  shows "release_inv db'"
proof (rule finish_rollback_done[OF step])
  fix s nxt
  assume s: "rd_scope db = Some s" "holds s idn ep"
    and n: "rs_phase s = PhRollbackWriterSwitched \<and> nxt = PhRollbackRetiring \<or>
     rs_phase s = PhRollbackRetiring \<and> nxt = PhRolledBack \<and> \<not> open_in_other_slot db (rs_active s)"
  assume db': "db' = update_release (ri_release idn) (mark_release nxt (rd_now db))
       (update_scope (\<lambda>s. s\<lparr>rs_phase := nxt, rs_owner := (if nxt = PhRolledBack then None else rs_owner s)\<rparr>) db)"
  note own = holds_owner[OF s(2)]
  show ?thesis
    unfolding db' by (rule release_inv_move[OF inv s(1) own]) (use n own in \<open>auto simp: phase_defs\<close>)
qed

lemma inv_abort:
  assumes inv: "release_inv db" and step: "abort_before_transfer idn ep db = Inr (s', db')"
  shows "release_inv db'"
proof (rule abort_done[OF step])
  fix s
  assume s: "rd_scope db = Some s" "holds s idn ep" "rs_phase s \<in> {PhPrepared, PhDraining, PhReadSwitched}"
  assume db': "db' = update_release (ri_release idn) (mark_release PhAborting (rd_now db))
       (update_scope (\<lambda>s. s\<lparr>rs_phase := PhAborting, rs_gate := True\<rparr>) db)"
  note own = holds_owner[OF s(2)]
  show ?thesis
    unfolding db' by (rule release_inv_move[OF inv s(1) own]) (use s own in \<open>auto simp: phase_defs\<close>)
qed

lemma inv_finish_abort:
  assumes inv: "release_inv db" and step: "finish_abort idn ep db = Inr (s', db')"
  shows "release_inv db'"
proof (rule finish_abort_done[OF step])
  fix s
  assume s: "rd_scope db = Some s" "holds s idn ep" "rs_phase s = PhAborting"
  assume db': "db' = update_release (ri_release idn) (mark_release PhAborted (rd_now db))
       (update_scope (\<lambda>s. s\<lparr>rs_phase := PhAborted, rs_owner := None\<rparr>) db)"
  note own = holds_owner[OF s(2)]
  show ?thesis
    unfolding db' by (rule release_inv_move[OF inv s(1) own]) (use s own in \<open>auto simp: phase_defs\<close>)
qed


lemma inv_begin:
  assumes inv: "release_inv db" and step: "begin_release idn ep db = Inr (b, db')"
  shows "release_inv db'"
proof (rule begin_done[OF step])
  assume "db' = db"
  with inv show ?thesis by simp
next
  fix s
  assume s: "rd_scope db = Some s" "rs_owner s = None" "rs_gate s" "resting (rs_phase s)" "find_release db (ri_release idn) = None"
  assume db': "db' = update_scope (\<lambda>s. s\<lparr>rs_owner := Some (ri_release idn), rs_phase := PhPrepared,
             rs_candidate := Some (other_slot (rs_active s)), rs_identity := Some idn\<rparr>)
           (db\<lparr>rd_releases := rd_releases db @ [new_release idn s (rd_now db)]\<rparr>)"
  let ?s = "s\<lparr>rs_owner := Some (ri_release idn), rs_phase := PhPrepared, rs_candidate := Some (other_slot (rs_active s)),
              rs_identity := Some idn\<rparr>"
  note parts = inv[unfolded release_inv_Some[OF s(1)]]
  note c = conjunct1[OF parts]
  have new: "ri_release idn \<notin> rr_id ` set (rd_releases db)" using s(5) by (simp add: find_release_None)
  have old: "row_ok ?s r" if "r \<in> set (rd_releases db)" for r
  proof -
    have "rr_id r \<noteq> ri_release idn" using new that by (metis imageI)
    with control_invD(3)[OF c that] s(2) show ?thesis by (auto simp: row_ok_def)
  qed
  have row: "row_ok ?s (new_release idn s (rd_now db))"
    by (simp add: row_ok_def row_fits_def new_release_def transfers_def)
  have ids: "map rr_id (rd_releases db @ [new_release idn s (rd_now db)]) = map rr_id (rd_releases db) @ [ri_release idn]"
    by (simp add: new_release_def)
  have sc: "release_scope_ok ?s" using control_invD(1)[OF c] s(3) by (simp add: phase_defs)
  have "control_inv ?s (rd_releases db @ [new_release idn s (rd_now db)])"
    unfolding control_inv_def ids using sc control_invD(2)[OF c] new old row by (auto simp: new_release_def)
  moreover have "tickets_inv ?s (rd_instances db) (rd_tickets db)" using parts tickets_inv_same[of s _ _ ?s] by simp
  moreover have "commands_inv ?s (rd_commands db)" using parts commands_inv_same[of s _ ?s] by simp
  ultimately show ?thesis unfolding db' using s(1) by (simp add: release_inv_def)
qed

lemma inv_onboard:
  assumes inv: "release_inv db" and step: "onboard n sl p c po db = Inr (u, db')"
  shows "release_inv db'"
proof (rule onboard_done[OF step])
  fix s
  assume "db' = db"
  with inv show ?thesis by simp
next
  assume *: "rd_scope db = None" "capacity_accepted (po_queue_capacity po)" "db' = db\<lparr>rd_scope := Some (new_release_scope n sl p c po)\<rparr>"
  then have "rd_releases db = []" "rd_instances db = []" "rd_commands db = []" "rd_tickets db = []"
    using inv by (simp_all add: release_inv_def)
  with * show ?thesis
    by (simp add: release_inv_def control_inv_def tickets_inv_def commands_inv_def phase_defs new_release_scope_def)
qed

lemma inv_baseline:
  assumes inv: "release_inv db" and step: "capture_baseline idn ep d db = Inr (u, db')"
  shows "release_inv db'"
proof (rule baseline_done[OF step])
  fix s r
  assume s: "rd_scope db = Some s" and r: "find_release db (ri_release idn) = Some r"
  assume db': "db' = update_release (ri_release idn) (\<lambda>x. x\<lparr>rr_previous := (rr_previous r)\<lparr>pv_digest := Some d\<rparr>\<rparr>) db"
  have c: "control_inv s (rd_releases db)" using inv s by (simp add: release_inv_Some)
  have r': "r \<in> set (rd_releases db)" "rr_id r = ri_release idn" using find_release_Some[OF r] by auto
  have same: "x = r" if "x \<in> set (rd_releases db)" "rr_id x = ri_release idn" for x
    using distinct_row[OF control_invD(2)[OF c] that(1) r'(1)] that(2) r'(2) by simp
  show ?thesis unfolding db' by (rule release_inv_row[OF inv s]) (use same in auto)
qed

lemma inv_evidence:
  assumes inv: "release_inv db" and step: "record_evidence idn report db = Inr (u, db')"
  shows "release_inv db'"
  by (rule evidence_done[OF step]) (simp add: release_inv_row[OF inv])


subsection \<open>The events of the instances\<close>

lemma release_inv_tables:
  assumes "release_inv db" and "rd_scope db = Some s"
    and "rd_scope db' = rd_scope db" and "rd_releases db' = rd_releases db"
    and "tickets_inv s (rd_instances db) (rd_tickets db) \<Longrightarrow> tickets_inv s (rd_instances db') (rd_tickets db')"
    and "commands_inv s (rd_commands db) \<Longrightarrow> commands_inv s (rd_commands db')"
  shows "release_inv db'"
  using assms by (auto simp: release_inv_def)

lemma tickets_inv_instances:
  assumes "tickets_inv s insts ts"
    and g: "\<And>i. i \<in> set insts \<Longrightarrow> ins_id (g i) = ins_id i \<and> ins_slot (g i) = ins_slot i \<and>
        (ins_closed (g i) \<longrightarrow> ins_closed i \<or> (\<forall>t \<in> set ts. unfinished_ticket t \<longrightarrow> tk_instance t \<noteq> ins_id i))"
  shows "tickets_inv s (map g insts) ts"
proof -
  have "ticket_ok s (map g insts) t" if t: "t \<in> set ts" for t
  proof -
    from assms(1) t have ok: "ticket_ok s insts t" by (simp add: tickets_inv_def)
    have "\<exists>i \<in> set (map g insts). ins_id i = tk_instance t \<and> ins_slot i = rs_active s \<and> \<not> ins_closed i" if u: "unfinished_ticket t"
    proof -
      from ok u obtain i where i: "i \<in> set insts" "ins_id i = tk_instance t" "ins_slot i = rs_active s" "\<not> ins_closed i"
        by (auto simp: ticket_ok_def)
      from g[OF i(1)] i t u have "\<not> ins_closed (g i)" by auto
      with g[OF i(1)] i show ?thesis by (intro bexI[of _ "g i"]) auto
    qed
    with ok show ?thesis by (auto simp: ticket_ok_def)
  qed
  moreover have "map ins_id (map g insts) = map ins_id insts" using g by simp
  ultimately show ?thesis using assms(1) by (simp only: tickets_inv_def) blast
qed

lemma tickets_inv_map:
  assumes "tickets_inv s insts ts"
    and g: "\<And>t. t \<in> set ts \<Longrightarrow> tk_id (g t) = tk_id t \<and> tk_instance (g t) = tk_instance t \<and> tk_slot (g t) = tk_slot t \<and>
        tk_epoch (g t) = tk_epoch t \<and> (unfinished_ticket (g t) \<longrightarrow> unfinished_ticket t)"
  shows "tickets_inv s insts (map g ts)"
proof -
  have "ticket_ok s insts (g t)" if "t \<in> set ts" for t
    using assms(1) that g[OF that] by (simp add: tickets_inv_def ticket_ok_def)
  moreover have "map tk_id (map g ts) = map tk_id ts" using g by simp
  ultimately show ?thesis using assms(1) by (simp only: tickets_inv_def set_map) blast
qed

lemma inv_retire:
  assumes inv: "release_inv db" and step: "retire_old_instances idn ep db = Inr (u, db')"
  shows "release_inv db'"
proof (rule retire_done[OF step])
  fix s
  assume s: "rd_scope db = Some s" and db': "db' = db\<lparr>rd_instances := map (retire_instance (rs_active s)) (rd_instances db)\<rparr>"
  show ?thesis
    unfolding db' by (rule release_inv_tables[OF inv s]) (auto simp: retire_instance_def split: if_splits intro!: tickets_inv_instances)
qed

lemma strict_Inr: "strict x = Inr y \<longleftrightarrow> x = Some y"
  by (simp add: strict_def split: option.splits)

lemma find_instance_Some: "find_instance db i = Some x \<Longrightarrow> x \<in> set (rd_instances db) \<and> ins_id x = i"
  using find_Some_mem[of "\<lambda>x. ins_id x = i" "rd_instances db" x] find_Some_holds[of "\<lambda>x. ins_id x = i" "rd_instances db" x]
  by (simp add: find_instance_def)

lemma find_instance_None: "find_instance db i = None \<longleftrightarrow> i \<notin> ins_id ` set (rd_instances db)"
  by (auto simp: find_instance_def find_None_iff)

lemma inv_register:
  assumes inv: "release_inv db" and step: "register_instance i sl c p w db = Inr (u, db')"
  shows "release_inv db'"
proof -
  obtain s where s: "rd_scope db = Some s" using step by (auto simp: register_instance_def bind_result_Inr strict_Inr)
  show ?thesis
  proof (cases "find_instance db i")
    case None
    define x where "x = \<lparr>ins_id = i, ins_slot = sl, ins_config = c, ins_profile = p, ins_owner = w,
           ins_retiring = False, ins_closed = False, ins_status = None\<rparr>"
    have db': "db' = db\<lparr>rd_instances := rd_instances db @ [x]\<rparr>"
      using step s None by (simp add: register_instance_def bind_result_Inr strict_Inr x_def split: if_splits)
    have new: "ins_id x \<notin> ins_id ` set (rd_instances db)" using None by (simp add: find_instance_None x_def)
    show ?thesis unfolding db'
      by (rule release_inv_tables[OF inv s]) (use new in \<open>auto simp: tickets_inv_def ticket_ok_def\<close>)
  next
    case (Some y)
    then have "db' = db"
      using step s by (simp add: register_instance_def bind_result_Inr strict_Inr split: if_splits)
    with inv show ?thesis by simp
  qed
qed

lemma find_ticket_None: "find_ticket db t = None \<longleftrightarrow> t \<notin> tk_id ` set (rd_tickets db)"
  by (auto simp: find_ticket_def find_None_iff)

text \<open>A ticket is given to an open, not retiring instance of the active slot at the current epoch only.\<close>

lemma admit_done:
  assumes "admit_writer inst ep t kind command parent db = Inr (got, db')"
  obtains (refused) "got = None" "db' = db"
  | (admitted) s i where "got = Some t" "rd_scope db = Some s" "find_instance db inst = Some i" "may_write s i ep"
    "parent_valid db inst ep parent \<or> rs_gate s \<and> \<not> uncertain_work db" "find_ticket db t = None"
    "db' = db\<lparr>rd_tickets := rd_tickets db @
        [\<lparr>tk_id = t, tk_instance = inst, tk_slot = ins_slot i, tk_epoch = ep, tk_command = command, tk_kind = kind,
          tk_state = TkActive, tk_operation = None\<rparr>]\<rparr>"
proof -
  from assms obtain s i where si: "rd_scope db = Some s" "find_instance db inst = Some i"
    by (auto simp: admit_writer_def bind_result_Inr strict_Inr)
  have id: "ins_id i = inst" using find_instance_Some[OF si(2)] by simp
  show ?thesis
  proof (cases "may_write s i ep \<and> (parent_valid db inst ep parent \<or> rs_gate s \<and> \<not> uncertain_work db)")
    case False
    then have "got = None" "db' = db"
      using assms si by (auto simp: admit_writer_def bind_result_Inr strict_Inr split: if_splits)
    then show ?thesis by (rule refused)
  next
    case True
    then have "insert_ticket t i ep command kind db = Inr (got, db')"
      using assms si by (auto simp: admit_writer_def bind_result_Inr strict_Inr split: if_splits)
    with True si id show ?thesis by (intro admitted[of s i]) (auto simp: insert_ticket_def split: if_splits)
  qed
qed

lemma inv_admit:
  assumes inv: "release_inv db" and step: "admit_writer inst ep t kind command parent db = Inr (got, db')"
  shows "release_inv db'"
proof (rule admit_done[OF step])
  assume "db' = db"
  with inv show ?thesis by simp
next
  fix s i
  assume s: "rd_scope db = Some s" and i: "find_instance db inst = Some i" "may_write s i ep" and t: "find_ticket db t = None"
  define x where "x = \<lparr>tk_id = t, tk_instance = inst, tk_slot = ins_slot i, tk_epoch = ep, tk_command = command, tk_kind = kind,
          tk_state = TkActive, tk_operation = None\<rparr>"
  assume "db' = db\<lparr>rd_tickets := rd_tickets db @
        [\<lparr>tk_id = t, tk_instance = inst, tk_slot = ins_slot i, tk_epoch = ep, tk_command = command, tk_kind = kind,
          tk_state = TkActive, tk_operation = None\<rparr>]\<rparr>"
  then have db': "db' = db\<lparr>rd_tickets := rd_tickets db @ [x]\<rparr>" by (simp add: x_def)
  have ok: "ticket_ok s (rd_instances db) x"
    using i(2) find_instance_Some[OF i(1)] by (auto simp: ticket_ok_def x_def may_write_def)
  have new: "tk_id x \<notin> tk_id ` set (rd_tickets db)" using t by (simp add: find_ticket_None x_def)
  show ?thesis unfolding db' by (rule release_inv_tables[OF inv s]) (use ok new in \<open>auto simp: tickets_inv_def\<close>)
qed

lemma no_scope_no_tickets: "release_inv db \<Longrightarrow> x \<in> set (rd_tickets db) \<Longrightarrow> \<exists>s. rd_scope db = Some s"
  by (auto simp: release_inv_def split: option.splits)

lemma inv_map_tickets:
  assumes inv: "release_inv db" and x: "list_ex p (rd_tickets db)"
    and g: "\<And>t. tk_id (g t) = tk_id t \<and> tk_instance (g t) = tk_instance t \<and> tk_slot (g t) = tk_slot t \<and>
        tk_epoch (g t) = tk_epoch t \<and> (unfinished_ticket (g t) \<longrightarrow> unfinished_ticket t)"
  shows "release_inv (db\<lparr>rd_tickets := map g (rd_tickets db)\<rparr>)"
proof -
  obtain s where s: "rd_scope db = Some s" using no_scope_no_tickets[OF inv] x by (auto simp: list_ex_iff)
  show ?thesis by (rule release_inv_tables[OF inv s]) (use g tickets_inv_map in auto)
qed

lemma inv_attach:
  assumes inv: "release_inv db" and step: "attach_ticket inst t op db = Inr (u, db')"
  shows "release_inv db'"
proof -
  from step have x: "list_ex (\<lambda>x. attachable x inst t op) (rd_tickets db)"
    and db': "db' = db\<lparr>rd_tickets := map (\<lambda>x. if attachable x inst t op then x\<lparr>tk_operation := Some op\<rparr> else x) (rd_tickets db)\<rparr>"
    by (auto simp: attach_ticket_def split: if_splits)
  show ?thesis unfolding db' by (rule inv_map_tickets[OF inv x]) (simp add: unfinished_ticket_def)
qed

lemma inv_finish_ticket:
  assumes inv: "release_inv db" and step: "finish_ticket inst t uncertain db = Inr (u, db')"
  shows "release_inv db'"
proof (cases "list_ex (\<lambda>x. tk_id x = t \<and> tk_instance x = inst \<and> tk_state x = TkActive) (rd_tickets db)")
  case True
  then have db': "db' = db\<lparr>rd_tickets := map (\<lambda>x. if tk_id x = t \<and> tk_instance x = inst \<and> tk_state x = TkActive
      then x\<lparr>tk_state := ticket_end uncertain\<rparr> else x) (rd_tickets db)\<rparr>"
    using step by (simp add: finish_ticket_def Let_def)
  show ?thesis unfolding db' by (rule inv_map_tickets[OF inv True]) (simp add: unfinished_ticket_def ticket_end_def)
next
  case False
  then have "db' = db" using step by (simp add: finish_ticket_def Let_def split: if_splits)
  with inv show ?thesis by simp
qed

end
