(* ===== verification/ReleaseQueue.thy ===== *)
theory ReleaseQueue
  imports ReleaseInvariant
begin

section \<open>Release control: the command queue\<close>

text \<open>
  The invariant of the command table through the queue's transactions, and the interpretation of
  the whole system as a component with an invariant.
\<close>

lemma find_command_Some: "find_command db i = Some c \<Longrightarrow> c \<in> set (rd_commands db) \<and> cm_id c = i"
  using find_Some_mem[of "\<lambda>x. cm_id x = i" "rd_commands db" c] find_Some_holds[of "\<lambda>x. cm_id x = i" "rd_commands db" c]
  by (simp add: find_command_def)

lemma find_command_None: "find_command db i = None \<longleftrightarrow> i \<notin> cm_id ` set (rd_commands db)"
  by (auto simp: find_command_def find_None_iff)

lemma next_queued_Some: "next_queued db = Some c \<Longrightarrow> c \<in> set (rd_commands db) \<and> cm_state c = CmQueued"
  using find_Some_mem[of "\<lambda>x. cm_state x = CmQueued" "rd_commands db" c]
    find_Some_holds[of "\<lambda>x. cm_state x = CmQueued" "rd_commands db" c]
  by (simp add: next_queued_def)

lemma count_rows_append [simp]: "count_rows p (xs @ ys) = count_rows p xs + count_rows p ys"
  by (simp add: count_rows_def)

lemma count_rows_map_le: "(\<And>x. x \<in> set xs \<Longrightarrow> p (g x) \<Longrightarrow> p x) \<Longrightarrow> count_rows p (map g xs) \<le> count_rows p xs"
  by (induction xs) (auto simp: count_rows_def le_SucI)

lemma commands_inv_map:
  assumes "commands_inv s cs"
    and g: "\<And>c. c \<in> set cs \<Longrightarrow> cm_id (g c) = cm_id c \<and> cm_principal (g c) = cm_principal c \<and> cm_key (g c) = cm_key c \<and>
        command_ok (g c) \<and> (unfinished_command (g c) \<longrightarrow> unfinished_command c)"
  shows "commands_inv s (map g cs)"
proof -
  have ids: "map cm_id (map g cs) = map cm_id cs"
    "map (\<lambda>c. (cm_principal c, cm_key c)) (map g cs) = map (\<lambda>c. (cm_principal c, cm_key c)) cs"
    using g by simp_all
  have "count_rows unfinished_command (map g cs) \<le> count_rows unfinished_command cs"
    by (rule count_rows_map_le) (use g in blast)
  then have "map g cs \<noteq> [] \<longrightarrow> int (count_rows unfinished_command (map g cs)) \<le> policy_capacity (rs_policy s)"
    using assms(1) by (auto simp: commands_inv_def)
  moreover have "command_ok c" if "c \<in> set (map g cs)" for c using that g by auto
  ultimately show ?thesis using assms(1) by (simp only: commands_inv_def ids) blast
qed

lemma capacity_of_accepted:
  "capacity_accepted (po_queue_capacity p) \<Longrightarrow> capacity_of p = Inr n \<Longrightarrow> n = Some (policy_capacity p)"
  by (auto simp: capacity_accepted_def capacity_of_def policy_capacity_def split: option.splits jval.splits if_splits)

text \<open>Enqueueing returns the command that has the key already, or appends one while there is room.\<close>

lemma enqueue_done:
  assumes "enqueue_command bytes inst i e db = Inr (c, db')"
  obtains (known) s where "rd_scope db = Some s" "find (same_request e) (rd_commands db) = Some c" "cm_hash c = en_hash e" "db' = db"
  | (accepted) s n where "rd_scope db = Some s" "find (same_request e) (rd_commands db) = None" "capacity_of (rs_policy s) = Inr n"
    "\<not> queue_full bytes db (rs_policy s) n e" "find_command db i = None" "c = new_command i e (rd_now db)"
    "db' = db\<lparr>rd_commands := rd_commands db @ [c]\<rparr>"
proof -
  from assms obtain s where s: "rd_scope db = Some s" by (auto simp: enqueue_command_def bind_result_Inr strict_Inr)
  show ?thesis
  proof (cases "find (same_request e) (rd_commands db)")
    case None
    with assms s obtain n where "capacity_of (rs_policy s) = Inr n" "\<not> queue_full bytes db (rs_policy s) n e"
      "find_command db i = None" "c = new_command i e (rd_now db)" "db' = db\<lparr>rd_commands := rd_commands db @ [c]\<rparr>"
      by (auto simp: enqueue_command_def bind_result_Inr strict_Inr Let_def split: if_splits)
    with s None show ?thesis by (rule accepted)
  next
    case (Some x)
    with assms s have "c = x" "cm_hash x = en_hash e" "db' = db"
      by (auto simp: enqueue_command_def bind_result_Inr strict_Inr split: if_splits)
    with s Some show ?thesis by (intro known) auto
  qed
qed

lemma inv_enqueue:
  assumes inv: "release_inv db" and step: "enqueue_command bytes inst i e db = Inr (c, db')"
  shows "release_inv db'"
proof (rule enqueue_done[OF step])
  assume "db' = db"
  with inv show ?thesis by simp
next
  fix s n
  assume s: "rd_scope db = Some s" and key: "find (same_request e) (rd_commands db) = None"
    and cap: "capacity_of (rs_policy s) = Inr n" "\<not> queue_full bytes db (rs_policy s) n e"
    and id: "find_command db i = None" and c: "c = new_command i e (rd_now db)"
    and db': "db' = db\<lparr>rd_commands := rd_commands db @ [c]\<rparr>"
  have "commands_inv s (rd_commands db @ [c])" if old: "commands_inv s (rd_commands db)"
  proof -
    have n: "n = Some (policy_capacity (rs_policy s))"
      using old cap(1) capacity_of_accepted by (simp add: commands_inv_def)
    have room: "int (count_rows unfinished_command (rd_commands db)) < policy_capacity (rs_policy s)"
      using cap(2) unfolding n by (simp add: queue_full_def)
    have "cm_id c \<notin> cm_id ` set (rd_commands db)" using id c by (simp add: find_command_None new_command_def)
    moreover have "(cm_principal c, cm_key c) \<notin> (\<lambda>c. (cm_principal c, cm_key c)) ` set (rd_commands db)"
      using key c by (auto simp: find_None_iff same_request_def new_command_def)
    moreover have "command_ok c" by (simp add: c new_command_def command_ok_def)
    moreover have "count_rows unfinished_command [c] = 1"
      by (simp add: c new_command_def count_rows_def unfinished_command_def)
    ultimately show ?thesis using old room by (auto simp: commands_inv_def)
  qed
  then show ?thesis unfolding db' by (intro release_inv_tables[OF inv s]) simp_all
qed

text \<open>A claim takes the oldest queued command and gives it a ticket.\<close>

lemma claim_done:
  assumes "claim_command inst ep t db = Inr (got, db')"
  obtains (nothing) "got = None" "db' = db"
  | (claimed) s c db1 where "got = Some (claimed_row inst ep t c)" "rd_scope db = Some s" "rs_gate s" "next_queued db = Some c"
    "admit_writer inst ep t (en_operation (cm_envelope c)) (Some (cm_id c)) None db = Inr (Some t, db1)"
    "db' = update_command (cm_id c) (claimed_row inst ep t) db1"
proof -
  from assms obtain s where s: "rd_scope db = Some s" by (auto simp: claim_command_def bind_result_Inr strict_Inr)
  show ?thesis
  proof (cases "rs_gate s \<and> ep = rs_epoch s \<and> next_queued db \<noteq> None")
    case False
    then have "got = None" "db' = db"
      using assms s by (auto simp: claim_command_def bind_result_Inr strict_Inr split: if_splits option.splits)
    then show ?thesis by (rule nothing)
  next
    case True
    then obtain c where c: "next_queued db = Some c" by blast
    with True assms s obtain g db1
      where a: "admit_writer inst ep t (en_operation (cm_envelope c)) (Some (cm_id c)) None db = Inr (g, db1)"
        and r: "(case g of None \<Rightarrow> (None, db1) | Some t' \<Rightarrow> (Some (claimed_row inst ep t' c), update_command (cm_id c) (claimed_row inst ep t') db1)) = (got, db')"
      by (auto simp: claim_command_def bind_result_Inr strict_Inr split: if_splits option.splits)
    from a show ?thesis
    proof (rule admit_done)
      assume "g = None" "db1 = db"
      with r have "got = None" "db' = db" by simp_all
      then show ?thesis by (rule nothing)
    next
      assume "g = Some t"
      with r True s c a show ?thesis by (intro claimed) auto
    qed
  qed
qed

lemma inv_update_command:
  assumes inv: "release_inv db" and c: "find_command db i = Some c"
    and f: "\<And>s. rd_scope db = Some s \<Longrightarrow> cm_id (f c) = cm_id c \<and> cm_principal (f c) = cm_principal c \<and> cm_key (f c) = cm_key c \<and>
        command_ok (f c) \<and> (unfinished_command (f c) \<longrightarrow> unfinished_command c)"
  shows "release_inv (update_command i f db)"
proof -
  have m: "c \<in> set (rd_commands db)" "cm_id c = i" using find_command_Some[OF c] by auto
  obtain s where s: "rd_scope db = Some s" using inv m by (auto simp: release_inv_def split: option.splits)
  have inv': "commands_inv s (rd_commands db)" using inv s by (simp add: release_inv_Some)
  have same: "x = c" if "x \<in> set (rd_commands db)" "cm_id x = i" for x
    using inv' distinct_row[of cm_id "rd_commands db" x c] that m by (simp add: commands_inv_def)
  have ok: "command_ok x" if "x \<in> set (rd_commands db)" for x using inv' that by (simp add: commands_inv_def)
  have "commands_inv s (map (\<lambda>x. if cm_id x = i then f x else x) (rd_commands db))"
    by (rule commands_inv_map[OF inv']) (use same ok f[OF s] in auto)
  then show ?thesis
    by (intro release_inv_tables[OF inv s]) (simp_all add: update_command_def)
qed

lemma find_command_distinct:
  assumes "distinct (map cm_id (rd_commands db))" and "c \<in> set (rd_commands db)"
  shows "find_command db (cm_id c) = Some c"
proof -
  have "find_command db (cm_id c) \<noteq> None" unfolding find_command_None using assms(2) by simp
  then obtain x where x: "find_command db (cm_id c) = Some x" by blast
  from find_command_Some[OF x] distinct_row[OF assms(1) _ assms(2), of x] have "x = c" by simp
  with x show ?thesis by simp
qed

lemma inv_distinct_commands: "release_inv db \<Longrightarrow> distinct (map cm_id (rd_commands db))"
  by (auto simp: release_inv_def commands_inv_def split: option.splits)

lemma inv_command_ok: "release_inv db \<Longrightarrow> c \<in> set (rd_commands db) \<Longrightarrow> command_ok c"
  by (auto simp: release_inv_def commands_inv_def split: option.splits)

lemma admit_commands:
  "admit_writer inst ep t kind command parent db = Inr (got, db') \<Longrightarrow> rd_commands db' = rd_commands db \<and> rd_scope db' = rd_scope db"
  by (erule admit_done) auto

lemma inv_claim:
  assumes inv: "release_inv db" and step: "claim_command inst ep t db = Inr (got, db')"
  shows "release_inv db'"
proof (rule claim_done[OF step])
  assume "db' = db"
  with inv show ?thesis by simp
next
  fix s c db1
  assume c: "next_queued db = Some c"
    and a: "admit_writer inst ep t (en_operation (cm_envelope c)) (Some (cm_id c)) None db = Inr (Some t, db1)"
    and db': "db' = update_command (cm_id c) (claimed_row inst ep t) db1"
  note q = next_queued_Some[OF c]
  have inv1: "release_inv db1" by (rule inv_admit[OF inv a])
  have cs: "rd_commands db1 = rd_commands db" using admit_commands[OF a] by simp
  have f: "find_command db1 (cm_id c) = Some c"
    by (rule find_command_distinct) (use inv_distinct_commands[OF inv1] q cs in simp_all)
  show ?thesis
    unfolding db'
    by (rule inv_update_command[OF inv1 f])
      (use inv_command_ok[OF inv, of c] q in \<open>auto simp: claimed_row_def command_ok_def unfinished_command_def\<close>)
qed

text \<open>A command is finished by its executor, once, with its ticket.\<close>

lemma finish_command_done:
  assumes "finish_command inst i st result db = Inr (u, db')"
  obtains c t where "terminal_status st" "find_command db i = Some c" "cm_state c = CmExecuting" "cm_ticket c = Some t"
    "cm_executor c = None \<or> cm_executor c = Some inst"
    "finish_ticket inst t (st = CmUncertain) (update_command i (\<lambda>c. c\<lparr>cm_state := st, cm_result := Some result\<rparr>) db) = Inr (u, db')"
  using assms by (auto simp: finish_command_def bind_result_Inr strict_Inr split: if_splits option.splits)

lemma inv_finish_command:
  assumes inv: "release_inv db" and step: "finish_command inst i st result db = Inr (u, db')"
  shows "release_inv db'"
proof (rule finish_command_done[OF step])
  fix c t
  assume st: "terminal_status st" and c: "find_command db i = Some c" "cm_state c = CmExecuting"
    and fin: "finish_ticket inst t (st = CmUncertain) (update_command i (\<lambda>c. c\<lparr>cm_state := st, cm_result := Some result\<rparr>) db) = Inr (u, db')"
  have ok: "command_ok c" using inv_command_ok[OF inv] find_command_Some[OF c(1)] by blast
  have "release_inv (update_command i (\<lambda>c. c\<lparr>cm_state := st, cm_result := Some result\<rparr>) db)"
    by (rule inv_update_command[OF inv c(1)])
      (use ok c(2) st in \<open>auto simp: command_ok_def terminal_status_def unfinished_command_def\<close>)
  then show ?thesis by (rule inv_finish_ticket[OF _ fin])
qed


subsection \<open>Closing, cleaning and the rest\<close>

lemma close_done:
  assumes "close_instance inst status db = Inr (u, db')"
  shows "quiescent db inst status" and "find_instance db inst \<noteq> None"
    and "db' = db\<lparr>rd_instances := map (\<lambda>i. if ins_id i = inst
        then i\<lparr>ins_closed := True, ins_retiring := True, ins_status := Some status\<rparr> else i) (rd_instances db)\<rparr>"
  using assms by (auto simp: close_instance_def split: if_splits)

lemma inv_close:
  assumes inv: "release_inv db" and step: "close_instance inst status db = Inr (u, db')"
  shows "release_inv db'"
proof -
  note d = close_done[OF step]
  from d(2) obtain x where "x \<in> set (rd_instances db)" using find_instance_Some by blast
  with inv obtain s where s: "rd_scope db = Some s" by (auto simp: release_inv_def split: option.splits)
  have no: "\<forall>t \<in> set (rd_tickets db). unfinished_ticket t \<longrightarrow> tk_instance t \<noteq> inst"
    using d(1) by (auto simp: quiescent_def list_ex_iff)
  have "tickets_inv s (map (\<lambda>i. if ins_id i = inst
        then i\<lparr>ins_closed := True, ins_retiring := True, ins_status := Some status\<rparr> else i) (rd_instances db)) (rd_tickets db)"
    if "tickets_inv s (rd_instances db) (rd_tickets db)"
    by (rule tickets_inv_instances[OF that]) (use no in auto)
  then show ?thesis unfolding d(3) by (intro release_inv_tables[OF inv s]) simp_all
qed

lemma release_inv_frame [simp]:
  "release_inv (db\<lparr>rd_cleanup := us\<rparr>) = release_inv db" "release_inv (db\<lparr>rd_coord := cd, rd_now := now\<rparr>) = release_inv db"
  by (simp_all add: release_inv_def split: option.split)

lemma inv_claim_cleanup: "release_inv db \<Longrightarrow> claim_source_cleanup inst t r db = Inr (b, db') \<Longrightarrow> release_inv db'"
  by (auto simp: claim_source_cleanup_def split: if_splits)

lemma inv_finish_cleanup: "release_inv db \<Longrightarrow> finish_source_cleanup inst t r db = Inr (u, db') \<Longrightarrow> release_inv db'"
  by (auto simp: finish_source_cleanup_def Let_def split: if_splits)

lemma inv_settle: "release_inv db \<Longrightarrow> (\<And>x db'. r = Inr (x, db') \<Longrightarrow> release_inv db') \<Longrightarrow> release_inv (settle_txn db r)"
  by (auto simp: settle_txn_def split: sum.splits)

lemmas event_invs = inv_onboard inv_begin inv_transition inv_baseline inv_transfer inv_rollback inv_reverse inv_finish_rollback
  inv_retire inv_abort inv_finish_abort inv_evidence inv_register inv_admit inv_attach inv_finish_ticket inv_enqueue inv_claim
  inv_finish_command inv_close inv_claim_cleanup inv_finish_cleanup

lemma release_step_inv: "release_inv db \<Longrightarrow> release_inv (release_step bytes db ev)"
  by (cases ev) (auto intro: inv_settle event_invs)

interpretation release: guarded_component "release_step bytes" release_inv
  by unfold_locales (rule release_step_inv)

end
