(* ===== verification/ReleaseForward.thy ===== *)
theory ReleaseForward
  imports ReleaseQueue
begin

section \<open>Release control: what only goes forward\<close>

text \<open>
  Epochs do not decrease, enrollment does not change, rows are not removed and keep what
  identifies them; a claimed command keeps its executor and ticket, a finished one its result, an
  ended ticket its end, a closed instance stays closed and a finished release finished.
\<close>

definition command_rank :: "command_state \<Rightarrow> nat" where
  "command_rank st = (case st of CmQueued \<Rightarrow> 0 | CmExecuting \<Rightarrow> 1 | _ \<Rightarrow> 2)"

definition command_le :: "command_row \<Rightarrow> command_row \<Rightarrow> bool" where
  "command_le c d \<longleftrightarrow> cm_id c = cm_id d \<and> cm_principal c = cm_principal d \<and> cm_key c = cm_key d \<and> cm_hash c = cm_hash d \<and>
     cm_envelope c = cm_envelope d \<and> command_rank (cm_state c) \<le> command_rank (cm_state d) \<and>
     (cm_state c \<noteq> CmQueued \<longrightarrow> cm_executor c = cm_executor d \<and> cm_epoch c = cm_epoch d \<and> cm_ticket c = cm_ticket d) \<and>
     (terminal_status (cm_state c) \<longrightarrow> d = c)"

definition ticket_le :: "ticket_row \<Rightarrow> ticket_row \<Rightarrow> bool" where
  "ticket_le t u \<longleftrightarrow> tk_id t = tk_id u \<and> tk_instance t = tk_instance u \<and> tk_slot t = tk_slot u \<and> tk_epoch t = tk_epoch u \<and>
     tk_command t = tk_command u \<and> tk_kind t = tk_kind u \<and> (tk_state t \<noteq> TkActive \<longrightarrow> tk_state u = tk_state t) \<and>
     (tk_operation t \<noteq> None \<longrightarrow> tk_operation u = tk_operation t)"

definition instance_le :: "instance_row \<Rightarrow> instance_row \<Rightarrow> bool" where
  "instance_le i j \<longleftrightarrow> ins_id i = ins_id j \<and> ins_slot i = ins_slot j \<and> ins_config i = ins_config j \<and>
     ins_profile i = ins_profile j \<and> ins_owner i = ins_owner j \<and> (ins_retiring i \<longrightarrow> ins_retiring j) \<and>
     (ins_closed i \<longrightarrow> ins_closed j)"

definition row_le :: "release_row \<Rightarrow> release_row \<Rightarrow> bool" where
  "row_le r q \<longleftrightarrow> rr_id r = rr_id q \<and> rr_identity r = rr_identity q \<and>
     pv_epoch (rr_previous r) = pv_epoch (rr_previous q) \<and> pv_active (rr_previous r) = pv_active (rr_previous q) \<and>
     pv_config (rr_previous r) = pv_config (rr_previous q) \<and>
     (pv_digest (rr_previous r) \<noteq> None \<longrightarrow> pv_digest (rr_previous q) = pv_digest (rr_previous r)) \<and>
     (finished_phase (rr_phase r) \<longrightarrow> rr_phase q = rr_phase r)"

definition cleanup_le :: "cleanup_row \<Rightarrow> cleanup_row \<Rightarrow> bool" where
  "cleanup_le u v \<longleftrightarrow> cu_ref u = cu_ref v \<and> cu_instance u = cu_instance v \<and> cu_ticket u = cu_ticket v \<and>
     (cu_state u = Cleaned \<longrightarrow> cu_state v = Cleaned)"

definition scope_le :: "release_scope option \<Rightarrow> release_scope option \<Rightarrow> bool" where
  "scope_le s t \<longleftrightarrow> (case s of None \<Rightarrow> True
     | Some a \<Rightarrow> (case t of None \<Rightarrow> False
         | Some b \<Rightarrow> rs_name a = rs_name b \<and> rs_profile a = rs_profile b \<and> rs_policy a = rs_policy b \<and> rs_epoch a \<le> rs_epoch b))"

definition release_le :: "release_db \<Rightarrow> release_db \<Rightarrow> bool" where
  "release_le a b \<longleftrightarrow> scope_le (rd_scope a) (rd_scope b) \<and> grows row_le (rd_releases a) (rd_releases b) \<and>
     grows instance_le (rd_instances a) (rd_instances b) \<and> grows command_le (rd_commands a) (rd_commands b) \<and>
     grows ticket_le (rd_tickets a) (rd_tickets b) \<and> grows cleanup_le (rd_cleanup a) (rd_cleanup b)"

named_theorems row_orders \<open>the orders on rows\<close>

lemmas [row_orders] = command_le_def ticket_le_def instance_le_def row_le_def cleanup_le_def

lemma row_orders_refl [simp]:
  "command_le c c" "ticket_le t t" "instance_le i i" "row_le r r" "cleanup_le u u" "scope_le s s"
  by (auto simp: row_orders scope_le_def split: option.split)

lemma command_le_trans: "command_le a b \<Longrightarrow> command_le b c \<Longrightarrow> command_le a c"
  unfolding command_le_def command_rank_def by (auto split: command_state.splits)

lemma ticket_le_trans: "ticket_le a b \<Longrightarrow> ticket_le b c \<Longrightarrow> ticket_le a c"
  by (auto simp: ticket_le_def)

lemma instance_le_trans: "instance_le a b \<Longrightarrow> instance_le b c \<Longrightarrow> instance_le a c"
  by (auto simp: instance_le_def)

lemma row_le_trans: "row_le a b \<Longrightarrow> row_le b c \<Longrightarrow> row_le a c"
  by (auto simp: row_le_def)

lemma cleanup_le_trans: "cleanup_le a b \<Longrightarrow> cleanup_le b c \<Longrightarrow> cleanup_le a c"
  by (auto simp: cleanup_le_def)

lemma scope_le_trans: "scope_le a b \<Longrightarrow> scope_le b c \<Longrightarrow> scope_le a c"
  by (auto simp: scope_le_def split: option.splits)

lemma release_le_refl [simp]: "release_le db db"
  by (simp add: release_le_def grows_refl)

lemma release_le_trans: "release_le a b \<Longrightarrow> release_le b c \<Longrightarrow> release_le a c"
  unfolding release_le_def
  using scope_le_trans grows_trans[of row_le, OF row_le_trans] grows_trans[of instance_le, OF instance_le_trans]
    grows_trans[of command_le, OF command_le_trans] grows_trans[of ticket_le, OF ticket_le_trans]
    grows_trans[of cleanup_le, OF cleanup_le_trans]
  by meson


subsection \<open>Every event goes forward\<close>

lemma le_move:
  assumes "rd_scope db = Some s" and "scope_le (Some s) (Some (g s))"
    and "\<And>r. r \<in> set (rd_releases db) \<Longrightarrow> rr_id r = rid \<Longrightarrow> row_le r (f r)"
  shows "release_le db (update_release rid f (update_scope g db))"
  using assms by (simp add: release_le_def grows_refl grows_map_mem)

lemma le_row:
  assumes "\<And>r. r \<in> set (rd_releases db) \<Longrightarrow> rr_id r = rid \<Longrightarrow> row_le r (f r)"
  shows "release_le db (update_release rid f db)"
  using assms by (simp add: release_le_def grows_refl grows_map_mem)

text \<open>The row of the owner is not finished while the phase of the scope is not.\<close>

lemma owner_row_open:
  assumes inv: "release_inv db" and s: "rd_scope db = Some s" "holds s idn ep"
    and r: "r \<in> set (rd_releases db)" "rr_id r = ri_release idn"
  shows "\<not> finished_phase (rr_phase r)"
proof -
  have c: "control_inv s (rd_releases db)" using inv s(1) by (simp add: release_inv_Some)
  have "row_fits s r" using control_invD(3)[OF c r(1)] holds_owner[OF s(2)] r(2) by (simp add: row_ok_def)
  moreover have "\<not> resting (rs_phase s)"
    using control_invD(1)[OF c] holds_owner[OF s(2)] by (simp add: release_scope_ok_def)
  ultimately show ?thesis by (auto simp: row_fits_def finished_phase_def resting_def)
qed

lemma le_phase:
  assumes inv: "release_inv db" and s: "rd_scope db = Some s" "holds s idn ep"
    and g: "scope_le (Some s) (Some (g s))"
    and f: "\<And>r. rr_id (f r) = rr_id r \<and> rr_identity (f r) = rr_identity r \<and> rr_previous (f r) = rr_previous r"
  shows "release_le db (update_release (ri_release idn) f (update_scope g db))"
  by (rule le_move[where g = g, OF s(1) g]) (use owner_row_open[OF inv s] f in \<open>auto simp: row_le_def\<close>)

lemma le_transition: "release_inv db \<Longrightarrow> transition idn ep cur nxt db = Inr (s', db') \<Longrightarrow> release_le db db'"
  by (erule transition_done) (auto intro!: le_phase simp: scope_le_def enter_phase_def mark_release_def)

lemma le_transfer: "release_inv db \<Longrightarrow> transfer_writer idn ep is db = Inr (s', db') \<Longrightarrow> release_le db db'"
  by (erule transfer_done) (auto intro!: le_phase simp: scope_le_def hand_over_def mark_release_def)

lemma le_rollback: "release_inv db \<Longrightarrow> begin_rollback idn ep a db = Inr (s', db') \<Longrightarrow> release_le db db'"
  by (erule rollback_done) (auto intro!: le_phase simp: scope_le_def)

lemma le_reverse: "release_inv db \<Longrightarrow> reverse_transfer idn ep is db = Inr (s', db') \<Longrightarrow> release_le db db'"
  by (erule reverse_done) (auto intro!: le_phase simp: scope_le_def hand_over_def)

lemma le_finish_rollback: "release_inv db \<Longrightarrow> finish_rollback idn ep db = Inr (s', db') \<Longrightarrow> release_le db db'"
  by (erule finish_rollback_done) (auto intro!: le_phase simp: scope_le_def mark_release_def)

lemma le_abort: "release_inv db \<Longrightarrow> abort_before_transfer idn ep db = Inr (s', db') \<Longrightarrow> release_le db db'"
  by (erule abort_done) (auto intro!: le_phase simp: scope_le_def mark_release_def)

lemma le_finish_abort: "release_inv db \<Longrightarrow> finish_abort idn ep db = Inr (s', db') \<Longrightarrow> release_le db db'"
  by (erule finish_abort_done) (auto intro!: le_phase simp: scope_le_def mark_release_def)

lemma le_evidence: "record_evidence idn e db = Inr (u, db') \<Longrightarrow> release_le db db'"
  by (erule evidence_done) (auto intro!: le_row simp: row_le_def)

lemma le_baseline:
  assumes inv: "release_inv db" and step: "capture_baseline idn ep d db = Inr (u, db')"
  shows "release_le db db'"
proof (rule baseline_done[OF step])
  fix s r
  assume s: "rd_scope db = Some s" and r: "find_release db (ri_release idn) = Some r" "pv_digest (rr_previous r) \<in> {None, Some d}"
  assume db': "db' = update_release (ri_release idn) (\<lambda>x. x\<lparr>rr_previous := (rr_previous r)\<lparr>pv_digest := Some d\<rparr>\<rparr>) db"
  have dis: "distinct (map rr_id (rd_releases db))" using inv s by (simp add: release_inv_Some control_inv_def)
  have same: "x = r" if "x \<in> set (rd_releases db)" "rr_id x = ri_release idn" for x
    using distinct_row[OF dis that(1)] find_release_Some[OF r(1)] that(2) by simp
  show ?thesis unfolding db' by (rule le_row) (use same r(2) in \<open>auto simp: row_le_def\<close>)
qed

lemma le_begin: "begin_release idn ep db = Inr (b, db') \<Longrightarrow> release_le db db'"
  by (erule begin_done) (simp_all add: release_le_def scope_le_def grows_refl grows_append)

lemma le_onboard: "onboard n sl p c po db = Inr (u, db') \<Longrightarrow> release_le db db'"
  by (erule onboard_done) (simp_all add: release_le_def scope_le_def grows_refl)

lemma le_retire: "retire_old_instances idn ep db = Inr (u, db') \<Longrightarrow> release_le db db'"
  by (erule retire_done) (simp add: release_le_def grows_refl grows_map_mem retire_instance_def instance_le_def)

lemma le_register: "register_instance i sl c p w db = Inr (u, db') \<Longrightarrow> release_le db db'"
  by (auto simp: register_instance_def bind_result_Inr release_le_def grows_refl grows_append split: if_splits option.splits)

lemma le_admit: "admit_writer inst ep t k c q db = Inr (g, db') \<Longrightarrow> release_le db db'"
  by (erule admit_done) (simp_all add: release_le_def grows_refl grows_append)

lemma le_attach: "attach_ticket inst t op db = Inr (u, db') \<Longrightarrow> release_le db db'"
  by (auto simp: attach_ticket_def release_le_def grows_refl attachable_def ticket_le_def intro!: grows_map_mem split: if_splits)

lemma le_finish_ticket: "finish_ticket inst t uncertain db = Inr (u, db') \<Longrightarrow> release_le db db'"
  by (auto simp: finish_ticket_def Let_def release_le_def grows_refl ticket_le_def intro!: grows_map_mem split: if_splits)

lemma le_enqueue: "enqueue_command bytes inst i e db = Inr (c, db') \<Longrightarrow> release_le db db'"
  by (erule enqueue_done) (simp_all add: release_le_def grows_refl grows_append)

lemma le_update_command:
  assumes inv: "release_inv db" and c: "find_command db i = Some c" and f: "command_le c (f c)"
  shows "release_le db (update_command i f db)"
proof -
  have same: "x = c" if "x \<in> set (rd_commands db)" "cm_id x = i" for x
    using distinct_row[OF inv_distinct_commands[OF inv] that(1)] find_command_Some[OF c] that(2) by simp
  have "grows command_le (rd_commands db) (map (\<lambda>x. if cm_id x = i then f x else x) (rd_commands db))"
    by (rule grows_map_mem) (use same f in auto)
  then show ?thesis by (simp add: release_le_def update_command_def grows_refl)
qed

lemma le_claim:
  assumes inv: "release_inv db" and step: "claim_command inst ep t db = Inr (got, db')"
  shows "release_le db db'"
proof (rule claim_done[OF step])
  fix s c db1
  assume c: "next_queued db = Some c"
    and a: "admit_writer inst ep t (en_operation (cm_envelope c)) (Some (cm_id c)) None db = Inr (Some t, db1)"
    and db': "db' = update_command (cm_id c) (claimed_row inst ep t) db1"
  note q = next_queued_Some[OF c]
  have inv1: "release_inv db1" by (rule inv_admit[OF inv a])
  have f: "find_command db1 (cm_id c) = Some c"
    by (rule find_command_distinct) (use inv_distinct_commands[OF inv1] q admit_commands[OF a] in simp_all)
  have "release_le db1 db'"
    unfolding db'
    by (rule le_update_command[OF inv1 f])
      (use q in \<open>simp add: command_le_def claimed_row_def command_rank_def terminal_status_def\<close>)
  with le_admit[OF a] show ?thesis by (rule release_le_trans)
qed simp

lemma le_finish_command:
  assumes inv: "release_inv db" and step: "finish_command inst i st result db = Inr (u, db')"
  shows "release_le db db'"
proof (rule finish_command_done[OF step])
  fix c t
  assume st: "terminal_status st" and c: "find_command db i = Some c" "cm_state c = CmExecuting"
    and fin: "finish_ticket inst t (st = CmUncertain) (update_command i (\<lambda>c. c\<lparr>cm_state := st, cm_result := Some result\<rparr>) db) = Inr (u, db')"
  have "release_le db (update_command i (\<lambda>c. c\<lparr>cm_state := st, cm_result := Some result\<rparr>) db)"
    by (rule le_update_command[OF inv c(1)])
      (use st c(2) in \<open>auto simp: command_le_def command_rank_def terminal_status_def\<close>)
  from this le_finish_ticket[OF fin] show ?thesis by (rule release_le_trans)
qed

lemma le_close: "close_instance inst status db = Inr (u, db') \<Longrightarrow> release_le db db'"
  by (auto simp: close_instance_def release_le_def grows_refl instance_le_def intro!: grows_map_mem split: if_splits)

lemma le_claim_cleanup: "claim_source_cleanup inst t r db = Inr (b, db') \<Longrightarrow> release_le db db'"
  by (auto simp: claim_source_cleanup_def release_le_def grows_refl grows_append split: if_splits)

lemma le_finish_cleanup: "finish_source_cleanup inst t r db = Inr (u, db') \<Longrightarrow> release_le db db'"
  by (auto simp: finish_source_cleanup_def Let_def release_le_def grows_refl cleanup_le_def intro!: grows_map_mem split: if_splits)

lemma le_settle: "(\<And>x db'. r = Inr (x, db') \<Longrightarrow> release_le db db') \<Longrightarrow> release_le db (settle_txn db r)"
  by (auto simp: settle_txn_def split: sum.splits)

lemma release_step_le: "release_inv db \<Longrightarrow> release_le db (release_step bytes db ev)"
proof (cases ev)
  case (EvElsewhere cd dt)
  then show ?thesis by (simp add: release_le_def grows_refl)
qed (auto intro!: le_settle intro: le_onboard le_begin le_transition le_baseline le_transfer le_rollback le_reverse
    le_finish_rollback le_retire le_abort le_finish_abort le_evidence le_register le_admit le_attach le_finish_ticket
    le_enqueue le_claim le_finish_command le_close le_claim_cleanup le_finish_cleanup)

interpretation release_order: monotone_component "release_step bytes" release_inv release_le
  by unfold_locales (auto intro: release_step_inv release_step_le release_le_trans)

end
