(* ===== verification/ReleaseProperties.thy ===== *)
theory ReleaseProperties
  imports ReleaseForward
begin

section \<open>Release control: what holds of every run\<close>

text \<open>
  The abstract machine of a release, as \<^verbatim>\<open>docs/ProdDelivery.md\<close> draws it: the slot that may
  write, the epoch and the phase. Every event of the system is a step of it or leaves it.
\<close>

type_synonym stage = "slot \<times> int \<times> release_phase"

inductive phase_step :: "stage \<Rightarrow> stage \<Rightarrow> bool" where
  prepare: "resting p \<Longrightarrow> phase_step (a, e, p) (a, e, PhPrepared)"
| drain: "phase_step (a, e, PhPrepared) (a, e, PhDraining)"
| switch_reads: "phase_step (a, e, PhDraining) (a, e, PhReadSwitched)"
| switch_writer: "phase_step (a, e, PhReadSwitched) (other_slot a, e + 1, PhWriterSwitched)"
| retire: "phase_step (a, e, PhWriterSwitched) (a, e, PhRetiring)"
| complete: "phase_step (a, e, PhRetiring) (a, e, PhCompleted)"
| abort: "p \<in> {PhPrepared, PhDraining, PhReadSwitched} \<Longrightarrow> phase_step (a, e, p) (a, e, PhAborting)"
| aborted: "phase_step (a, e, PhAborting) (a, e, PhAborted)"
| roll_back: "phase_step (a, e, PhWriterSwitched) (a, e, PhRollbackDraining)"
| switch_back: "phase_step (a, e, PhRollbackDraining) (other_slot a, e + 1, PhRollbackWriterSwitched)"
| retire_back: "phase_step (a, e, PhRollbackWriterSwitched) (a, e, PhRollbackRetiring)"
| rolled_back: "phase_step (a, e, PhRollbackRetiring) (a, e, PhRolledBack)"

definition stage_of :: "release_scope \<Rightarrow> stage" where
  "stage_of s = (rs_active s, rs_epoch s, rs_phase s)"

definition moves :: "release_scope \<Rightarrow> release_scope \<Rightarrow> bool" where
  "moves s s' \<longleftrightarrow> stage_of s' = stage_of s \<or> phase_step (stage_of s) (stage_of s')"

text \<open>A change of the epoch, with everything that was checked in its transaction.\<close>

definition fenced_transfer :: "release_db \<Rightarrow> release_scope \<Rightarrow> release_scope \<Rightarrow> bool" where
  "fenced_transfer db s s' \<longleftrightarrow> drained db = Inr () \<and> \<not> rs_gate s \<and> \<not> deadline_passed db s \<and> rs_gate s' \<and>
     rs_epoch s' = rs_epoch s + 1 \<and> rs_active s' = other_slot (rs_active s) \<and>
     candidates db (rs_active s') \<noteq> [] \<and> (\<forall>i \<in> set (candidates db (rs_active s')). ins_config i = rs_config s')"

definition scope_change :: "release_db \<Rightarrow> release_scope \<Rightarrow> release_scope \<Rightarrow> bool" where
  "scope_change db s s' \<longleftrightarrow> moves s s' \<and>
     (rs_epoch s' = rs_epoch s \<and> rs_active s' = rs_active s \<and> rs_config s' = rs_config s \<or> fenced_transfer db s s')"

lemma scope_change_refl [simp]: "scope_change db s s"
  by (simp add: scope_change_def moves_def)

lemma candidates_as_some:
  "candidates_as db c expected config \<Longrightarrow> expected \<noteq> [] \<Longrightarrow>
     candidates db c \<noteq> [] \<and> (\<forall>i \<in> set (candidates db c). ins_config i = config)"
  by (auto simp: candidates_as_def list_all_iff)

lemma change_transition:
  assumes step: "transition idn ep cur nxt db = Inr (x, db')" and s: "rd_scope db = Some s"
  shows "\<exists>s'. rd_scope db' = Some s' \<and> scope_change db s s'"
proof (rule transition_done[OF step])
  fix s1
  assume a: "rd_scope db = Some s1" "rs_phase s1 = cur" "next_in PHASES cur = Some nxt" "nxt \<noteq> PhWriterSwitched"
  assume db': "db' = update_release (ri_release idn) (mark_release nxt (rd_now db)) (update_scope (enter_phase nxt (rd_now db)) db)"
  have "phase_step (stage_of s) (stage_of (enter_phase nxt (rd_now db) s))"
    using a s by (auto simp: stage_of_def enter_phase_def PHASES_def split: if_splits intro: phase_step.intros)
  then show ?thesis
    using s unfolding db' by (simp add: scope_change_def moves_def enter_phase_def)
qed

lemma change_transfer:
  assumes inv: "release_inv db" and step: "transfer_writer idn ep expected db = Inr (x, db')" and s: "rd_scope db = Some s"
  shows "\<exists>s'. rd_scope db' = Some s' \<and> scope_change db s s'"
proof (rule transfer_done[OF step])
  fix s1 c
  assume a: "rd_scope db = Some s1" "rs_phase s1 = PhReadSwitched" "\<not> rs_gate s1" "expected \<noteq> []" "\<not> deadline_passed db s1"
    "rs_candidate s1 = Some c" "candidates_as db c expected (ri_config idn)" "drained db = Inr ()"
  assume db': "db' = update_release (ri_release idn) (mark_release PhWriterSwitched (rd_now db))
       (update_scope (hand_over c (ri_config idn) PhWriterSwitched) db)"
  have c: "c = other_slot (rs_active s)" using inv a(1,2,6) s by (simp add: release_inv_Some control_inv_def release_scope_ok_def)
  have "scope_change db s (hand_over c (ri_config idn) PhWriterSwitched s)"
    using a s c candidates_as_some[OF a(7,4)]
    by (auto simp: scope_change_def moves_def stage_of_def hand_over_def fenced_transfer_def intro: phase_step.intros)
  then show ?thesis using s unfolding db' by simp
qed

lemma change_reverse:
  assumes inv: "release_inv db" and step: "reverse_transfer idn ep expected db = Inr (x, db')" and s: "rd_scope db = Some s"
  shows "\<exists>s'. rd_scope db' = Some s' \<and> scope_change db s s'"
proof (rule reverse_done[OF step])
  fix s1 r
  assume a: "rd_scope db = Some s1" "holds s1 idn ep" "rs_phase s1 = PhRollbackDraining" "\<not> rs_gate s1"
    "find_release db (ri_release idn) = Some r" "\<not> deadline_passed db s1" "expected \<noteq> []"
    "candidates_as db (pv_active (rr_previous r)) expected (pv_config (rr_previous r))" "drained db = Inr ()"
  assume db': "db' = update_release (ri_release idn) (\<lambda>x. x\<lparr>rr_phase := PhRollbackWriterSwitched\<rparr>)
       (update_scope (hand_over (pv_active (rr_previous r)) (pv_config (rr_previous r)) PhRollbackWriterSwitched) db)"
  have c: "control_inv s1 (rd_releases db)" using inv a(1) by (simp add: release_inv_Some)
  have r: "r \<in> set (rd_releases db)" "rr_id r = ri_release idn" using find_release_Some[OF a(5)] by auto
  have "row_fits s1 r" using control_invD(3)[OF c r(1)] r(2) holds_owner[OF a(2)] by (simp add: row_ok_def)
  then have act: "pv_active (rr_previous r) = other_slot (rs_active s)"
    using a(1,3) s by (simp add: row_fits_def transfers_def)
  have "scope_change db s (hand_over (pv_active (rr_previous r)) (pv_config (rr_previous r)) PhRollbackWriterSwitched s)"
    using a s act candidates_as_some[OF a(8,7)]
    by (auto simp: scope_change_def moves_def stage_of_def hand_over_def fenced_transfer_def intro: phase_step.intros)
  then show ?thesis using s unfolding db' by simp
qed

lemmas change_simps = scope_change_def moves_def stage_of_def

lemma change_rollback:
  "begin_rollback idn ep a db = Inr (x, db') \<Longrightarrow> rd_scope db = Some s \<Longrightarrow> \<exists>s'. rd_scope db' = Some s' \<and> scope_change db s s'"
  by (erule rollback_done) (auto simp: change_simps intro: phase_step.intros)

lemma change_finish_rollback:
  "finish_rollback idn ep db = Inr (x, db') \<Longrightarrow> rd_scope db = Some s \<Longrightarrow> \<exists>s'. rd_scope db' = Some s' \<and> scope_change db s s'"
  by (erule finish_rollback_done) (auto simp: change_simps intro: phase_step.intros)

lemma change_abort:
  "abort_before_transfer idn ep db = Inr (x, db') \<Longrightarrow> rd_scope db = Some s \<Longrightarrow> \<exists>s'. rd_scope db' = Some s' \<and> scope_change db s s'"
  by (erule abort_done) (auto simp: change_simps intro: phase_step.intros)

lemma change_finish_abort:
  "finish_abort idn ep db = Inr (x, db') \<Longrightarrow> rd_scope db = Some s \<Longrightarrow> \<exists>s'. rd_scope db' = Some s' \<and> scope_change db s s'"
  by (erule finish_abort_done) (auto simp: change_simps intro: phase_step.intros)

lemma change_begin:
  "begin_release idn ep db = Inr (x, db') \<Longrightarrow> rd_scope db = Some s \<Longrightarrow> \<exists>s'. rd_scope db' = Some s' \<and> scope_change db s s'"
  by (erule begin_done) (auto simp: change_simps intro: phase_step.intros)

text \<open>The other events leave the scope row.\<close>

lemma same_scope:
  "capture_baseline idn ep d db = Inr (u, db') \<Longrightarrow> rd_scope db' = rd_scope db"
  "record_evidence idn e db = Inr (u1, db') \<Longrightarrow> rd_scope db' = rd_scope db"
  "retire_old_instances idn ep db = Inr (u2, db') \<Longrightarrow> rd_scope db' = rd_scope db"
  "register_instance i sl cf p w db = Inr (u3, db') \<Longrightarrow> rd_scope db' = rd_scope db"
  "admit_writer i ep t k cm q db = Inr (u4, db') \<Longrightarrow> rd_scope db' = rd_scope db"
  "attach_ticket i t op db = Inr (u5, db') \<Longrightarrow> rd_scope db' = rd_scope db"
  "finish_ticket i t un db = Inr (u6, db') \<Longrightarrow> rd_scope db' = rd_scope db"
  "enqueue_command bytes i ci en db = Inr (u7, db') \<Longrightarrow> rd_scope db' = rd_scope db"
  "close_instance i st db = Inr (u8, db') \<Longrightarrow> rd_scope db' = rd_scope db"
  "claim_source_cleanup i t rf db = Inr (u9, db') \<Longrightarrow> rd_scope db' = rd_scope db"
  "finish_source_cleanup i t rf db = Inr (u10, db') \<Longrightarrow> rd_scope db' = rd_scope db"
  by (auto elim!: baseline_done evidence_done retire_done admit_done enqueue_done
      simp: register_instance_def bind_result_Inr attach_ticket_def finish_ticket_def close_instance_def
        claim_source_cleanup_def finish_source_cleanup_def Let_def split: if_splits option.splits)

lemma rd_scope_update_command [simp]: "rd_scope (update_command i f db) = rd_scope db"
  by (simp add: update_command_def)

lemma same_scope_queue:
  "claim_command i ep t db = Inr (u, db') \<Longrightarrow> rd_scope db' = rd_scope db"
  "finish_command i c st r db = Inr (u', db') \<Longrightarrow> rd_scope db' = rd_scope db"
  by (auto elim!: claim_done finish_command_done dest: admit_commands same_scope)

lemma change_onboard:
  "onboard n sl p c po db = Inr (u, db') \<Longrightarrow> rd_scope db = Some s \<Longrightarrow> \<exists>s'. rd_scope db' = Some s' \<and> scope_change db s s'"
  by (erule onboard_done) auto

lemma change_same: "rd_scope db' = rd_scope db \<Longrightarrow> rd_scope db = Some s \<Longrightarrow> \<exists>s'. rd_scope db' = Some s' \<and> scope_change db s s'"
  by simp

lemma change_settle:
  assumes "rd_scope db = Some s" and "\<And>x db'. r = Inr (x, db') \<Longrightarrow> \<exists>s'. rd_scope db' = Some s' \<and> scope_change db s s'"
  shows "\<exists>s'. rd_scope (settle_txn db r) = Some s' \<and> scope_change db s s'"
  using assms by (auto simp: settle_txn_def split: sum.splits)

lemma step_scope_change:
  assumes inv: "release_inv db" and s: "rd_scope db = Some s"
  shows "\<exists>s'. rd_scope (release_step bytes db ev) = Some s' \<and> scope_change db s s'"
proof (cases ev)
  case (EvElsewhere cd dt)
  with s show ?thesis by simp
qed (use inv s in \<open>auto intro!: change_settle intro: change_onboard change_begin change_transition change_transfer
    change_rollback change_reverse change_finish_rollback change_abort change_finish_abort
    change_same[OF same_scope(1)] change_same[OF same_scope(2)] change_same[OF same_scope(3)] change_same[OF same_scope(4)]
    change_same[OF same_scope(5)] change_same[OF same_scope(6)] change_same[OF same_scope(7)] change_same[OF same_scope(8)]
    change_same[OF same_scope(9)] change_same[OF same_scope(10)] change_same[OF same_scope(11)]
    change_same[OF same_scope_queue(1)] change_same[OF same_scope_queue(2)]\<close>)



subsection \<open>A small release\<close>

definition demo_policy :: policy where
  "demo_policy = \<lparr>po_queue_capacity = Some (JInt 2), po_byte_limit = None, po_drain_seconds = None, po_writers = [],
     po_exception = None, po_other = []\<rparr>"

definition demo_release :: release_identity where
  "demo_release = \<lparr>ri_scope = [1], ri_release = [9], ri_tag = [118, 49, 46, 48, 46, 48], ri_commit = [], ri_digest = [5],
     ri_config = [4], ri_protocol = 1\<rparr>"

definition demo_coord :: coord_db where
  "demo_coord = empty_db\<lparr>cd_workspace := Some \<lparr>ws_manifest_hash = [], ws_generation = 1, ws_fenced = False,
     ws_fence_reason = None\<rparr>\<rparr>"

definition demo_enrolled :: "release_event list" where
  "demo_enrolled = [EvElsewhere demo_coord 0, EvOnboard [1] Blue [2] [3] demo_policy, EvRegister [66] Blue [3] [2] 7]"

definition demo_reads_switched :: "release_event list" where
  "demo_reads_switched = demo_enrolled @ [EvBegin demo_release 1, EvRegister [71] Green [4] [2] 8,
     EvTransition demo_release 1 PhPrepared PhDraining, EvTransition demo_release 1 PhDraining PhReadSwitched]"

definition demo_transfer :: release_event where
  "demo_transfer = EvTransfer demo_release 1 [[71]]"

abbreviation release_run :: "release_event list \<Rightarrow> release_db" where
  "release_run es \<equiv> run (release_step (\<lambda>_. 1)) empty_release_db es"

lemma reachable_inv: "release_inv (run (release_step bytes) empty_release_db es)"
  by (rule release.run_inv[OF release_inv_empty])


subsection \<open>The phase machine\<close>

text \<open>
  C6: Every event of a reachable scope is a step of the documented phase machine, or leaves the
  writing slot, the epoch and the phase: whatever the operators, the instances and the rest of
  the system do, in any order and with any arguments.
\<close>

theorem release_refines:
  assumes "rd_scope (run (release_step bytes) empty_release_db es) = Some s"
  shows "\<exists>s'. rd_scope (release_step bytes (run (release_step bytes) empty_release_db es) ev) = Some s' \<and>
    (stage_of s' = stage_of s \<or> phase_step (stage_of s) (stage_of s'))"
  using step_scope_change[OF reachable_inv assms]
  by (fastforce simp: scope_change_def moves_def)

lemma demo_scope:
  "\<exists>s. rd_scope (release_run demo_reads_switched) = Some s \<and> rs_phase s = PhReadSwitched \<and> rs_epoch s = 1"
proof -
  have "map_option (\<lambda>s. (rs_phase s, rs_epoch s)) (rd_scope (release_run demo_reads_switched)) = Some (PhReadSwitched, 1)"
    by code_simp
  then show ?thesis by auto
qed

lemma release_refines_witness:
  "\<exists>s s'. rd_scope (release_step (\<lambda>_. 1) (release_run demo_reads_switched) demo_transfer) = Some s' \<and>
    (stage_of s' = stage_of s \<or> phase_step (stage_of s) (stage_of s')) \<and> rs_phase s = PhReadSwitched"
  using demo_scope release_refines[of "\<lambda>_. 1" demo_reads_switched _ demo_transfer] by blast



definition demo_admitted :: "release_event list" where
  "demo_admitted = demo_enrolled @ [EvAdmit [66] 1 5 [] None None]"



text \<open>
  C5: The epoch of a reachable scope changes only by one and only in a transfer whose own
  transaction found the gate closed, the drain budget unspent, the coordinator unfenced and free
  of write operations, claims and locks, no unfinished ticket and no uncertain command, and a
  nonempty set of candidate instances that all have the configuration that takes over; the other
  slot becomes the writer.
\<close>

theorem release_transfer_fenced:
  assumes "rd_scope (run (release_step bytes) empty_release_db es) = Some s"
    and "rd_scope (release_step bytes (run (release_step bytes) empty_release_db es) ev) = Some s'"
    and "rs_epoch s' \<noteq> rs_epoch s \<or> rs_active s' \<noteq> rs_active s \<or> rs_config s' \<noteq> rs_config s"
  defines "db \<equiv> run (release_step bytes) empty_release_db es"
  shows "rs_epoch s' = rs_epoch s + 1 \<and> rs_active s' = other_slot (rs_active s) \<and> \<not> rs_gate s \<and> \<not> deadline_passed db s \<and>
    filter unfinished_ticket (rd_tickets db) = [] \<and> filter (\<lambda>c. cm_state c = CmUncertain) (rd_commands db) = [] \<and>
    (\<exists>w. cd_workspace (rd_coord db) = Some w \<and> \<not> ws_fenced w) \<and>
    filter (\<lambda>p. or_kind p \<notin> set READ_KINDS) (active_operations (rd_coord db)) = [] \<and>
    cd_claims (rd_coord db) = [] \<and> cd_locks (rd_coord db) = [] \<and>
    candidates db (rs_active s') \<noteq> [] \<and> filter (\<lambda>i. ins_config i \<noteq> rs_config s') (candidates db (rs_active s')) = []"
proof -
  have inv: "release_inv db" unfolding db_def by (rule reachable_inv)
  have "fenced_transfer db s s'"
    using step_scope_change[OF inv, of s bytes ev] assms by (auto simp: scope_change_def)
  then show ?thesis
    by (auto simp: fenced_transfer_def drained_def bind_result_Inr require_empty_Inr evidence_empty_def
        collect_drain_evidence_def Let_def count_rows_def split: option.splits if_splits)
qed

lemma demo_transferred:
  "\<exists>s'. rd_scope (release_step (\<lambda>_. 1) (release_run demo_reads_switched) demo_transfer) = Some s' \<and> rs_epoch s' = 2"
proof -
  have "map_option rs_epoch (rd_scope (release_step (\<lambda>_. 1) (release_run demo_reads_switched) demo_transfer)) = Some 2"
    by code_simp
  then show ?thesis by auto
qed

lemma release_transfer_fenced_witness:
  "filter unfinished_ticket (rd_tickets (release_run demo_reads_switched)) = [] \<and>
   cd_locks (rd_coord (release_run demo_reads_switched)) = []"
proof -
  obtain s where s: "rd_scope (release_run demo_reads_switched) = Some s" "rs_epoch s = 1" using demo_scope by blast
  obtain s' where s': "rd_scope (release_step (\<lambda>_. 1) (release_run demo_reads_switched) demo_transfer) = Some s'" "rs_epoch s' = 2"
    using demo_transferred by blast
  from release_transfer_fenced[OF s(1) s'(1)] s(2) s'(2) show ?thesis by simp
qed


text \<open>
  C19: In every reachable state the write gate is closed in exactly the draining phases, a release
  owns the scope in exactly the phases that are not at rest, the candidate is the slot that does
  not write, and the owner's record has the scope's phase, the epoch it began in plus the
  transfers made since, and its slot and configuration agree with who writes now.
\<close>

theorem release_phase_invariant:
  assumes "rd_scope (run (release_step bytes) empty_release_db es) = Some s"
  shows "rs_gate s = (\<not> closed_phase (rs_phase s)) \<and> (rs_owner s = None) = resting (rs_phase s) \<and>
    (rs_phase s = PhIdle \<or> rs_candidate s = Some (other_slot (rs_active s))) \<and>
    (case rs_owner s of None \<Rightarrow> True
     | Some rid \<Rightarrow> \<exists>r \<in> set (rd_releases (run (release_step bytes) empty_release_db es)).
         rr_id r = rid \<and> rr_phase r = rs_phase s \<and> rs_identity s = Some (rr_identity r) \<and>
         rs_epoch s = pv_epoch (rr_previous r) + transfers (rs_phase s) \<and>
         (rs_active s = pv_active (rr_previous r)) = (transfers (rs_phase s) \<noteq> 1) \<and>
         rs_config s = (if transfers (rs_phase s) = 1 then ri_config (rr_identity r) else pv_config (rr_previous r)))"
proof -
  let ?db = "run (release_step bytes) empty_release_db es"
  have c: "control_inv s (rd_releases ?db)"
    using reachable_inv[of bytes es] release_inv_Some[OF assms] by simp
  have ok: "release_scope_ok s" by (rule control_invD(1)[OF c])
  have "case rs_owner s of None \<Rightarrow> True
     | Some rid \<Rightarrow> \<exists>r \<in> set (rd_releases ?db).
         rr_id r = rid \<and> rr_phase r = rs_phase s \<and> rs_identity s = Some (rr_identity r) \<and>
         rs_epoch s = pv_epoch (rr_previous r) + transfers (rs_phase s) \<and>
         (rs_active s = pv_active (rr_previous r)) = (transfers (rs_phase s) \<noteq> 1) \<and>
         rs_config s = (if transfers (rs_phase s) = 1 then ri_config (rr_identity r) else pv_config (rr_previous r))"
  proof (cases "rs_owner s")
    case (Some rid)
    from control_invD(4)[OF c Some] obtain r where r: "r \<in> set (rd_releases ?db)" "rr_id r = rid" "row_fits s r" by blast
    then show ?thesis unfolding Some by (auto simp: row_fits_def intro!: bexI[of _ r])
  qed simp
  with ok show ?thesis by (auto simp: release_scope_ok_def split: if_splits)
qed

lemma release_phase_invariant_witness:
  "\<exists>s. rd_scope (release_run demo_reads_switched) = Some s \<and> rs_gate s = (\<not> closed_phase (rs_phase s)) \<and> rs_epoch s = 1"
  using demo_scope release_phase_invariant[of "\<lambda>_. 1" demo_reads_switched] by blast


text \<open>
  Whatever happens next in a reachable state, the epoch does not decrease and the enrollment
  stays; commands keep their identity and hash, a claimed command keeps its executor, epoch and
  ticket and a finished one its result; tickets that ended stay ended, closed instances closed
  and finished releases finished; no row is ever removed.
\<close>

theorem release_only_forward:
  "release_le (run (release_step bytes) empty_release_db es)
     (run (release_step bytes) (run (release_step bytes) empty_release_db es) fs)"
  using release_order.run_le[OF reachable_inv] .


subsection \<open>No takeover\<close>

text \<open>The identity that an event of the operator carries.\<close>

fun event_identity :: "release_event \<Rightarrow> release_identity option" where
  "event_identity (EvBegin idn ep) = Some idn"
| "event_identity (EvTransition idn ep cur nxt) = Some idn"
| "event_identity (EvBaseline idn ep d) = Some idn"
| "event_identity (EvTransfer idn ep is) = Some idn"
| "event_identity (EvBeginRollback idn ep a) = Some idn"
| "event_identity (EvReverse idn ep is) = Some idn"
| "event_identity (EvFinishRollback idn ep) = Some idn"
| "event_identity (EvRetire idn ep) = Some idn"
| "event_identity (EvAbort idn ep) = Some idn"
| "event_identity (EvFinishAbort idn ep) = Some idn"
| "event_identity (EvEvidence idn e) = Some idn"
| "event_identity _ = None"

lemma settle_same: "(\<And>x db'. r = Inr (x, db') \<Longrightarrow> db' = db) \<Longrightarrow> settle_txn db r = db"
  by (auto simp: settle_txn_def split: sum.splits)

lemma begin_of_other:
  assumes "rd_scope db = Some s" and "rs_owner s \<noteq> None" and "begin_release idn ep db = Inr (b, db')"
  shows "db' = db"
  using assms(3) by (rule begin_done) (use assms(1,2) in auto)

text \<open>
  While a release owns the scope, every operator's transaction that carries another identity
  changes nothing, whatever epoch, phase or approval it presents: there is no automatic takeover,
  and the same release id with different contents is another identity.
\<close>

theorem release_no_takeover:
  assumes "rd_scope db = Some s" and "rs_owner s = Some rid" and "rs_identity s = Some mine"
    and "event_identity ev = Some idn" and "idn \<noteq> mine"
  shows "release_step bytes db ev = db"
proof (cases ev)
  case (EvBegin a b)
  show ?thesis unfolding EvBegin release_step.simps
    by (rule settle_same) (use begin_of_other[OF assms(1)] assms(2) in auto)
next
  case (EvBeginRollback a b c)
  with assms show ?thesis
    by (auto intro!: settle_same simp: begin_rollback_def bind_result_Inr find_scope_Inr split: option.splits if_splits)
qed (use assms in \<open>auto intro!: settle_same elim!: transition_done baseline_done transfer_done reverse_done finish_rollback_done
    retire_done abort_done finish_abort_done evidence_done simp: holds_def\<close>)

lemma release_no_takeover_witness:
  "release_step (\<lambda>_. 1) (release_run demo_reads_switched) (EvAbort (demo_release\<lparr>ri_digest := [6]\<rparr>) 1) = release_run demo_reads_switched"
proof -
  have "map_option (\<lambda>s. (rs_owner s, rs_identity s)) (rd_scope (release_run demo_reads_switched)) = Some (Some [9], Some demo_release)"
    by code_simp
  then obtain s where "rd_scope (release_run demo_reads_switched) = Some s" "rs_owner s = Some [9]" "rs_identity s = Some demo_release"
    by auto
  moreover have "demo_release\<lparr>ri_digest := [6]\<rparr> \<noteq> demo_release"
    using arg_cong[of _ _ ri_digest] by (force simp: demo_release_def)
  ultimately show ?thesis by (intro release_no_takeover[where idn = "demo_release\<lparr>ri_digest := [6]\<rparr>"]) simp_all
qed


subsection \<open>Commands\<close>

text \<open>The ids of the commands that the claims of a run give out, in order.\<close>

fun claimed_by :: "release_db \<Rightarrow> release_event \<Rightarrow> uuid list" where
  "claimed_by db (EvClaim i ep t) = (case claim_command i ep t db of Inr (Some c, _) \<Rightarrow> [cm_id c] | _ \<Rightarrow> [])"
| "claimed_by db _ = []"

fun claimed_ids :: "(envelope \<Rightarrow> int) \<Rightarrow> release_db \<Rightarrow> release_event list \<Rightarrow> uuid list" where
  "claimed_ids bytes db [] = []"
| "claimed_ids bytes db (ev # es) = claimed_by db ev @ claimed_ids bytes (release_step bytes db ev) es"

definition spent :: "release_db \<Rightarrow> uuid \<Rightarrow> bool" where
  "spent db i \<longleftrightarrow> (\<exists>c \<in> set (rd_commands db). cm_id c = i \<and> cm_state c \<noteq> CmQueued)"

lemma spent_forward:
  assumes "release_le db db'" and "spent db i"
  shows "spent db' i"
proof -
  from assms(2) obtain c where c: "c \<in> set (rd_commands db)" "cm_id c = i" "cm_state c \<noteq> CmQueued" by (auto simp: spent_def)
  from assms(1) have "grows command_le (rd_commands db) (rd_commands db')" by (simp add: release_le_def)
  from grows_member[OF this c(1)] obtain d where d: "d \<in> set (rd_commands db')" "command_le c d" by blast
  then have "cm_id d = i" "cm_state d \<noteq> CmQueued"
    using c(2,3) by (auto simp: command_le_def command_rank_def split: command_state.splits)
  with d(1) show ?thesis by (auto simp: spent_def)
qed

lemma claimed_by_spends:
  assumes inv: "release_inv db" and i: "i \<in> set (claimed_by db ev)"
  shows "\<not> spent db i \<and> spent (release_step bytes db ev) i \<and> claimed_by db ev = [i]"
proof -
  from i obtain inst ep t c db' where ev: "ev = EvClaim inst ep t" and r: "claim_command inst ep t db = Inr (Some c, db')" "cm_id c = i"
  proof (cases ev)
    case (EvClaim inst ep t)
    with i obtain c db' where "claim_command inst ep t db = Inr (Some c, db')" "cm_id c = i"
      by (cases "claim_command inst ep t db") (auto split: option.splits)
    with EvClaim show ?thesis by (rule that)
  qed simp_all
  have step: "release_step bytes db ev = db'" by (simp add: ev r(1))
  from r(1) show ?thesis
  proof (rule claim_done)
    fix s c0 db1
    assume c: "Some c = Some (claimed_row inst ep t c0)" and q: "next_queued db = Some c0"
      and a: "admit_writer inst ep t (en_operation (cm_envelope c0)) (Some (cm_id c0)) None db = Inr (Some t, db1)"
      and db': "db' = update_command (cm_id c0) (claimed_row inst ep t) db1"
    have id: "cm_id c0 = i" using c r(2) by (simp add: claimed_row_def)
    have m: "c0 \<in> set (rd_commands db)" "cm_state c0 = CmQueued" using next_queued_Some[OF q] by auto
    have "\<not> spent db i"
      using distinct_row[OF inv_distinct_commands[OF inv] _ m(1)] m(2) id by (auto simp: spent_def)
    moreover have "claimed_row inst ep t c0 \<in> set (rd_commands db')"
      unfolding db' using m(1) admit_commands[OF a] by (force simp: update_command_def)
    then have "spent db' i"
      unfolding spent_def by (rule bexI[rotated]) (simp add: id claimed_row_def)
    ultimately show ?thesis using ev r(1,2) step by simp
  qed simp
qed

lemma claimed_ids_distinct:
  "release_inv db \<Longrightarrow> distinct (claimed_ids bytes db es) \<and> (\<forall>i \<in> set (claimed_ids bytes db es). \<not> spent db i)"
proof (induction es arbitrary: db)
  case (Cons ev es)
  let ?db = "release_step bytes db ev"
  note ih = Cons.IH[OF release_step_inv[OF Cons.prems, of bytes ev]]
  have later: "\<not> spent db i" if "i \<in> set (claimed_ids bytes ?db es)" for i
    using ih that spent_forward[OF release_step_le[OF Cons.prems]] by blast
  have now: "\<not> spent db i \<and> i \<notin> set (claimed_ids bytes ?db es) \<and> claimed_by db ev = [i]" if "i \<in> set (claimed_by db ev)" for i
    using claimed_by_spends[OF Cons.prems that, of bytes] ih by blast
  have "distinct (claimed_by db ev)"
  proof (cases "claimed_by db ev")
    case (Cons i js)
    then have "i \<in> set (claimed_by db ev)" by simp
    with now have "claimed_by db ev = [i]" by blast
    then show ?thesis by simp
  qed simp
  then show ?case using ih later now by auto
qed simp

text \<open>
  C10: In any run no command is given out twice: every claim by every instance, before and after
  transfers, rollbacks and aborts, takes a command that no claim has taken, so an accepted command
  is executed at most once, its outcome known or not.
\<close>

theorem release_claimed_once: "distinct (claimed_ids bytes empty_release_db es)"
  using claimed_ids_distinct[OF release_inv_empty] by blast


text \<open>
  The unfinished commands of a reachable scope never exceed the capacity that it was enrolled
  with, and no two commands have the same principal and idempotency key.
\<close>

theorem release_queue_bounded:
  assumes "rd_scope (run (release_step bytes) empty_release_db es) = Some s"
  defines "cs \<equiv> rd_commands (run (release_step bytes) empty_release_db es)"
  shows "int (count_rows unfinished_command cs) \<le> policy_capacity (rs_policy s) \<and>
    distinct (map (\<lambda>c. (cm_principal c, cm_key c)) cs)"
proof -
  have "commands_inv s cs" unfolding cs_def using reachable_inv[of bytes es] release_inv_Some[OF assms(1)] by simp
  moreover have "0 \<le> policy_capacity (rs_policy s)" if "capacity_accepted (po_queue_capacity (rs_policy s))"
    using that by (auto simp: capacity_accepted_def policy_capacity_def split: option.splits jval.splits)
  ultimately show ?thesis by (cases cs) (auto simp: commands_inv_def count_rows_def)
qed

definition demo_envelope :: envelope where
  "demo_envelope = \<lparr>en_operation = [], en_version = 1, en_scope = [1], en_principal_id = [80], en_principal = [], en_key = [75],
     en_hash = [72], en_payload = [], en_refs = []\<rparr>"

definition demo_queued :: "release_event list" where
  "demo_queued = demo_enrolled @ [EvEnqueue [66] 20 demo_envelope, EvEnqueue [66] 21 (demo_envelope\<lparr>en_key := [76]\<rparr>),
     EvEnqueue [66] 22 (demo_envelope\<lparr>en_key := [77]\<rparr>)]"

lemma release_queue_bounded_witness:
  "int (count_rows unfinished_command (rd_commands (release_run demo_queued))) = 2 \<and> policy_capacity demo_policy = 2 \<and>
   distinct (map (\<lambda>c. (cm_principal c, cm_key c)) (rd_commands (release_run demo_queued)))"
proof -
  have "map_option rs_policy (rd_scope (release_run demo_queued)) = Some demo_policy" by code_simp
  then obtain s where s: "rd_scope (release_run demo_queued) = Some s" by auto
  have "int (count_rows unfinished_command (rd_commands (release_run demo_queued))) = 2 \<and> policy_capacity demo_policy = 2"
    by code_simp
  with release_queue_bounded[OF s] show ?thesis by blast
qed

end
