(* ===== verification/ReleaseOutcomes.thy ===== *)
theory ReleaseOutcomes
  imports ReleaseProperties
begin

section \<open>Release control: aborts, rollbacks and receipts\<close>

text \<open>
  What an abort and a rollback leave behind, that an idempotency key always leads back to the
  same command, and two places where the error that a caller sees is not the one that is meant.
\<close>

text \<open>The owner's row, found by id.\<close>

lemma owner_row:
  assumes "release_inv db" and "rd_scope db = Some s" and "holds s idn ep"
  obtains r where "find_release db (ri_release idn) = Some r" "rr_identity r = idn" "row_fits s r"
proof -
  have c: "control_inv s (rd_releases db)" using assms(1,2) by (simp add: release_inv_Some)
  note own = holds_owner[OF assms(3)]
  from control_invD(4)[OF c own] have "find_release db (ri_release idn) \<noteq> None" unfolding find_release_None by (metis imageI)
  then obtain r where r: "find_release db (ri_release idn) = Some r" by blast
  from find_release_Some[OF r] have m: "r \<in> set (rd_releases db)" "rr_id r = ri_release idn" by auto
  from control_invD(3)[OF c m(1)] own m(2) have fit: "row_fits s r" by (simp add: row_ok_def)
  then have "rr_identity r = idn" using assms(3) by (simp add: row_fits_def holds_def)
  then show ?thesis using r fit by (intro that)
qed


text \<open>
  C20: An abort that succeeds in a reachable state has found the writer where the release began:
  same epoch, slot and configuration as recorded, so nothing was transferred; no ticket and no
  command is uncertain, the gate is open again and the release still owns the scope.
\<close>

theorem release_abort_before_transfer:
  assumes "abort_before_transfer idn ep (run (release_step bytes) empty_release_db es) = Inr (s', db')"
  defines "db \<equiv> run (release_step bytes) empty_release_db es"
  shows "\<exists>r s. find_release db (ri_release idn) = Some r \<and> rd_scope db = Some s \<and> rd_scope db' = Some s' \<and>
    rs_epoch s' = pv_epoch (rr_previous r) \<and> rs_active s' = pv_active (rr_previous r) \<and>
    rs_config s' = pv_config (rr_previous r) \<and> stage_of s' = (rs_active s, rs_epoch s, PhAborting) \<and>
    rs_gate s' \<and> rs_owner s' = Some (ri_release idn) \<and> \<not> uncertain_work db"
proof -
  have inv: "release_inv db" unfolding db_def by (rule reachable_inv)
  have step: "abort_before_transfer idn ep db = Inr (s', db')" using assms by simp
  show ?thesis
  proof (rule abort_done[OF step])
    fix s
    assume s: "rd_scope db = Some s" "holds s idn ep" "rs_phase s \<in> {PhPrepared, PhDraining, PhReadSwitched}" "\<not> uncertain_work db"
    assume db': "db' = update_release (ri_release idn) (mark_release PhAborting (rd_now db))
       (update_scope (\<lambda>s. s\<lparr>rs_phase := PhAborting, rs_gate := True\<rparr>) db)"
    obtain r where r: "find_release db (ri_release idn) = Some r" "row_fits s r" by (rule owner_row[OF inv s(1,2)])
    have s': "rd_scope db' = Some (s\<lparr>rs_phase := PhAborting, rs_gate := True\<rparr>)" using s(1) by (simp add: db')
    moreover have "rd_scope db' = Some s'" using step by (auto simp: abort_before_transfer_def txn_defs split: if_splits option.splits)
    ultimately have "s' = s\<lparr>rs_phase := PhAborting, rs_gate := True\<rparr>" by simp
    then show ?thesis
      using r s s' holds_owner[OF s(2)] by (auto simp: row_fits_def transfers_def stage_of_def)
  qed
qed

lemma release_abort_before_transfer_witness:
  "\<exists>s' db'. abort_before_transfer demo_release 1 (release_run demo_reads_switched) = Inr (s', db') \<and> rs_gate s' \<and>
     \<not> uncertain_work (release_run demo_reads_switched)"
proof -
  have "(case abort_before_transfer demo_release 1 (release_run demo_reads_switched) of Inl _ \<Rightarrow> False | Inr _ \<Rightarrow> True)" by code_simp
  then obtain s' db' where "abort_before_transfer demo_release 1 (release_run demo_reads_switched) = Inr (s', db')"
    by (cases "abort_before_transfer demo_release 1 (release_run demo_reads_switched)") auto
  from release_abort_before_transfer[OF this] this show ?thesis by blast
qed


text \<open>
  C21: A reverse transfer that succeeds in a reachable state gives the writing right back to the
  slot and the configuration recorded when the release began, two epochs later, under an approval
  that was recorded, with the gate open and no writer of the release left unfinished.
\<close>

theorem release_rollback_restores:
  assumes "reverse_transfer idn ep expected (run (release_step bytes) empty_release_db es) = Inr (s', db')"
  defines "db \<equiv> run (release_step bytes) empty_release_db es"
  shows "\<exists>r. find_release db (ri_release idn) = Some r \<and> rr_approval r \<noteq> None \<and> rd_scope db' = Some s' \<and>
    rs_active s' = pv_active (rr_previous r) \<and> rs_config s' = pv_config (rr_previous r) \<and>
    rs_epoch s' = pv_epoch (rr_previous r) + 2 \<and> rs_gate s' \<and> filter unfinished_ticket (rd_tickets db') = []"
proof -
  have inv: "release_inv db" unfolding db_def by (rule reachable_inv)
  have step: "reverse_transfer idn ep expected db = Inr (s', db')" using assms by simp
  show ?thesis
  proof (rule reverse_done[OF step])
    fix s r
    assume s: "rd_scope db = Some s" "holds s idn ep" "rs_phase s = PhRollbackDraining" "drained db = Inr ()"
      and r: "find_release db (ri_release idn) = Some r" "rr_approval r \<noteq> None"
    assume db': "db' = update_release (ri_release idn) (\<lambda>x. x\<lparr>rr_phase := PhRollbackWriterSwitched\<rparr>)
       (update_scope (hand_over (pv_active (rr_previous r)) (pv_config (rr_previous r)) PhRollbackWriterSwitched) db)"
    obtain q where q: "find_release db (ri_release idn) = Some q" "row_fits s q" by (rule owner_row[OF inv s(1,2)])
    with r(1) have fit: "row_fits s r" by simp
    have "rd_scope db' = Some s'" using step by (auto simp: reverse_transfer_def txn_defs Let_def split: if_splits option.splits)
    moreover have "rd_scope db' = Some (hand_over (pv_active (rr_previous r)) (pv_config (rr_previous r)) PhRollbackWriterSwitched s)"
      using s(1) by (simp add: db')
    moreover have "filter unfinished_ticket (rd_tickets db') = []"
      using drained_no_tickets[OF s(4)] by (simp add: db' filter_empty_conv)
    ultimately show ?thesis using r fit s(3) by (auto simp: row_fits_def transfers_def hand_over_def)
  qed
qed

definition demo_approval :: rollback_approval where
  "demo_approval = \<lparr>ra_from_digest = [5], ra_to_config = [3], ra_to_digest = None, ra_profile = [2], ra_compatible = True,
     ra_evidence = [101]\<rparr>"

definition demo_rollback :: "release_event list" where
  "demo_rollback = demo_reads_switched @ [demo_transfer, EvBeginRollback demo_release 2 (Some demo_approval)]"

lemma release_rollback_restores_witness:
  "\<exists>s' db'. reverse_transfer demo_release 2 [[66]] (release_run demo_rollback) = Inr (s', db') \<and> rd_scope db' = Some s' \<and> rs_gate s'"
proof -
  have "(case reverse_transfer demo_release 2 [[66]] (release_run demo_rollback) of Inl _ \<Rightarrow> False | Inr _ \<Rightarrow> True)" by code_simp
  then obtain s' db' where "reverse_transfer demo_release 2 [[66]] (release_run demo_rollback) = Inr (s', db')"
    by (cases "reverse_transfer demo_release 2 [[66]] (release_run demo_rollback)") auto
  from release_rollback_restores[OF this] this show ?thesis by blast
qed


text \<open>
  C18: Once a command is accepted under a principal's key, whatever happens meanwhile, the key
  leads back to that command: sending the same payload again through any open instance returns
  the command as it is now and changes nothing, even with the queue full or the gate closed, and
  another payload is refused.
\<close>

theorem release_key_once:
  assumes "enqueue_command bytes inst i e (run (release_step bytes) empty_release_db es) = Inr (c, db1)"
    and "list_ex (\<lambda>x. ins_id x = inst2 \<and> \<not> ins_closed x) (rd_instances (run (release_step bytes) db1 fs))"
    and "en_principal_id e2 = en_principal_id e" and "en_key e2 = en_key e"
  defines "db2 \<equiv> run (release_step bytes) db1 fs"
  shows "\<exists>d. command_le c d \<and>
    enqueue_command bytes inst2 i2 e2 db2 = (if en_hash e2 = en_hash e then Inr (d, db2) else Inl P0001)"
proof -
  let ?db = "run (release_step bytes) empty_release_db es"
  have inv: "release_inv ?db" by (rule reachable_inv)
  have inv1: "release_inv db1" by (rule inv_enqueue[OF inv assms(1)])
  have le: "release_le db1 db2" unfolding db2_def by (rule release_order.run_le[OF inv1])
  have inv2: "release_inv db2" unfolding db2_def by (rule release.run_inv[OF inv1])
  have c: "c \<in> set (rd_commands db1) \<and> same_request e c \<and> cm_hash c = en_hash e"
    using assms(1)
  proof (rule enqueue_done)
    assume "find (same_request e) (rd_commands ?db) = Some c" "cm_hash c = en_hash e" "db1 = ?db"
    then show ?thesis using find_Some_mem find_Some_holds by metis
  next
    assume "c = new_command i e (rd_now ?db)" "db1 = ?db\<lparr>rd_commands := rd_commands ?db @ [c]\<rparr>"
    then show ?thesis by (simp add: new_command_def same_request_def)
  qed
  obtain d where d: "d \<in> set (rd_commands db2)" "command_le c d"
    using le c grows_member[of command_le "rd_commands db1" "rd_commands db2" c] by (auto simp: release_le_def)
  obtain s where s: "rd_scope db2 = Some s" using inv2 d(1) by (auto simp: release_inv_def split: option.splits)
  have keys: "distinct (map (\<lambda>c. (cm_principal c, cm_key c)) (rd_commands db2))"
    using inv2 s by (simp add: release_inv_Some commands_inv_def)
  have same: "same_request e2 d" using c d(2) assms(3,4) by (simp add: same_request_def command_le_def)
  then have "find (same_request e2) (rd_commands db2) \<noteq> None" using d(1) by (auto simp: find_None_iff)
  then obtain x where x: "find (same_request e2) (rd_commands db2) = Some x" by blast
  have "x = d"
    using distinct_row[OF keys find_Some_mem[OF x] d(1)] find_Some_holds[OF x] same by (simp add: same_request_def)
  moreover have "cm_hash d = en_hash e" using c d(2) by (simp add: command_le_def)
  ultimately have "enqueue_command bytes inst2 i2 e2 db2 = (if en_hash e2 = en_hash e then Inr (d, db2) else Inl P0001)"
    using s x assms(2) unfolding db2_def[symmetric] by (simp add: enqueue_command_def strict_def)
  with d(2) show ?thesis by blast
qed

lemma release_key_once_witness:
  "\<exists>d db2. enqueue_command (\<lambda>_. 1) [66] 30 demo_envelope db2 = Inr (d, db2) \<and> cm_id d = 20"
proof -
  have "(case enqueue_command (\<lambda>_. 1) [66] 20 demo_envelope (release_run demo_enrolled) of Inl _ \<Rightarrow> False
     | Inr (c, db1) \<Rightarrow> cm_id c = 20 \<and> list_ex (\<lambda>x. ins_id x = [66] \<and> \<not> ins_closed x) (rd_instances db1))"
    by code_simp
  then obtain c db1 where e: "enqueue_command (\<lambda>_. 1) [66] 20 demo_envelope (release_run demo_enrolled) = Inr (c, db1)"
    and c: "cm_id c = 20" and i: "list_ex (\<lambda>x. ins_id x = [66] \<and> \<not> ins_closed x) (rd_instances db1)"
    by (auto split: sum.splits)
  obtain d where "command_le c d" "enqueue_command (\<lambda>_. 1) [66] 30 demo_envelope db1 = Inr (d, db1)"
    using release_key_once[OF e, where fs = "[]" and ?inst2.0 = "[66]" and ?i2.0 = 30 and ?e2.0 = demo_envelope] i by auto
  with c show ?thesis by (auto simp: command_le_def)
qed


subsection \<open>Errors that say something else\<close>

text \<open>
  In a database where the scope was never enrolled every call of an instance that reads the
  scope strictly is reported as an exhausted queue, and so is an admission for an instance that is
  not registered and a result for an unknown command: \<^verbatim>\<open>no_data_found\<close> has the SQLSTATE that
  the function uses for a full queue. The operator's methods report the scope as unavailable.
\<close>

theorem release_missing_row_is_queue_full:
  "runtime_register rt sl cf p w empty_release_db = Inl RelQueueFull \<and>
   runtime_admit rt ep t k c q empty_release_db = Inl RelQueueFull \<and>
   runtime_claim_next rt ep t empty_release_db = Inl RelQueueFull \<and>
   runtime_finish_command rt i CmSucceeded r empty_release_db = Inl RelQueueFull \<and>
   find_scope empty_release_db = Inl RelUnavailable \<and>
   runtime_admit \<lparr>rn_scope = [1], rn_instance = [67]\<rparr> 1 t k c q (release_run demo_enrolled) = Inl RelQueueFull"
proof -
  have "rd_scope empty_release_db = None" "rd_commands empty_release_db = []" by (simp_all add: empty_release_db_def)
  moreover have "map_option rs_epoch (rd_scope (release_run demo_enrolled)) = Some 1 \<and> find_instance (release_run demo_enrolled) [67] = None"
    by code_simp
  ultimately show ?thesis
    by (auto simp: runtime_register_def runtime_admit_def runtime_claim_next_def runtime_finish_command_def runtime_call_def
        register_instance_def admit_writer_def claim_command_def finish_command_def strict_def state_error_def find_scope_def
        find_command_def terminal_status_def)
qed

text \<open>
  A Boolean capacity passes the enrollment, because Python takes \<open>True\<close> for an integer, but no
  command is ever accepted in that scope: the database cannot cast its text and the instance sees
  an unavailable release.
\<close>

theorem release_boolean_capacity:
  assumes "rd_scope db = Some s" and "po_queue_capacity (rs_policy s) = Some (JBool True)"
    and "list_ex (\<lambda>x. ins_id x = rn_instance rt \<and> \<not> ins_closed x) (rd_instances db)" and "en_scope e = rn_scope rt"
    and "find (same_request e) (rd_commands db) = None" and "rd_cleanup db = []"
  shows "runtime_enqueue bytes rt i e db = Inl RelUnavailable \<and> capacity_accepted (po_queue_capacity (rs_policy s))"
  using assms
  by (simp add: runtime_enqueue_def runtime_call_def enqueue_command_def strict_def capacity_of_def state_error_def
      capacity_accepted_def)

definition demo_boolean :: "release_event list" where
  "demo_boolean = [EvOnboard [1] Blue [2] [3] (demo_policy\<lparr>po_queue_capacity := Some (JBool True)\<rparr>), EvRegister [66] Blue [3] [2] 7]"

lemma release_boolean_capacity_witness:
  "runtime_enqueue (\<lambda>_. 1) \<lparr>rn_scope = [1], rn_instance = [66]\<rparr> 20 demo_envelope (release_run demo_boolean) = Inl RelUnavailable"
proof -
  have a: "map_option (\<lambda>s. po_queue_capacity (rs_policy s)) (rd_scope (release_run demo_boolean)) = Some (Some (JBool True))"
    "list_ex (\<lambda>x. ins_id x = [66] \<and> \<not> ins_closed x) (rd_instances (release_run demo_boolean))"
    "find (same_request demo_envelope) (rd_commands (release_run demo_boolean)) = None" "rd_cleanup (release_run demo_boolean) = []"
    by code_simp+
  then obtain s where "rd_scope (release_run demo_boolean) = Some s" "po_queue_capacity (rs_policy s) = Some (JBool True)" by auto
  from release_boolean_capacity[OF this, of "\<lparr>rn_scope = [1], rn_instance = [66]\<rparr>"] a show ?thesis
    by (simp add: demo_envelope_def)
qed

end
