(* ===== verification/ReleaseOrchestrator.thy ===== *)
theory ReleaseOrchestrator
  imports ReleaseOutcomes
begin

section \<open>Release control: the orchestrator\<close>

text \<open>
  \<^verbatim>\<open>lightrag/distributed/release/orchestrator.py\<close>, which drives the transactions of the store and
  a transport to the cluster, and \<open>wait_for_drain\<close>. A program may run for ever, raise or return;
  the transport's calls are parameters, and whatever other processes do while a call waits is in
  its effect on the tables. Before every transaction of its own others may act as well.
\<close>

record transport =
  tp_prepare :: "release_identity \<Rightarrow> slot \<Rightarrow> release_db \<Rightarrow> release_db \<times> (release_error + unit)"
  tp_candidate :: "release_identity \<Rightarrow> slot \<Rightarrow> release_db \<Rightarrow> release_db \<times> (release_error + pystr list)"
  tp_switch :: "release_identity \<Rightarrow> slot \<Rightarrow> release_db \<Rightarrow> release_db \<times> (release_error + unit)"
  tp_route :: "release_identity \<Rightarrow> slot \<Rightarrow> release_db \<Rightarrow> release_db \<times> (release_error + pystr)"
  tp_closed :: "release_identity \<Rightarrow> slot \<Rightarrow> release_db \<Rightarrow> release_db \<times> (release_error + unit)"
  tp_rollback :: "release_identity \<Rightarrow> slot \<Rightarrow> rollback_approval option \<Rightarrow> release_db \<Rightarrow> release_db \<times> (release_error + pystr list)"
  tp_sleep :: "release_db \<Rightarrow> release_db"
  tp_others :: "release_db \<Rightarrow> release_db"

type_synonym 'a program = "release_db \<Rightarrow> (release_db \<times> (release_error + 'a)) option"

definition bind_program :: "'a program \<Rightarrow> ('a \<Rightarrow> 'b program) \<Rightarrow> 'b program" where
  "bind_program m f db =
     (case m db of None \<Rightarrow> None
      | Some (db1, r) \<Rightarrow> (case r of Inl e \<Rightarrow> Some (db1, Inl e) | Inr x \<Rightarrow> f x db1))"

definition return_program :: "'a \<Rightarrow> 'a program" where
  "return_program x db = Some (db, Inr x)"

definition raise_program :: "release_error \<Rightarrow> 'a program" where
  "raise_program e db = Some (db, Inl e)"

definition store_call :: "transport \<Rightarrow> 'a release_txn \<Rightarrow> 'a program" where
  "store_call tp f db = (let db0 = tp_others tp db in
     Some (case f db0 of Inl e \<Rightarrow> (db0, Inl e) | Inr (x, db1) \<Rightarrow> (db1, Inr x)))"

definition store_read :: "transport \<Rightarrow> (release_db \<Rightarrow> release_error + 'a) \<Rightarrow> 'a program" where
  "store_read tp f db = (let db0 = tp_others tp db in Some (db0, f db0))"

definition transport_call :: "(release_db \<Rightarrow> release_db \<times> (release_error + 'a)) \<Rightarrow> 'a program" where
  "transport_call f db = Some (f db)"

text \<open>\<open>wait_for_drain\<close> polls until the evidence is empty or a poll raises.\<close>

partial_function (option) wait_for_drain :: "transport \<Rightarrow> release_identity \<Rightarrow> int \<Rightarrow> drain_evidence program" where
  "wait_for_drain tp idn ep db =
     (let db0 = tp_others tp db in
      case drain_poll idn ep db0 of
        Inl e \<Rightarrow> Some (db0, Inl e)
      | Inr (Some ev) \<Rightarrow> Some (db0, Inr ev)
      | Inr None \<Rightarrow> wait_for_drain tp idn ep (tp_sleep tp db0))"

text \<open>What the orchestrator returns; only its phase is looked at.\<close>

datatype release_outcome = OutFinished release_phase | OutScope release_scope | OutReport snapshot_report

definition outcome_phase :: "release_outcome \<Rightarrow> release_phase" where
  "outcome_phase o' = (case o' of OutFinished ph \<Rightarrow> ph | OutScope s \<Rightarrow> rs_phase s | OutReport r \<Rightarrow> sn_phase r)"

definition report_program :: "transport \<Rightarrow> release_identity \<Rightarrow> release_outcome program" where
  "report_program tp idn =
     bind_program (store_read tp release_snapshot) (\<lambda>rep.
     bind_program (store_call tp (record_evidence idn \<lparr>re_route = None, re_snapshot = Some rep\<rparr>)) (\<lambda>_.
     return_program (OutReport rep)))"

text \<open>The slot to work on, and the slot that is left: a row of a running release has a candidate.\<close>

definition candidate_of :: "release_scope \<Rightarrow> slot" where
  "candidate_of s = (case rs_candidate s of None \<Rightarrow> other_slot (rs_active s) | Some c \<Rightarrow> c)"

definition finish_aborting :: "transport \<Rightarrow> release_identity \<Rightarrow> release_scope \<Rightarrow> release_outcome program" where
  "finish_aborting tp idn s =
     bind_program (store_call tp (retire_old_instances idn (rs_epoch s))) (\<lambda>_.
     bind_program (transport_call (tp_closed tp idn (candidate_of s))) (\<lambda>_.
     bind_program (transport_call (tp_route tp idn (rs_active s))) (\<lambda>_.
     bind_program (store_call tp (finish_abort idn (rs_epoch s))) (\<lambda>result.
     bind_program (report_program tp idn) (\<lambda>_.
     return_program (OutScope result))))))"

definition abort_release :: "transport \<Rightarrow> release_identity \<Rightarrow> int \<Rightarrow> release_outcome program" where
  "abort_release tp idn ep =
     bind_program (store_call tp (begin_release idn ep)) (\<lambda>b.
       case b of
         Finished ph \<Rightarrow> if ph = PhAborted then return_program (OutFinished ph) else raise_program RelConflict
       | Running s \<Rightarrow>
           if rs_phase s = PhAborted then return_program (OutScope s)
           else if rs_phase s = PhAborting
           then bind_program (transport_call (tp_route tp idn (rs_active s))) (\<lambda>_. finish_aborting tp idn s)
           else if rs_phase s \<notin> {PhPrepared, PhDraining, PhReadSwitched} then raise_program RelConflict
           else bind_program (transport_call (tp_switch tp idn (rs_active s))) (\<lambda>_.
                bind_program (transport_call (tp_route tp idn (rs_active s))) (\<lambda>_.
                bind_program (store_call tp (abort_before_transfer idn (rs_epoch s))) (\<lambda>s2.
                finish_aborting tp idn s2))))"

text \<open>One phase of \<open>advance\<close>.\<close>

definition advance_phase :: "transport \<Rightarrow> release_identity \<Rightarrow> release_scope \<Rightarrow> unit program" where
  "advance_phase tp idn s =
     (let ep = rs_epoch s; c = candidate_of s; a = rs_active s in
      case rs_phase s of
        PhPrepared \<Rightarrow>
          bind_program (transport_call (tp_prepare tp idn c)) (\<lambda>_.
          bind_program (transport_call (tp_candidate tp idn c)) (\<lambda>_.
          bind_program (store_call tp (transition idn ep PhPrepared PhDraining)) (\<lambda>_. return_program ())))
      | PhDraining \<Rightarrow>
          bind_program (transport_call (tp_candidate tp idn c)) (\<lambda>_.
          bind_program (transport_call (tp_switch tp idn c)) (\<lambda>_.
          bind_program (transport_call (tp_route tp idn c)) (\<lambda>proof.
          bind_program (store_call tp (record_evidence idn \<lparr>re_route = Some proof, re_snapshot = None\<rparr>)) (\<lambda>_.
          bind_program (store_call tp (transition idn ep PhDraining PhReadSwitched)) (\<lambda>_. return_program ())))))
      | PhReadSwitched \<Rightarrow>
          bind_program (wait_for_drain tp idn ep) (\<lambda>_.
          bind_program (transport_call (tp_candidate tp idn c)) (\<lambda>instances.
          bind_program (transport_call (tp_route tp idn c)) (\<lambda>_.
          bind_program (store_call tp (transfer_writer idn ep instances)) (\<lambda>_. return_program ()))))
      | PhWriterSwitched \<Rightarrow>
          bind_program (transport_call (tp_route tp idn a)) (\<lambda>_.
          bind_program (store_call tp (transition idn ep PhWriterSwitched PhRetiring)) (\<lambda>_. return_program ()))
      | PhRetiring \<Rightarrow>
          bind_program (transport_call (tp_route tp idn a)) (\<lambda>_.
          bind_program (store_call tp (retire_old_instances idn ep)) (\<lambda>_.
          bind_program (transport_call (tp_closed tp idn c)) (\<lambda>_.
          bind_program (store_call tp (transition idn ep PhRetiring PhCompleted)) (\<lambda>_. return_program ()))))
      | _ \<Rightarrow> raise_program RelConflict)"

definition advance_release :: "transport \<Rightarrow> release_identity \<Rightarrow> int \<Rightarrow> release_outcome program" where
  "advance_release tp idn ep =
     bind_program (store_call tp (begin_release idn ep)) (\<lambda>b.
       case b of
         Finished ph \<Rightarrow> return_program (OutFinished ph)
       | Running s \<Rightarrow>
           if finished_phase (rs_phase s) then return_program (OutScope s)
           else if rs_phase s = PhAborting then abort_release tp idn ep
           else bind_program (advance_phase tp idn s) (\<lambda>_. report_program tp idn))"

text \<open>A drain budget that is spent before the transfer aborts the release; other errors are raised.\<close>

definition abort_on_budget :: "transport \<Rightarrow> release_identity \<Rightarrow> int \<Rightarrow> release_outcome program" where
  "abort_on_budget tp idn ep =
     bind_program (store_read tp release_snapshot) (\<lambda>rep.
       if sn_phase rep \<notin> {PhDraining, PhReadSwitched} then raise_program RelBudgetExceeded
       else abort_release tp idn ep)"

definition run_round :: "transport \<Rightarrow> release_identity \<Rightarrow> int \<Rightarrow> release_outcome program" where
  "run_round tp idn ep db =
     (case advance_release tp idn ep db of
        Some (db1, Inl RelBudgetExceeded) \<Rightarrow> abort_on_budget tp idn ep db1
      | r \<Rightarrow> r)"

partial_function (option) run_release :: "transport \<Rightarrow> release_identity \<Rightarrow> int \<Rightarrow> release_outcome program" where
  "run_release tp idn ep db =
     (case run_round tp idn ep db of
        None \<Rightarrow> None
      | Some (db1, r) \<Rightarrow>
          (case r of
             Inl e \<Rightarrow> Some (db1, Inl e)
           | Inr out \<Rightarrow> if finished_phase (outcome_phase out) then Some (db1, Inr out) else run_release tp idn ep db1))"

definition rollback_phase :: "transport \<Rightarrow> release_identity \<Rightarrow> rollback_approval option \<Rightarrow> release_scope \<Rightarrow> unit program" where
  "rollback_phase tp idn approval s =
     (let ep = rs_epoch s in
      case rs_phase s of
        PhRollbackDraining \<Rightarrow>
          bind_program (wait_for_drain tp idn ep) (\<lambda>_.
          bind_program (transport_call (tp_rollback tp idn (candidate_of s) approval)) (\<lambda>instances.
          bind_program (transport_call (tp_switch tp idn (candidate_of s))) (\<lambda>_.
          bind_program (transport_call (tp_route tp idn (candidate_of s))) (\<lambda>_.
          bind_program (store_call tp (reverse_transfer idn ep instances)) (\<lambda>_. return_program ())))))
      | PhRollbackWriterSwitched \<Rightarrow>
          bind_program (transport_call (tp_route tp idn (rs_active s))) (\<lambda>_.
          bind_program (store_call tp (finish_rollback idn ep)) (\<lambda>_. return_program ()))
      | PhRollbackRetiring \<Rightarrow>
          bind_program (transport_call (tp_route tp idn (rs_active s))) (\<lambda>_.
          bind_program (store_call tp (retire_old_instances idn ep)) (\<lambda>_.
          bind_program (transport_call (tp_closed tp idn (candidate_of s))) (\<lambda>_.
          bind_program (store_call tp (finish_rollback idn ep)) (\<lambda>_. return_program ()))))
      | _ \<Rightarrow> return_program ())"

definition rollback_release :: "transport \<Rightarrow> release_identity \<Rightarrow> int \<Rightarrow> rollback_approval option \<Rightarrow> snapshot_report program" where
  "rollback_release tp idn ep approval =
     bind_program (store_call tp (begin_rollback idn ep approval)) (\<lambda>s.
     bind_program (if rs_phase s = PhRolledBack then return_program () else rollback_phase tp idn approval s) (\<lambda>_.
     store_read tp release_snapshot))"

end
