(* ===== verification/ReleaseProgress.thy ===== *)
theory ReleaseProgress
  imports ReleaseOrchestrator
begin

section \<open>Release control: progress\<close>

text \<open>
  Waiting for the drain ends at the persisted deadline whatever the others do, and a release whose
  cluster cooperates is completed by \<open>run_release\<close> from whatever phase a crash left it in.
\<close>

subsection \<open>Waiting\<close>

text \<open>While the gate is closed there is a deadline, and it is not after \<open>limit\<close>.\<close>

definition deadline_by :: "real \<Rightarrow> release_db \<Rightarrow> bool" where
  "deadline_by limit db \<longleftrightarrow> (\<forall>s. rd_scope db = Some s \<longrightarrow> rs_gate s \<or> (\<exists>d. rs_deadline s = Some d \<and> d \<le> limit))"

lemma drain_poll_waits:
  assumes "deadline_by limit db" and "drain_poll idn ep db = Inr None"
  shows "rd_now db \<le> limit"
proof -
  from assms(2) obtain s where s: "rd_scope db = Some s" "\<not> rs_gate s" "\<not> deadline_passed db s"
    by (auto simp: drain_poll_def bind_result_Inr find_scope_Inr split: if_splits)
  from assms(1) s(1,2) obtain d where "rs_deadline s = Some d" "d \<le> limit" by (auto simp: deadline_by_def)
  with s(3) show ?thesis by (simp add: deadline_passed_def)
qed

lemma wait_for_drain_rounds:
  assumes step: "0 < delta" "\<And>db. rd_now db \<le> rd_now (tp_others tp db)" "\<And>db. rd_now db + delta \<le> rd_now (tp_sleep tp db)"
    and keeps: "\<And>db. deadline_by limit db \<Longrightarrow> deadline_by limit (tp_others tp db)"
      "\<And>db. deadline_by limit db \<Longrightarrow> deadline_by limit (tp_sleep tp db)"
  shows "deadline_by limit db \<Longrightarrow> limit - rd_now db < real n * delta \<Longrightarrow> \<exists>r. wait_for_drain tp idn ep db = Some r"
proof (induction n arbitrary: db)
  case 0
  let ?db = "tp_others tp db"
  have "\<not> rd_now ?db \<le> limit" using 0 step(2)[of db] by simp
  then have "drain_poll idn ep ?db \<noteq> Inr None" using drain_poll_waits[OF keeps(1)[OF 0(1)]] by blast
  then show ?case
    by (subst wait_for_drain.simps) (auto simp: Let_def split: sum.splits option.splits)
next
  case (Suc n)
  let ?db = "tp_others tp db"
  have by0: "deadline_by limit ?db" by (rule keeps(1)[OF Suc.prems(1)])
  have "limit - rd_now (tp_sleep tp ?db) < real n * delta"
    using Suc.prems(2) step(2)[of db] step(3)[of ?db] by (simp add: algebra_simps)
  from Suc.IH[OF keeps(2)[OF by0] this] show ?case
    by (subst wait_for_drain.simps) (auto simp: Let_def split: sum.splits option.splits)
qed

text \<open>
  C22: Waiting for the drain always ends, with evidence or an error, when each sleep lets at least
  some fixed time pass and nobody extends the deadline: known work that never finishes ends in the
  spent budget, not in a loop.
\<close>

theorem release_wait_ends:
  assumes "0 < delta" and "\<And>db. rd_now db \<le> rd_now (tp_others tp db)" and "\<And>db. rd_now db + delta \<le> rd_now (tp_sleep tp db)"
    and "\<And>db. deadline_by limit db \<Longrightarrow> deadline_by limit (tp_others tp db)"
    and "\<And>db. deadline_by limit db \<Longrightarrow> deadline_by limit (tp_sleep tp db)" and "deadline_by limit db"
  shows "\<exists>db' r. wait_for_drain tp idn ep db = Some (db', r)"
proof -
  obtain n where "(limit - rd_now db) / delta < real n" using reals_Archimedean2 by blast
  then have "limit - rd_now db < real n * delta" using assms(1) by (simp add: divide_simps)
  with wait_for_drain_rounds[of delta tp limit db n, OF assms(1-5)] assms(6) show ?thesis by auto
qed

text \<open>A cluster where every call succeeds at once and only the call that waits for the end of a slot closes instances.\<close>

definition close_slot :: "slot \<Rightarrow> release_db \<Rightarrow> release_db" where
  "close_slot sl db = db\<lparr>rd_instances := map (\<lambda>i. if ins_slot i = sl then i\<lparr>ins_closed := True, ins_retiring := True\<rparr> else i) (rd_instances db)\<rparr>"

definition cooperative :: transport where
  "cooperative = \<lparr>tp_prepare = (\<lambda>idn sl db. (db, Inr ())),
     tp_candidate = (\<lambda>idn sl db. (db, Inr (map ins_id (candidates db sl)))),
     tp_switch = (\<lambda>idn sl db. (db, Inr ())), tp_route = (\<lambda>idn sl db. (db, Inr [])),
     tp_closed = (\<lambda>idn sl db. (close_slot sl db, Inr ())),
     tp_rollback = (\<lambda>idn sl a db. (db, Inr (map ins_id (candidates db sl)))),
     tp_sleep = (\<lambda>db. db\<lparr>rd_now := rd_now db + 1 / 10\<rparr>), tp_others = (\<lambda>db. db)\<rparr>"

lemma cooperative_simps [simp]:
  "tp_prepare cooperative idn sl db = (db, Inr ())" "tp_candidate cooperative idn sl db = (db, Inr (map ins_id (candidates db sl)))"
  "tp_switch cooperative idn sl db = (db, Inr ())" "tp_route cooperative idn sl db = (db, Inr [])"
  "tp_closed cooperative idn sl db = (close_slot sl db, Inr ())"
  "tp_sleep cooperative db = db\<lparr>rd_now := rd_now db + 1 / 10\<rparr>" "tp_others cooperative db = db"
  by (simp_all add: cooperative_def)

lemma release_wait_ends_witness:
  "\<exists>db' r. wait_for_drain cooperative demo_release 1 empty_release_db = Some (db', r)"
  by (rule release_wait_ends[of "1 / 10" cooperative 0]) (simp_all add: deadline_by_def empty_release_db_def)


subsection \<open>A release under way\<close>

definition before_transfer :: "release_phase \<Rightarrow> bool" where
  "before_transfer ph \<longleftrightarrow> ph \<in> {PhPrepared, PhDraining, PhReadSwitched}"

definition forward_phase :: "release_phase \<Rightarrow> bool" where
  "forward_phase ph \<longleftrightarrow> ph \<in> {PhPrepared, PhDraining, PhReadSwitched, PhWriterSwitched, PhRetiring}"

text \<open>
  The candidates are up with the configuration of the release, no work is left, and the budget,
  once it runs, is not spent.
\<close>

definition candidates_ready :: "release_identity \<Rightarrow> release_scope \<Rightarrow> release_db \<Rightarrow> bool" where
  "candidates_ready idn s db \<longleftrightarrow> candidates db (candidate_of s) \<noteq> [] \<and>
     list_all (\<lambda>i. ins_config i = ri_config idn) (candidates db (candidate_of s)) \<and> drained db = Inr () \<and>
     (closed_phase (rs_phase s) \<longrightarrow> \<not> deadline_passed db s)"

definition underway :: "release_identity \<Rightarrow> int \<Rightarrow> release_phase \<Rightarrow> release_db \<Rightarrow> bool" where
  "underway idn ep ph db \<longleftrightarrow> release_inv db \<and>
     (case rd_scope db of None \<Rightarrow> False
      | Some s \<Rightarrow> holds s idn (ep + transfers ph) \<and> rs_phase s = ph \<and> po_exception (rs_policy s) = None \<and>
          (case po_drain_seconds (rs_policy s) of None \<Rightarrow> True | Some x \<Rightarrow> 0 \<le> x) \<and>
          (before_transfer ph \<longrightarrow> candidates_ready idn s db))"

lemma underwayD:
  assumes "underway idn ep ph db"
  obtains s where "release_inv db" "rd_scope db = Some s" "holds s idn (ep + transfers ph)" "rs_phase s = ph"
    "po_exception (rs_policy s) = None" "(case po_drain_seconds (rs_policy s) of None \<Rightarrow> True | Some x \<Rightarrow> 0 \<le> x)"
    "before_transfer ph \<Longrightarrow> candidates_ready idn s db"
  using assms by (auto simp: underway_def split: option.splits)

lemma underwayI:
  assumes "release_inv db" "rd_scope db = Some s" "holds s idn (ep + transfers ph)" "rs_phase s = ph"
    "po_exception (rs_policy s) = None" "(case po_drain_seconds (rs_policy s) of None \<Rightarrow> True | Some x \<Rightarrow> 0 \<le> x)"
    "before_transfer ph \<Longrightarrow> candidates_ready idn s db"
  shows "underway idn ep ph db"
  using assms by (simp add: underway_def)

lemma underway_candidate:
  assumes "release_inv db" "rd_scope db = Some s" "holds s idn e"
  shows "rs_candidate s = Some (other_slot (rs_active s))" and "candidate_of s = other_slot (rs_active s)"
proof -
  have ok: "release_scope_ok s" using assms(1,2) by (simp add: release_inv_Some control_inv_def)
  have "rs_phase s \<noteq> PhIdle" using ok assms(3) by (auto simp: release_scope_ok_def holds_def resting_def)
  with ok show "rs_candidate s = Some (other_slot (rs_active s))" by (simp add: release_scope_ok_def)
  then show "candidate_of s = other_slot (rs_active s)" by (simp add: candidate_of_def)
qed

text \<open>Beginning again finds the release under way.\<close>

lemma begin_again:
  assumes "underway idn ep ph db" and "rd_scope db = Some s"
  shows "begin_release idn ep db = Inr (Running s, db)"
proof (rule underwayD[OF assms(1)])
  fix s1
  assume u: "release_inv db" "rd_scope db = Some s1" "holds s1 idn (ep + transfers ph)" "rs_phase s1 = ph"
    "po_exception (rs_policy s1) = None"
  have s1: "s1 = s" using u(2) assms(2) by simp
  obtain r where r: "find_release db (ri_release idn) = Some r" "rr_identity r = idn" "row_fits s1 r"
    by (rule owner_row[OF u(1,2,3)])
  have m: "r \<in> set (rd_releases db)" "rr_id r = ri_release idn" using find_release_Some[OF r(1)] by auto
  have "\<not> finished_phase (rr_phase r)" by (rule owner_row_open[OF u(1,2,3) m])
  moreover have "pv_epoch (rr_previous r) = ep" using r(3) u(3,4) by (simp add: row_fits_def holds_def)
  ultimately show ?thesis
    using u r s1 assms(2)
    by (auto simp: begin_release_def find_scope_def resume_release_def holds_def finished_phase_def Let_def
        split: release_phase.splits)
qed

lemma drained_cong:
  assumes "rd_tickets db' = rd_tickets db" "rd_commands db' = rd_commands db" "rd_instances db' = rd_instances db"
    "rd_cleanup db' = rd_cleanup db" "rd_coord db' = rd_coord db"
  shows "drained db' = drained db"
  unfolding drained_def collect_drain_evidence_def known_owner_def assms ..

lemma drain_poll_drained:
  assumes "rd_scope db = Some s" "holds s idn e" "\<not> rs_gate s" "\<not> deadline_passed db s" "drained db = Inr ()"
  shows "\<exists>ev. drain_poll idn e db = Inr (Some ev)"
proof -
  obtain e' where "collect_drain_evidence db = Inr e'" "require_empty e' = Inr ()"
    using assms(5) by (auto simp: drained_def bind_result_Inr)
  with assms(1-4) show ?thesis by (simp add: drain_poll_def find_scope_def)
qed

lemma candidates_update [simp]:
  "candidates (update_release rid f db) sl = candidates db sl" "candidates (update_scope g db) sl = candidates db sl"
  "candidate_of (enter_phase nxt now s) = candidate_of s"
  by (simp_all add: candidates_def candidate_of_def enter_phase_def split: option.split)

lemma enter_phase_simps [simp]:
  "rs_epoch (enter_phase nxt now s) = rs_epoch s" "rs_phase (enter_phase nxt now s) = nxt"
  "rs_policy (enter_phase nxt now s) = rs_policy s" "rs_identity (enter_phase nxt now s) = rs_identity s"
  "rs_owner (enter_phase nxt now s) = (if nxt = PhCompleted then None else rs_owner s)"
  "rs_gate (enter_phase nxt now s) = (nxt \<noteq> PhDraining \<and> rs_gate s)" "rs_active (enter_phase nxt now s) = rs_active s"
  "rs_config (enter_phase nxt now s) = rs_config s"
  by (simp_all add: enter_phase_def)

lemma deadline_passed_update [simp]:
  "deadline_passed (update_release rid f db) s = deadline_passed db s"
  "deadline_passed (update_scope g db) s = deadline_passed db s"
  by (simp_all add: deadline_passed_def split: option.split)


subsection \<open>The phases, one by one\<close>

lemmas program_defs = bind_program_def return_program_def raise_program_def store_call_def store_read_def transport_call_def
  Let_def

text \<open>The report at the end of a phase is recorded and names the phase.\<close>

lemma report_runs:
  assumes "underway idn ep ph db \<or> (rd_scope db = Some s0 \<and> rs_identity s0 = Some idn \<and> rs_phase s0 = ph)"
  shows "\<exists>f rep. report_program cooperative idn db = Some (update_release (ri_release idn) f db, Inr (OutReport rep)) \<and>
    sn_phase rep = ph \<and> (\<forall>r. f r = r\<lparr>rr_evidence := rr_evidence (f r)\<rparr>)"
proof -
  obtain s where s: "rd_scope db = Some s" "rs_identity s = Some idn" "rs_phase s = ph"
    using assms by (auto simp: underway_def holds_def split: option.splits)
  then show ?thesis
    by (auto simp: report_program_def program_defs release_snapshot_def find_scope_def record_evidence_def)
qed

lemma underway_row:
  assumes u: "underway idn ep ph db" and f: "\<forall>r. f r = r\<lparr>rr_evidence := rr_evidence (f r)\<rparr>"
  shows "underway idn ep ph (update_release rid f db)"
proof (rule underwayD[OF u])
  fix s
  assume s: "release_inv db" "rd_scope db = Some s" "holds s idn (ep + transfers ph)" "rs_phase s = ph"
    "po_exception (rs_policy s) = None" "(case po_drain_seconds (rs_policy s) of None \<Rightarrow> True | Some x \<Rightarrow> 0 \<le> x)"
    "before_transfer ph \<Longrightarrow> candidates_ready idn s db"
  have keep: "rr_id (f r) = rr_id r \<and> rr_identity (f r) = rr_identity r \<and> rr_phase (f r) = rr_phase r \<and> rr_previous (f r) = rr_previous r" for r
  proof -
    obtain e where "f r = r\<lparr>rr_evidence := e\<rparr>" using f by blast
    then show ?thesis by simp
  qed
  show ?thesis
  proof (rule underwayI[where s = s])
    show "release_inv (update_release rid f db)" by (rule release_inv_row[OF s(1,2)]) (simp add: keep)
    show "candidates_ready idn s (update_release rid f db)" if "before_transfer ph"
      using s(7)[OF that] drained_cong[of "update_release rid f db" db]
      by (simp add: candidates_ready_def candidates_def)
  qed (use s in simp_all)
qed

text \<open>A transition of a release under way succeeds and stays under way.\<close>

lemma transition_runs:
  assumes u: "underway idn ep ph db" and s: "rd_scope db = Some s" and nxt: "next_in PHASES ph = Some nxt"
    and no: "nxt \<noteq> PhWriterSwitched" "nxt \<noteq> PhCompleted"
  shows "\<exists>s' db'. transition idn (ep + transfers ph) ph nxt db = Inr (s', db') \<and> underway idn ep nxt db'"
proof (rule underwayD[OF u])
  fix s1
  assume v: "release_inv db" "rd_scope db = Some s1" "holds s1 idn (ep + transfers ph)" "rs_phase s1 = ph"
    "po_exception (rs_policy s1) = None" "(case po_drain_seconds (rs_policy s1) of None \<Rightarrow> True | Some x \<Rightarrow> 0 \<le> x)"
    "before_transfer ph \<Longrightarrow> candidates_ready idn s1 db"
  let ?db = "update_release (ri_release idn) (mark_release nxt (rd_now db)) (update_scope (enter_phase nxt (rd_now db)) db)"
  have ph: "ph \<in> set PHASES" "ph \<noteq> PhCompleted" "transfers nxt = transfers ph" "before_transfer nxt = before_transfer ph"
    using nxt no by (auto simp: PHASES_def transfers_def before_transfer_def split: if_splits)
  have step: "transition idn (ep + transfers ph) ph nxt db = Inr (enter_phase nxt (rd_now db) s1, ?db)"
    using v ph nxt no by (simp add: transition_def find_scope_def validate_transition_def return_scope_def)
  have "candidates_ready idn (enter_phase nxt (rd_now db) s1) ?db" if "before_transfer nxt"
  proof -
    have r: "candidates_ready idn s1 db" using v(7) that ph(4) by simp
    have "drained ?db = Inr ()" using r drained_cong[of ?db db] by (simp add: candidates_ready_def)
    moreover have "\<not> deadline_passed ?db (enter_phase nxt (rd_now db) s1)" if "closed_phase nxt"
    proof (cases "nxt = PhDraining")
      case True
      then show ?thesis
        using v(6) by (auto simp: deadline_passed_def enter_phase_def drain_until_def split: option.splits)
    next
      case False
      then have "closed_phase ph" using that nxt by (auto simp: PHASES_def closed_phase_def split: if_splits)
      with False show ?thesis
        using r v(4) by (auto simp: candidates_ready_def deadline_passed_def enter_phase_def split: option.splits)
    qed
    ultimately show ?thesis
      using r by (simp add: candidates_ready_def)
  qed
  then have "underway idn ep nxt ?db"
    using v ph no inv_transition[OF v(1) step]
    by (intro underwayI[where s = "enter_phase nxt (rd_now db) s1"]) (simp_all add: holds_def)
  with step show ?thesis by blast
qed

lemma candidates_as_self: "candidates_ready idn s db \<Longrightarrow> candidate_of s = c \<Longrightarrow>
    candidates_as db c (map ins_id (candidates db c)) (ri_config idn)"
  by (simp add: candidates_ready_def candidates_as_def)

lemma transfer_runs:
  assumes u: "underway idn ep PhReadSwitched db" and s: "rd_scope db = Some s"
  shows "\<exists>s' db'. transfer_writer idn ep (map ins_id (candidates db (candidate_of s))) db = Inr (s', db') \<and>
    underway idn ep PhWriterSwitched db'"
proof (rule underwayD[OF u])
  fix s1
  assume v: "release_inv db" "rd_scope db = Some s1" "holds s1 idn (ep + transfers PhReadSwitched)" "rs_phase s1 = PhReadSwitched"
    "po_exception (rs_policy s1) = None" "(case po_drain_seconds (rs_policy s1) of None \<Rightarrow> True | Some x \<Rightarrow> 0 \<le> x)"
    "before_transfer PhReadSwitched \<Longrightarrow> candidates_ready idn s1 db"
  have s1: "s1 = s" using v(2) s by simp
  have r: "candidates_ready idn s db" using v(7) s1 by (simp add: before_transfer_def)
  note c = underway_candidate[OF v(1,2,3), unfolded s1]
  have gate: "\<not> rs_gate s" using v(1,2,4) s1 by (simp add: release_inv_Some control_inv_def release_scope_ok_def closed_phase_def)
  let ?db = "update_release (ri_release idn) (mark_release PhWriterSwitched (rd_now db))
       (update_scope (hand_over (other_slot (rs_active s)) (ri_config idn) PhWriterSwitched) db)"
  have "candidates db (candidate_of s) \<noteq> []" "drained db = Inr ()" "\<not> deadline_passed db s"
    using r v(4) s1 by (simp_all add: candidates_ready_def closed_phase_def)
  then have step: "transfer_writer idn ep (map ins_id (candidates db (candidate_of s))) db =
      Inr (hand_over (other_slot (rs_active s)) (ri_config idn) PhWriterSwitched s, ?db)"
    using v s1 s gate c candidates_as_self[OF r refl]
    by (simp add: transfer_writer_def find_scope_def validate_transition_def PHASES_def transfers_def return_scope_def
        hand_over_def[abs_def])
  have "underway idn ep PhWriterSwitched ?db"
    using v s1 inv_transfer[OF v(1) step]
    by (intro underwayI[where s = "hand_over (other_slot (rs_active s)) (ri_config idn) PhWriterSwitched s"])
      (simp_all add: hand_over_def holds_def transfers_def before_transfer_def)
  with step show ?thesis by blast
qed


text \<open>The end of a release: closed old instances, the last transition, the report.\<close>

definition completed :: "release_identity \<Rightarrow> int \<Rightarrow> release_db \<Rightarrow> bool" where
  "completed idn ep db \<longleftrightarrow>
     (case rd_scope db of None \<Rightarrow> False
      | Some s \<Rightarrow> rs_phase s = PhCompleted \<and> rs_epoch s = ep + 1 \<and> rs_config s = ri_config idn \<and> rs_gate s \<and> rs_owner s = None \<and>
          (\<forall>i \<in> set (rd_instances db). ins_slot i \<noteq> rs_active s \<longrightarrow> ins_closed i))"

lemma retire_runs:
  assumes u: "underway idn ep PhRetiring db" and s: "rd_scope db = Some s"
  shows "\<exists>db1 db2 s'. retire_old_instances idn (ep + 1) db = Inr ((), db1) \<and>
    transition idn (ep + 1) PhRetiring PhCompleted (close_slot (candidate_of s) db1) = Inr (s', db2) \<and>
    completed idn ep db2 \<and> rs_identity s' = Some idn \<and> rd_scope db2 = Some s'"
proof (rule underwayD[OF u])
  fix s1
  assume v: "release_inv db" "rd_scope db = Some s1" "holds s1 idn (ep + transfers PhRetiring)" "rs_phase s1 = PhRetiring"
  have s1: "s1 = s" using v(2) s by simp
  have h: "holds s idn (ep + 1)" "rs_phase s = PhRetiring" using v(3,4) s1 by (simp_all add: transfers_def)
  note c = underway_candidate(2)[OF v(1,2,3), unfolded s1]
  obtain r where r: "row_fits s r" "rr_identity r = idn" using owner_row[OF v(1,2,3)] s1 by metis
  have gate: "rs_gate s" "rs_config s = ri_config idn"
    using v(1) s h(2) r by (auto simp: release_inv_Some control_inv_def release_scope_ok_def closed_phase_def row_fits_def transfers_def)
  let ?db1 = "db\<lparr>rd_instances := map (retire_instance (rs_active s)) (rd_instances db)\<rparr>"
  let ?db2 = "close_slot (candidate_of s) ?db1"
  have a: "retire_old_instances idn (ep + 1) db = Inr ((), ?db1)"
    using h s by (simp add: retire_old_instances_def find_scope_def)
  have closed: "ins_closed i" if "i \<in> set (rd_instances ?db2)" "ins_slot i \<noteq> rs_active s" for i
    using that other_slot_iff[of "ins_slot i" "rs_active s"] by (auto simp: close_slot_def c split: if_splits)
  then have no: "\<not> open_in_other_slot ?db2 (rs_active s)" by (auto simp: open_in_other_slot_def list_ex_iff)
  let ?db3 = "update_release (ri_release idn) (mark_release PhCompleted (rd_now db)) (update_scope (enter_phase PhCompleted (rd_now db)) ?db2)"
  have b: "transition idn (ep + 1) PhRetiring PhCompleted ?db2 = Inr (enter_phase PhCompleted (rd_now db) s, ?db3)"
    using h s no
    by (simp add: transition_def find_scope_def validate_transition_def PHASES_def return_scope_def close_slot_def)
  have d: "completed idn ep ?db3"
    using closed s gate h by (simp add: completed_def enter_phase_def close_slot_def holds_def)
  have "rd_scope ?db3 = Some (enter_phase PhCompleted (rd_now db) s)" "rs_identity (enter_phase PhCompleted (rd_now db) s) = Some idn"
    using s h(1) by (simp_all add: close_slot_def holds_def)
  with a b d show ?thesis by blast
qed

text \<open>One round of the orchestrator moves a release to its next phase.\<close>

lemma advance_runs:
  assumes u: "underway idn ep ph db" and ph: "forward_phase ph"
  shows "\<exists>db' out nxt. next_in PHASES ph = Some nxt \<and> advance_release cooperative idn ep db = Some (db', Inr out) \<and>
    outcome_phase out = nxt \<and> (if nxt = PhCompleted then completed idn ep db' else underway idn ep nxt db')"
proof (rule underwayD[OF u])
  fix s
  assume v: "release_inv db" "rd_scope db = Some s" "holds s idn (ep + transfers ph)" "rs_phase s = ph"
    "before_transfer ph \<Longrightarrow> candidates_ready idn s db"
  note again = begin_again[OF u v(2)]
  have open_ph: "\<not> finished_phase (rs_phase s)" "rs_phase s \<noteq> PhAborting"
    using ph v(4) by (auto simp: forward_phase_def finished_phase_def)
  have start: "advance_release cooperative idn ep db =
      bind_program (advance_phase cooperative idn s) (\<lambda>_. report_program cooperative idn) db"
    using again open_ph by (simp add: advance_release_def bind_program_def[of "store_call _ _"] store_call_def)
  have finish: "\<exists>db' out. advance_release cooperative idn ep db = Some (db', Inr out) \<and> outcome_phase out = nxt \<and> underway idn ep nxt db'"
    if run: "advance_phase cooperative idn s db = Some (db1, Inr ())" and u1: "underway idn ep nxt db1" for db1 nxt
  proof -
    obtain f rep where rep: "report_program cooperative idn db1 = Some (update_release (ri_release idn) f db1, Inr (OutReport rep))"
      "sn_phase rep = nxt" "\<forall>r. f r = r\<lparr>rr_evidence := rr_evidence (f r)\<rparr>"
      using report_runs[of idn ep nxt db1] u1 by blast
    show ?thesis
      using rep run underway_row[OF u1 rep(3)] unfolding start by (simp add: bind_program_def outcome_phase_def)
  qed
  have e: "rs_epoch s = ep + transfers ph" using v(3) by (simp add: holds_def)
  consider (prep) "ph = PhPrepared" | (dr) "ph = PhDraining" | (rd) "ph = PhReadSwitched" | (wr) "ph = PhWriterSwitched" | (re) "ph = PhRetiring"
    using ph by (auto simp: forward_phase_def)
  then show ?thesis
  proof cases
    case prep
    obtain s' db1 where t: "transition idn ep PhPrepared PhDraining db = Inr (s', db1)" "underway idn ep PhDraining db1"
      using transition_runs[OF u v(2), of PhDraining] prep by (auto simp: PHASES_def transfers_def)
    have "advance_phase cooperative idn s db = Some (db1, Inr ())"
      using t(1) v(4) e prep by (simp add: advance_phase_def program_defs transfers_def)
    from finish[OF this t(2)] show ?thesis using prep by (auto simp: PHASES_def)
  next
    case dr
    let ?e = "\<lparr>re_route = Some [], re_snapshot = None\<rparr>"
    let ?f = "\<lambda>r. r\<lparr>rr_evidence := merge_evidence (rr_evidence r) ?e\<rparr>"
    let ?db = "update_release (ri_release idn) ?f db"
    have u0: "underway idn ep PhDraining ?db" using underway_row[of idn ep ph db ?f] u dr by simp
    obtain s' db1 where t: "transition idn ep PhDraining PhReadSwitched ?db = Inr (s', db1)" "underway idn ep PhReadSwitched db1"
      using transition_runs[OF u0, of s PhReadSwitched] v(2) by (auto simp: PHASES_def transfers_def)
    have "record_evidence idn ?e db = Inr ((), ?db)" using v(2,3) by (simp add: record_evidence_def find_scope_def holds_def)
    then have "advance_phase cooperative idn s db = Some (db1, Inr ())"
      using t(1) v(4) e dr by (simp add: advance_phase_def program_defs transfers_def)
    from finish[OF this t(2)] show ?thesis using dr by (auto simp: PHASES_def)
  next
    case rd
    obtain s' db1 where t: "transfer_writer idn ep (map ins_id (candidates db (candidate_of s))) db = Inr (s', db1)"
      "underway idn ep PhWriterSwitched db1"
      using transfer_runs[of idn ep db s] u v(2) rd by auto
    have r: "candidates_ready idn s db" using v(5) rd by (simp add: before_transfer_def)
    have "\<not> rs_gate s" using v(1,2,4) rd by (simp add: release_inv_Some control_inv_def release_scope_ok_def closed_phase_def)
    then obtain ev where "drain_poll idn ep db = Inr (Some ev)"
      using drain_poll_drained[of db s idn ep] v(2,3,4) r rd by (auto simp: candidates_ready_def closed_phase_def transfers_def)
    then have "wait_for_drain cooperative idn ep db = Some (db, Inr ev)"
      by (subst wait_for_drain.simps) simp
    then have "advance_phase cooperative idn s db = Some (db1, Inr ())"
      using t(1) v(4) e rd by (simp add: advance_phase_def program_defs transfers_def)
    from finish[OF this t(2)] show ?thesis using rd by (auto simp: PHASES_def)
  next
    case wr
    obtain s' db1 where t: "transition idn (ep + 1) PhWriterSwitched PhRetiring db = Inr (s', db1)" "underway idn ep PhRetiring db1"
      using transition_runs[OF u v(2), of PhRetiring] wr by (auto simp: PHASES_def transfers_def)
    have "advance_phase cooperative idn s db = Some (db1, Inr ())"
      using t(1) v(4) e wr by (simp add: advance_phase_def program_defs transfers_def)
    from finish[OF this t(2)] show ?thesis using wr by (auto simp: PHASES_def)
  next
    case re
    obtain db1 db2 s' where t: "retire_old_instances idn (ep + 1) db = Inr ((), db1)"
      "transition idn (ep + 1) PhRetiring PhCompleted (close_slot (candidate_of s) db1) = Inr (s', db2)"
      "completed idn ep db2" "rs_identity s' = Some idn" "rd_scope db2 = Some s'"
      using retire_runs[of idn ep db s] u v(2) re by blast
    have run: "advance_phase cooperative idn s db = Some (db2, Inr ())"
      using t v(4) e re by (simp add: advance_phase_def program_defs transfers_def)
    have "rs_phase s' = PhCompleted" using t(3,5) by (simp add: completed_def)
    then obtain f rep where rep: "report_program cooperative idn db2 = Some (update_release (ri_release idn) f db2, Inr (OutReport rep))"
      "sn_phase rep = PhCompleted"
      using report_runs[of idn ep PhCompleted db2 s'] t(4,5) by blast
    have "completed idn ep (update_release (ri_release idn) f db2)"
      using t(3,5) by (simp add: completed_def)
    then show ?thesis using rep run re unfolding start by (simp add: bind_program_def outcome_phase_def PHASES_def)
  qed
qed

lemma run_unfold:
  assumes "advance_release tp idn ep db = Some (db', Inr out)"
  shows "run_release tp idn ep db = (if finished_phase (outcome_phase out) then Some (db', Inr out) else run_release tp idn ep db')"
  by (subst run_release.simps) (simp add: run_round_def assms)

definition phases_left :: "release_phase \<Rightarrow> nat" where
  "phases_left ph = (case ph of PhPrepared \<Rightarrow> 5 | PhDraining \<Rightarrow> 4 | PhReadSwitched \<Rightarrow> 3 | PhWriterSwitched \<Rightarrow> 2 | PhRetiring \<Rightarrow> 1 | _ \<Rightarrow> 0)"

lemma run_completes:
  "underway idn ep ph db \<Longrightarrow> forward_phase ph \<Longrightarrow>
     \<exists>db' out. run_release cooperative idn ep db = Some (db', Inr out) \<and> outcome_phase out = PhCompleted \<and> completed idn ep db'"
proof (induction "phases_left ph" arbitrary: ph db rule: less_induct)
  case less
  obtain db' out nxt where a: "next_in PHASES ph = Some nxt" "advance_release cooperative idn ep db = Some (db', Inr out)"
    "outcome_phase out = nxt" "if nxt = PhCompleted then completed idn ep db' else underway idn ep nxt db'"
    using advance_runs[OF less.prems] by blast
  show ?case
  proof (cases "nxt = PhCompleted")
    case True
    with a show ?thesis by (auto simp: run_unfold[OF a(2)] finished_phase_def)
  next
    case False
    then have n: "forward_phase nxt" "phases_left nxt < phases_left ph"
      using a(1) by (auto simp: PHASES_def forward_phase_def phases_left_def split: if_splits)
    from n(1) have "\<not> finished_phase nxt" by (auto simp: forward_phase_def finished_phase_def)
    with less.hyps[OF n(2) _ n(1)] a False show ?thesis by (auto simp: run_unfold[OF a(2)])
  qed
qed


lemma demo_underway: "underway demo_release 1 PhReadSwitched (release_run demo_reads_switched)"
proof -
  have "case rd_scope (release_run demo_reads_switched) of None \<Rightarrow> False
      | Some s \<Rightarrow> holds s demo_release (1 + transfers PhReadSwitched) \<and> rs_phase s = PhReadSwitched \<and> po_exception (rs_policy s) = None \<and>
          (case po_drain_seconds (rs_policy s) of None \<Rightarrow> True | Some x \<Rightarrow> 0 \<le> x) \<and>
          (before_transfer PhReadSwitched \<longrightarrow> candidates_ready demo_release s (release_run demo_reads_switched))"
    by code_simp
  then show ?thesis unfolding underway_def using reachable_inv by blast
qed


end
