(* ===== verification/ReleaseExecutor.thy ===== *)
theory ReleaseExecutor
  imports ReleaseOutcomes
begin

section \<open>Release control: commands and their execution\<close>

text \<open>
  \<^verbatim>\<open>commands.py\<close>, \<^verbatim>\<open>executor.py\<close>, \<^verbatim>\<open>lifecycle.py\<close> and the consumer loop of \<^verbatim>\<open>runtime.py\<close>.
  The canonical JSON text of a value and the digest are parameters; a payload is its canonical text.
\<close>

subsection \<open>Encoding a command\<close>

type_synonym registry = "(pystr \<times> int) list"

text \<open>A registration: version 1 of a name that has none, with a callable handler.\<close>

definition register_handler :: "pystr \<Rightarrow> int option \<Rightarrow> bool \<Rightarrow> registry \<Rightarrow> release_error + registry" where
  "register_handler name version callable handlers =
     (case version of
        None \<Rightarrow> Inl RelError
      | Some v \<Rightarrow> if (name, v) \<in> set handlers \<or> v \<noteq> 1 \<or> \<not> callable then Inl RelError else Inr (handlers @ [(name, v)]))"

definition principal_keys :: "pystr list" where
  "principal_keys = [lit ''id'', lit ''scheme'', lit ''subject'', lit ''credential_fingerprint'', lit ''expires_at'', lit ''roles'',
     lit ''authorization_version'']"

text \<open>The id of a principal whose keys are allowed and whose id is a text that is not empty.\<close>

definition principal_id :: "(pystr, jval) dict \<Rightarrow> pystr option" where
  "principal_id p =
     (if \<not> set (map fst p) \<subseteq> set principal_keys then None
      else case map_of p (lit ''id'') of Some (JStr s) \<Rightarrow> if s = [] then None else Some s | _ \<Rightarrow> None)"

definition refs_ok :: "pystr list option \<Rightarrow> bool" where
  "refs_ok refs = (case refs of None \<Rightarrow> True
     | Some rs \<Rightarrow> length rs \<le> 16 \<and> list_all (\<lambda>r. r \<noteq> [] \<and> length r \<le> 4096) rs)"

definition encode_command ::
    "((pystr, jval) dict \<Rightarrow> pystr option) \<Rightarrow> (pystr \<Rightarrow> pystr \<Rightarrow> pystr \<Rightarrow> pystr list \<Rightarrow> pystr) \<Rightarrow> registry \<Rightarrow> pystr \<Rightarrow>
     pystr option \<Rightarrow> (pystr, jval) dict \<Rightarrow> pystr \<Rightarrow> pystr \<Rightarrow> pystr list option \<Rightarrow> release_error + envelope" where
  "encode_command canonical digest handlers operation payload principal' scope key refs =
     (if (operation, 1) \<notin> set handlers then Inl RelError
      else case principal_id principal' of
        None \<Rightarrow> Inl RelError
      | Some who \<Rightarrow>
          if \<not> (1 \<le> length key \<and> length key \<le> 200) \<or> \<not> refs_ok refs then Inl RelError
          else case (payload, canonical principal') of
            (Some text, Some rest) \<Rightarrow>
              let rs = (case refs of None \<Rightarrow> [] | Some rs \<Rightarrow> rs) in
              Inr \<lparr>en_operation = operation, en_version = 1, en_scope = scope, en_principal_id = who, en_principal = rest,
                   en_key = key, en_hash = digest operation scope text rs, en_payload = text, en_refs = rs\<rparr>
          | _ \<Rightarrow> Inl RelError)"


subsection \<open>Executing a command\<close>

datatype auth_answer = AuthAnswer bool | AuthRaised | AuthCancelled

text \<open>
  What the registered handler does: it returns a value (\<open>None\<close> when it has no canonical text) or
  an outcome with its status, raises, or is cancelled. A status that is not a terminal one is
  \<open>BadStatus\<close>.
\<close>

datatype handler_answer =
    HandlerValue "pystr option"
  | HandlerOutcome command_state "pystr option"
  | BadStatus
  | HandlerRaised pystr
  | HandlerCancelled

datatype command_result = ErrorNamed pystr | ResultValue pystr

text \<open>\<open>None\<close>: the execution is cancelled. A command whose handler is not registered raises.\<close>

definition execute_command :: "registry \<Rightarrow> envelope \<Rightarrow> auth_answer \<Rightarrow> handler_answer \<Rightarrow> (command_state \<times> command_result) option" where
  "execute_command handlers e auth answer =
     (case auth of
        AuthCancelled \<Rightarrow> None
      | AuthRaised \<Rightarrow> Some (CmFailed, ErrorNamed (lit ''AuthorizationUnavailable''))
      | AuthAnswer ok \<Rightarrow>
          if \<not> ok then Some (CmFailed, ErrorNamed (lit ''AuthorizationDenied''))
          else if (en_operation e, en_version e) \<notin> set handlers then Some (CmUncertain, ErrorNamed (lit ''ReleaseError''))
          else case answer of
            HandlerCancelled \<Rightarrow> None
          | HandlerRaised name \<Rightarrow> Some (CmUncertain, ErrorNamed name)
          | BadStatus \<Rightarrow> Some (CmUncertain, ErrorNamed (lit ''ValueError''))
          | HandlerOutcome st text \<Rightarrow>
              (case text of None \<Rightarrow> Some (CmUncertain, ErrorNamed (lit ''ReleaseError'')) | Some t \<Rightarrow> Some (st, ResultValue t))
          | HandlerValue text \<Rightarrow>
              (case text of None \<Rightarrow> Some (CmUncertain, ErrorNamed (lit ''ReleaseError'')) | Some t \<Rightarrow> Some (CmSucceeded, ResultValue t)))"

text \<open>
  One round of the consumer: read the epoch, claim, execute, finish. Others act on the tables
  while the command runs. The loop goes on, waits, or has stopped with an error.
\<close>

datatype consumer = Continue | Wait | Stopped

definition consume_round ::
    "runtime_store \<Rightarrow> uuid \<Rightarrow> (release_db \<Rightarrow> release_db) \<Rightarrow> (command_row \<Rightarrow> (command_state \<times> pystr) option) \<Rightarrow> release_db \<Rightarrow>
     release_db \<times> consumer" where
  "consume_round rt fresh others execute db =
     (case find_scope db of
        Inl e \<Rightarrow> (db, Stopped)
      | Inr s \<Rightarrow>
          case runtime_claim_next rt (rs_epoch s) fresh db of
            Inl e \<Rightarrow> (db, Stopped)
          | Inr (None, db1) \<Rightarrow> (db1, Wait)
          | Inr (Some c, db1) \<Rightarrow>
              case execute c of
                None \<Rightarrow> (others db1, Stopped)
              | Some (st, result) \<Rightarrow>
                  case runtime_finish_command rt (cm_id c) st result (others db1) of
                    Inl e \<Rightarrow> (others db1, Stopped)
                  | Inr (_, db2) \<Rightarrow> (db2, if st = CmUncertain then Stopped else Continue))"


subsection \<open>Lifetimes of an instance\<close>

datatype lifetime = LtHttp | LtQueries | LtWriters | LtWaiters | LtBackend | LtBackground

fun add_lifetime :: "lifetime \<Rightarrow> int \<Rightarrow> lifetime_counts \<Rightarrow> lifetime_counts" where
  "add_lifetime LtHttp d c = c\<lparr>lc_http := lc_http c + d\<rparr>"
| "add_lifetime LtQueries d c = c\<lparr>lc_queries := lc_queries c + d\<rparr>"
| "add_lifetime LtWriters d c = c\<lparr>lc_writers := lc_writers c + d\<rparr>"
| "add_lifetime LtWaiters d c = c\<lparr>lc_waiters := lc_waiters c + d\<rparr>"
| "add_lifetime LtBackend d c = c\<lparr>lc_backend := lc_backend c + d\<rparr>"
| "add_lifetime LtBackground d c = c\<lparr>lc_background := lc_background c + d\<rparr>"

text \<open>An instance's lifetimes, the spans that are open, and whether it retires.\<close>

record lifecycle =
  li_counts :: lifetime_counts
  li_retiring :: bool
  li_open :: "lifetime list"

definition new_lifecycle :: lifecycle where
  "new_lifecycle = \<lparr>li_counts = no_lifetimes, li_retiring = False, li_open = []\<rparr>"

datatype lifecycle_event = EnterSpan lifetime | LeaveSpan lifetime | BeginRetire

text \<open>Only a span that was entered can be left: the context manager's exit runs once for each entry.\<close>

fun lifecycle_step :: "lifecycle \<Rightarrow> lifecycle_event \<Rightarrow> lifecycle" where
  "lifecycle_step l (EnterSpan k) = l\<lparr>li_counts := add_lifetime k 1 (li_counts l), li_open := k # li_open l\<rparr>"
| "lifecycle_step l (LeaveSpan k) =
     (if k \<in> set (li_open l) then l\<lparr>li_counts := add_lifetime k (- 1) (li_counts l), li_open := remove1 k (li_open l)\<rparr> else l)"
| "lifecycle_step l BeginRetire = l\<lparr>li_retiring := True\<rparr>"

text \<open>\<open>drain\<close> raises unless the instance retires, and returns when no count is left.\<close>

definition drain_ready :: "lifecycle \<Rightarrow> release_error + bool" where
  "drain_ready l = (if \<not> li_retiring l then Inl RelError else Inr (li_counts l = no_lifetimes))"

fun lifetime_count :: "lifetime \<Rightarrow> lifetime_counts \<Rightarrow> int" where
  "lifetime_count LtHttp c = lc_http c"
| "lifetime_count LtQueries c = lc_queries c"
| "lifetime_count LtWriters c = lc_writers c"
| "lifetime_count LtWaiters c = lc_waiters c"
| "lifetime_count LtBackend c = lc_backend c"
| "lifetime_count LtBackground c = lc_background c"

definition counts_exact :: "lifecycle \<Rightarrow> bool" where
  "counts_exact l \<longleftrightarrow> (\<forall>k. lifetime_count k (li_counts l) = int (count_rows (\<lambda>x. x = k) (li_open l)))"

lemma lifetime_count_add [simp]: "lifetime_count k (add_lifetime j d c) = lifetime_count k c + (if j = k then d else 0)"
  by (cases j; cases k) simp_all

lemma count_rows_remove1: "k \<in> set xs \<Longrightarrow> int (count_rows (\<lambda>x. x = j) (remove1 k xs)) = int (count_rows (\<lambda>x. x = j) xs) - (if k = j then 1 else 0)"
  by (induction xs) (auto simp: count_rows_def)

lemma lifecycle_step_exact: "counts_exact l \<Longrightarrow> counts_exact (lifecycle_step l ev)"
  by (cases ev) (auto simp: counts_exact_def count_rows_remove1, auto simp: count_rows_def)

interpretation lifecycle: guarded_component lifecycle_step counts_exact
  by unfold_locales (rule lifecycle_step_exact)

lemma counts_exact_new: "counts_exact new_lifecycle"
proof -
  have "lifetime_count k no_lifetimes = 0" for k by (cases k) (simp_all add: no_lifetimes_def)
  then show ?thesis by (simp add: counts_exact_def new_lifecycle_def count_rows_def)
qed

lemma no_lifetimes_iff: "c = no_lifetimes \<longleftrightarrow> (\<forall>k. lifetime_count k c = 0)"
proof
  assume zero: "\<forall>k. lifetime_count k c = 0"
  show "c = no_lifetimes"
    using zero[rule_format, of LtHttp] zero[rule_format, of LtQueries] zero[rule_format, of LtWriters]
      zero[rule_format, of LtWaiters] zero[rule_format, of LtBackend] zero[rule_format, of LtBackground]
    by (simp add: no_lifetimes_def)
next
  assume "c = no_lifetimes"
  then show "\<forall>k. lifetime_count k c = 0" using counts_exact_new by (simp add: counts_exact_def new_lifecycle_def count_rows_def)
qed

text \<open>
  However the spans of an instance open and end, a retiring instance is drained exactly when
  no span is open, so it reports zero counts to the database only when nothing of it is running.
\<close>

theorem lifetimes_drain_exact:
  "drain_ready (run lifecycle_step new_lifecycle es) =
     (if li_retiring (run lifecycle_step new_lifecycle es) then Inr (li_open (run lifecycle_step new_lifecycle es) = []) else Inl RelError)"
proof -
  let ?l = "run lifecycle_step new_lifecycle es"
  have ex: "counts_exact ?l" by (rule lifecycle.run_inv[OF counts_exact_new])
  have "li_open ?l = [] \<longleftrightarrow> (\<forall>k. count_rows (\<lambda>x. x = k) (li_open ?l) = 0)"
    by (cases "li_open ?l") (auto simp: count_rows_def)
  then have "li_counts ?l = no_lifetimes \<longleftrightarrow> li_open ?l = []"
    unfolding no_lifetimes_iff using ex by (simp add: counts_exact_def)
  then show ?thesis by (simp add: drain_ready_def)
qed


subsection \<open>Unknown outcomes\<close>

lemma uncertain_forward:
  assumes le: "release_le db db'" and u: "uncertain_work db"
  shows "uncertain_work db'"
proof -
  from u consider t where "t \<in> set (rd_tickets db)" "tk_state t = TkUncertain"
    | c where "c \<in> set (rd_commands db)" "cm_state c = CmUncertain"
    by (auto simp: uncertain_work_def list_ex_iff)
  then show ?thesis
  proof cases
    case 1
    then obtain t' where "t' \<in> set (rd_tickets db')" "ticket_le t t'"
      using le grows_member[of ticket_le "rd_tickets db" "rd_tickets db'" t] by (auto simp: release_le_def)
    with 1 show ?thesis by (auto simp: uncertain_work_def list_ex_iff ticket_le_def)
  next
    case 2
    then obtain c' where "c' \<in> set (rd_commands db')" "command_le c c'"
      using le grows_member[of command_le "rd_commands db" "rd_commands db'" c] by (auto simp: release_le_def)
    with 2 show ?thesis by (auto simp: uncertain_work_def list_ex_iff command_le_def terminal_status_def)
  qed
qed

lemma uncertain_not_drained:
  assumes "uncertain_work db"
  shows "drained db \<noteq> Inr u"
proof
  assume "drained db = Inr u"
  then obtain e where "collect_drain_evidence db = Inr e" "evidence_empty e"
    by (auto simp: drained_def bind_result_Inr require_empty_Inr)
  with assms show False
    by (auto simp: collect_drain_evidence_def Let_def evidence_empty_def count_rows_0 uncertain_work_def list_ex_iff
        split: option.splits if_splits)
qed

text \<open>
  C11: An unknown outcome fails the scope closed for good: once a reachable scope has an uncertain
  ticket or command, then in every later state no command is given out, no writer is admitted
  except as part of one that is active, and no transfer, reverse transfer or abort succeeds.
\<close>

theorem release_uncertain_sticks:
  fixes es fs :: "release_event list"
  assumes "uncertain_work (run (release_step bytes) empty_release_db es)"
  defines "db \<equiv> run (release_step bytes) (run (release_step bytes) empty_release_db es) fs"
  shows "claimed_by db ev = [] \<and>
    (case admit_writer inst ep t kind command None db of Inl _ \<Rightarrow> True | Inr (got, db') \<Rightarrow> got = None \<and> db' = db) \<and>
    release_step bytes db (EvTransfer idn e1 is) = db \<and> release_step bytes db (EvReverse idn e1 is) = db \<and>
    release_step bytes db (EvAbort idn e1) = db"
proof -
  have un: "uncertain_work db"
    unfolding db_def by (rule uncertain_forward[OF release_order.run_le[OF reachable_inv] assms(1)])
  have no: "got = None \<and> db' = db" if "admit_writer inst ep t kind command None db = Inr (got, db')"
    for inst ep t kind command got db'
    using that by (rule admit_done) (use un in \<open>auto simp: parent_valid_def list_ex_iff\<close>)
  have "claimed_by db ev = []"
  proof (cases ev)
    case (EvClaim inst ep t)
    have "got = None" if "claim_command inst ep t db = Inr (got, db')" for got db'
      using that by (rule claim_done) (auto dest: no)
    with EvClaim show ?thesis by (auto split: sum.splits option.splits)
  qed simp_all
  moreover have "release_step bytes db (EvTransfer idn e1 is) = db" "release_step bytes db (EvReverse idn e1 is) = db"
    "release_step bytes db (EvAbort idn e1) = db"
    using un uncertain_not_drained[OF un]
    by (auto intro!: settle_same elim!: transfer_done reverse_done abort_done)
  ultimately show ?thesis using no by (auto split: sum.splits)
qed

definition demo_uncertain :: "release_event list" where
  "demo_uncertain = demo_admitted @ [EvFinishTicket [66] 5 True]"

lemma release_uncertain_sticks_witness:
  "release_step (\<lambda>_. 1) (release_run (demo_uncertain @ [EvClaim [66] 1 6])) (EvAbort demo_release 1) =
     release_run (demo_uncertain @ [EvClaim [66] 1 6])"
proof -
  have "uncertain_work (release_run demo_uncertain)" by code_simp
  from release_uncertain_sticks[OF this, of "[EvClaim [66] 1 6]"] show ?thesis by simp
qed

end
