(* ===== verification/ReleaseSources.thy ===== *)
theory ReleaseSources
  imports ReleaseProperties
begin

section \<open>Release control: sources of commands\<close>

text \<open>
  A command names the sources it needs, such as the session of an upload; a clean-up claims a source
  before it deletes it. The claim and the enqueueing of a command exclude each other, whichever comes
  first: \<open>sources_free\<close> is kept by every event. All events but these two leave both tables their
  lengths, and what the rows may become is the order \<open>release_le\<close>.
\<close>

definition sources_free :: "release_db \<Rightarrow> bool" where
  "sources_free db \<longleftrightarrow>
     (\<forall>u \<in> set (rd_cleanup db). \<forall>c \<in> set (rd_commands db). unfinished_command c \<longrightarrow> cu_ref u \<notin> set (en_refs (cm_envelope c)))"

definition steady :: "release_db \<Rightarrow> release_db \<Rightarrow> bool" where
  "steady a b \<longleftrightarrow> length (rd_commands b) = length (rd_commands a) \<and> length (rd_cleanup b) = length (rd_cleanup a)"

lemma steady_refl [simp]: "steady db db"
  by (simp add: steady_def)

lemma grows_same_length:
  assumes "grows le xs ys" and "length ys = length xs"
  shows "list_all2 le xs ys"
proof -
  from assms(1) obtain us vs where ys: "ys = us @ vs" and le: "list_all2 le xs us" by (auto simp: grows_def)
  from list_all2_lengthD[OF le] assms(2) ys have "vs = []" by simp
  with ys le show ?thesis by simp
qed

lemma list_all2_source: "list_all2 le xs ys \<Longrightarrow> y \<in> set ys \<Longrightarrow> \<exists>x \<in> set xs. le x y"
  by (metis in_set_conv_nth list_all2_conv_all_nth)

lemma command_le_unfinished: "command_le c d \<Longrightarrow> unfinished_command d \<Longrightarrow> unfinished_command c"
  by (cases "cm_state c") (auto simp: command_le_def unfinished_command_def terminal_status_def)

lemma steady_free:
  assumes le: "release_le a b" and st: "steady a b" and free: "sources_free a"
  shows "sources_free b"
proof -
  have "cu_ref u \<notin> set (en_refs (cm_envelope d))"
    if u: "u \<in> set (rd_cleanup b)" and d: "d \<in> set (rd_commands b)" "unfinished_command d" for u d
  proof -
    from le st obtain c where c: "c \<in> set (rd_commands a)" "command_le c d"
      using list_all2_source[OF grows_same_length d(1), of command_le "rd_commands a"]
      by (auto simp: release_le_def steady_def)
    from le st obtain v where v: "v \<in> set (rd_cleanup a)" "cleanup_le v u"
      using list_all2_source[OF grows_same_length u, of cleanup_le "rd_cleanup a"]
      by (auto simp: release_le_def steady_def)
    have "unfinished_command c" using c(2) d(2) by (rule command_le_unfinished)
    with free c(1) v(1) have "cu_ref v \<notin> set (en_refs (cm_envelope c))" by (simp add: sources_free_def)
    moreover have "cu_ref v = cu_ref u" "cm_envelope c = cm_envelope d"
      using c(2) v(2) by (simp_all add: command_le_def cleanup_le_def)
    ultimately show ?thesis by simp
  qed
  then show ?thesis by (simp add: sources_free_def)
qed

lemma steady_tables [simp]:
  "steady db (update_release rid f db') \<longleftrightarrow> steady db db'" "steady db (update_scope g db') \<longleftrightarrow> steady db db'"
  "steady db (update_command i h db') \<longleftrightarrow> steady db db'"
  by (simp_all add: steady_def update_release_def update_scope_def update_command_def)

lemma steady_control:
  "transition idn ep cur nxt db = Inr (s1, db') \<Longrightarrow> steady db db'"
  "transfer_writer idn ep is db = Inr (s2, db') \<Longrightarrow> steady db db'"
  "begin_rollback idn ep a db = Inr (s3, db') \<Longrightarrow> steady db db'"
  "reverse_transfer idn ep is db = Inr (s4, db') \<Longrightarrow> steady db db'"
  "finish_rollback idn ep db = Inr (s5, db') \<Longrightarrow> steady db db'"
  "abort_before_transfer idn ep db = Inr (s6, db') \<Longrightarrow> steady db db'"
  "finish_abort idn ep db = Inr (s7, db') \<Longrightarrow> steady db db'"
  by (erule transition_done, simp) (erule transfer_done, simp, erule rollback_done, simp, simp, erule reverse_done, simp,
      erule finish_rollback_done, simp, erule abort_done, simp, erule finish_abort_done, simp)

lemma steady_rows:
  "begin_release idn ep db = Inr (b, db') \<Longrightarrow> steady db db'"
  "onboard n sl p c po db = Inr (u, db') \<Longrightarrow> steady db db'"
  "capture_baseline idn ep d db = Inr (u1, db') \<Longrightarrow> steady db db'"
  "record_evidence idn e db = Inr (u2, db') \<Longrightarrow> steady db db'"
  "retire_old_instances idn ep db = Inr (u3, db') \<Longrightarrow> steady db db'"
  "register_instance i sl cf p w db = Inr (u4, db') \<Longrightarrow> steady db db'"
  "admit_writer i ep t k cm q db = Inr (u5, db') \<Longrightarrow> steady db db'"
  "attach_ticket i t op db = Inr (u6, db') \<Longrightarrow> steady db db'"
  "finish_ticket i t un db = Inr (u7, db') \<Longrightarrow> steady db db'"
  "close_instance i st db = Inr (u8, db') \<Longrightarrow> steady db db'"
  "finish_source_cleanup i t rf db = Inr (u9, db') \<Longrightarrow> steady db db'"
  by (auto elim!: begin_done onboard_done baseline_done evidence_done retire_done admit_done
      simp: steady_def register_instance_def bind_result_Inr attach_ticket_def finish_ticket_def close_instance_def
        finish_source_cleanup_def Let_def split: if_splits option.splits)

lemma steady_trans: "steady a b \<Longrightarrow> steady b c \<Longrightarrow> steady a c"
  by (simp add: steady_def)

lemma steady_claim: "claim_command i ep t db = Inr (u, db') \<Longrightarrow> steady db db'"
  by (erule claim_done) (auto dest: steady_rows(7))

lemma steady_finish_command: "finish_command i c st r db = Inr (u, db') \<Longrightarrow> steady db db'"
  by (erule finish_command_done, drule steady_rows(9)) (simp add: steady_def update_command_def)

lemma free_enqueue:
  assumes free: "sources_free db" and step: "enqueue_command bytes i ci e db = Inr (c, db')"
  shows "sources_free db'"
proof (rule enqueue_done[OF step])
  assume "db' = db"
  with free show ?thesis by simp
next
  fix s n
  assume s: "rd_scope db = Some s" and key: "find (same_request e) (rd_commands db) = None"
    and c: "c = new_command ci e (rd_now db)" and db': "db' = db\<lparr>rd_commands := rd_commands db @ [c]\<rparr>"
  from step s key have "\<not> list_ex (\<lambda>u. cu_ref u \<in> set (en_refs e)) (rd_cleanup db)"
    by (auto simp: enqueue_command_def bind_result_Inr strict_Inr split: if_splits)
  with free show ?thesis by (auto simp: sources_free_def db' c new_command_def list_ex_iff)
qed

lemma free_claim_cleanup:
  "sources_free db \<Longrightarrow> claim_source_cleanup i t rf db = Inr (b, db') \<Longrightarrow> sources_free db'"
  by (auto simp: claim_source_cleanup_def sources_free_def list_ex_iff split: if_splits)

lemma steady_settle: "(\<And>x db'. r = Inr (x, db') \<Longrightarrow> steady db db') \<Longrightarrow> steady db (settle_txn db r)"
  by (auto simp: settle_txn_def split: sum.splits)

definition touches_sources :: "release_event \<Rightarrow> bool" where
  "touches_sources ev \<longleftrightarrow> (case ev of EvEnqueue i c e \<Rightarrow> True | EvClaimCleanup i t r \<Rightarrow> True | _ \<Rightarrow> False)"

lemma step_steady: "\<not> touches_sources ev \<Longrightarrow> steady db (release_step bytes db ev)"
proof (cases ev)
  case (EvElsewhere cd dt)
  then show ?thesis by (simp add: steady_def)
qed (auto simp: touches_sources_def intro!: steady_settle
    intro: steady_control steady_rows steady_claim steady_finish_command)

lemma step_free:
  assumes inv: "release_inv db" and free: "sources_free db"
  shows "sources_free (release_step bytes db ev)"
proof (cases "touches_sources ev")
  case True
  then show ?thesis
    by (cases ev) (use free in \<open>auto simp: touches_sources_def settle_txn_def split: sum.splits intro: free_enqueue free_claim_cleanup\<close>)
next
  case False
  show ?thesis by (rule steady_free[OF release_step_le[OF inv] step_steady[OF False] free])
qed

interpretation source_claims: guarded_component "release_step bytes" "\<lambda>db. release_inv db \<and> sources_free db"
  by unfold_locales (auto intro: release_step_inv step_free)

text \<open>A command that appears in a step is a queued one; any other comes from the table.\<close>

lemma command_appears:
  assumes "d \<in> set (rd_commands (release_step bytes db ev))" and inv: "release_inv db"
  shows "(\<exists>c \<in> set (rd_commands db). command_le c d) \<or> cm_state d = CmQueued"
proof (cases "touches_sources ev")
  case True
  have "d \<in> set (rd_commands db) \<or> cm_state d = CmQueued"
    using assms(1) True
    by (cases ev) (auto simp: touches_sources_def settle_txn_def claim_source_cleanup_def new_command_def
        elim!: enqueue_done split: sum.splits if_splits)
  moreover have "command_le d d" by simp
  ultimately show ?thesis by blast
next
  case False
  with release_step_le[OF inv, of bytes ev] step_steady[OF False, of db bytes]
    list_all2_source[OF grows_same_length assms(1), of command_le "rd_commands db"]
  show ?thesis by (auto simp: release_le_def steady_def)
qed

lemma not_unfinished: "\<not> unfinished_command c \<longleftrightarrow> cm_state c \<in> {CmSucceeded, CmFailed}"
  by (cases "cm_state c") (auto simp: unfinished_command_def)

lemma finished_unchanged: "command_le c d \<Longrightarrow> \<not> unfinished_command c \<Longrightarrow> d = c"
  by (auto simp: command_le_def not_unfinished terminal_status_def)

lemma claimed_source_step:
  assumes ok: "release_inv db" "sources_free db" and u: "u \<in> set (rd_cleanup db)"
    and d: "d \<in> set (rd_commands (release_step bytes db ev))" "cu_ref u \<in> set (en_refs (cm_envelope d))"
  shows "d \<in> set (rd_commands db)"
proof -
  have "grows cleanup_le (rd_cleanup db) (rd_cleanup (release_step bytes db ev))"
    using release_step_le[OF ok(1)] by (simp add: release_le_def)
  from grows_member[OF this u] obtain v where v: "v \<in> set (rd_cleanup (release_step bytes db ev))" "cu_ref v = cu_ref u"
    by (auto simp: cleanup_le_def)
  with step_free[OF ok, of bytes ev] d have fin: "\<not> unfinished_command d" by (auto simp: sources_free_def)
  with command_appears[OF d(1) ok(1)] obtain c where c: "c \<in> set (rd_commands db)" "command_le c d"
    by (auto simp: unfinished_command_def)
  have "cu_ref u \<in> set (en_refs (cm_envelope c))" using c(2) d(2) by (simp add: command_le_def)
  with ok(2) u c(1) have "\<not> unfinished_command c" by (auto simp: sources_free_def)
  with finished_unchanged[OF c(2)] c(1) show ?thesis by simp
qed

lemma claimed_source_run:
  assumes "release_inv db" and "sources_free db" and "u \<in> set (rd_cleanup db)"
    and "d \<in> set (rd_commands (run (release_step bytes) db es))" and "cu_ref u \<in> set (en_refs (cm_envelope d))"
  shows "d \<in> set (rd_commands db)"
  using assms(4)
proof (induction es rule: rev_induct)
  case (snoc ev es)
  let ?db = "run (release_step bytes) db es"
  have ok: "release_inv ?db \<and> sources_free ?db" using source_claims.run_inv assms(1,2) by blast
  have "grows cleanup_le (rd_cleanup db) (rd_cleanup ?db)"
    using release_order.run_le[OF assms(1)] by (simp add: release_le_def)
  from grows_member[OF this assms(3)] obtain v where "v \<in> set (rd_cleanup ?db)" "cu_ref v = cu_ref u"
    by (auto simp: cleanup_le_def)
  with claimed_source_step[of ?db v d bytes ev] ok snoc.prems assms(5) have "d \<in> set (rd_commands ?db)" by simp
  then show ?case by (rule snoc.IH)
qed simp

text \<open>
  The commands that name a source are, from its claim on, those that had been finished before it.
\<close>

lemma source_commands_finished:
  assumes "u \<in> set (rd_cleanup (run (release_step bytes) empty_release_db es))"
    and "c \<in> set (rd_commands (run (release_step bytes) empty_release_db (es @ later)))"
    and "cu_ref u \<in> set (en_refs (cm_envelope c))"
  shows "cm_state c \<in> {CmSucceeded, CmFailed} \<and> c \<in> set (rd_commands (run (release_step bytes) empty_release_db es))"
proof -
  let ?db = "run (release_step bytes) empty_release_db es"
  have "sources_free empty_release_db" by (simp add: sources_free_def empty_release_db_def)
  then have ok: "release_inv ?db" "sources_free ?db" using source_claims.run_inv release_inv_empty by blast+
  then have c: "c \<in> set (rd_commands ?db)"
    using claimed_source_run[OF ok assms(1) _ assms(3)] assms(2) by simp
  with ok(2) assms(1,3) have "\<not> unfinished_command c" by (auto simp: sources_free_def)
  with c show ?thesis by (simp add: not_unfinished)
qed

end
