(* ===== verification/ReleaseRuntime.thy ===== *)
theory ReleaseRuntime
  imports ReleaseExecutor ReleaseSources
begin

section \<open>Release control: the runtime of an instance\<close>

text \<open>
  \<^verbatim>\<open>distributed/release/runtime.py\<close>: the writer tickets of one process. A \<open>Ticket\<close> is a mutable
  object that a task finds through a context variable, and tasks that it starts inherit the
  reference; so the tickets are a list of objects, and a context holds an index into it (an index
  out of range is a ticket of another runtime). What runs between two awaits is one step: the
  operations of the instance, its command consumer and everything else that happens to the tables
  interleave freely, and any transaction may fail or lose its answer.
\<close>

subsection \<open>Tickets and contexts\<close>

record writer_ticket =
  wt_id :: uuid
  wt_epoch :: int
  wt_active :: bool
  wt_operation :: "uuid option"

record task_context =
  tc_ticket :: "nat option"
  tc_record :: "command_row option"

text \<open>
  An entered \<open>operation\<close> or \<open>cache_fill\<close>, by what it does next: read the scope, keep what it read,
  ask for a ticket, start, run, end its ticket; the last flag is of a cache fill. A ticket whose end
  the database has not confirmed is \<open>FrUnended\<close>.
\<close>

datatype frame =
  FrAsking task_context pystr bool
| FrRead task_context pystr bool release_scope
| FrReady task_context pystr bool
| FrAdmitted uuid bool
| FrQuery
| FrOpen nat bool bool
| FrLeaving nat bool
| FrUnended uuid

text \<open>The consumer of commands, \<open>_consume\<close>; a stopped one may leave the ticket of its command.\<close>

datatype consumer_state =
  CoIdle
| CoRead release_scope
| CoReady
| CoClaimed command_row
| CoRunning command_row nat
| CoDone command_row nat command_state pystr
| CoStopped "uuid option"

record instance_state =
  iu_store :: runtime_store
  iu_slot :: slot
  iu_scope :: "release_scope option"
  iu_tickets :: "writer_ticket list"
  iu_frames :: "nat \<Rightarrow> frame option"
  iu_consumer :: consumer_state
  iu_lifecycle :: lifecycle
  iu_controller_failed :: bool

definition ticket_at :: "instance_state \<Rightarrow> task_context \<Rightarrow> writer_ticket option" where
  "ticket_at i ctx =
     (case tc_ticket ctx of
        None \<Rightarrow> None
      | Some k \<Rightarrow> if k < length (iu_tickets i) then Some (iu_tickets i ! k) else None)"

definition has_ticket :: "instance_state \<Rightarrow> task_context \<Rightarrow> bool" where
  "has_ticket i ctx = (case ticket_at i ctx of None \<Rightarrow> False | Some v \<Rightarrow> wt_active v)"

datatype writer_error = NoTicket | WriterRefused release_error

definition require_writer :: "instance_state \<Rightarrow> task_context \<Rightarrow> release_db \<Rightarrow> writer_error + (unit \<times> release_db)" where
  "require_writer i ctx db =
     (case ticket_at i ctx of
        Some v \<Rightarrow>
          if \<not> wt_active v then Inl NoTicket
          else (case runtime_call (assert_ticket (rn_instance (iu_store i)) (wt_id v)) db of
                  Inl e \<Rightarrow> Inl (WriterRefused e) | Inr r \<Rightarrow> Inr r)
      | None \<Rightarrow> Inl NoTicket)"

definition open_ticket :: "uuid \<Rightarrow> int \<Rightarrow> instance_state \<Rightarrow> instance_state" where
  "open_ticket t ep i =
     i\<lparr>iu_tickets := iu_tickets i @ [\<lparr>wt_id = t, wt_epoch = ep, wt_active = True, wt_operation = None\<rparr>]\<rparr>"

definition close_ticket :: "nat \<Rightarrow> instance_state \<Rightarrow> instance_state" where
  "close_ticket k i = i\<lparr>iu_tickets := (iu_tickets i)[k := (iu_tickets i ! k)\<lparr>wt_active := False\<rparr>]\<rparr>"

text \<open>\<open>bind_operation\<close> remembers the operation at once and attaches it in a transaction of its own.\<close>

definition bind_operation :: "task_context \<Rightarrow> uuid \<Rightarrow> instance_state \<Rightarrow> instance_state" where
  "bind_operation ctx op i =
     (case (tc_ticket ctx, ticket_at i ctx) of
        (Some k, Some v) \<Rightarrow>
          if wt_active v \<and> wt_operation v = None
          then i\<lparr>iu_tickets := (iu_tickets i)[k := v\<lparr>wt_operation := Some op\<rparr>]\<rparr> else i
      | _ \<Rightarrow> i)"

definition set_frame :: "nat \<Rightarrow> frame option \<Rightarrow> instance_state \<Rightarrow> instance_state" where
  "set_frame f fr i = i\<lparr>iu_frames := (iu_frames i)(f := fr)\<rparr>"

definition track :: "lifecycle_event \<Rightarrow> instance_state \<Rightarrow> instance_state" where
  "track ev i = i\<lparr>iu_lifecycle := lifecycle_step (iu_lifecycle i) ev\<rparr>"


subsection \<open>Operations\<close>

definition READ_OPERATIONS :: "pystr list" where
  "READ_OPERATIONS = [lit ''aquery'', lit ''aquery_data'', lit ''aquery_llm'', lit ''release_read'']"

definition INITIAL_OPERATIONS :: "pystr list" where
  "INITIAL_OPERATIONS = [lit ''initialize'', lit ''initialize_upload_sessions'']"

definition BACKGROUND_OPERATIONS :: "pystr list" where
  "BACKGROUND_OPERATIONS = [lit ''pipeline'', lit ''manual_retry'', lit ''pipeline_index_file'', lit ''pipeline_index_texts'',
     lit ''run_scanning_process'', lit ''background_delete_documents'', lit ''scan_processing'']"

datatype entry = EnterBare | EnterQuery | EnterReuse nat | EnterAdmission

text \<open>How \<open>operation\<close> begins, before its first await.\<close>

definition enter_operation :: "instance_state \<Rightarrow> task_context \<Rightarrow> pystr \<Rightarrow> bool \<Rightarrow> bool \<Rightarrow> release_error + entry" where
  "enter_operation i ctx kind maintenance detached =
     (if maintenance then Inl RelError
      else if kind \<in> set INITIAL_OPERATIONS then Inr EnterBare
      else if kind \<in> set READ_OPERATIONS then (if li_retiring (iu_lifecycle i) then Inl RelUnavailable else Inr EnterQuery)
      else case (tc_ticket ctx, ticket_at i ctx) of
             (Some k, Some v) \<Rightarrow>
               if wt_active v \<and> wt_operation v = None \<and> \<not> detached then Inr (EnterReuse k)
               else if kind \<notin> set BACKGROUND_OPERATIONS \<and> \<not> wt_active v then Inl RelError
               else Inr EnterAdmission
           | _ \<Rightarrow> if kind \<notin> set BACKGROUND_OPERATIONS then Inl RelError else Inr EnterAdmission)"

text \<open>
  \<open>refresh\<close> keeps the scope it read and then checks it: against the approved exception of the
  configuration, when there is one, else a scope that was given such an exception is refused.
\<close>

definition scope_accepted :: "(release_scope \<Rightarrow> bool) option \<Rightarrow> release_scope \<Rightarrow> bool" where
  "scope_accepted exception s = (case exception of Some verify \<Rightarrow> verify s | None \<Rightarrow> po_exception (rs_policy s) = None)"

definition admit_operation :: "instance_state \<Rightarrow> task_context \<Rightarrow> pystr \<Rightarrow> bool \<Rightarrow> uuid \<Rightarrow> uuid option release_txn" where
  "admit_operation i ctx kind cache fresh db =
     (case iu_scope i of
        None \<Rightarrow> Inl RelError
      | Some s \<Rightarrow>
          runtime_admit (iu_store i) (rs_epoch s) fresh kind (if cache then None else map_option cm_id (tc_record ctx))
            (if cache \<or> \<not> has_ticket i ctx then None else map_option wt_id (ticket_at i ctx)) db)"

text \<open>Leaving an operation that raised leaves its ticket uncertain only if it was bound; a cache fill's in any case.\<close>

definition leaves_uncertain :: "writer_ticket \<Rightarrow> bool \<Rightarrow> bool \<Rightarrow> bool" where
  "leaves_uncertain v cache raised = (raised \<and> (cache \<or> wt_operation v \<noteq> None))"


subsection \<open>Clean-ups of sources\<close>

definition session_ref :: "pystr \<Rightarrow> pystr" where
  "session_ref upload_id = lit ''session:'' @ upload_id"

text \<open>Whether the command that a task executes was accepted before its upload session expired, and names it.\<close>

definition accepted_before_expiry :: "instance_state \<Rightarrow> task_context \<Rightarrow> pystr \<Rightarrow> real \<Rightarrow> bool" where
  "accepted_before_expiry i ctx upload_id expires =
     (has_ticket i ctx \<and>
      (case tc_record ctx of
         None \<Rightarrow> False
       | Some c \<Rightarrow> cm_created c \<le> expires \<and> session_ref upload_id \<in> set (en_refs (cm_envelope c))))"

text \<open>\<open>source_cleanup\<close>, after \<open>require_writer\<close>: the claim, and its end when it was allowed.\<close>

definition source_claim :: "instance_state \<Rightarrow> task_context \<Rightarrow> pystr \<Rightarrow> bool release_txn" where
  "source_claim i ctx upload_id db =
     (case ticket_at i ctx of
        None \<Rightarrow> Inl RelError
      | Some v \<Rightarrow> runtime_call (claim_source_cleanup (rn_instance (iu_store i)) (wt_id v) (session_ref upload_id)) db)"

definition source_end :: "instance_state \<Rightarrow> task_context \<Rightarrow> pystr \<Rightarrow> bool \<Rightarrow> unit release_txn" where
  "source_end i ctx upload_id allowed db =
     (case ticket_at i ctx of
        None \<Rightarrow> Inl RelError
      | Some v \<Rightarrow>
          if allowed then runtime_call (finish_source_cleanup (rn_instance (iu_store i)) (wt_id v) (session_ref upload_id)) db
          else Inr ((), db))"


subsection \<open>Polling and batches\<close>

definition executor_failed :: "instance_state \<Rightarrow> bool" where
  "executor_failed i = (case iu_consumer i of CoStopped t \<Rightarrow> True | _ \<Rightarrow> False)"

text \<open>After the refresh: whether a batch may be claimed, and whether polling is on.\<close>

definition can_claim_batch :: "instance_state \<Rightarrow> bool" where
  "can_claim_batch i =
     (case iu_scope i of
        None \<Rightarrow> False
      | Some s \<Rightarrow> rs_active s = iu_slot i \<and> rs_gate s \<and> \<not> li_retiring (iu_lifecycle i) \<and> \<not> executor_failed i \<and>
          \<not> iu_controller_failed i)"

definition polls :: "instance_state \<Rightarrow> bool \<Rightarrow> bool" where
  "polls i desired =
     (case iu_scope i of
        None \<Rightarrow> False
      | Some s \<Rightarrow> desired \<and> rs_active s = iu_slot i \<and> rs_gate s \<and> \<not> li_retiring (iu_lifecycle i) \<and> \<not> executor_failed i)"


subsection \<open>Steps\<close>

record runtime_system =
  ry_db :: release_db
  ry_in :: instance_state

text \<open>A transaction is answered, was not run, or was run and its answer lost.\<close>

datatype reply = Answered | NotRun | AnswerLost

definition reply_db :: "reply \<Rightarrow> 'e + ('a \<times> release_db) \<Rightarrow> release_db \<Rightarrow> release_db" where
  "reply_db reply r db = (if reply = NotRun then db else settle_txn db r)"

text \<open>A frame at the beginning: \<open>None\<close> when nothing is left to be done.\<close>

definition enter_step :: "nat \<Rightarrow> task_context \<Rightarrow> pystr \<Rightarrow> bool \<Rightarrow> bool \<Rightarrow> instance_state \<Rightarrow> instance_state" where
  "enter_step f ctx kind maintenance detached i =
     (if iu_frames i f \<noteq> None then i
      else case enter_operation i ctx kind maintenance detached of
             Inl e \<Rightarrow> i
           | Inr EnterBare \<Rightarrow> i
           | Inr EnterQuery \<Rightarrow> set_frame f (Some FrQuery) (track (EnterSpan LtQueries) i)
           | Inr (EnterReuse k) \<Rightarrow> set_frame f (Some (FrOpen k False False)) (track (EnterSpan LtWriters) i)
           | Inr EnterAdmission \<Rightarrow> set_frame f (Some (FrAsking ctx kind False)) i)"

definition cache_step :: "nat \<Rightarrow> task_context \<Rightarrow> instance_state \<Rightarrow> instance_state" where
  "cache_step f ctx i =
     (if iu_frames i f \<noteq> None \<or> has_ticket i ctx then i
      else set_frame f (Some (FrAsking ctx (lit ''query_cache'') True)) i)"

definition read_step :: "nat \<Rightarrow> runtime_system \<Rightarrow> runtime_system" where
  "read_step f y =
     (case iu_frames (ry_in y) f of
        Some (FrAsking ctx kind cache) \<Rightarrow>
          y\<lparr>ry_in := set_frame f (map_option (FrRead ctx kind cache) (rd_scope (ry_db y))) (ry_in y)\<rparr>
      | _ \<Rightarrow> y)"

definition keep_step :: "(release_scope \<Rightarrow> bool) option \<Rightarrow> nat \<Rightarrow> instance_state \<Rightarrow> instance_state" where
  "keep_step exception f i =
     (case iu_frames i f of
        Some (FrRead ctx kind cache s) \<Rightarrow>
          set_frame f (if scope_accepted exception s then Some (FrReady ctx kind cache) else None) (i\<lparr>iu_scope := Some s\<rparr>)
      | _ \<Rightarrow> i)"

definition admitted_frame :: "bool \<Rightarrow> reply \<Rightarrow> 'e + (uuid option \<times> release_db) \<Rightarrow> frame option" where
  "admitted_frame cache reply r =
     (case r of
        Inr (Some t, db) \<Rightarrow>
          (case reply of Answered \<Rightarrow> Some (FrAdmitted t cache) | NotRun \<Rightarrow> None | AnswerLost \<Rightarrow> Some (FrUnended t))
      | _ \<Rightarrow> None)"

definition admit_step :: "nat \<Rightarrow> uuid \<Rightarrow> reply \<Rightarrow> runtime_system \<Rightarrow> runtime_system" where
  "admit_step f fresh reply y =
     (case iu_frames (ry_in y) f of
        Some (FrReady ctx kind cache) \<Rightarrow>
          let r = admit_operation (ry_in y) ctx kind cache fresh (ry_db y)
          in y\<lparr>ry_db := reply_db reply r (ry_db y), ry_in := set_frame f (admitted_frame cache reply r) (ry_in y)\<rparr>
      | _ \<Rightarrow> y)"

definition start_step :: "nat \<Rightarrow> instance_state \<Rightarrow> instance_state" where
  "start_step f i =
     (case (iu_frames i f, iu_scope i) of
        (Some (FrAdmitted t cache), Some s) \<Rightarrow>
          set_frame f (Some (FrOpen (length (iu_tickets i)) True cache))
            (open_ticket t (rs_epoch s) (track (EnterSpan LtWriters) i))
      | _ \<Rightarrow> i)"

text \<open>The end of a frame: its count and its ticket object first, its transaction later.\<close>

definition leave_step :: "nat \<Rightarrow> bool \<Rightarrow> instance_state \<Rightarrow> instance_state" where
  "leave_step f raised i =
     (case iu_frames i f of
        Some FrQuery \<Rightarrow> set_frame f None (track (LeaveSpan LtQueries) i)
      | Some (FrOpen k own cache) \<Rightarrow>
          (let j = track (LeaveSpan LtWriters) i
           in if own then set_frame f (Some (FrLeaving k (leaves_uncertain (iu_tickets i ! k) cache raised))) (close_ticket k j)
              else set_frame f None j)
      | _ \<Rightarrow> i)"

definition unended :: "reply \<Rightarrow> 'e + ('a \<times> release_db) \<Rightarrow> bool" where
  "unended reply r = (reply = NotRun \<or> (case r of Inl e \<Rightarrow> True | Inr x \<Rightarrow> False))"

definition finish_step :: "nat \<Rightarrow> reply \<Rightarrow> runtime_system \<Rightarrow> runtime_system" where
  "finish_step f reply y =
     (case iu_frames (ry_in y) f of
        Some (FrLeaving k uncertain) \<Rightarrow>
          (let t = wt_id (iu_tickets (ry_in y) ! k); r = runtime_finish_ticket (iu_store (ry_in y)) t uncertain (ry_db y)
           in y\<lparr>ry_db := reply_db reply r (ry_db y),
                ry_in := set_frame f (if unended reply r then Some (FrUnended t) else None) (ry_in y)\<rparr>)
      | _ \<Rightarrow> y)"

text \<open>The consumer: read the scope, keep it, claim, use the ticket of the command, execute, finish.\<close>

definition set_consumer :: "consumer_state \<Rightarrow> instance_state \<Rightarrow> instance_state" where
  "set_consumer co i = i\<lparr>iu_consumer := co\<rparr>"

definition consumer_read :: "runtime_system \<Rightarrow> runtime_system" where
  "consumer_read y =
     (if iu_consumer (ry_in y) = CoIdle
      then y\<lparr>ry_in := set_consumer (case rd_scope (ry_db y) of None \<Rightarrow> CoStopped None | Some s \<Rightarrow> CoRead s) (ry_in y)\<rparr>
      else y)"

definition consumer_keep :: "(release_scope \<Rightarrow> bool) option \<Rightarrow> instance_state \<Rightarrow> instance_state" where
  "consumer_keep exception i =
     (case iu_consumer i of
        CoRead s \<Rightarrow> set_consumer (if scope_accepted exception s then CoReady else CoStopped None) (i\<lparr>iu_scope := Some s\<rparr>)
      | _ \<Rightarrow> i)"

definition claimed_consumer :: "reply \<Rightarrow> 'e + (command_row option \<times> release_db) \<Rightarrow> consumer_state" where
  "claimed_consumer reply r =
     (case reply of
        NotRun \<Rightarrow> CoStopped None
      | Answered \<Rightarrow> (case r of Inl e \<Rightarrow> CoStopped None | Inr (None, db) \<Rightarrow> CoIdle | Inr (Some c, db) \<Rightarrow> CoClaimed c)
      | AnswerLost \<Rightarrow> (case r of Inr (Some c, db) \<Rightarrow> CoStopped (cm_ticket c) | _ \<Rightarrow> CoStopped None))"

definition consumer_claim :: "uuid \<Rightarrow> reply \<Rightarrow> runtime_system \<Rightarrow> runtime_system" where
  "consumer_claim fresh reply y =
     (case (iu_consumer (ry_in y), iu_scope (ry_in y)) of
        (CoReady, Some s) \<Rightarrow>
          let r = runtime_claim_next (iu_store (ry_in y)) (rs_epoch s) fresh (ry_db y)
          in y\<lparr>ry_db := reply_db reply r (ry_db y), ry_in := set_consumer (claimed_consumer reply r) (ry_in y)\<rparr>
      | _ \<Rightarrow> y)"

text \<open>\<open>use_command\<close>: the handler runs in a context of the command and its ticket.\<close>

definition use_command :: "instance_state \<Rightarrow> instance_state" where
  "use_command i =
     (case iu_consumer i of
        CoClaimed c \<Rightarrow>
          (case (cm_ticket c, cm_epoch c) of
             (Some t, Some ep) \<Rightarrow>
               set_consumer (CoRunning c (length (iu_tickets i))) (open_ticket t ep (track (EnterSpan LtWriters) i))
           | _ \<Rightarrow> i)
      | _ \<Rightarrow> i)"

definition command_context :: "command_row \<Rightarrow> nat \<Rightarrow> task_context" where
  "command_context c k = \<lparr>tc_ticket = Some k, tc_record = Some c\<rparr>"

definition executed_step :: "(command_state \<times> pystr) option \<Rightarrow> instance_state \<Rightarrow> instance_state" where
  "executed_step result i =
     (case iu_consumer i of
        CoRunning c k \<Rightarrow>
          (case result of
             None \<Rightarrow> set_consumer (CoStopped (Some (wt_id (iu_tickets i ! k)))) (track (LeaveSpan LtWriters) (close_ticket k i))
           | Some (st, text) \<Rightarrow> set_consumer (CoDone c k st text) (close_ticket k i))
      | _ \<Rightarrow> i)"

text \<open>A result whose command was finished, and whose answer came, lets the consumer go on, an uncertain one excepted.\<close>

definition finished_consumer :: "uuid \<Rightarrow> command_state \<Rightarrow> reply \<Rightarrow> 'e + ('a \<times> release_db) \<Rightarrow> consumer_state" where
  "finished_consumer t st reply r =
     (if unended reply r then CoStopped (Some t)
      else if reply = AnswerLost \<or> st = CmUncertain then CoStopped None else CoIdle)"

definition consumer_finish :: "reply \<Rightarrow> runtime_system \<Rightarrow> runtime_system" where
  "consumer_finish reply y =
     (case iu_consumer (ry_in y) of
        CoDone c k st text \<Rightarrow>
          (let r = runtime_finish_command (iu_store (ry_in y)) (cm_id c) st text (ry_db y)
           in y\<lparr>ry_db := reply_db reply r (ry_db y),
                ry_in := set_consumer (finished_consumer (wt_id (iu_tickets (ry_in y) ! k)) st reply r)
                           (track (LeaveSpan LtWriters) (ry_in y))\<rparr>)
      | _ \<Rightarrow> y)"

definition attach_step :: "nat \<Rightarrow> reply \<Rightarrow> runtime_system \<Rightarrow> runtime_system" where
  "attach_step k reply y =
     (if k < length (iu_tickets (ry_in y)) then
        (case wt_operation (iu_tickets (ry_in y) ! k) of
           None \<Rightarrow> y
         | Some op \<Rightarrow>
             y\<lparr>ry_db := reply_db reply (runtime_attach (iu_store (ry_in y)) (wt_id (iu_tickets (ry_in y) ! k)) op (ry_db y)) (ry_db y)\<rparr>)
      else y)"

text \<open>
  The events of others are those of the system, but that nobody else uses this instance's name for
  a ticket or a command.
\<close>

definition by_others :: "pystr \<Rightarrow> release_event \<Rightarrow> bool" where
  "by_others inst ev =
     (case ev of
        EvAdmit i ep t k c q \<Rightarrow> i \<noteq> inst
      | EvAttach i t op \<Rightarrow> i \<noteq> inst
      | EvFinishTicket i t u \<Rightarrow> i \<noteq> inst
      | EvClaim i ep t \<Rightarrow> i \<noteq> inst
      | EvFinishCommand i c st r \<Rightarrow> i \<noteq> inst
      | _ \<Rightarrow> True)"

datatype runtime_event =
  RtEnter nat task_context pystr bool bool
| RtCache nat task_context
| RtRead nat
| RtKeep nat
| RtAdmit nat uuid reply
| RtStart nat
| RtBind task_context uuid
| RtAttach nat reply
| RtLeave nat bool
| RtFinish nat reply
| RtConsumerRead
| RtConsumerKeep
| RtClaim uuid reply
| RtUse
| RtExecuted "(command_state \<times> pystr) option"
| RtFinishCommand reply
| RtRetire
| RtControllerFails
| RtElse release_event

fun runtime_step :: "(release_scope \<Rightarrow> bool) option \<Rightarrow> (envelope \<Rightarrow> int) \<Rightarrow> runtime_system \<Rightarrow> runtime_event \<Rightarrow> runtime_system" where
  "runtime_step exc bytes y (RtEnter f ctx kind maintenance detached) = y\<lparr>ry_in := enter_step f ctx kind maintenance detached (ry_in y)\<rparr>"
| "runtime_step exc bytes y (RtCache f ctx) = y\<lparr>ry_in := cache_step f ctx (ry_in y)\<rparr>"
| "runtime_step exc bytes y (RtRead f) = read_step f y"
| "runtime_step exc bytes y (RtKeep f) = y\<lparr>ry_in := keep_step exc f (ry_in y)\<rparr>"
| "runtime_step exc bytes y (RtAdmit f fresh reply) = admit_step f fresh reply y"
| "runtime_step exc bytes y (RtStart f) = y\<lparr>ry_in := start_step f (ry_in y)\<rparr>"
| "runtime_step exc bytes y (RtBind ctx op) = y\<lparr>ry_in := bind_operation ctx op (ry_in y)\<rparr>"
| "runtime_step exc bytes y (RtAttach k reply) = attach_step k reply y"
| "runtime_step exc bytes y (RtLeave f raised) = y\<lparr>ry_in := leave_step f raised (ry_in y)\<rparr>"
| "runtime_step exc bytes y (RtFinish f reply) = finish_step f reply y"
| "runtime_step exc bytes y RtConsumerRead = consumer_read y"
| "runtime_step exc bytes y RtConsumerKeep = y\<lparr>ry_in := consumer_keep exc (ry_in y)\<rparr>"
| "runtime_step exc bytes y (RtClaim fresh reply) = consumer_claim fresh reply y"
| "runtime_step exc bytes y RtUse = y\<lparr>ry_in := use_command (ry_in y)\<rparr>"
| "runtime_step exc bytes y (RtExecuted result) = y\<lparr>ry_in := executed_step result (ry_in y)\<rparr>"
| "runtime_step exc bytes y (RtFinishCommand reply) = consumer_finish reply y"
| "runtime_step exc bytes y RtRetire = y\<lparr>ry_in := track BeginRetire (ry_in y)\<rparr>"
| "runtime_step exc bytes y RtControllerFails = y\<lparr>ry_in := (ry_in y)\<lparr>iu_controller_failed := True\<rparr>\<rparr>"
| "runtime_step exc bytes y (RtElse ev) =
     (if by_others (rn_instance (iu_store (ry_in y))) ev then y\<lparr>ry_db := release_step bytes (ry_db y) ev\<rparr> else y)"

definition new_instance :: "runtime_store \<Rightarrow> slot \<Rightarrow> instance_state" where
  "new_instance rt sl =
     \<lparr>iu_store = rt, iu_slot = sl, iu_scope = None, iu_tickets = [], iu_frames = (\<lambda>f. None), iu_consumer = CoIdle,
      iu_lifecycle = new_lifecycle, iu_controller_failed = False\<rparr>"

end
