(* ===== verification/RuntimeProperties.thy ===== *)
theory RuntimeProperties
  imports ReleaseRuntime
begin

section \<open>Release control: tickets of a running instance\<close>

text \<open>
  Who holds a ticket: a frame or the consumer. A holder has a pending ticket, without an object yet,
  a live one, one that is ending, or one whose end is not known. \<open>consistent\<close> relates the holders,
  the ticket objects and the rows of the table that are active; every step changes one holder.
\<close>

subsection \<open>Holders\<close>

datatype holder = Frame nat | Consumer

datatype ticket_hold = HNone | HPending uuid | HLive nat | HEnding nat | HKept uuid

definition hold_of :: "instance_state \<Rightarrow> holder \<Rightarrow> ticket_hold" where
  "hold_of i x =
     (case x of
        Frame f \<Rightarrow>
          (case iu_frames i f of
             Some (FrAdmitted t cache) \<Rightarrow> HPending t
           | Some (FrOpen k own cache) \<Rightarrow> if own then HLive k else HNone
           | Some (FrLeaving k uncertain) \<Rightarrow> HEnding k
           | Some (FrUnended t) \<Rightarrow> HKept t
           | _ \<Rightarrow> HNone)
      | Consumer \<Rightarrow>
          (case iu_consumer i of
             CoClaimed c \<Rightarrow> (case cm_ticket c of Some t \<Rightarrow> HPending t | None \<Rightarrow> HNone)
           | CoRunning c k \<Rightarrow> HLive k
           | CoDone c k st text \<Rightarrow> HEnding k
           | CoStopped (Some t) \<Rightarrow> HKept t
           | _ \<Rightarrow> HNone))"

definition held_id :: "writer_ticket list \<Rightarrow> ticket_hold \<Rightarrow> uuid option" where
  "held_id objs h =
     (case h of HNone \<Rightarrow> None | HPending t \<Rightarrow> Some t | HLive k \<Rightarrow> Some (wt_id (objs ! k)) | HEnding k \<Rightarrow> Some (wt_id (objs ! k))
      | HKept t \<Rightarrow> Some t)"

lemma held_id_simps [simp]:
  "held_id objs HNone = None" "held_id objs (HPending t) = Some t" "held_id objs (HLive k) = Some (wt_id (objs ! k))"
  "held_id objs (HEnding k) = Some (wt_id (objs ! k))" "held_id objs (HKept t) = Some t"
  by (simp_all add: held_id_def)

definition ids_of :: "writer_ticket list \<Rightarrow> uuid set" where
  "ids_of objs = wt_id ` set objs"

text \<open>\<open>A\<close> are the active rows of the instance, \<open>K\<close> all rows there ever were.\<close>

definition consistent :: "(holder \<Rightarrow> ticket_hold) \<Rightarrow> writer_ticket list \<Rightarrow> uuid set \<Rightarrow> uuid set \<Rightarrow> bool" where
  "consistent s objs A K \<longleftrightarrow>
     (\<forall>t. (\<exists>x. held_id objs (s x) = Some t) \<longleftrightarrow> t \<in> A) \<and>
     (\<forall>x y t. held_id objs (s x) = Some t \<longrightarrow> held_id objs (s y) = Some t \<longrightarrow> x = y) \<and>
     distinct (map wt_id objs) \<and> ids_of objs \<subseteq> K \<and> A \<subseteq> K \<and>
     (\<forall>x t. s x = HPending t \<longrightarrow> t \<notin> ids_of objs) \<and>
     (\<forall>x k. s x = HLive k \<longrightarrow> k < length objs \<and> wt_active (objs ! k)) \<and>
     (\<forall>x k. s x = HEnding k \<longrightarrow> k < length objs \<and> \<not> wt_active (objs ! k)) \<and>
     (\<forall>k < length objs. wt_active (objs ! k) \<longrightarrow> (\<exists>x. s x = HLive k))"

lemma consistentD:
  assumes "consistent s objs A K"
  shows "\<And>t. (\<exists>x. held_id objs (s x) = Some t) \<longleftrightarrow> t \<in> A"
    and "\<And>x y t. held_id objs (s x) = Some t \<Longrightarrow> held_id objs (s y) = Some t \<Longrightarrow> x = y"
    and "distinct (map wt_id objs)" and "ids_of objs \<subseteq> K" and "A \<subseteq> K"
    and "\<And>x t. s x = HPending t \<Longrightarrow> t \<notin> ids_of objs"
    and "\<And>x k. s x = HLive k \<Longrightarrow> k < length objs \<and> wt_active (objs ! k)"
    and "\<And>x k. s x = HEnding k \<Longrightarrow> k < length objs \<and> \<not> wt_active (objs ! k)"
    and "\<And>k. k < length objs \<Longrightarrow> wt_active (objs ! k) \<Longrightarrow> \<exists>x. s x = HLive k"
  using assms unfolding consistent_def by blast+

lemma consistentI:
  assumes "\<And>t x. held_id objs (s x) = Some t \<Longrightarrow> t \<in> A" and "\<And>t. t \<in> A \<Longrightarrow> \<exists>x. held_id objs (s x) = Some t"
    and "\<And>x y t. held_id objs (s x) = Some t \<Longrightarrow> held_id objs (s y) = Some t \<Longrightarrow> x = y"
    and "distinct (map wt_id objs)" and "ids_of objs \<subseteq> K" and "A \<subseteq> K"
    and "\<And>x t. s x = HPending t \<Longrightarrow> t \<notin> ids_of objs"
    and "\<And>x k. s x = HLive k \<Longrightarrow> k < length objs \<and> wt_active (objs ! k)"
    and "\<And>x k. s x = HEnding k \<Longrightarrow> k < length objs \<and> \<not> wt_active (objs ! k)"
    and "\<And>k. k < length objs \<Longrightarrow> wt_active (objs ! k) \<Longrightarrow> \<exists>x. s x = HLive k"
  shows "consistent s objs A K"
  unfolding consistent_def using assms by blast

lemma held_active: "consistent s objs A K \<Longrightarrow> held_id objs (s x) = Some t \<Longrightarrow> t \<in> A"
  unfolding consistent_def by blast

lemma ids_of_nth: "k < length objs \<Longrightarrow> wt_id (objs ! k) \<in> ids_of objs"
  by (simp add: ids_of_def)

lemma held_at: "held_id objs ((s(x := h)) y) = (if y = x then held_id objs h else held_id objs (s y))"
  by simp

lemma map_update_same: "f v = f (xs ! k) \<Longrightarrow> map f (xs[k := v]) = map f xs"
  by (cases "k < length xs") (simp_all add: map_update list_update_same_conv list_update_beyond)

text \<open>The rows grow, the objects keep their names and flags: nothing changes.\<close>

lemma consistent_same:
  assumes ok: "consistent s objs A K" and "map wt_id objs' = map wt_id objs" and "map wt_active objs' = map wt_active objs"
    and "K \<subseteq> K'"
  shows "consistent s objs' A K'"
proof -
  note c = consistentD[OF ok]
  have len: "length objs' = length objs" using assms(2) by (metis length_map)
  have id: "wt_id (objs' ! k) = wt_id (objs ! k)" "wt_active (objs' ! k) = wt_active (objs ! k)" if "k < length objs" for k
    using that assms(2,3) len by (metis nth_map)+
  have held: "held_id objs' (s x) = held_id objs (s x)" for x
    using c(7,8)[of x] id by (cases "s x") auto
  have ids: "ids_of objs' = ids_of objs" using assms(2) unfolding ids_of_def by (metis list.set_map)
  show ?thesis
  proof (rule consistentI)
    show "\<And>x k. s x = HLive k \<Longrightarrow> k < length objs' \<and> wt_active (objs' ! k)" using c(7) id len by simp
    show "\<And>x k. s x = HEnding k \<Longrightarrow> k < length objs' \<and> \<not> wt_active (objs' ! k)" using c(8) id len by simp
    show "\<And>k. k < length objs' \<Longrightarrow> wt_active (objs' ! k) \<Longrightarrow> \<exists>x. s x = HLive k" using c(9) id len by simp
  qed (use c(1-6) assms(2,4) held ids in auto)
qed

text \<open>One holder changes: its rows, and no others, come and go.\<close>

lemma consistent_move:
  assumes ok: "consistent s objs A K"
    and A': "A' = (A - {t. held_id objs (s x) = Some t}) \<union> {t. held_id objs' h = Some t}"
    and new: "\<And>t. held_id objs' h = Some t \<Longrightarrow> t \<notin> A \<or> held_id objs (s x) = Some t"
    and others: "\<And>y. y \<noteq> x \<Longrightarrow> held_id objs' (s y) = held_id objs (s y)"
    and objs: "distinct (map wt_id objs')" "ids_of objs' \<subseteq> K'" "A' \<subseteq> K'"
    and holders: "\<And>y t. (s(x := h)) y = HPending t \<Longrightarrow> t \<notin> ids_of objs'"
      "\<And>y k. (s(x := h)) y = HLive k \<Longrightarrow> k < length objs' \<and> wt_active (objs' ! k)"
      "\<And>y k. (s(x := h)) y = HEnding k \<Longrightarrow> k < length objs' \<and> \<not> wt_active (objs' ! k)"
      "\<And>k. k < length objs' \<Longrightarrow> wt_active (objs' ! k) \<Longrightarrow> \<exists>y. (s(x := h)) y = HLive k"
  shows "consistent (s(x := h)) objs' A' K'"
proof -
  note c = consistentD[OF ok]
  have held: "held_id objs' ((s(x := h)) y) = (if y = x then held_id objs' h else held_id objs (s y))" for y
    using others by simp
  have old: "held_id objs (s y) = Some t \<Longrightarrow> t \<in> A" for y t using c(1) by blast
  show ?thesis
  proof (rule consistentI; (unfold held)?)
    show "t \<in> A'" if "(if y = x then held_id objs' h else held_id objs (s y)) = Some t" for t y
      using that old[of y t] c(2)[of y t x] A' by (auto split: if_splits)
    show "\<exists>y. (if y = x then held_id objs' h else held_id objs (s y)) = Some t" if t: "t \<in> A'" for t
    proof (cases "held_id objs' h = Some t")
      case False
      with t A' have "t \<in> A" "held_id objs (s x) \<noteq> Some t" by auto
      then obtain y where "held_id objs (s y) = Some t" "y \<noteq> x" using c(1) by blast
      then show ?thesis by auto
    qed auto
    show "y = z" if "(if y = x then held_id objs' h else held_id objs (s y)) = Some t"
      "(if z = x then held_id objs' h else held_id objs (s z)) = Some t" for y z t
    proof (cases "y = x \<longleftrightarrow> z = x")
      case True
      with that c(2)[of y t z] show ?thesis by (auto split: if_splits)
    next
      case False
      with that have "\<exists>w. w \<noteq> x \<and> held_id objs (s w) = Some t" "held_id objs' h = Some t"
        by (auto split: if_splits)
      then obtain w where w: "w \<noteq> x" "held_id objs (s w) = Some t" and h: "held_id objs' h = Some t" by blast
      from new[OF h] old[OF w(2)] have "held_id objs (s x) = Some t" by blast
      with c(2)[OF w(2)] w(1) show ?thesis by blast
    qed
  qed (use objs holders in auto)
qed

lemma consistent_gain:
  assumes ok: "consistent s objs A K" and x: "s x = HNone" and h: "h = HPending t \<or> h = HKept t" and t: "t \<notin> K" "insert t K \<subseteq> K'"
  shows "consistent (s(x := h)) objs (insert t A) K'"
proof (rule consistent_move[OF ok])
  note c = consistentD[OF ok]
  show "\<exists>y. (s(x := h)) y = HLive k" if k: "k < length objs" "wt_active (objs ! k)" for k
  proof -
    obtain y where "s y = HLive k" using c(9) k by blast
    moreover with x have "y \<noteq> x" by auto
    ultimately show ?thesis by auto
  qed
qed (use x h t consistentD(3-8)[OF ok] in \<open>auto split: if_splits\<close>)

lemma consistent_start:
  assumes ok: "consistent s objs A K" and x: "s x = HPending t" and v: "wt_id v = t" "wt_active v"
  shows "consistent (s(x := HLive (length objs))) (objs @ [v]) A K"
proof (rule consistent_move[OF ok])
  note c = consistentD[OF ok]
  have t: "t \<in> A" using held_active[OF ok, of x] x by simp
  show "A = (A - {t. held_id objs (s x) = Some t}) \<union> {t. held_id (objs @ [v]) (HLive (length objs)) = Some t}"
    using t x v(1) by auto
  show "held_id (objs @ [v]) (s y) = held_id objs (s y)" if "y \<noteq> x" for y
    using c(7,8)[of y] by (cases "s y") (auto simp: nth_append)
  show "distinct (map wt_id (objs @ [v]))" using c(3) c(6)[of x t] x v(1) by (simp add: ids_of_def)
  show "ids_of (objs @ [v]) \<subseteq> K" using c(4,5) t v(1) by (auto simp: ids_of_def)
  show "u \<notin> ids_of (objs @ [v])" if "(s(x := HLive (length objs))) y = HPending u" for y u
    using that c(6)[of y u] c(2)[of y u x] x v(1) by (auto simp: ids_of_def split: if_splits)
  show "\<exists>y. (s(x := HLive (length objs))) y = HLive k" if k: "k < length (objs @ [v])" "wt_active ((objs @ [v]) ! k)" for k
  proof (cases "k = length objs")
    case False
    with k obtain y where "s y = HLive k" using c(9)[of k] by (auto simp: nth_append)
    moreover with x have "y \<noteq> x" by auto
    ultimately show ?thesis by auto
  qed auto
qed (use x v consistentD(5-8)[OF ok] in \<open>force simp: nth_append split: if_splits\<close>)+

lemma consistent_leave:
  assumes ok: "consistent s objs A K" and x: "s x = HLive k" and h: "h = HEnding k \<or> h = HKept (wt_id (objs ! k))"
  shows "consistent (s(x := h)) (objs[k := (objs ! k)\<lparr>wt_active := False\<rparr>]) A K"
proof (rule consistent_move[OF ok])
  note c = consistentD[OF ok]
  let ?objs = "objs[k := (objs ! k)\<lparr>wt_active := False\<rparr>]"
  have k: "k < length objs" using c(7) x by blast
  have ids: "map wt_id ?objs = map wt_id objs" by (simp add: map_update_same)
  then have id: "wt_id (?objs ! j) = wt_id (objs ! j)" if "j < length objs" for j
    using that by (metis length_list_update nth_map)
  have t: "wt_id (objs ! k) \<in> A" using held_active[OF ok, of x] x by simp
  show "A = (A - {t. held_id objs (s x) = Some t}) \<union> {t. held_id ?objs h = Some t}"
    using t x h id[OF k] by auto
  show "u \<notin> A \<or> held_id objs (s x) = Some u" if "held_id ?objs h = Some u" for u
    using that x h id[OF k] by auto
  show "held_id ?objs (s y) = held_id objs (s y)" if "y \<noteq> x" for y
    using c(7,8)[of y] id by (cases "s y") auto
  show "distinct (map wt_id ?objs)" using c(3) ids by simp
  have set: "ids_of ?objs = ids_of objs" using ids unfolding ids_of_def by (metis list.set_map)
  show "ids_of ?objs \<subseteq> K" using c(4) set by simp
  show "u \<notin> ids_of ?objs" if "(s(x := h)) y = HPending u" for y u
    using that c(6)[of y u] h set by (auto split: if_splits)
  have other: "j \<noteq> k" if "s y = HLive j" "y \<noteq> x" for y j
    using that c(2)[of y "wt_id (objs ! k)" x] x by auto
  show "j < length ?objs \<and> wt_active (?objs ! j)" if "(s(x := h)) y = HLive j" for y j
    using that c(7)[of y j] other[of y j] h by (auto split: if_splits)
  show "j < length ?objs \<and> \<not> wt_active (?objs ! j)" if "(s(x := h)) y = HEnding j" for y j
    using that c(8)[of y j] h k by (auto simp: nth_list_update split: if_splits)
  show "\<exists>y. (s(x := h)) y = HLive j" if j: "j < length ?objs" "wt_active (?objs ! j)" for j
  proof -
    from j k have "j \<noteq> k" "wt_active (objs ! j)" by (auto simp: nth_list_update split: if_splits)
    then obtain y where "s y = HLive j" using c(9)[of j] j by auto
    moreover with x \<open>j \<noteq> k\<close> have "y \<noteq> x" by auto
    ultimately show ?thesis by auto
  qed
qed (use x h consistentD(1,5)[OF ok] in auto)

text \<open>An ending ticket is done, with its row, or its end is not known.\<close>

lemma consistent_end:
  assumes ok: "consistent s objs A K" and x: "s x = HEnding k"
  shows "K \<subseteq> K' \<Longrightarrow> consistent (s(x := HNone)) objs (A - {wt_id (objs ! k)}) K'"
    and "K \<subseteq> K' \<Longrightarrow> consistent (s(x := HKept (wt_id (objs ! k)))) objs A K'"
proof -
  note c = consistentD[OF ok]
  have t: "wt_id (objs ! k) \<in> A" using held_active[OF ok, of x] x by simp
  have live: "\<exists>y. (s(x := h)) y = HLive j" if j: "j < length objs" "wt_active (objs ! j)" for j h
  proof -
    obtain y where "s y = HLive j" using c(9) j by blast
    moreover with x have "y \<noteq> x" by auto
    ultimately show ?thesis by auto
  qed
  show "consistent (s(x := HNone)) objs (A - {wt_id (objs ! k)}) K'" if "K \<subseteq> K'"
    by (rule consistent_move[OF ok]) (use x c(3-8) that live in \<open>auto split: if_splits\<close>)
  show "consistent (s(x := HKept (wt_id (objs ! k)))) objs A K'" if "K \<subseteq> K'"
    by (rule consistent_move[OF ok]) (use x t c(3-8) that live in \<open>auto split: if_splits\<close>)
qed


subsection \<open>The rows\<close>

definition own_active :: "pystr \<Rightarrow> ticket_row \<Rightarrow> bool" where
  "own_active inst r \<longleftrightarrow> tk_instance r = inst \<and> tk_state r = TkActive"

fun actives :: "pystr \<Rightarrow> ticket_row list \<Rightarrow> uuid set" where
  "actives inst [] = {}"
| "actives inst (r # rows) = (if own_active inst r then insert (tk_id r) (actives inst rows) else actives inst rows)"

lemma actives_append [simp]: "actives inst (xs @ ys) = actives inst xs \<union> actives inst ys"
  by (induction xs) auto

lemma actives_iff: "t \<in> actives inst rows \<longleftrightarrow> (\<exists>r \<in> set rows. own_active inst r \<and> tk_id r = t)"
  by (induction rows) auto

abbreviation active_tickets :: "pystr \<Rightarrow> release_db \<Rightarrow> uuid set" where
  "active_tickets inst db \<equiv> actives inst (rd_tickets db)"

definition ticket_ids :: "release_db \<Rightarrow> uuid set" where
  "ticket_ids db = tk_id ` set (rd_tickets db)"

lemma settle_runtime_call [simp]: "settle_txn db (runtime_call f db) = settle_txn db (f db)"
  by (simp add: settle_txn_def runtime_call_def split: sum.split)

lemma runtime_call_Inr: "runtime_call f db = Inr r \<longleftrightarrow> f db = Inr r"
  by (simp add: runtime_call_def split: sum.split)

lemma admit_effect:
  assumes "admit_writer inst ep t kind command parent db = Inr (Some u, db')"
  shows "u = t" and "t \<notin> ticket_ids db" and "ticket_ids db' = insert t (ticket_ids db)"
    and "active_tickets inst' db' = active_tickets inst' db \<union> (if inst' = inst then {t} else {})"
  using assms
  by (auto elim!: admit_done simp: ticket_ids_def own_active_def find_ticket_None)

lemma admit_effect_none: "admit_writer inst ep t kind command parent db = Inr (None, db') \<Longrightarrow> db' = db"
  by (auto elim!: admit_done)

lemma actives_end:
  "actives inst' (map (\<lambda>r. if tk_id r = t \<and> tk_instance r = inst \<and> tk_state r = TkActive
      then r\<lparr>tk_state := ticket_end u\<rparr> else r) rows) = actives inst' rows - (if inst' = inst then {t} else {})"
  by (induction rows) (auto simp: own_active_def ticket_end_def)

lemma finish_effect:
  assumes "finish_ticket inst t u db = Inr (x, db')" and "inst' = inst \<Longrightarrow> t \<in> active_tickets inst db"
  shows "active_tickets inst' db' = active_tickets inst' db - (if inst' = inst then {t} else {})"
proof (cases "list_ex (\<lambda>r. tk_id r = t \<and> tk_instance r = inst \<and> tk_state r = TkActive) (rd_tickets db)")
  case True
  with assms(1) have "db' = db\<lparr>rd_tickets := map (\<lambda>r. if tk_id r = t \<and> tk_instance r = inst \<and> tk_state r = TkActive
      then r\<lparr>tk_state := ticket_end u\<rparr> else r) (rd_tickets db)\<rparr>"
    by (simp add: finish_ticket_def Let_def)
  then show ?thesis by (simp add: actives_end)
next
  case False
  with assms have "inst' \<noteq> inst" by (auto simp: actives_iff own_active_def list_ex_iff)
  with False assms(1) show ?thesis by (auto simp: finish_ticket_def Let_def split: if_splits)
qed

lemma actives_attach:
  "actives inst' (map (\<lambda>r. if attachable r inst t op then r\<lparr>tk_operation := Some op\<rparr> else r) rows) = actives inst' rows"
  by (induction rows) (auto simp: own_active_def)

lemma attach_effect: "attach_ticket inst t op db = Inr (x, db') \<Longrightarrow> active_tickets inst' db' = active_tickets inst' db"
  by (auto simp: attach_ticket_def actives_attach split: if_splits)

lemma rd_tickets_update_command [simp]: "rd_tickets (update_command i f db) = rd_tickets db"
  by (simp add: update_command_def)

lemma claim_effect:
  assumes "claim_command inst ep t db = Inr (Some c, db')"
  shows "cm_ticket c = Some t" and "t \<notin> ticket_ids db" and "ticket_ids db' = insert t (ticket_ids db)"
    and "active_tickets inst' db' = active_tickets inst' db \<union> (if inst' = inst then {t} else {})"
proof -
  from assms obtain c0 db1 where c: "c = claimed_row inst ep t c0" and db': "db' = update_command (cm_id c0) (claimed_row inst ep t) db1"
    and a: "admit_writer inst ep t (en_operation (cm_envelope c0)) (Some (cm_id c0)) None db = Inr (Some t, db1)"
    by (auto elim!: claim_done)
  note eff = admit_effect[OF a]
  show "cm_ticket c = Some t" by (simp add: c claimed_row_def)
  show "t \<notin> ticket_ids db" by (rule eff)
  show "ticket_ids db' = insert t (ticket_ids db)" using eff(3) by (simp add: db' ticket_ids_def)
  show "active_tickets inst' db' = active_tickets inst' db \<union> (if inst' = inst then {t} else {})" unfolding db' using eff(4) by simp
qed

lemma claim_effect_none: "claim_command inst ep t db = Inr (None, db') \<Longrightarrow> db' = db"
  by (auto elim!: claim_done)

lemma finish_command_effect:
  assumes "finish_command inst i st result db = Inr (x, db')"
    and "inst' = inst \<Longrightarrow> find_command db i = Some d \<and> cm_ticket d = Some t \<and> t \<in> active_tickets inst db"
  shows "active_tickets inst' db' = active_tickets inst' db - (if inst' = inst then {t} else {})"
proof -
  from assms(1) obtain c u where c: "find_command db i = Some c" "cm_ticket c = Some u"
    and fin: "finish_ticket inst u (st = CmUncertain) (update_command i (\<lambda>c. c\<lparr>cm_state := st, cm_result := Some result\<rparr>) db) = Inr (x, db')"
    by (rule finish_command_done) blast
  have "inst' = inst \<Longrightarrow> u = t" using assms(2) c by simp
  moreover have "inst' = inst \<Longrightarrow> u \<in> active_tickets inst db" using assms(2) c by simp
  ultimately show ?thesis using finish_effect[OF fin, of inst'] by (auto split: if_splits)
qed

text \<open>The events that are no writer's, and what others do with their tickets.\<close>

lemma same_tickets:
  "transition idn ep cur nxt db = Inr (s1, db') \<Longrightarrow> rd_tickets db' = rd_tickets db"
  "transfer_writer idn ep is db = Inr (s2, db') \<Longrightarrow> rd_tickets db' = rd_tickets db"
  "begin_rollback idn ep a db = Inr (s3, db') \<Longrightarrow> rd_tickets db' = rd_tickets db"
  "reverse_transfer idn ep is db = Inr (s4, db') \<Longrightarrow> rd_tickets db' = rd_tickets db"
  "finish_rollback idn ep db = Inr (s5, db') \<Longrightarrow> rd_tickets db' = rd_tickets db"
  "abort_before_transfer idn ep db = Inr (s6, db') \<Longrightarrow> rd_tickets db' = rd_tickets db"
  "finish_abort idn ep db = Inr (s7, db') \<Longrightarrow> rd_tickets db' = rd_tickets db"
  "begin_release idn ep db = Inr (b, db') \<Longrightarrow> rd_tickets db' = rd_tickets db"
  by (erule transition_done, simp) (erule transfer_done, simp, erule rollback_done, simp, simp, erule reverse_done, simp,
      erule finish_rollback_done, simp, erule abort_done, simp, erule finish_abort_done, simp, erule begin_done, simp, simp)

lemma same_tickets_rows:
  "onboard n sl p c po db = Inr (u, db') \<Longrightarrow> rd_tickets db' = rd_tickets db"
  "capture_baseline idn ep d db = Inr (u1, db') \<Longrightarrow> rd_tickets db' = rd_tickets db"
  "record_evidence idn e db = Inr (u2, db') \<Longrightarrow> rd_tickets db' = rd_tickets db"
  "retire_old_instances idn ep db = Inr (u3, db') \<Longrightarrow> rd_tickets db' = rd_tickets db"
  "register_instance i sl cf p w db = Inr (u4, db') \<Longrightarrow> rd_tickets db' = rd_tickets db"
  "enqueue_command bytes i ci en db = Inr (u5, db') \<Longrightarrow> rd_tickets db' = rd_tickets db"
  "close_instance i st db = Inr (u6, db') \<Longrightarrow> rd_tickets db' = rd_tickets db"
  "claim_source_cleanup i t rf db = Inr (u7, db') \<Longrightarrow> rd_tickets db' = rd_tickets db"
  "finish_source_cleanup i t rf db = Inr (u8, db') \<Longrightarrow> rd_tickets db' = rd_tickets db"
  by (auto elim!: onboard_done baseline_done evidence_done retire_done enqueue_done
      simp: register_instance_def bind_result_Inr close_instance_def claim_source_cleanup_def finish_source_cleanup_def Let_def
      split: if_splits option.splits)

lemma settle_active:
  "(\<And>x db'. r = Inr (x, db') \<Longrightarrow> active_tickets inst db' = active_tickets inst db) \<Longrightarrow> active_tickets inst (settle_txn db r) = active_tickets inst db"
  by (auto simp: settle_txn_def split: sum.splits)

lemma admit_other: "admit_writer i ep t k c q db = Inr (g, db') \<Longrightarrow> inst \<noteq> i \<Longrightarrow> active_tickets inst db' = active_tickets inst db"
  by (cases g) (auto dest: admit_effect_none admit_effect(4)[of _ _ _ _ _ _ _ _ _ inst])

lemma claim_other: "claim_command i ep t db = Inr (g, db') \<Longrightarrow> inst \<noteq> i \<Longrightarrow> active_tickets inst db' = active_tickets inst db"
  by (cases g) (auto dest: claim_effect_none claim_effect(4)[of _ _ _ _ _ _ inst])

lemma others_keep:
  assumes "by_others inst ev"
  shows "active_tickets inst (release_step bytes db ev) = active_tickets inst db"
proof (cases ev)
  case (EvFinishTicket i t u)
  with assms show ?thesis
    by (auto simp: by_others_def intro!: settle_active dest: finish_effect[where inst' = inst])
next
  case (EvFinishCommand i c st r)
  with assms show ?thesis
    by (auto simp: by_others_def intro!: settle_active dest: finish_command_effect[where inst' = inst])
next
  case (EvAdmit i ep t k c q)
  with assms have "inst \<noteq> i" by (auto simp: by_others_def)
  then show ?thesis unfolding EvAdmit release_step.simps by (intro settle_active) (rule admit_other)
next
  case (EvClaim i ep t)
  with assms have "inst \<noteq> i" by (auto simp: by_others_def)
  then show ?thesis unfolding EvClaim release_step.simps by (intro settle_active) (rule claim_other)
qed (use assms in \<open>auto simp: by_others_def intro!: settle_active dest: same_tickets same_tickets_rows attach_effect\<close>)

lemma ticket_ids_grow: "release_inv db \<Longrightarrow> ticket_ids db \<subseteq> ticket_ids (release_step bytes db ev)"
  using release_step_le[of db bytes ev]
  by (auto simp: release_le_def ticket_ids_def ticket_le_def dest!: grows_member)


subsection \<open>The invariant of the runtime\<close>

definition row_ticket :: "release_db \<Rightarrow> command_row \<Rightarrow> uuid \<Rightarrow> bool" where
  "row_ticket db c t \<longleftrightarrow> (\<exists>d \<in> set (rd_commands db). cm_id d = cm_id c \<and> cm_state d \<noteq> CmQueued \<and> cm_ticket d = Some t)"

text \<open>The row of the command that the consumer works on has the ticket that the consumer holds.\<close>

definition consumer_row :: "instance_state \<Rightarrow> release_db \<Rightarrow> bool" where
  "consumer_row i db \<longleftrightarrow>
     (case iu_consumer i of
        CoClaimed c \<Rightarrow> (\<forall>t. cm_ticket c = Some t \<longrightarrow> row_ticket db c t)
      | CoRunning c k \<Rightarrow> row_ticket db c (wt_id (iu_tickets i ! k))
      | CoDone c k st text \<Rightarrow> row_ticket db c (wt_id (iu_tickets i ! k))
      | _ \<Rightarrow> True)"

abbreviation instance_name :: "runtime_system \<Rightarrow> pystr" where
  "instance_name y \<equiv> rn_instance (iu_store (ry_in y))"

definition runtime_inv :: "runtime_system \<Rightarrow> bool" where
  "runtime_inv y \<longleftrightarrow> release_inv (ry_db y) \<and>
     consistent (hold_of (ry_in y)) (iu_tickets (ry_in y)) (active_tickets (instance_name y) (ry_db y)) (ticket_ids (ry_db y)) \<and>
     consumer_row (ry_in y) (ry_db y)"

lemma runtime_invI:
  assumes "release_inv (ry_db y)"
    and "consistent (hold_of (ry_in y)) (iu_tickets (ry_in y)) (active_tickets (instance_name y) (ry_db y)) (ticket_ids (ry_db y))"
    and "consumer_row (ry_in y) (ry_db y)"
  shows "runtime_inv y"
  using assms by (simp add: runtime_inv_def)

lemma runtime_invD:
  assumes "runtime_inv y"
  shows "release_inv (ry_db y)"
    and "consistent (hold_of (ry_in y)) (iu_tickets (ry_in y)) (active_tickets (instance_name y) (ry_db y)) (ticket_ids (ry_db y))"
    and "consumer_row (ry_in y) (ry_db y)"
  using assms by (simp_all add: runtime_inv_def)

lemma row_ticket_step:
  assumes "release_inv db" and "row_ticket db c t"
  shows "row_ticket (release_step bytes db ev) c t"
proof -
  from assms(2) obtain d where d: "d \<in> set (rd_commands db)" "cm_id d = cm_id c" "cm_state d \<noteq> CmQueued" "cm_ticket d = Some t"
    by (auto simp: row_ticket_def)
  have "grows command_le (rd_commands db) (rd_commands (release_step bytes db ev))"
    using release_step_le[OF assms(1)] by (simp add: release_le_def)
  from grows_member[OF this d(1)] obtain e where e: "e \<in> set (rd_commands (release_step bytes db ev))" "command_le d e" by blast
  have "cm_state e \<noteq> CmQueued"
    using e(2) d(3) by (cases "cm_state d") (auto simp: command_le_def command_rank_def)
  with e d show ?thesis by (auto simp: row_ticket_def command_le_def)
qed

lemma consumer_row_step: "release_inv db \<Longrightarrow> consumer_row i db \<Longrightarrow> consumer_row i (release_step bytes db ev)"
  by (auto simp: consumer_row_def row_ticket_step split: consumer_state.splits)

text \<open>How a step of the instance changes the holders.\<close>

lemma holding_set_frame:
  "hold_of (set_frame f fr i) = (hold_of i)(Frame f := hold_of (i\<lparr>iu_frames := (\<lambda>x. fr)\<rparr>) (Frame f))"
  by (rule ext) (auto simp: hold_of_def set_frame_def split: holder.split)

lemma holding_set_consumer:
  "hold_of (set_consumer co i) = (hold_of i)(Consumer := hold_of (i\<lparr>iu_consumer := co\<rparr>) Consumer)"
  by (rule ext) (auto simp: hold_of_def set_consumer_def split: holder.split)

lemma holding_fields [simp]:
  "hold_of (i\<lparr>iu_tickets := ts\<rparr>) = hold_of i" "hold_of (i\<lparr>iu_scope := sc\<rparr>) = hold_of i"
  "hold_of (track ev i) = hold_of i" "hold_of (open_ticket t ep i) = hold_of i" "hold_of (close_ticket k i) = hold_of i"
  "hold_of (i\<lparr>iu_controller_failed := b\<rparr>) = hold_of i" "hold_of (bind_operation ctx op i) = hold_of i"
  by (rule ext; simp add: hold_of_def track_def open_ticket_def close_ticket_def bind_operation_def
      split: holder.split option.split)+

lemma instance_fields [simp]:
  "iu_tickets (set_frame f fr i) = iu_tickets i" "iu_store (set_frame f fr i) = iu_store i" "iu_consumer (set_frame f fr i) = iu_consumer i"
  "iu_tickets (set_consumer co i) = iu_tickets i" "iu_store (set_consumer co i) = iu_store i" "iu_consumer (set_consumer co i) = co"
  "iu_tickets (track ev i) = iu_tickets i" "iu_store (track ev i) = iu_store i" "iu_consumer (track ev i) = iu_consumer i"
  "iu_store (open_ticket t ep i) = iu_store i" "iu_consumer (open_ticket t ep i) = iu_consumer i"
  "iu_store (close_ticket k i) = iu_store i" "iu_consumer (close_ticket k i) = iu_consumer i"
  "iu_store (bind_operation ctx op i) = iu_store i" "iu_consumer (bind_operation ctx op i) = iu_consumer i"
  "iu_frames (track ev i) = iu_frames i" "iu_frames (set_consumer co i) = iu_frames i"
  by (simp_all add: set_frame_def set_consumer_def track_def open_ticket_def close_ticket_def bind_operation_def split: option.split)


subsection \<open>Steps\<close>

text \<open>A step of the instance that changes no holder, and a step of the tables that changes no active row.\<close>

lemma inv_quiet:
  assumes inv: "runtime_inv y" and same: "hold_of i = hold_of (ry_in y)" "iu_store i = iu_store (ry_in y)"
    "map wt_id (iu_tickets i) = map wt_id (iu_tickets (ry_in y))" "map wt_active (iu_tickets i) = map wt_active (iu_tickets (ry_in y))"
    and row: "consumer_row i (ry_db y)"
  shows "runtime_inv (y\<lparr>ry_in := i\<rparr>)"
proof (rule runtime_invI)
  note d = runtime_invD[OF inv]
  show "release_inv (ry_db (y\<lparr>ry_in := i\<rparr>))" using d(1) by simp
  show "consistent (hold_of (ry_in (y\<lparr>ry_in := i\<rparr>))) (iu_tickets (ry_in (y\<lparr>ry_in := i\<rparr>)))
    (active_tickets (instance_name (y\<lparr>ry_in := i\<rparr>)) (ry_db (y\<lparr>ry_in := i\<rparr>))) (ticket_ids (ry_db (y\<lparr>ry_in := i\<rparr>)))"
    using consistent_same[OF d(2) same(3,4)] same(1,2) by simp
qed (use row in simp)

lemma inv_step_db:
  assumes inv: "runtime_inv y" and act: "active_tickets (instance_name y) (release_step bytes (ry_db y) ev) = active_tickets (instance_name y) (ry_db y)"
  shows "runtime_inv (y\<lparr>ry_db := release_step bytes (ry_db y) ev\<rparr>)"
proof (rule runtime_invI)
  note d = runtime_invD[OF inv]
  show "release_inv (ry_db (y\<lparr>ry_db := release_step bytes (ry_db y) ev\<rparr>))" using release_step_inv[OF d(1)] by simp
  show "consumer_row (ry_in (y\<lparr>ry_db := release_step bytes (ry_db y) ev\<rparr>)) (ry_db (y\<lparr>ry_db := release_step bytes (ry_db y) ev\<rparr>))"
    using consumer_row_step[OF d(1,3)] by simp
qed (use act consistent_same[OF runtime_invD(2)[OF inv] refl refl ticket_ids_grow[OF runtime_invD(1)[OF inv]]] in simp)

lemma consumer_row_same:
  "iu_consumer i = iu_consumer j \<Longrightarrow> iu_tickets i = iu_tickets j \<Longrightarrow> consumer_row i db = consumer_row j db"
  by (simp add: consumer_row_def split: consumer_state.split)

lemma inv_quiet_frame:
  assumes "runtime_inv y" and "hold_of (ry_in y) (Frame f) = HNone" and "hold_of ((ry_in y)\<lparr>iu_frames := (\<lambda>x. fr)\<rparr>) (Frame f) = HNone"
    and "iu_tickets i = iu_tickets (ry_in y)" "iu_store i = iu_store (ry_in y)" "iu_consumer i = iu_consumer (ry_in y)"
    "iu_frames i = iu_frames (ry_in y)"
  shows "runtime_inv (y\<lparr>ry_in := set_frame f fr i\<rparr>)"
proof (rule inv_quiet[OF assms(1)])
  have "hold_of i x = hold_of (ry_in y) x" for x using assms(6,7) by (simp add: hold_of_def split: holder.split)
  then show "hold_of (set_frame f fr i) = hold_of (ry_in y)"
    using assms(2,3) by (intro ext) (auto simp: holding_set_frame hold_of_def)
  show "consumer_row (set_frame f fr i) (ry_db y)" using runtime_invD(3)[OF assms(1)] assms(4,6) consumer_row_same[of "set_frame f fr i" "ry_in y"] by simp
qed (use assms(4,5) in simp_all)

lemma inv_enter: "runtime_inv y \<Longrightarrow> runtime_inv (y\<lparr>ry_in := enter_step f ctx kind maintenance detached (ry_in y)\<rparr>)"
  by (auto simp: enter_step_def split: sum.split entry.split intro!: inv_quiet_frame) (auto simp: hold_of_def)

lemma inv_cache: "runtime_inv y \<Longrightarrow> runtime_inv (y\<lparr>ry_in := cache_step f ctx (ry_in y)\<rparr>)"
  by (auto simp: cache_step_def intro!: inv_quiet_frame) (auto simp: hold_of_def)

lemma inv_read: "runtime_inv y \<Longrightarrow> runtime_inv (read_step f y)"
  by (auto simp: read_step_def split: option.split frame.split intro!: inv_quiet_frame)
    (auto simp: hold_of_def split: option.split)

lemma inv_keep: "runtime_inv y \<Longrightarrow> runtime_inv (y\<lparr>ry_in := keep_step exc f (ry_in y)\<rparr>)"
  by (auto simp: keep_step_def split: option.split frame.split intro!: inv_quiet_frame) (auto simp: hold_of_def)

lemma inv_bind: "runtime_inv y \<Longrightarrow> runtime_inv (y\<lparr>ry_in := bind_operation ctx op (ry_in y)\<rparr>)"
proof (rule inv_quiet)
  assume inv: "runtime_inv y"
  let ?i = "ry_in y"
  have ids: "map wt_id (iu_tickets (bind_operation ctx op ?i)) = map wt_id (iu_tickets ?i)"
    "map wt_active (iu_tickets (bind_operation ctx op ?i)) = map wt_active (iu_tickets ?i)"
    by (auto simp: bind_operation_def ticket_at_def map_update_same split: option.splits if_splits)
  then show "map wt_id (iu_tickets (bind_operation ctx op ?i)) = map wt_id (iu_tickets ?i)"
    "map wt_active (iu_tickets (bind_operation ctx op ?i)) = map wt_active (iu_tickets ?i)" by simp_all
  have id: "wt_id (iu_tickets (bind_operation ctx op ?i) ! k) = wt_id (iu_tickets ?i ! k)" if "k < length (iu_tickets ?i)" for k
    using that ids(1) by (metis length_map nth_map)
  show "consumer_row (bind_operation ctx op ?i) (ry_db y)"
    using runtime_invD(3)[OF inv] consistentD(7,8)[OF runtime_invD(2)[OF inv], of Consumer] id
    by (auto simp: consumer_row_def hold_of_def split: consumer_state.splits)
qed simp_all

text \<open>A transaction of the instance is an event of the system, or did not happen.\<close>

lemma inv_reply_quiet:
  assumes inv: "runtime_inv y" and r: "settle_txn (ry_db y) r = release_step (\<lambda>_. 0) (ry_db y) ev"
    and act: "active_tickets (instance_name y) (settle_txn (ry_db y) r) = active_tickets (instance_name y) (ry_db y)"
  shows "runtime_inv (y\<lparr>ry_db := reply_db reply r (ry_db y)\<rparr>)"
  using inv inv_step_db[OF inv, of "\<lambda>_. 0" ev] r act by (cases reply) (simp_all add: reply_db_def)

lemma inv_attach_step: "runtime_inv y \<Longrightarrow> runtime_inv (attach_step k reply y)"
proof -
  assume inv: "runtime_inv y"
  have "runtime_inv (y\<lparr>ry_db := reply_db reply (runtime_attach (iu_store (ry_in y)) t op (ry_db y)) (ry_db y)\<rparr>)" for t op
    by (rule inv_reply_quiet[OF inv, where ev = "EvAttach (instance_name y) t op"])
      (auto simp: runtime_attach_def intro!: settle_active dest: attach_effect)
  with inv show ?thesis by (simp add: attach_step_def split: option.split)
qed

text \<open>Holders by constructor, for the steps that change them.\<close>

lemma frame_holding:
  "iu_frames i f = Some (FrAdmitted t cache) \<Longrightarrow> hold_of i (Frame f) = HPending t"
  "iu_frames i f = Some (FrOpen k True cache) \<Longrightarrow> hold_of i (Frame f) = HLive k"
  "iu_frames i f = Some (FrOpen k False cache) \<Longrightarrow> hold_of i (Frame f) = HNone"
  "iu_frames i f = Some (FrLeaving k u) \<Longrightarrow> hold_of i (Frame f) = HEnding k"
  "iu_frames i f = Some (FrUnended t) \<Longrightarrow> hold_of i (Frame f) = HKept t"
  "iu_frames i f = Some FrQuery \<Longrightarrow> hold_of i (Frame f) = HNone"
  "iu_frames i f = Some (FrReady ctx kind cache) \<Longrightarrow> hold_of i (Frame f) = HNone"
  "iu_frames i f = None \<Longrightarrow> hold_of i (Frame f) = HNone"
  by (simp_all add: hold_of_def)

lemma consumer_holding:
  "iu_consumer i = CoIdle \<Longrightarrow> hold_of i Consumer = HNone"
  "iu_consumer i = CoRead s \<Longrightarrow> hold_of i Consumer = HNone"
  "iu_consumer i = CoReady \<Longrightarrow> hold_of i Consumer = HNone"
  "iu_consumer i = CoClaimed c \<Longrightarrow> cm_ticket c = Some t \<Longrightarrow> hold_of i Consumer = HPending t"
  "iu_consumer i = CoRunning c k \<Longrightarrow> hold_of i Consumer = HLive k"
  "iu_consumer i = CoDone c k st text \<Longrightarrow> hold_of i Consumer = HEnding k"
  "iu_consumer i = CoStopped None \<Longrightarrow> hold_of i Consumer = HNone"
  "iu_consumer i = CoStopped (Some t) \<Longrightarrow> hold_of i Consumer = HKept t"
  by (simp_all add: hold_of_def)

lemmas holding_updates = holding_set_frame holding_set_consumer frame_holding consumer_holding

lemma settle_admit:
  "\<exists>ev. settle_txn db (admit_operation i ctx kind cache fresh db) = release_step (\<lambda>_. 0) db ev"
proof (cases "iu_scope i")
  case None
  have "settle_txn db (admit_operation i ctx kind cache fresh db) = release_step (\<lambda>_. 0) db (EvElsewhere (rd_coord db) 0)"
    using None by (simp add: admit_operation_def)
  then show ?thesis by blast
next
  case (Some s)
  then show ?thesis
    by (auto simp: admit_operation_def runtime_admit_def intro: exI[of _ "EvAdmit _ _ _ _ _ _"])
qed

lemma admit_operation_done:
  assumes "admit_operation i ctx kind cache fresh db = Inr (g, db')"
  obtains ep cm q where "admit_writer (rn_instance (iu_store i)) ep fresh kind cm q db = Inr (g, db')"
  using assms by (auto simp: admit_operation_def runtime_admit_def runtime_call_Inr split: option.splits)

lemma inv_gain:
  assumes inv: "runtime_inv y" and db: "db' = release_step (\<lambda>_. 0) (ry_db y) ev"
    and x: "hold_of (ry_in y) x = HNone" and h: "h = HPending t \<or> h = HKept t" and t: "t \<notin> ticket_ids (ry_db y)"
    and rows: "active_tickets (instance_name y) db' = insert t (active_tickets (instance_name y) (ry_db y))"
      "ticket_ids db' = insert t (ticket_ids (ry_db y))"
    and i: "hold_of i = (hold_of (ry_in y))(x := h)" "iu_tickets i = iu_tickets (ry_in y)" "iu_store i = iu_store (ry_in y)"
    and row: "consumer_row i db'"
  shows "runtime_inv (y\<lparr>ry_db := db', ry_in := i\<rparr>)"
proof (rule runtime_invI)
  note d = runtime_invD[OF inv]
  show "release_inv (ry_db (y\<lparr>ry_db := db', ry_in := i\<rparr>))" using release_step_inv[OF d(1)] db by simp
  have "consistent ((hold_of (ry_in y))(x := h)) (iu_tickets (ry_in y)) (insert t (active_tickets (instance_name y) (ry_db y))) (ticket_ids db')"
    by (rule consistent_gain[OF d(2) x h t]) (simp add: rows)
  then show "consistent (hold_of (ry_in (y\<lparr>ry_db := db', ry_in := i\<rparr>))) (iu_tickets (ry_in (y\<lparr>ry_db := db', ry_in := i\<rparr>)))
    (active_tickets (instance_name (y\<lparr>ry_db := db', ry_in := i\<rparr>)) (ry_db (y\<lparr>ry_db := db', ry_in := i\<rparr>)))
    (ticket_ids (ry_db (y\<lparr>ry_db := db', ry_in := i\<rparr>)))"
    using i rows by simp
qed (use row in simp)

lemma inv_admit_step: "runtime_inv y \<Longrightarrow> runtime_inv (admit_step f fresh reply y)"
proof -
  assume inv: "runtime_inv y"
  note d = runtime_invD[OF inv]
  let ?i = "ry_in y"
  show ?thesis
  proof (cases "\<exists>ctx kind cache. iu_frames ?i f = Some (FrReady ctx kind cache)")
    case False
    then show ?thesis using inv by (auto simp: admit_step_def split: option.split frame.split)
  next
    case True
    then obtain ctx kind cache where fr: "iu_frames ?i f = Some (FrReady ctx kind cache)" by blast
    define r where "r = admit_operation ?i ctx kind cache fresh (ry_db y)"
    have step: "admit_step f fresh reply y =
      y\<lparr>ry_db := reply_db reply r (ry_db y), ry_in := set_frame f (admitted_frame cache reply r) ?i\<rparr>"
      by (simp add: admit_step_def fr r_def Let_def)
    have none: "runtime_inv (y\<lparr>ry_in := set_frame f None ?i\<rparr>)"
      by (rule inv_quiet_frame[OF inv]) (simp_all add: hold_of_def fr)
    show ?thesis
    proof (cases "reply = NotRun \<or> (\<forall>t db'. r \<noteq> Inr (Some t, db'))")
      case True
      then have "admitted_frame cache reply r = None"
        by (auto simp: admitted_frame_def split: sum.split option.split reply.split)
      moreover have "reply_db reply r (ry_db y) = ry_db y"
        using True by (cases r) (auto simp: reply_db_def r_def settle_txn_def dest: admit_effect_none elim!: admit_operation_done split: sum.split)
      ultimately show ?thesis using none by (simp add: step)
    next
      case False
      then obtain t db' where r: "r = Inr (Some t, db')" and rep: "reply \<noteq> NotRun" by blast
      obtain ep cm q where a: "admit_writer (instance_name y) ep fresh kind cm q (ry_db y) = Inr (Some t, db')"
        using r unfolding r_def by (rule admit_operation_done)
      note eff = admit_effect[OF a]
      obtain ev where ev: "db' = release_step (\<lambda>_. 0) (ry_db y) ev"
        using settle_admit[of "ry_db y" ?i ctx kind cache fresh] r by (auto simp: r_def)
      have "runtime_inv (y\<lparr>ry_db := db', ry_in := set_frame f (admitted_frame cache reply r) ?i\<rparr>)"
      proof (rule inv_gain[OF inv ev])
        show "hold_of ?i (Frame f) = HNone" by (simp add: hold_of_def fr)
        show "consumer_row (set_frame f (admitted_frame cache reply r) ?i) db'"
          using consumer_row_step[OF d(1,3), of "\<lambda>_. 0" ev] consumer_row_same[of "set_frame f (admitted_frame cache reply r) ?i" ?i] ev
          by simp
        show "hold_of (set_frame f (admitted_frame cache reply r) ?i) =
          (hold_of ?i)(Frame f := (if reply = Answered then HPending fresh else HKept fresh))"
          using rep eff(1) by (cases reply) (auto simp: holding_set_frame admitted_frame_def r hold_of_def)
      qed (use eff in auto)
      then show ?thesis using rep by (simp add: step reply_db_def r)
    qed
  qed
qed

lemma inv_in_step:
  assumes inv: "runtime_inv y" and "iu_store i = iu_store (ry_in y)"
    and "consistent (hold_of i) (iu_tickets i) (active_tickets (instance_name y) (ry_db y)) (ticket_ids (ry_db y))"
    and "consumer_row i (ry_db y)"
  shows "runtime_inv (y\<lparr>ry_in := i\<rparr>)"
  by (rule runtime_invI) (use assms runtime_invD(1)[OF inv] in simp_all)

lemma consumer_live:
  assumes "consistent (hold_of i) (iu_tickets i) A K"
  shows "iu_consumer i = CoRunning c k \<Longrightarrow> k < length (iu_tickets i)" and "iu_consumer i = CoDone c k st text \<Longrightarrow> k < length (iu_tickets i)"
  using consistentD(7,8)[OF assms, of Consumer] by (auto simp: consumer_holding)

text \<open>The names of the objects that are there stay, so what the consumer's row says stays.\<close>

lemma consumer_row_objects:
  assumes ok: "consistent (hold_of j) (iu_tickets j) A K" and row: "consumer_row j db" and same: "iu_consumer i = iu_consumer j"
    and ids: "\<And>k. k < length (iu_tickets j) \<Longrightarrow> wt_id (iu_tickets i ! k) = wt_id (iu_tickets j ! k)"
  shows "consumer_row i db"
  using row same ids consumer_live[OF ok] by (auto simp: consumer_row_def split: consumer_state.splits)

lemma wt_id_close [simp]: "j < length (iu_tickets i) \<Longrightarrow> wt_id (iu_tickets (close_ticket k i) ! j) = wt_id (iu_tickets i ! j)"
  by (cases "k = j") (simp_all add: close_ticket_def)

lemma inv_start: "runtime_inv y \<Longrightarrow> runtime_inv (y\<lparr>ry_in := start_step f (ry_in y)\<rparr>)"
proof -
  assume inv: "runtime_inv y"
  note d = runtime_invD[OF inv]
  let ?i = "ry_in y"
  show ?thesis
  proof (cases "\<exists>t cache s. iu_frames ?i f = Some (FrAdmitted t cache) \<and> iu_scope ?i = Some s")
    case False
    then show ?thesis using inv by (auto simp: start_step_def split: option.split frame.split)
  next
    case True
    then obtain t cache s where fr: "iu_frames ?i f = Some (FrAdmitted t cache)" and sc: "iu_scope ?i = Some s" by blast
    let ?j = "set_frame f (Some (FrOpen (length (iu_tickets ?i)) True cache)) (open_ticket t (rs_epoch s) (track (EnterSpan LtWriters) ?i))"
    have hold: "hold_of ?j = (hold_of ?i)(Frame f := HLive (length (iu_tickets ?i)))"
      unfolding holding_set_frame by (simp add: hold_of_def)
    have objs: "iu_tickets ?j = iu_tickets ?i @ [\<lparr>wt_id = t, wt_epoch = rs_epoch s, wt_active = True, wt_operation = None\<rparr>]"
      by (simp add: open_ticket_def)
    have "runtime_inv (y\<lparr>ry_in := ?j\<rparr>)"
    proof (rule inv_in_step[OF inv])
      show "consistent (hold_of ?j) (iu_tickets ?j) (active_tickets (instance_name y) (ry_db y)) (ticket_ids (ry_db y))"
        unfolding hold objs by (rule consistent_start[OF d(2) frame_holding(1)[OF fr]]) simp_all
      show "consumer_row ?j (ry_db y)"
        by (rule consumer_row_objects[OF d(2,3)]) (unfold objs, simp_all add: nth_append)
    qed simp
    then show ?thesis by (simp add: start_step_def fr sc)
  qed
qed

lemma inv_leave: "runtime_inv y \<Longrightarrow> runtime_inv (y\<lparr>ry_in := leave_step f raised (ry_in y)\<rparr>)"
proof -
  assume inv: "runtime_inv y"
  note d = runtime_invD[OF inv]
  let ?i = "ry_in y"
  show ?thesis
  proof (cases "\<exists>k cache. iu_frames ?i f = Some (FrOpen k True cache)")
    case False
    have "runtime_inv (y\<lparr>ry_in := set_frame f None (track ev ?i)\<rparr>)" if "hold_of ?i (Frame f) = HNone" for ev
      by (rule inv_quiet_frame[OF inv that]) (simp_all add: hold_of_def)
    with False inv show ?thesis
      by (auto simp: leave_step_def Let_def hold_of_def split: option.split frame.split)
  next
    case True
    then obtain k cache where fr: "iu_frames ?i f = Some (FrOpen k True cache)" by blast
    let ?j = "set_frame f (Some (FrLeaving k (leaves_uncertain (iu_tickets ?i ! k) cache raised))) (close_ticket k (track (LeaveSpan LtWriters) ?i))"
    have hold: "hold_of ?j = (hold_of ?i)(Frame f := HEnding k)"
      unfolding holding_set_frame by (simp add: hold_of_def)
    have objs: "iu_tickets ?j = (iu_tickets ?i)[k := (iu_tickets ?i ! k)\<lparr>wt_active := False\<rparr>]"
      by (simp add: close_ticket_def)
    have "runtime_inv (y\<lparr>ry_in := ?j\<rparr>)"
    proof (rule inv_in_step[OF inv])
      show "consistent (hold_of ?j) (iu_tickets ?j) (active_tickets (instance_name y) (ry_db y)) (ticket_ids (ry_db y))"
        unfolding hold objs by (rule consistent_leave[OF d(2) frame_holding(2)[OF fr]]) simp
      show "consumer_row ?j (ry_db y)" by (rule consumer_row_objects[OF d(2,3)]) simp_all
    qed simp
    then show ?thesis by (simp add: leave_step_def fr Let_def)
  qed
qed

text \<open>The end of a ticket: its row is finished with the frame, or nobody knows.\<close>

lemma inv_release:
  assumes inv: "runtime_inv y" and x: "hold_of (ry_in y) x = HEnding k"
    and db: "db' = ry_db y \<or> (\<exists>ev. db' = release_step (\<lambda>_. 0) (ry_db y) ev)"
    and rows: "active_tickets (instance_name y) db' = (if kept then active_tickets (instance_name y) (ry_db y)
       else active_tickets (instance_name y) (ry_db y) - {wt_id (iu_tickets (ry_in y) ! k)})"
    and i: "hold_of i = (hold_of (ry_in y))(x := (if kept then HKept (wt_id (iu_tickets (ry_in y) ! k)) else HNone))"
      "iu_tickets i = iu_tickets (ry_in y)" "iu_store i = iu_store (ry_in y)"
    and row: "consumer_row i db'"
  shows "runtime_inv (y\<lparr>ry_db := db', ry_in := i\<rparr>)"
proof (rule runtime_invI)
  note d = runtime_invD[OF inv]
  show "release_inv (ry_db (y\<lparr>ry_db := db', ry_in := i\<rparr>))" using release_step_inv[OF d(1)] d(1) db by auto
  have "ticket_ids (ry_db y) \<subseteq> ticket_ids db'" using ticket_ids_grow[OF d(1)] db by auto
  then show "consistent (hold_of (ry_in (y\<lparr>ry_db := db', ry_in := i\<rparr>))) (iu_tickets (ry_in (y\<lparr>ry_db := db', ry_in := i\<rparr>)))
    (active_tickets (instance_name (y\<lparr>ry_db := db', ry_in := i\<rparr>)) (ry_db (y\<lparr>ry_db := db', ry_in := i\<rparr>)))
    (ticket_ids (ry_db (y\<lparr>ry_db := db', ry_in := i\<rparr>)))"
    using i rows consistent_end[OF d(2) x] by (cases kept) simp_all
qed (use row in simp)

lemma inv_finish: "runtime_inv y \<Longrightarrow> runtime_inv (finish_step f reply y)"
proof -
  assume inv: "runtime_inv y"
  note d = runtime_invD[OF inv]
  let ?i = "ry_in y"
  show ?thesis
  proof (cases "\<exists>k u. iu_frames ?i f = Some (FrLeaving k u)")
    case False
    then show ?thesis using inv by (auto simp: finish_step_def split: option.split frame.split)
  next
    case True
    then obtain k u where fr: "iu_frames ?i f = Some (FrLeaving k u)" by blast
    define t where "t = wt_id (iu_tickets ?i ! k)"
    define r where "r = runtime_finish_ticket (iu_store ?i) t u (ry_db y)"
    define fr' where "fr' = (if unended reply r then Some (FrUnended t) else None)"
    have step: "finish_step f reply y = y\<lparr>ry_db := reply_db reply r (ry_db y), ry_in := set_frame f fr' ?i\<rparr>"
      by (simp add: finish_step_def fr r_def t_def fr'_def Let_def)
    have settle: "settle_txn (ry_db y) r = release_step (\<lambda>_. 0) (ry_db y) (EvFinishTicket (instance_name y) t u)"
      by (simp add: r_def runtime_finish_ticket_def)
    have t: "t \<in> active_tickets (instance_name y) (ry_db y)"
      using held_active[OF d(2), of "Frame f"] by (simp add: frame_holding(4)[OF fr] t_def)
    show ?thesis
      unfolding step
    proof (rule inv_release[OF inv frame_holding(4)[OF fr], where kept = "unended reply r"])
      show "reply_db reply r (ry_db y) = ry_db y \<or> (\<exists>ev. reply_db reply r (ry_db y) = release_step (\<lambda>_. 0) (ry_db y) ev)"
        using settle unfolding reply_db_def by metis
      show "active_tickets (instance_name y) (reply_db reply r (ry_db y)) = (if unended reply r then active_tickets (instance_name y) (ry_db y)
       else active_tickets (instance_name y) (ry_db y) - {wt_id (iu_tickets ?i ! k)})"
      proof (cases r)
        case (Inl e)
        then show ?thesis by (simp add: reply_db_def unended_def)
      next
        case (Inr p)
        then obtain z db' where "finish_ticket (instance_name y) t u (ry_db y) = Inr (z, db')" "r = Inr (z, db')"
          by (cases p) (auto simp: r_def runtime_finish_ticket_def runtime_call_Inr)
        with finish_effect[of "instance_name y" t u "ry_db y" z db' "instance_name y"] t show ?thesis
          by (simp add: reply_db_def unended_def t_def)
      qed
      show "hold_of (set_frame f fr' ?i) =
        (hold_of ?i)(Frame f := (if unended reply r then HKept (wt_id (iu_tickets ?i ! k)) else HNone))"
        by (simp add: holding_set_frame fr'_def t_def) (simp add: hold_of_def)
      show "consumer_row (set_frame f fr' ?i) (reply_db reply r (ry_db y))"
        using consumer_row_step[OF d(1,3), of "\<lambda>_. 0" "EvFinishTicket (instance_name y) t u"] d(3)
          consumer_row_same[of "set_frame f fr' ?i" ?i]
        unfolding reply_db_def settle by (simp del: release_step.simps)
    qed simp_all
  qed
qed


subsection \<open>Steps of the consumer\<close>

lemma inv_quiet_consumer:
  assumes "runtime_inv y" and "hold_of (ry_in y) Consumer = HNone" and "co = CoIdle \<or> co = CoReady \<or> co = CoStopped None \<or> (\<exists>s. co = CoRead s)"
    and "iu_tickets i = iu_tickets (ry_in y)" "iu_store i = iu_store (ry_in y)" "iu_frames i = iu_frames (ry_in y)"
  shows "runtime_inv (y\<lparr>ry_in := set_consumer co i\<rparr>)"
proof (rule inv_quiet[OF assms(1)])
  show "hold_of (set_consumer co i) = hold_of (ry_in y)"
    using assms(2,3,6) by (intro ext) (auto simp: hold_of_def set_consumer_def split: holder.split)
  show "consumer_row (set_consumer co i) (ry_db y)" using assms(3) by (auto simp: consumer_row_def)
qed (use assms(4,5) in simp_all)

lemma inv_consumer_read: "runtime_inv y \<Longrightarrow> runtime_inv (consumer_read y)"
  by (auto simp: consumer_read_def split: option.split intro!: inv_quiet_consumer) (simp_all add: consumer_holding)

lemma inv_consumer_keep: "runtime_inv y \<Longrightarrow> runtime_inv (y\<lparr>ry_in := consumer_keep exc (ry_in y)\<rparr>)"
  by (auto simp: consumer_keep_def split: consumer_state.split intro!: inv_quiet_consumer) (simp_all add: consumer_holding)

lemma claim_command_row:
  assumes "claim_command inst ep t db = Inr (Some c, db')"
  shows "row_ticket db' c t"
proof -
  from assms obtain c0 db1 where c: "c = claimed_row inst ep t c0" "next_queued db = Some c0"
    and db': "db' = update_command (cm_id c0) (claimed_row inst ep t) db1"
    and a: "admit_writer inst ep t (en_operation (cm_envelope c0)) (Some (cm_id c0)) None db = Inr (Some t, db1)"
    by (auto elim!: claim_done)
  have "c0 \<in> set (rd_commands db1)" using next_queued_Some[OF c(2)] admit_commands[OF a] by simp
  then have "c \<in> set (rd_commands db')" by (force simp: c(1) db' update_command_def)
  moreover have "cm_state c \<noteq> CmQueued" "cm_ticket c = Some t" by (simp_all add: c(1) claimed_row_def)
  ultimately show ?thesis unfolding row_ticket_def by blast
qed

lemma inv_claim_step: "runtime_inv y \<Longrightarrow> runtime_inv (consumer_claim fresh reply y)"
proof -
  assume inv: "runtime_inv y"
  note d = runtime_invD[OF inv]
  let ?i = "ry_in y"
  show ?thesis
  proof (cases "\<exists>s. iu_consumer ?i = CoReady \<and> iu_scope ?i = Some s")
    case False
    then show ?thesis using inv by (auto simp: consumer_claim_def split: consumer_state.split option.split)
  next
    case True
    then obtain s where co: "iu_consumer ?i = CoReady" and sc: "iu_scope ?i = Some s" by blast
    note none = consumer_holding(3)[OF co]
    define r where "r = runtime_claim_next (iu_store ?i) (rs_epoch s) fresh (ry_db y)"
    have step: "consumer_claim fresh reply y =
      y\<lparr>ry_db := reply_db reply r (ry_db y), ry_in := set_consumer (claimed_consumer reply r) ?i\<rparr>"
      by (simp add: consumer_claim_def co sc r_def Let_def)
    have claim: "r = Inr p \<longleftrightarrow> claim_command (instance_name y) (rs_epoch s) fresh (ry_db y) = Inr p" for p
      by (simp add: r_def runtime_claim_next_def runtime_call_Inr)
    show ?thesis
    proof (cases "reply = NotRun \<or> (\<forall>c db'. r \<noteq> Inr (Some c, db'))")
      case True
      then have "claimed_consumer reply r = CoIdle \<or> claimed_consumer reply r = CoStopped None"
        by (auto simp: claimed_consumer_def split: sum.split option.split reply.split)
      then have "runtime_inv (y\<lparr>ry_in := set_consumer (claimed_consumer reply r) ?i\<rparr>)"
        by (intro inv_quiet_consumer[OF inv none]) auto
      moreover have "reply_db reply r (ry_db y) = ry_db y"
      proof (cases "reply = NotRun \<or> (\<exists>e. r = Inl e)")
        case False
        with True obtain db' where "r = Inr (None, db')" by (metis not_None_eq obj_sumE surj_pair)
        with claim have "claim_command (instance_name y) (rs_epoch s) fresh (ry_db y) = Inr (None, db')" by blast
        from claim_effect_none[OF this] \<open>r = Inr (None, db')\<close> show ?thesis by (simp add: reply_db_def)
      qed (auto simp: reply_db_def)
      ultimately show ?thesis by (simp add: step)
    next
      case False
      then obtain c db' where r: "r = Inr (Some c, db')" and rep: "reply \<noteq> NotRun" by blast
      have c: "claim_command (instance_name y) (rs_epoch s) fresh (ry_db y) = Inr (Some c, db')" by (rule claim[THEN iffD1, OF r])
      note eff = claim_effect[OF c]
      have ev: "db' = release_step (\<lambda>_. 0) (ry_db y) (EvClaim (instance_name y) (rs_epoch s) fresh)" by (simp add: c)
      have "runtime_inv (y\<lparr>ry_db := db', ry_in := set_consumer (claimed_consumer reply r) ?i\<rparr>)"
      proof (rule inv_gain[OF inv ev none])
        show "consumer_row (set_consumer (claimed_consumer reply r) ?i) db'"
          using claim_command_row[OF c] eff(1) rep by (cases reply) (auto simp: consumer_row_def claimed_consumer_def r)
        show "hold_of (set_consumer (claimed_consumer reply r) ?i) =
          (hold_of ?i)(Consumer := (if reply = Answered then HPending fresh else HKept fresh))"
          using rep eff(1) by (cases reply) (auto simp: holding_set_consumer claimed_consumer_def r hold_of_def)
      qed (use eff in auto)
      then show ?thesis using rep by (simp add: step reply_db_def r)
    qed
  qed
qed

lemma inv_use: "runtime_inv y \<Longrightarrow> runtime_inv (y\<lparr>ry_in := use_command (ry_in y)\<rparr>)"
proof -
  assume inv: "runtime_inv y"
  note d = runtime_invD[OF inv]
  let ?i = "ry_in y"
  show ?thesis
  proof (cases "\<exists>c t ep. iu_consumer ?i = CoClaimed c \<and> cm_ticket c = Some t \<and> cm_epoch c = Some ep")
    case False
    then show ?thesis using inv by (auto simp: use_command_def split: consumer_state.split option.split)
  next
    case True
    then obtain c t ep where co: "iu_consumer ?i = CoClaimed c" and t: "cm_ticket c = Some t" and ep: "cm_epoch c = Some ep" by blast
    let ?j = "set_consumer (CoRunning c (length (iu_tickets ?i))) (open_ticket t ep (track (EnterSpan LtWriters) ?i))"
    have hold: "hold_of ?j = (hold_of ?i)(Consumer := HLive (length (iu_tickets ?i)))"
      unfolding holding_set_consumer by (simp add: hold_of_def)
    have objs: "iu_tickets ?j = iu_tickets ?i @ [\<lparr>wt_id = t, wt_epoch = ep, wt_active = True, wt_operation = None\<rparr>]"
      by (simp add: open_ticket_def)
    have "runtime_inv (y\<lparr>ry_in := ?j\<rparr>)"
    proof (rule inv_in_step[OF inv])
      show "consistent (hold_of ?j) (iu_tickets ?j) (active_tickets (instance_name y) (ry_db y)) (ticket_ids (ry_db y))"
        unfolding hold objs by (rule consistent_start[OF d(2) consumer_holding(4)[OF co t]]) simp_all
      show "consumer_row ?j (ry_db y)" using d(3) co t by (simp add: consumer_row_def open_ticket_def)
    qed simp
    then show ?thesis by (simp add: use_command_def co t ep)
  qed
qed

lemma inv_executed: "runtime_inv y \<Longrightarrow> runtime_inv (y\<lparr>ry_in := executed_step result (ry_in y)\<rparr>)"
proof -
  assume inv: "runtime_inv y"
  note d = runtime_invD[OF inv]
  let ?i = "ry_in y"
  show ?thesis
  proof (cases "\<exists>c k. iu_consumer ?i = CoRunning c k")
    case False
    then show ?thesis using inv by (auto simp: executed_step_def split: consumer_state.split)
  next
    case True
    then obtain c k where co: "iu_consumer ?i = CoRunning c k" by blast
    have k: "k < length (iu_tickets ?i)" by (rule consumer_live(1)[OF d(2) co])
    have inv': "runtime_inv (y\<lparr>ry_in := set_consumer co' j\<rparr>)"
      if "iu_tickets j = (iu_tickets ?i)[k := (iu_tickets ?i ! k)\<lparr>wt_active := False\<rparr>]" "iu_store j = iu_store ?i" "hold_of j = hold_of ?i"
        and co': "co' = CoStopped (Some (wt_id (iu_tickets ?i ! k))) \<or> (\<exists>st text. co' = CoDone c k st text)" for co' j
    proof (rule inv_in_step[OF inv])
      let ?h = "if co' = CoStopped (Some (wt_id (iu_tickets ?i ! k))) then HKept (wt_id (iu_tickets ?i ! k)) else HEnding k"
      have "hold_of (set_consumer co' j) = (hold_of ?i)(Consumer := ?h)"
        unfolding holding_set_consumer that(3) using co' by (auto simp: hold_of_def)
      then show "consistent (hold_of (set_consumer co' j)) (iu_tickets (set_consumer co' j)) (active_tickets (instance_name y) (ry_db y)) (ticket_ids (ry_db y))"
        using consistent_leave[OF d(2) consumer_holding(5)[OF co], of ?h] that(1) by (simp split: if_splits)
      show "consumer_row (set_consumer co' j) (ry_db y)"
        using d(3) co co' that(1) k by (auto simp: consumer_row_def)
    qed (use that in simp)
    show ?thesis
      using inv' by (auto simp: executed_step_def co close_ticket_def split: option.split)
  qed
qed

lemma row_ticket_found:
  assumes "release_inv db" and "row_ticket db c t"
  shows "\<exists>d. find_command db (cm_id c) = Some d \<and> cm_ticket d = Some t"
proof -
  from assms(2) obtain d where d: "d \<in> set (rd_commands db)" "cm_id d = cm_id c" "cm_ticket d = Some t" by (auto simp: row_ticket_def)
  from find_command_distinct[OF inv_distinct_commands[OF assms(1)] d(1)] d show ?thesis by auto
qed

lemma inv_finish_command_step: "runtime_inv y \<Longrightarrow> runtime_inv (consumer_finish reply y)"
proof -
  assume inv: "runtime_inv y"
  note d = runtime_invD[OF inv]
  let ?i = "ry_in y"
  show ?thesis
  proof (cases "\<exists>c k st res. iu_consumer ?i = CoDone c k st res")
    case False
    then show ?thesis using inv by (auto simp: consumer_finish_def split: consumer_state.split)
  next
    case True
    then obtain c k st res where co: "iu_consumer ?i = CoDone c k st res" by blast
    define t where "t = wt_id (iu_tickets ?i ! k)"
    define r where "r = runtime_finish_command (iu_store ?i) (cm_id c) st res (ry_db y)"
    define j where "j = set_consumer (finished_consumer t st reply r) (track (LeaveSpan LtWriters) ?i)"
    have step: "consumer_finish reply y = y\<lparr>ry_db := reply_db reply r (ry_db y), ry_in := j\<rparr>"
      by (simp add: consumer_finish_def co r_def t_def j_def Let_def)
    have settle: "settle_txn (ry_db y) r = release_step (\<lambda>_. 0) (ry_db y) (EvFinishCommand (instance_name y) (cm_id c) st res)"
      by (simp add: r_def runtime_finish_command_def)
    have t: "t \<in> active_tickets (instance_name y) (ry_db y)"
      using held_active[OF d(2), of Consumer] by (simp add: consumer_holding(6)[OF co] t_def)
    have "row_ticket (ry_db y) c t" using d(3) by (simp add: consumer_row_def co t_def)
    then obtain e where e: "find_command (ry_db y) (cm_id c) = Some e" "cm_ticket e = Some t"
      using row_ticket_found[OF d(1)] by blast
    show ?thesis
      unfolding step
    proof (rule inv_release[OF inv consumer_holding(6)[OF co], where kept = "unended reply r"])
      show "reply_db reply r (ry_db y) = ry_db y \<or> (\<exists>ev. reply_db reply r (ry_db y) = release_step (\<lambda>_. 0) (ry_db y) ev)"
        using settle unfolding reply_db_def by metis
      show "active_tickets (instance_name y) (reply_db reply r (ry_db y)) = (if unended reply r then active_tickets (instance_name y) (ry_db y)
       else active_tickets (instance_name y) (ry_db y) - {wt_id (iu_tickets ?i ! k)})"
      proof (cases r)
        case (Inl x)
        then show ?thesis by (simp add: reply_db_def unended_def)
      next
        case (Inr p)
        then obtain z db' where "finish_command (instance_name y) (cm_id c) st res (ry_db y) = Inr (z, db')" "r = Inr (z, db')"
          by (cases p) (auto simp: r_def runtime_finish_command_def runtime_call_Inr)
        with finish_command_effect[of "instance_name y" "cm_id c" st res "ry_db y" z db' "instance_name y" e t] t e show ?thesis
          by (simp add: reply_db_def unended_def t_def)
      qed
      show "hold_of j = (hold_of ?i)(Consumer := (if unended reply r then HKept (wt_id (iu_tickets ?i ! k)) else HNone))"
        unfolding j_def holding_set_consumer by (simp add: finished_consumer_def t_def) (simp add: hold_of_def)
      show "consumer_row j (reply_db reply r (ry_db y))"
        by (simp add: j_def consumer_row_def finished_consumer_def)
    qed (simp_all add: j_def)
  qed
qed

lemma inv_field:
  assumes "runtime_inv y" and "hold_of i = hold_of (ry_in y)" "iu_store i = iu_store (ry_in y)" "iu_tickets i = iu_tickets (ry_in y)"
    "iu_consumer i = iu_consumer (ry_in y)"
  shows "runtime_inv (y\<lparr>ry_in := i\<rparr>)"
  by (rule inv_quiet[OF assms(1)]) (use assms consumer_row_same[of i "ry_in y"] runtime_invD(3)[OF assms(1)] in simp_all)

lemma inv_others:
  "runtime_inv y \<Longrightarrow> by_others (instance_name y) ev \<Longrightarrow> runtime_inv (y\<lparr>ry_db := release_step bytes (ry_db y) ev\<rparr>)"
  by (rule inv_step_db[OF _ others_keep])

lemma runtime_step_inv: "runtime_inv y \<Longrightarrow> runtime_inv (runtime_step exc bytes y ev)"
  by (cases ev) (auto intro: inv_enter inv_cache inv_read inv_keep inv_admit_step inv_start inv_bind inv_attach_step inv_leave inv_finish
      inv_consumer_read inv_consumer_keep inv_claim_step inv_use inv_executed inv_finish_command_step inv_field inv_others)

interpretation runtime: guarded_component "runtime_step exc bytes" runtime_inv
  by unfold_locales (rule runtime_step_inv)

definition started_system :: "runtime_store \<Rightarrow> slot \<Rightarrow> release_db \<Rightarrow> runtime_system" where
  "started_system rt sl db = \<lparr>ry_db = db, ry_in = new_instance rt sl\<rparr>"

lemma runtime_inv_start:
  assumes "release_inv db" and "active_tickets (rn_instance rt) db = {}"
  shows "runtime_inv (started_system rt sl db)"
proof (rule runtime_invI)
  let ?y = "started_system rt sl db"
  have "hold_of (new_instance rt sl) = (\<lambda>x. HNone)"
    by (rule ext) (simp add: hold_of_def new_instance_def split: holder.split)
  then show "consistent (hold_of (ry_in ?y)) (iu_tickets (ry_in ?y)) (active_tickets (instance_name ?y) (ry_db ?y)) (ticket_ids (ry_db ?y))"
    using assms(2) by (simp add: started_system_def consistent_def new_instance_def ids_of_def)
qed (use assms(1) in \<open>simp_all add: started_system_def consumer_row_def new_instance_def\<close>)

lemma step_store:
  "iu_store (enter_step f ctx kind m dt i) = iu_store i" "iu_store (cache_step f ctx i) = iu_store i"
  "iu_store (ry_in (read_step f y)) = iu_store (ry_in y)" "iu_store (keep_step exc f i) = iu_store i"
  "iu_store (ry_in (admit_step f t reply y)) = iu_store (ry_in y)" "iu_store (start_step f i) = iu_store i"
  "iu_store (ry_in (attach_step k reply y)) = iu_store (ry_in y)" "iu_store (leave_step f raised i) = iu_store i"
  "iu_store (ry_in (finish_step f reply y)) = iu_store (ry_in y)" "iu_store (ry_in (consumer_read y)) = iu_store (ry_in y)"
  "iu_store (consumer_keep exc i) = iu_store i" "iu_store (ry_in (consumer_claim t reply y)) = iu_store (ry_in y)"
  "iu_store (use_command i) = iu_store i" "iu_store (executed_step result i) = iu_store i"
  "iu_store (ry_in (consumer_finish reply y)) = iu_store (ry_in y)"
  by (simp_all add: enter_step_def cache_step_def read_step_def keep_step_def admit_step_def start_step_def attach_step_def
      leave_step_def finish_step_def consumer_read_def consumer_keep_def consumer_claim_def use_command_def executed_step_def
      consumer_finish_def Let_def split: option.split frame.split consumer_state.split sum.split entry.split prod.split)

lemma run_store: "iu_store (ry_in (run (runtime_step exc bytes) y evs)) = iu_store (ry_in y)"
proof (induction evs arbitrary: y)
  case (Cons ev evs)
  have "iu_store (ry_in (runtime_step exc bytes y ev)) = iu_store (ry_in y)"
    by (cases ev) (simp_all add: step_store)
  with Cons show ?case by simp
qed simp

definition runtime_run ::
    "(release_scope \<Rightarrow> bool) option \<Rightarrow> (envelope \<Rightarrow> int) \<Rightarrow> runtime_store \<Rightarrow> slot \<Rightarrow> release_event list \<Rightarrow> runtime_event list \<Rightarrow>
     runtime_system" where
  "runtime_run exc bytes rt sl es evs =
     run (runtime_step exc bytes) (started_system rt sl (run (release_step bytes) empty_release_db es)) evs"

lemma runtime_reachable:
  assumes "active_tickets (rn_instance rt) (run (release_step bytes) empty_release_db es) = {}"
  shows "runtime_inv (runtime_run exc bytes rt sl es evs)" and "iu_store (ry_in (runtime_run exc bytes rt sl es evs)) = rt"
proof -
  have "runtime_inv (started_system rt sl (run (release_step bytes) empty_release_db es))"
    using assms(1) reachable_inv by (intro runtime_inv_start) auto
  then show "runtime_inv (runtime_run exc bytes rt sl es evs)" unfolding runtime_run_def by (rule runtime.run_inv)
  show "iu_store (ry_in (runtime_run exc bytes rt sl es evs)) = rt"
    unfolding runtime_run_def run_store by (simp add: started_system_def new_instance_def)
qed

lemma find_row: "distinct (map f xs) \<Longrightarrow> x \<in> set xs \<Longrightarrow> f x = a \<Longrightarrow> find (\<lambda>y. f y = a) xs = Some x"
  by (induction xs) auto

lemma ticket_not_drained:
  assumes "r \<in> set (rd_tickets db)" and "unfinished_ticket r"
  shows "drained db \<noteq> Inr u"
proof
  assume "drained db = Inr u"
  then obtain e where "collect_drain_evidence db = Inr e" "evidence_empty e"
    by (auto simp: drained_def bind_result_Inr require_empty_Inr)
  with assms show False
    by (auto simp: collect_drain_evidence_def Let_def evidence_empty_def count_rows_0 list_ex_iff split: option.splits if_splits)
qed

lemma active_row:
  assumes inv: "release_inv db" and "t \<in> active_tickets inst db"
  obtains s r where "rd_scope db = Some s" "r \<in> set (rd_tickets db)" "tk_id r = t" "tk_instance r = inst" "tk_epoch r = rs_epoch s"
    "tk_slot r = rs_active s" "ticket_live db inst t" "drained db \<noteq> Inr ()"
proof -
  obtain r where r: "r \<in> set (rd_tickets db)" "tk_id r = t" "tk_instance r = inst" "tk_state r = TkActive"
    using assms(2) by (auto simp: actives_iff own_active_def)
  obtain s where s: "rd_scope db = Some s" using no_scope_no_tickets[OF inv r(1)] by blast
  have ts: "tickets_inv s (rd_instances db) (rd_tickets db)" using inv s by (simp add: release_inv_Some)
  have un: "unfinished_ticket r" using r(4) by (simp add: unfinished_ticket_def)
  with ts r(1) obtain i where ok: "tk_epoch r = rs_epoch s" "tk_slot r = rs_active s"
    and i: "i \<in> set (rd_instances db)" "ins_id i = inst" "\<not> ins_closed i"
    using r(3) by (auto simp: tickets_inv_def ticket_ok_def)
  have "find_ticket db t = Some r" "find_instance db inst = Some i"
    unfolding find_ticket_def find_instance_def using ts r(1,2) i(1,2) find_row[of tk_id "rd_tickets db" r t] find_row[of ins_id "rd_instances db" i inst]
    by (auto simp: tickets_inv_def)
  then have "ticket_live db inst t" using s r ok(1) i(3) by (simp add: ticket_live_def)
  then show ?thesis using that[OF s r(1,2,3) ok] ticket_not_drained[OF r(1) un] by blast
qed


subsection \<open>What holds of a running instance\<close>


definition demo_store :: runtime_store where
  "demo_store = \<lparr>rn_scope = [1], rn_instance = [66]\<rparr>"

definition demo_task :: "nat option \<Rightarrow> task_context" where
  "demo_task k = \<lparr>tc_ticket = k, tc_record = None\<rparr>"

definition demo_operation :: "runtime_event list" where
  "demo_operation = [RtEnter 0 (demo_task None) (lit ''pipeline'') False False, RtRead 0, RtKeep 0, RtAdmit 0 5 Answered, RtStart 0,
     RtBind (demo_task (Some 0)) 6]"

abbreviation demo_system :: "runtime_event list \<Rightarrow> runtime_system" where
  "demo_system evs \<equiv> runtime_run None (\<lambda>_. 1) demo_store Blue demo_enrolled evs"


text \<open>
  C13: Every unfinished ticket of an instance whose outcome is not uncertain belongs to exactly one
  of its running operations, to the command that its consumer executes, or to one whose end the
  database did not confirm, and each of these has its ticket: none is lost while the instance runs,
  none is finished twice, and an idle instance leaves a drain nothing to wait for.
\<close>

theorem runtime_tickets_accounted:
  fixes exc sl evs
  assumes "active_tickets (rn_instance rt) (run (release_step bytes) empty_release_db es) = {}"
  defines "y \<equiv> runtime_run exc bytes rt sl es evs"
  shows "(\<exists>!x. held_id (iu_tickets (ry_in y)) (hold_of (ry_in y) x) = Some t) \<longleftrightarrow> t \<in> active_tickets (rn_instance rt) (ry_db y)"
proof -
  have inv: "runtime_inv y" and st: "iu_store (ry_in y) = rt" unfolding y_def using runtime_reachable[OF assms(1)] by simp_all
  note c = consistentD(1,2)[OF runtime_invD(2)[OF inv]]
  show ?thesis using c(1)[of t] c(2) st by metis
qed

lemma runtime_tickets_accounted_witness:
  "\<exists>!x. held_id (iu_tickets (ry_in (demo_system demo_operation))) (hold_of (ry_in (demo_system demo_operation)) x) = Some 5"
proof -
  have "active_tickets (rn_instance demo_store) (release_run demo_enrolled) = {}" by code_simp
  moreover have "5 \<in> active_tickets (rn_instance demo_store) (ry_db (demo_system demo_operation))" by code_simp
  ultimately show ?thesis using runtime_tickets_accounted by blast
qed

text \<open>
  C14: Once a clean-up is allowed for an upload session, no command that names the session is
  queued, executing or of unknown outcome, then or ever after: the commands that name it are those
  that had succeeded or failed before, unchanged. So the objects of a session are never deleted
  under a command that was accepted for it, in any order of the instances' transactions.
\<close>

theorem release_sources_exclusive:
  assumes "source_claim i ctx upload_id (run (release_step bytes) empty_release_db es) = Inr (True, db)"
    and "c \<in> set (rd_commands (run (release_step bytes) db later))"
    and "session_ref upload_id \<in> set (en_refs (cm_envelope c))"
  shows "cm_state c \<in> {CmSucceeded, CmFailed} \<and> c \<in> set (rd_commands (run (release_step bytes) empty_release_db es))"
proof -
  let ?db = "run (release_step bytes) empty_release_db es"
  obtain v :: writer_ticket where v: "claim_source_cleanup (rn_instance (iu_store i)) (wt_id v) (session_ref upload_id) ?db = Inr (True, db)"
    using assms(1) by (auto simp: source_claim_def runtime_call_Inr split: option.splits)
  let ?ev = "EvClaimCleanup (rn_instance (iu_store i)) (wt_id v) (session_ref upload_id)"
  have db: "db = run (release_step bytes) empty_release_db (es @ [?ev])" using v by simp
  have "\<exists>u \<in> set (rd_cleanup db). cu_ref u = session_ref upload_id" and cs: "rd_commands db = rd_commands ?db"
    using v by (auto simp: claim_source_cleanup_def split: if_splits)
  then obtain u where u: "u \<in> set (rd_cleanup db)" "cu_ref u = session_ref upload_id" by blast
  from source_commands_finished[of u bytes "es @ [?ev]" c later] u assms(2,3) cs show ?thesis unfolding db by simp
qed

definition demo_source_done :: "release_event list" where
  "demo_source_done = demo_enrolled @ [EvEnqueue [66] 20 (demo_envelope\<lparr>en_refs := [session_ref [83]]\<rparr>), EvClaim [66] 1 30,
     EvFinishCommand [66] 20 CmSucceeded [], EvAdmit [66] 1 31 [] None None]"

definition demo_source_again :: "release_event list" where
  "demo_source_again = [EvEnqueue [66] 21 (demo_envelope\<lparr>en_key := [76], en_refs := [session_ref [83]]\<rparr>)]"

definition demo_cleaner :: instance_state where
  "demo_cleaner = open_ticket 31 1 (new_instance demo_store Blue)"

lemma release_sources_exclusive_witness:
  "\<exists>db c. source_claim demo_cleaner (demo_task (Some 0)) [83] (release_run demo_source_done) = Inr (True, db) \<and>
     rd_commands (run (release_step (\<lambda>_. 1)) db demo_source_again) = [c] \<and> cm_state c \<in> {CmSucceeded, CmFailed}"
proof -
  have "(case source_claim demo_cleaner (demo_task (Some 0)) [83] (release_run demo_source_done) of Inl _ \<Rightarrow> False
    | Inr (b, db) \<Rightarrow> b \<and> map (\<lambda>c. en_refs (cm_envelope c)) (rd_commands (run (release_step (\<lambda>_. 1)) db demo_source_again)) = [[session_ref [83]]])"
    by code_simp
  then obtain db c where db: "source_claim demo_cleaner (demo_task (Some 0)) [83] (release_run demo_source_done) = Inr (True, db)"
    and c: "rd_commands (run (release_step (\<lambda>_. 1)) db demo_source_again) = [c]" "en_refs (cm_envelope c) = [session_ref [83]]"
    by (auto split: sum.splits)
  from release_sources_exclusive[OF db, of c demo_source_again] c db show ?thesis by simp
qed

text \<open>The other way round: a session that an unfinished command holds is not cleaned.\<close>

theorem held_session_kept:
  assumes "d \<in> set (rd_commands db)" and "unfinished_command d" and "cm_envelope d = cm_envelope c"
    and "tc_record ctx = Some c" and "accepted_before_expiry i ctx upload_id expires"
  shows "source_claim j ctx' upload_id db \<noteq> Inr (True, db')"
proof -
  have "session_ref upload_id \<in> set (en_refs (cm_envelope d))" using assms(3-5) by (simp add: accepted_before_expiry_def)
  with assms(1,2) show ?thesis
    by (auto simp: source_claim_def runtime_call_Inr claim_source_cleanup_def list_ex_iff split: option.splits if_splits)
qed

text \<open>
  \<open>close_instance\<close> waits for the counts and then demands that the database knows of no
  unfinished ticket; but an operation gives its count back before its ticket is finished. So the
  wait can end with a ticket still there, and closing a healthy instance fails with a conflict.
\<close>

definition demo_closing :: runtime_system where
  "demo_closing = demo_system (demo_operation @ [RtRetire, RtLeave 0 False])"

theorem runtime_drain_early:
  "drain_ready (iu_lifecycle (ry_in demo_closing)) = Inr True"
  "runtime_call (assert_instance_quiescent [66] (li_counts (iu_lifecycle (ry_in demo_closing)))) (ry_db demo_closing) = Inl RelConflict"
proof -
  show "drain_ready (iu_lifecycle (ry_in demo_closing)) = Inr True" by code_simp
  have "\<not> quiescent (ry_db demo_closing) [66] (li_counts (iu_lifecycle (ry_in demo_closing)))" by code_simp
  then show "runtime_call (assert_instance_quiescent [66] (li_counts (iu_lifecycle (ry_in demo_closing)))) (ry_db demo_closing) = Inl RelConflict"
    by (simp add: runtime_call_def assert_instance_quiescent_def state_error_def)
qed

end
