(* ===== verification/Spec2Isabelle.thy ===== *)
theory Spec2Isabelle
  imports Prelude PyText PyStrings Namespaces ScanJobStore PipelineIngress LoginLimiter Coordinator CoordinatorProperties
    PipelineControl PipelineRetry QueryAccounting TokenChunker TokenLimits TiktokenLimits SourceIds RecursiveProperties
    UploadProperties ReleaseProgress ReleaseExecutor RuntimeProperties
begin

text \<open>
  This development models the parts of LightRAG whose correctness rests on their own logic rather
  than on a database, a model service or the event loop: the stores and protocols that coordinate
  document processing, the gates in front of the API and the model providers, and the text
  algorithms that cut documents into chunks and keep their provenance. Paths are relative to
  \<^verbatim>\<open>src/\<close>.

  \<^bold>\<open>How the parts work together.\<close> Documents are put into the pipeline by the API. In one process, or
  in several that share a manager, the ingress (\<open>PipelineIngress\<close>) carries their ids and the retry
  requests to the processing loop, and scans report through the scan-job store
  (\<open>ScanJobStore\<close>). In a deployment of several processes the coordinator (\<open>Coordinator\<close>) keeps
  tickets, locks, claims and mutation records in PostgreSQL; pause and manual retries are intent
  kept beside them (\<open>PipelineControl\<close>), and the maintenance that serves a retry runs under an
  exclusive ticket (\<open>PipelineRetry\<close>). A release moves the writing of a scope from one deployment
  slot to the other: the operator's transactions and those of the instances share the release
  tables, a transfer asks the coordinator's tables for proof that nothing is left to drain, and the
  gate they keep is the one that writers of the pipeline must pass (\<open>ReleaseState\<close> and the theories
  after it). Documents may arrive through presigned uploads, whose sessions are kept in a key-value
  store (\<open>UploadSessions\<close>). A document is cut into chunks by token windows (\<open>TokenChunker\<close>), along
  separators (\<open>RecursiveChunker\<close>) or by the budget splitter of the tokenizer classes
  (\<open>TokenLimits\<close>, \<open>TiktokenLimits\<close>); the ids of the chunks are the provenance of entities and relations
  (\<open>SourceIds\<close>). A query polls chunks from its entities, truncates what it renders to a token
  budget, and may be metered by a usage authority (\<open>QueryAccounting\<close>). Logins pass the rate limiter
  (\<open>LoginLimiter\<close>).

  \<^bold>\<open>Theories.\<close>

  \<^item> \<open>Prelude\<close>: dictionaries as association lists in insertion order, \<open>run\<close> of a step function,
    and the interfaces \<open>guarded_component\<close> (every operation keeps an invariant) and
    \<open>monotone_component\<close> (and only goes up in an order), which the components interpret.
  \<^item> \<open>PyText\<close>, \<open>PyStrings\<close>: text as code points, UTF-8 with replacement and with ignored
    errors, slices, strip, find, split and join with their laws.
  \<^item> \<open>Namespaces\<close>: the per-workspace registries of the manager hubs.
  \<^item> \<open>ScanJobStore\<close>: \<^verbatim>\<open>lightrag/kg/scan_job_store.py\<close>. The store is a record of its bounds and
    jobs, a job a record; one function per operation, which takes the clock reading. Lemmas: sizes
    after clipping, the order of eviction, leases, and preservation of the bounds.
  \<^item> \<open>PipelineIngress\<close>: \<^verbatim>\<open>lightrag/kg/pipeline_ingress.py\<close>. The mailbox and the asyncio ingress are
    two records with the same operations; the locale \<open>ingress_backend\<close> states what the loop relies
    on and is interpreted on both, and an abstraction of states relates them.
  \<^item> \<open>LoginLimiter\<close>: \<^verbatim>\<open>lightrag/api/login_rate_limit.py\<close> and the two halves of the login handler
    of \<^verbatim>\<open>lightrag/api/lightrag_server.py\<close>. The table is an association list, since its order is
    the order of eviction; attempts interleave as begin and finish events.
  \<^item> \<open>Coordinator\<close>, \<open>CoordinatorProperties\<close>: \<^verbatim>\<open>lightrag/distributed/coordinator.py\<close> on the tables
    of one scope of \<^verbatim>\<open>lightrag/distributed/migrations/v001.py\<close>. A transaction is a function of a
    \<open>link\<close>, which says whether the connection is lost before or after the commit; a system of
    processes runs any operations in any order. The invariant \<open>coord_ok\<close> is split by table.
  \<^item> \<open>PipelineControl\<close>: \<^verbatim>\<open>lightrag/distributed/control.py\<close> and \<^verbatim>\<open>v002.py\<close>. Every operation is the
    guard of \<open>_transaction\<close> on the coordinator's tables and one statement on the control tables;
    the lemma \<open>control_step_eq\<close> says that a step writes all of its statement or nothing.
  \<^item> \<open>PipelineRetry\<close>: \<open>reset_requests\<close> of \<^verbatim>\<open>lightrag/distributed/pipeline.py\<close> as events that any
    crash may separate, against a document store that others write too.
  \<^item> \<open>QueryAccounting\<close>: \<^verbatim>\<open>lightrag/query_accounting.py\<close>. A call is a task with a state per await;
    the invariant \<open>numbers\<close> accounts for every reservation number.
  \<^item> \<open>ReleaseState\<close>: identities, approvals and tables of \<^verbatim>\<open>lightrag/distributed/release\<close> and
    the drain evidence, which is computed from these tables and the coordinator's.
  \<^item> \<open>ReleaseStore\<close>: the operator's transactions of \<^verbatim>\<open>store.py\<close>; \<open>ReleaseAdmission\<close>: the functions of
    \<^verbatim>\<open>001_release.sql\<close> and their callers in \<^verbatim>\<open>admission.py\<close>; \<open>ReleaseSystem\<close>: both as events of
    one scope, which any operators and instances issue in any order.
  \<^item> \<open>ReleaseInvariant\<close>, \<open>ReleaseQueue\<close>, \<open>ReleaseForward\<close>: one lemma for each event, first about the
    invariant \<open>release_inv\<close>, then about the queue of commands, then about the order \<open>release_le\<close>.
    \<open>ReleaseProperties\<close>, \<open>ReleaseOutcomes\<close>: refinement of the phase machine, one writing slot,
    fenced transfers, commands claimed once; abort, rollback, idempotency keys, error reports.
  \<^item> \<open>ReleaseOrchestrator\<close>, \<open>ReleaseProgress\<close>: \<^verbatim>\<open>orchestrator.py\<close> over an arbitrary transport.
    \<open>wait_for_drain\<close> and \<open>run_release\<close> may run for ever, so \<open>None\<close> is a run without end; the lemmas
    show when they return, and that a release left in any phase by a crash is carried to its end.
  \<^item> \<open>ReleaseExecutor\<close>: encoding and execution of a command, a round of the consumer and the
    lifetimes of an instance (\<^verbatim>\<open>commands.py\<close>, \<^verbatim>\<open>executor.py\<close>, \<^verbatim>\<open>lifecycle.py\<close>).
  \<^item> \<open>ReleaseSources\<close>: the clean-up of a source and the commands that name it exclude each other.
  \<^item> \<open>ReleaseRuntime\<close>: \<^verbatim>\<open>runtime.py\<close>, the ticket objects of a process and who holds them: operations,
    cache fills and the consumer of commands, one step per await, with transactions that may fail or
    lose their answers. \<open>RuntimeProperties\<close>: one lemma for each step about \<open>consistent\<close>, which relates
    holders, objects and rows; a task with a ticket is the writer, no ticket is lost, and a clean-up
    of an upload never meets a command that was accepted for it.
  \<^item> \<open>UploadSessions\<close>: \<^verbatim>\<open>lightrag/object_storage/sessions.py\<close>, with the reads and writes of a session
    record in the PostgreSQL and the JSON backend. \<open>UploadRecords\<close>: the locale \<open>session_store\<close>,
    interpreted on the store in memory and the store over PostgreSQL. \<open>UploadProperties\<close>: the
    invariant of interleaved calls, the order of calls that are not interrupted, two races.
  \<^item> \<open>TokenChunker\<close>: \<^verbatim>\<open>lightrag/chunker/token_size.py\<close>, with errors as values.
  \<^item> \<open>RecursiveChunker\<close>: \<^verbatim>\<open>lightrag/chunker/recursive_character.py\<close>. A fragment carries its
    offsets; an index out of range is \<open>None\<close>. \<open>RecursiveSpans\<close>: fragments tile the text, the merge
    loop accounts for its total, spans are exact and cover the text. \<open>RecursiveProperties\<close>: the rows,
    the recursion that the loop over separators stands for, the bounds of the separators.
  \<^item> \<open>TokenLimits\<close>, \<open>TiktokenLimits\<close>: \<open>Tokenizer\<close>, \<open>TiktokenTokenizer\<close> and
    \<open>truncate_list_by_token_size\<close> of \<^verbatim>\<open>lightrag/utils.py\<close>. The search is proved for every tokenizer
    by a bracket invariant, and its loops terminate by measures.
  \<^item> \<open>SourceIds\<close>: merging, limiting and updating source ids, relation keys and weighted polling of
    \<^verbatim>\<open>lightrag/utils.py\<close>.

  \<^bold>\<open>Arguments.\<close> Clock readings, fresh identifiers, hashes and what the network or a caller does are
  arguments of the operations or part of the events. The tokenizer's \<open>encode\<close> and \<open>decode\<close>, the
  offsets of the tiktoken library, the splitter object of LangChain, and the size of a serialized payload are arguments of which nothing
  is assumed unless a hypothesis says so. Floating point estimates of the splitter are arguments as
  well, so the results hold for any rounding; clock times are reals, and counters are integers, since
  Python's do not overflow.

  \<^bold>\<open>Fuel.\<close> Only the outer loop of the tiktoken split takes fuel, because nothing in the code bounds it
  for offsets that go back; for aligned offsets one more than the number of tokens is proved to be
  enough. All other loops are total functions.

  \<^bold>\<open>Atomicity.\<close> A method without an await is one step; a transaction of the coordinator is one step,
  because it locks the workspace row first; a method with awaits is one step for each stretch between
  them.

  \<^bold>\<open>Not modelled.\<close> The storage backends but for the session records, the model bindings and the HTTP
  routes, which are thin layers over external systems; the orchestration of
  \<^verbatim>\<open>lightrag/lightrag.py\<close>, \<^verbatim>\<open>lightrag/operate.py\<close> and \<^verbatim>\<open>lightrag/pipeline.py\<close>, which is
  asynchronous calls of those; the semantic chunkers, which rest on embeddings or on parsed tables;
  of the release control the submission of SDK calls and the order of a close of \<^verbatim>\<open>runtime.py\<close>, the
  streams of \<^verbatim>\<open>query.py\<close>, the transport, delivery and readiness, which talk to the cluster;
  thread pools and logging; the transport pool of the query accounting; the read-only scan report of the pipeline control; the interpolation of the
  expected counts in the weighted polling, which is an argument.
\<close>

end
